(* ===== verification/Prelude.thy ===== *)
theory Prelude
  imports Main "HOL-Library.Word" "HOL-Library.Code_Target_Nat"
begin

text \<open>
  Shared vocabulary of the development.

  Integers. The Rust sources use \<open>u8\<close>, \<open>u16\<close>, \<open>u32\<close>, \<open>u64\<close> and \<open>usize\<close>.
  A \<open>u8\<close> is an \<open>8 word\<close>; the wider unsigned types are natural numbers, and every
  operation that can leave the range of the type is written out with the width:
  \<open>checked_add\<close> is \<open>None\<close> at \<open>2 ^ 64\<close>, \<open>saturating_add\<close> stops at \<open>2 ^ 64 - 1\<close>,
  \<open>saturating_sub\<close> is the truncated subtraction of the natural numbers. The range of a
  value that crosses an interface is stated by \<open>fits w n\<close>. The target is 64 bit, so
  \<open>usize\<close> and \<open>u64\<close> have the same range and \<open>usize::try_from\<close> never fails.

  Errors. A Rust \<open>Result\<close> is a value of a sum type, \<open>Inl\<close> for the error; a method
  that mutates its receiver returns the result together with the new state, also when the
  result is an error, so that what an error path has already changed stays visible.

  The second half of the theory holds the lemmas on lists and on big-endian bytes that
  several components share.
\<close>

section \<open>Integers\<close>

type_synonym byte = "8 word"
type_synonym u8 = "8 word"
type_synonym u16 = nat
type_synonym u32 = nat
type_synonym u64 = nat
type_synonym usize = nat

named_theorems arith64 \<open>definitions of the 64 bit arithmetic of the sources\<close>

definition fits :: "nat \<Rightarrow> nat \<Rightarrow> bool" where
  "fits w n \<longleftrightarrow> n < 2 ^ w"

definition u64_max :: nat where
  [arith64]: "u64_max = 18446744073709551615"

definition checked_add :: "nat \<Rightarrow> nat \<Rightarrow> nat option" where
  [arith64]: "checked_add a b = (if a + b \<le> u64_max then Some (a + b) else None)"

definition saturating_add :: "nat \<Rightarrow> nat \<Rightarrow> nat" where
  [arith64]: "saturating_add a b = min (a + b) u64_max"

definition saturating_mul :: "nat \<Rightarrow> nat \<Rightarrow> nat" where
  [arith64]: "saturating_mul a b = min (a * b) u64_max"

definition saturating_sub :: "nat \<Rightarrow> nat \<Rightarrow> nat" where
  [simp]: "saturating_sub a b = a - b"

lemma fits_64_iff: "fits 64 n \<longleftrightarrow> n \<le> u64_max"
  by (auto simp: fits_def u64_max_def)

lemma fits_0 [simp]: "fits w 0"
  by (simp add: fits_def)

lemma checked_add_Some_iff: "checked_add a b = Some c \<longleftrightarrow> c = a + b \<and> a + b \<le> u64_max"
  by (auto simp: checked_add_def)

lemma checked_add_None_iff: "checked_add a b = None \<longleftrightarrow> u64_max < a + b"
  by (auto simp: checked_add_def)

lemma saturating_add_exact [simp]: "a + b \<le> u64_max \<Longrightarrow> saturating_add a b = a + b"
  by (simp add: saturating_add_def)

fun checked_sum :: "usize \<Rightarrow> nat list \<Rightarrow> usize option" where
  "checked_sum acc [] = Some acc"
| "checked_sum acc (n # ns) =
     (case checked_add acc n of None \<Rightarrow> None | Some t \<Rightarrow> checked_sum t ns)"

lemma checked_sum_Some: "a + sum_list ns \<le> u64_max \<Longrightarrow> checked_sum a ns = Some (a + sum_list ns)"
  by (induction ns arbitrary: a) (auto simp: checked_add_def)

lemma checked_sum_SomeD: "checked_sum a ns = Some b \<Longrightarrow> b = a + sum_list ns"
  by (induction ns arbitrary: a) (fastforce simp: checked_add_def split: option.splits if_splits)+

lemma saturating_add_le: "saturating_add a b \<le> a + b"
  by (simp add: saturating_add_def)

lemma saturating_add_le_max [simp]: "saturating_add a b \<le> u64_max"
  by (simp add: saturating_add_def)

lemma saturating_add_zero [simp]: "a \<le> u64_max \<Longrightarrow> saturating_add a 0 = a"
  by simp

section \<open>Big-endian bytes\<close>

text \<open>\<open>uN::to_be_bytes\<close> and \<open>uN::from_be_bytes\<close> for \<open>N = 8 * k\<close>.\<close>

fun be_bytes :: "nat \<Rightarrow> nat \<Rightarrow> byte list" where
  "be_bytes 0 n = []"
| "be_bytes (Suc k) n = be_bytes k (n div 256) @ [of_nat n]"

fun be_acc :: "nat \<Rightarrow> byte list \<Rightarrow> nat" where
  "be_acc a [] = a"
| "be_acc a (b # bs) = be_acc (a * 256 + unat b) bs"

definition be_nat :: "byte list \<Rightarrow> nat" where
  "be_nat bs = be_acc 0 bs"

lemma length_be_bytes [simp]: "length (be_bytes k n) = k"
  by (induction k arbitrary: n) auto

lemma be_acc_append: "be_acc a (xs @ ys) = be_acc (be_acc a xs) ys"
  by (induction xs arbitrary: a) auto

lemma unat_byte_less [simp]: "unat (b :: byte) < 256"
  using unsigned_less [of b, where ?'a = nat] by simp

lemma unat_of_nat_byte: "unat (of_nat n :: byte) = n mod 256"
  by (simp add: unat_of_nat)

lemma be_nat_be_bytes: "n < 256 ^ k \<Longrightarrow> be_nat (be_bytes k n) = n"
proof (induction k arbitrary: n)
  case 0
  then show ?case by (simp add: be_nat_def)
next
  case (Suc k)
  then have "n div 256 < 256 ^ k"
    by (simp add: less_mult_imp_div_less mult.commute)
  then have "be_acc 0 (be_bytes k (n div 256)) = n div 256"
    using Suc.IH by (simp add: be_nat_def)
  then show ?case
    by (simp add: be_nat_def be_acc_append unat_of_nat_byte)
qed

lemma be_nat_snoc: "be_nat (bs @ [b]) = be_nat bs * 256 + unat b"
  by (simp add: be_nat_def be_acc_append)

lemma be_nat_less: "be_nat bs < 256 ^ length bs"
proof (induction bs rule: rev_induct)
  case Nil
  then show ?case by (simp add: be_nat_def)
next
  case (snoc b bs)
  define c :: nat where "c = 256 ^ length bs"
  have "be_nat bs < c" using snoc by (simp add: c_def)
  moreover have "unat b < 256" by simp
  ultimately have "be_nat bs * 256 + unat b < c * 256" by linarith
  then show ?case by (simp add: be_nat_snoc c_def)
qed

lemma be_bytes_be_nat: "be_bytes (length bs) (be_nat bs) = bs"
proof (induction bs rule: rev_induct)
  case Nil
  then show ?case by simp
next
  case (snoc b bs)
  have "(be_nat bs * 256 + unat b) div 256 = be_nat bs"
    by (simp add: div_less)
  moreover have "(of_nat (be_nat bs * 256 + unat b) :: byte) = b"
    by (rule word_unat_eq_iff [THEN iffD2]) (simp only: unat_of_nat_byte, simp)
  ultimately show ?case
    using snoc.IH by (simp add: be_nat_snoc)
qed

section \<open>Lists\<close>

text \<open>The bytes of a stream from offset \<open>a\<close> up to, not including, \<open>b\<close>.\<close>

definition seg :: "(nat \<Rightarrow> 'a) \<Rightarrow> nat \<Rightarrow> nat \<Rightarrow> 'a list" where
  "seg f a b = map f [a..<b]"

lemma length_seg [simp]: "length (seg f a b) = b - a"
  by (simp add: seg_def)

lemma seg_empty [simp]: "b \<le> a \<Longrightarrow> seg f a b = []"
  by (simp add: seg_def)

lemma seg_append: "a \<le> b \<Longrightarrow> b \<le> c \<Longrightarrow> seg f a b @ seg f b c = seg f a c"
  by (metis seg_def map_append le_add_diff_inverse upt_add_eq_append)

lemma drop_seg: "drop k (seg f a b) = seg f (a + k) b"
  by (simp add: seg_def drop_map)

lemma take_seg: "take k (seg f a b) = seg f a (min b (a + k))"
proof (cases "a + k \<le> b")
  case True
  then show ?thesis by (simp add: seg_def take_map min_def)
next
  case False
  then show ?thesis by (simp add: min_def)
qed

lemma seg_cong: "(\<And>i. a \<le> i \<Longrightarrow> i < b \<Longrightarrow> f i = g i) \<Longrightarrow> seg f a b = seg g a b"
  by (simp add: seg_def)

text \<open>\<open>Bytes::slice(a..b)\<close> for \<open>a \<le> b \<le> len\<close>.\<close>

definition bslice :: "nat \<Rightarrow> nat \<Rightarrow> 'a list \<Rightarrow> 'a list" where
  "bslice a b xs = take (b - a) (drop a xs)"

lemma length_bslice [simp]: "length (bslice a b xs) = min (b - a) (length xs - a)"
  by (simp add: bslice_def)

lemma bslice_seg: "l + b \<le> u \<Longrightarrow> bslice a b (seg f l u) = seg f (l + a) (l + b)"
  by (cases "a \<le> b") (auto simp: bslice_def drop_seg take_seg min_def)

lemma bslice_all [simp]: "bslice 0 (length xs) xs = xs"
  by (simp add: bslice_def)

text \<open>\<open>slice::partition_point\<close> counts the prefix that satisfies the predicate; on a slice
  partitioned by it (all uses here) binary search and linear search agree.\<close>

definition partition_point :: "('a \<Rightarrow> bool) \<Rightarrow> 'a list \<Rightarrow> nat" where
  "partition_point P xs = length (takeWhile P xs)"

lemma drop_partition_point: "drop (partition_point P xs) xs = dropWhile P xs"
  by (simp add: partition_point_def dropWhile_eq_drop)

lemma sum_list_filter_split:
  fixes f :: "'a \<Rightarrow> nat"
  shows "sum_list (map f xs) = sum_list (map f (filter P xs)) + sum_list (map f (filter (\<lambda>x. \<not> P x) xs))"
  by (induction xs) auto

end
