(* ===== verification/Wire_Types.thy ===== *)
theory Wire_Types
  imports Prelude
begin

text \<open>
  The product-wire values of \<open>src/src/protocol/types.rs\<close>: identifiers, enumerations, the
  path metrics, offset ranges and the frame type. Newtypes over an integer are the integer;
  fixed-size byte arrays are byte lists, a \<open>String\<close> is the list of its UTF-8 bytes.
  The ranges that the Rust types of the fields impose (field widths, array lengths, well-formed
  UTF-8) are the predicate \<open>frame_typed\<close> of the theory \<open>Codec_Frame_Laws\<close>; it is what a model over
  natural numbers and lists has to carry where Rust has the type checker.
\<close>

section \<open>Identifiers and enumerations\<close>

type_synonym session_id = u64
type_synonym path_id = u16
type_synonym configured_member_slot = u16
type_synonym stream_id = u64
type_synonym datagram_flow_id = u64
type_synonym datagram_id = u64
type_synonym ip_tunnel_id = u64
type_synonym ip_packet_id = u64
type_synonym auth_nonce = "byte list"
type_synonym auth_tag = "byte list"
type_synonym rust_string = "byte list"
type_synonym bytes = "byte list"

datatype underlay_protocol = Tcp | Udp

datatype path_metric_direction = ClientToServer | ServerToClient

datatype ip_addr = IpV4 "byte list" | IpV6 "byte list"

datatype socket_addr =
    SockV4 "byte list" u16
  | SockV6 "byte list" u16 u32 u32

datatype target_addr = Domain rust_string u16 | Ip socket_addr

fun sock_port :: "socket_addr \<Rightarrow> u16" where
  "sock_port (SockV4 ip port) = port"
| "sock_port (SockV6 ip port flowinfo scope_id) = port"

fun target_port :: "target_addr \<Rightarrow> u16" where
  "target_port (Domain host port) = port"
| "target_port (Ip addr) = sock_port addr"

datatype stream_demand_hint = DemandLatency | DemandThroughput | DemandRealtime

datatype path_usage = Available | Backup

datatype stream_attachment_phase = PhaseCreate | PhaseStartup | PhaseOrdinary

record stream_return_plan =
  trigger_bytes :: u64
  candidate_total :: u8
  candidate_tier :: path_usage
  phase :: stream_attachment_phase
  candidate_ordinal :: u8

definition default_stream_return_plan :: stream_return_plan where
  "default_stream_return_plan =
     \<lparr>trigger_bytes = 0, candidate_total = 1, candidate_tier = Available,
      phase = PhaseCreate, candidate_ordinal = 0\<rparr>"

definition PATH_METRICS_MAX_RATE_VALID_FOR_US :: u64 where
  "PATH_METRICS_MAX_RATE_VALID_FOR_US = 64424584425"

definition PATH_METRIC_APPROXIMATE_MASK :: u8 where
  "PATH_METRIC_APPROXIMATE_MASK =
     or (push_bit 0 1) (or (push_bit 1 1) (or (push_bit 2 1) (push_bit 3 1)))"

record path_metrics =
  pm_path_id :: path_id
  pm_underlay :: underlay_protocol
  pm_direction :: path_metric_direction
  pm_metric_epoch :: u64
  pm_metric_age_us :: u32
  pm_rate_valid_for_us :: u64
  pm_rate_observed :: bool
  pm_srtt_us :: u32
  pm_rttvar_us :: u32
  pm_jitter_us :: u32
  pm_delivery_rate_bps :: u64
  pm_pacing_rate_bps :: u64
  pm_pacing_rate_observed :: bool
  pm_loss_ppm :: u32
  pm_ecn_ppm :: u32
  pm_loss_observed :: bool
  pm_ecn_observed :: bool
  pm_bytes_in_flight_observed :: bool
  pm_queue_observed :: bool
  pm_bytes_in_flight :: u64
  pm_queue_bytes :: u64
  pm_inflight_limit_bytes :: u64
  pm_inflight_hi_bytes :: u64
  pm_confidence_ppm :: u32
  pm_app_limited :: bool
  pm_has_ack_derived_data_sample :: bool
  pm_data_sample_count :: u32
  pm_data_sample_bytes :: u64
  pm_approximate_metrics :: u8

datatype peer_status_code = PeerOk | PeerDisabled | PeerUnavailable

datatype peer_path_state = PeerActive | PeerSuspect | PeerDraining | PeerFailed

record native_delivery_snapshot =
  nd_epoch :: u64
  nd_sampled_at_us :: u64
  nd_acked_bytes :: u64
  nd_direction :: path_metric_direction

record peer_path_status =
  pp_state :: peer_path_state
  pp_usage :: path_usage
  pp_metrics :: path_metrics
  pp_native_delivery :: "native_delivery_snapshot option"

datatype close_reason = CloseNormal | CloseProtocolError | CloseAuthenticationFailed | ClosePolicyRejected

datatype reset_reason = ResetRefused | ResetTimedOut | ResetRemoteClosed | ResetPolicyRejected

section \<open>Offset ranges\<close>

record offset_range =
  range_start :: u64
  range_end :: u64

definition OffsetRange_new :: "u64 \<Rightarrow> u64 \<Rightarrow> offset_range option" where
  "OffsetRange_new s e = (if s < e then Some \<lparr>range_start = s, range_end = e\<rparr> else None)"

definition range_len :: "offset_range \<Rightarrow> u64" where
  "range_len r = saturating_sub (range_end r) (range_start r)"

definition range_is_empty :: "offset_range \<Rightarrow> bool" where
  "range_is_empty r \<longleftrightarrow> range_start r \<ge> range_end r"

section \<open>Frames\<close>

datatype frame =
    SessionHello session_id
  | SessionAuth session_id rust_string auth_nonce u64 auth_tag
  | SessionReady
  | SessionClose close_reason
  | PathJoin session_id rust_string path_id configured_member_slot underlay_protocol auth_nonce u64 auth_tag
  | PathStatus path_id u64 path_usage
  | PathDrain path_id
  | PathClose path_id close_reason
  | PathProofData path_id u64 bytes
  | PathProofAck path_id u64 u32
  | PathCapacityData path_id u64 bytes
  | PathCapacityFinish path_id u64 u64
  | PathCapacityReceipt path_id u64 u64
  | OpenStream stream_id target_addr stream_demand_hint stream_return_plan
  | OpenStreamRepair stream_id u64
  | StreamReturnPlanFinal stream_id "u8 list"
  | StreamData stream_id u64 bytes
  | StreamAck stream_id "u64 option" "offset_range list"
  | StreamRequalifyData stream_id u64 u64 bytes
  | StreamRequalifyAck stream_id u64 u64 u32
  | StreamMaxData stream_id u64
  | StreamFeedbackProbe stream_id u64 u64
  | StreamFeedbackReceipt stream_id u64
  | StreamFin stream_id u64
  | StreamDetach stream_id
  | StreamReset stream_id reset_reason
  | OpenDatagramFlow datagram_flow_id target_addr
  | DatagramData datagram_flow_id datagram_id u32 bytes
  | DatagramClose datagram_flow_id
  | DatagramFeedback datagram_flow_id "offset_range list"
  | PathMetrics path_metrics
  | PeerStatusRequest u64
  | PeerStatusResponse u64 peer_status_code "peer_path_status list"
  | OpenIpTunnel ip_tunnel_id
  | IpTunnelReady ip_tunnel_id u16 "ip_addr list"
  | IpPacket ip_tunnel_id ip_packet_id bytes
  | IpTunnelClose ip_tunnel_id close_reason
  | Ping u64
  | Pong u64

fun is_path_capacity :: "frame \<Rightarrow> bool" where
  "is_path_capacity (PathCapacityData _ _ _) = True"
| "is_path_capacity (PathCapacityFinish _ _ _) = True"
| "is_path_capacity (PathCapacityReceipt _ _ _) = True"
| "is_path_capacity _ = False"

fun kind_name :: "frame \<Rightarrow> string" where
  "kind_name (SessionHello _) = ''SESSION_HELLO''"
| "kind_name (SessionAuth _ _ _ _ _) = ''SESSION_AUTH''"
| "kind_name SessionReady = ''SESSION_READY''"
| "kind_name (SessionClose _) = ''SESSION_CLOSE''"
| "kind_name (PathJoin _ _ _ _ _ _ _ _) = ''PATH_JOIN''"
| "kind_name (PathStatus _ _ _) = ''PATH_STATUS''"
| "kind_name (PathDrain _) = ''PATH_DRAIN''"
| "kind_name (PathClose _ _) = ''PATH_CLOSE''"
| "kind_name (PathProofData _ _ _) = ''PATH_PROOF_DATA''"
| "kind_name (PathProofAck _ _ _) = ''PATH_PROOF_ACK''"
| "kind_name (PathCapacityData _ _ _) = ''PATH_CAPACITY_DATA''"
| "kind_name (PathCapacityFinish _ _ _) = ''PATH_CAPACITY_FINISH''"
| "kind_name (PathCapacityReceipt _ _ _) = ''PATH_CAPACITY_RECEIPT''"
| "kind_name (OpenStream _ _ _ _) = ''OPEN_STREAM''"
| "kind_name (OpenStreamRepair _ _) = ''OPEN_STREAM_REPAIR''"
| "kind_name (StreamReturnPlanFinal _ _) = ''STREAM_RETURN_PLAN_FINAL''"
| "kind_name (StreamData _ _ _) = ''STREAM_DATA''"
| "kind_name (StreamAck _ _ _) = ''STREAM_ACK''"
| "kind_name (StreamRequalifyData _ _ _ _) = ''STREAM_REQUALIFY_DATA''"
| "kind_name (StreamRequalifyAck _ _ _ _) = ''STREAM_REQUALIFY_ACK''"
| "kind_name (StreamMaxData _ _) = ''STREAM_MAX_DATA''"
| "kind_name (StreamFeedbackProbe _ _ _) = ''STREAM_FEEDBACK_PROBE''"
| "kind_name (StreamFeedbackReceipt _ _) = ''STREAM_FEEDBACK_RECEIPT''"
| "kind_name (StreamFin _ _) = ''STREAM_FIN''"
| "kind_name (StreamDetach _) = ''STREAM_DETACH''"
| "kind_name (StreamReset _ _) = ''STREAM_RESET''"
| "kind_name (OpenDatagramFlow _ _) = ''OPEN_DGRAM_FLOW''"
| "kind_name (DatagramData _ _ _ _) = ''DGRAM_DATA''"
| "kind_name (DatagramClose _) = ''DGRAM_CLOSE''"
| "kind_name (DatagramFeedback _ _) = ''DGRAM_FEEDBACK''"
| "kind_name (PathMetrics _) = ''PATH_METRICS''"
| "kind_name (PeerStatusRequest _) = ''PEER_STATUS_REQUEST''"
| "kind_name (PeerStatusResponse _ _ _) = ''PEER_STATUS_RESPONSE''"
| "kind_name (OpenIpTunnel _) = ''OPEN_IP_TUNNEL''"
| "kind_name (IpTunnelReady _ _ _) = ''IP_TUNNEL_READY''"
| "kind_name (IpPacket _ _ _) = ''IP_PACKET''"
| "kind_name (IpTunnelClose _ _) = ''IP_TUNNEL_CLOSE''"
| "kind_name (Ping _) = ''PING''"
| "kind_name (Pong _) = ''PONG''"

end
