(* ===== verification/Offset_Ranges.thy ===== *)
theory Offset_Ranges
  imports Wire_Types "HOL-Library.Product_Lexorder"
begin

text \<open>
  Offset-range algebra and byte accounting: \<open>src/src/protocol/frame.rs\<close> and the interval
  functions of \<open>src/src/model/work.rs\<close> (\<open>split_flight_interval_by_ack\<close>,
  \<open>flight_evidence_segments\<close>). A list of ranges denotes a set of stream offsets
  (\<open>ranges_set\<close>); a list is normalized (\<open>ranges_norm\<close>) when its ranges are non-empty,
  ascending and separated by at least one offset. The loops that walk a second list with an
  index are modelled with the suffix of the list from that index on.
\<close>

section \<open>Ranges as sets of offsets\<close>

definition range_set :: "offset_range \<Rightarrow> nat set" where
  "range_set r = {range_start r..<range_end r}"

definition ranges_set :: "offset_range list \<Rightarrow> nat set" where
  "ranges_set rs = (\<Union>r \<in> set rs. range_set r)"

definition ranges_norm :: "offset_range list \<Rightarrow> bool" where
  "ranges_norm rs \<longleftrightarrow>
     (\<forall>r \<in> set rs. range_start r < range_end r) \<and> sorted_wrt (\<lambda>a b. range_end a < range_start b) rs"

lemma ranges_set_simps [simp]:
  "ranges_set [] = {}"
  "ranges_set (r # rs) = range_set r \<union> ranges_set rs"
  "ranges_set (xs @ ys) = ranges_set xs \<union> ranges_set ys"
  by (auto simp: ranges_set_def)

lemma range_set_mk [simp]: "range_set \<lparr>range_start = a, range_end = b\<rparr> = {a..<b}"
  by (simp add: range_set_def)

lemma ranges_norm_Nil [simp]: "ranges_norm []"
  by (simp add: ranges_norm_def)

lemma ranges_norm_Cons:
  "ranges_norm (r # rs) \<longleftrightarrow>
     range_start r < range_end r \<and> (\<forall>x \<in> set rs. range_end r < range_start x) \<and> ranges_norm rs"
  by (auto simp: ranges_norm_def)

lemma ranges_norm_append:
  "ranges_norm (xs @ ys) \<longleftrightarrow>
     ranges_norm xs \<and> ranges_norm ys \<and> (\<forall>x \<in> set xs. \<forall>y \<in> set ys. range_end x < range_start y)"
  by (auto simp: ranges_norm_def sorted_wrt_append)

lemma ranges_set_lower: "(\<And>r. r \<in> set rs \<Longrightarrow> a \<le> range_start r) \<Longrightarrow> x \<in> ranges_set rs \<Longrightarrow> a \<le> x"
  by (fastforce simp: ranges_set_def range_set_def)

lemma ranges_norm_min:
  assumes "ranges_norm (r # rs)"
  shows "(LEAST x. x \<in> ranges_set (r # rs)) = range_start r"
proof (rule Least_equality)
  show "range_start r \<in> ranges_set (r # rs)"
    using assms by (simp add: ranges_norm_Cons range_set_def)
next
  fix y assume y: "y \<in> ranges_set (r # rs)"
  show "range_start r \<le> y"
    by (rule ranges_set_lower [OF _ y]) (use assms in \<open>auto simp: ranges_norm_Cons\<close>)
qed

lemma ranges_norm_gap: "ranges_norm (r # rs) \<Longrightarrow> range_end r \<notin> ranges_set (r # rs)"
  by (auto simp: ranges_norm_Cons ranges_set_def range_set_def)

text \<open>The normalized representation of a set of offsets is unique.\<close>

lemma ranges_norm_end_le:
  assumes "ranges_norm (r # rs)" and "ranges_norm (q # qs)"
    and "ranges_set (r # rs) = ranges_set (q # qs)" and "range_start r = range_start q"
  shows "range_end q \<le> range_end r"
proof (rule ccontr)
  assume "\<not> range_end q \<le> range_end r"
  then have "range_end r \<in> range_set q"
    using assms by (auto simp: range_set_def ranges_norm_Cons)
  then have "range_end r \<in> ranges_set (r # rs)" using assms(3) by simp
  with ranges_norm_gap [OF assms(1)] show False by simp
qed

lemma ranges_norm_unique:
  "ranges_norm rs \<Longrightarrow> ranges_norm qs \<Longrightarrow> ranges_set rs = ranges_set qs \<Longrightarrow> rs = qs"
proof (induction rs arbitrary: qs)
  case Nil
  then show ?case by (cases qs) (auto simp: ranges_norm_Cons range_set_def)
next
  case (Cons r rs)
  then obtain q qs' where qs: "qs = q # qs'"
    by (cases qs) (auto simp: ranges_norm_Cons range_set_def)
  have start: "range_start r = range_start q"
    using Cons.prems ranges_norm_min by (metis qs)
  have "range_end r = range_end q"
    using ranges_norm_end_le [of r rs q qs'] ranges_norm_end_le [of q qs' r rs] Cons.prems start qs
    by (simp add: le_antisym)
  with start have rq: "r = q" by simp
  have "range_set r \<inter> ranges_set rs = {}" "range_set q \<inter> ranges_set qs' = {}"
    using Cons.prems qs by (fastforce simp: ranges_norm_Cons ranges_set_def range_set_def)+
  then have "ranges_set rs = ranges_set qs'"
    using Cons.prems(3) qs rq by auto
  with Cons rq qs show ?case by (simp add: ranges_norm_Cons)
qed

section \<open>Normalization\<close>

definition merge_step :: "offset_range list \<Rightarrow> offset_range \<Rightarrow> offset_range list" where
  "merge_step merged r =
     (if range_start r \<ge> range_end r then merged
      else if merged \<noteq> [] \<and> range_end (last merged) \<ge> range_start r
      then butlast merged @ [(last merged)\<lparr>range_end := max (range_end (last merged)) (range_end r)\<rparr>]
      else merged @ [r])"

definition normalize_offset_ranges :: "offset_range list \<Rightarrow> offset_range list" where
  "normalize_offset_ranges ranges =
     foldl merge_step [] (sort_key (\<lambda>r. (range_start r, range_end r)) ranges)"

lemma merge_step_inv:
  assumes "ranges_norm m" and "\<forall>x \<in> set m. range_start x \<le> range_start r"
  shows "ranges_norm (merge_step m r) \<and> ranges_set (merge_step m r) = ranges_set m \<union> range_set r
    \<and> (\<forall>x \<in> set (merge_step m r). range_start x \<le> range_start r)"
proof (cases m rule: rev_cases)
  case Nil
  then show ?thesis by (auto simp: merge_step_def ranges_norm_Cons range_set_def)
next
  case (snoc m' l)
  consider (empty) "range_start r \<ge> range_end r"
    | (merge) "range_start r < range_end r" "range_start r \<le> range_end l"
    | (push) "range_start r < range_end r" "range_end l < range_start r"
    by linarith
  then show ?thesis
  proof cases
    case empty
    then show ?thesis using assms by (auto simp: merge_step_def range_set_def)
  next
    case merge
    then have "range_set (l\<lparr>range_end := max (range_end l) (range_end r)\<rparr>) = range_set l \<union> range_set r"
      using assms snoc by (auto simp: range_set_def)
    with merge show ?thesis
      using assms snoc by (auto simp: merge_step_def ranges_norm_append ranges_norm_Cons)
  next
    case push
    with assms snoc show ?thesis
      by (auto simp: merge_step_def ranges_norm_append ranges_norm_Cons)
  qed
qed

lemma foldl_merge_step:
  assumes "ranges_norm m" and "sorted (map range_start rs)"
    and "\<forall>x \<in> set m. \<forall>r \<in> set rs. range_start x \<le> range_start r"
  shows "ranges_norm (foldl merge_step m rs) \<and> ranges_set (foldl merge_step m rs) = ranges_set m \<union> ranges_set rs"
  using assms
proof (induction rs arbitrary: m)
  case Nil
  then show ?case by simp
next
  case (Cons r rs)
  have step: "ranges_norm (merge_step m r)" "ranges_set (merge_step m r) = ranges_set m \<union> range_set r"
    "\<forall>x \<in> set (merge_step m r). range_start x \<le> range_start r"
    using merge_step_inv [of m r] Cons.prems by auto
  with Cons.prems have "\<forall>x \<in> set (merge_step m r). \<forall>q \<in> set rs. range_start x \<le> range_start q"
    using order_trans by fastforce
  with Cons.IH [of "merge_step m r"] Cons.prems step show ?case by auto
qed

lemma sorted_key_start:
  "sorted (map (\<lambda>r. (range_start r, range_end r)) rs) \<Longrightarrow> sorted (map range_start rs)"
  by (induction rs) (auto simp: less_eq_prod_def)

lemma normalize_offset_ranges_spec:
  "ranges_norm (normalize_offset_ranges rs)" "ranges_set (normalize_offset_ranges rs) = ranges_set rs"
proof -
  let ?s = "sort_key (\<lambda>r. (range_start r, range_end r)) rs"
  have "sorted (map range_start ?s)" by (rule sorted_key_start) simp
  then have "ranges_norm (foldl merge_step [] ?s) \<and> ranges_set (foldl merge_step [] ?s) = ranges_set [] \<union> ranges_set ?s"
    by (intro foldl_merge_step) auto
  moreover have "ranges_set ?s = ranges_set rs" by (simp add: ranges_set_def)
  ultimately show "ranges_norm (normalize_offset_ranges rs)"
    "ranges_set (normalize_offset_ranges rs) = ranges_set rs"
    by (simp_all add: normalize_offset_ranges_def)
qed

lemma normalize_id: "ranges_norm rs \<Longrightarrow> normalize_offset_ranges rs = rs"
  by (intro ranges_norm_unique) (simp_all add: normalize_offset_ranges_spec)

section \<open>Subtraction\<close>

fun opt_list :: "'a option \<Rightarrow> 'a list" where
  "opt_list None = []"
| "opt_list (Some x) = [x]"

text \<open>The inner \<open>while\<close> loop: the pieces pushed, the cursor and the suffix of \<open>covered\<close> it
  stops at.\<close>

fun not_covered_inner ::
  "u64 \<Rightarrow> u64 \<Rightarrow> offset_range list \<Rightarrow> offset_range list \<times> u64 \<times> offset_range list" where
  "not_covered_inner e cursor [] = ([], cursor, [])"
| "not_covered_inner e cursor (known # ks) =
     (if range_start known < e then
        let missing = (if range_start known > cursor
                       then opt_list (OffsetRange_new cursor (min (range_start known) e)) else []);
            cursor' = min (max cursor (range_end known)) e
        in if cursor' \<ge> e then (missing, cursor', known # ks)
           else let (more, c, rest) = not_covered_inner e cursor' ks in (missing @ more, c, rest)
      else ([], cursor, known # ks))"

fun offset_ranges_not_covered :: "offset_range list \<Rightarrow> offset_range list \<Rightarrow> offset_range list" where
  "offset_ranges_not_covered [] covered = []"
| "offset_ranges_not_covered (r # rs) covered =
     (let (missing, cursor, rest) =
            not_covered_inner (range_end r) (range_start r)
              (dropWhile (\<lambda>k. range_end k \<le> range_start r) covered)
      in missing
         @ (if cursor < range_end r then opt_list (OffsetRange_new cursor (range_end r)) else [])
         @ offset_ranges_not_covered rs rest)"

text \<open>What one pass over \<open>covered\<close> establishes for one range: the pieces are the missing
  offsets up to the cursor, in normalized form, and what has been skipped ends at or before
  the end of the range.\<close>

lemma not_covered_inner_spec:
  assumes "not_covered_inner e cursor ks = (missing, c, rest)"
    and "ranges_norm ks" and "cursor < e" and "\<forall>k \<in> set ks. cursor < range_end k"
  shows "cursor \<le> c \<and> c \<le> e
    \<and> ranges_set missing = {cursor..<c} - ranges_set ks
    \<and> ranges_set ks \<inter> {c..<e} = {}
    \<and> ranges_norm missing \<and> (\<forall>m \<in> set missing. cursor \<le> range_start m \<and> range_end m < c)
    \<and> (\<exists>used. ks = used @ rest \<and> (\<forall>k \<in> set used. range_end k \<le> e))"
  using assms
proof (induction e cursor ks arbitrary: missing c rest rule: not_covered_inner.induct)
  case (1 e cursor)
  then show ?case by auto
next
  case (2 e cursor known ks)
  note prems = "2.prems"
  let ?m = "if range_start known > cursor
            then opt_list (OffsetRange_new cursor (min (range_start known) e)) else []"
  let ?c = "min (max cursor (range_end known)) e"
  have kn: "range_start known < range_end known" "\<forall>x \<in> set ks. range_end known < range_start x" "ranges_norm ks"
    using prems(2) by (auto simp: ranges_norm_Cons)
  show ?case
  proof (cases "range_start known < e")
    case False
    then have [simp]: "missing = []" "c = cursor" "rest = known # ks" using prems by auto
    have "ranges_set (known # ks) \<inter> {cursor..<e} = {}"
      using False kn by (fastforce simp: ranges_set_def range_set_def)
    then show ?thesis using prems by auto
  next
    case True
    have m: "ranges_set ?m = {cursor..<range_start known}" "ranges_norm ?m"
      "\<forall>x \<in> set ?m. x = \<lparr>range_start = cursor, range_end = range_start known\<rparr> \<and> cursor < range_start known"
      using True prems(3) by (auto simp: OffsetRange_new_def ranges_norm_Cons min_def)
    show ?thesis
    proof (cases "?c \<ge> e")
      case stop: True
      with True prems have [simp]: "missing = ?m" "c = e" "rest = known # ks" by (auto simp: Let_def)
      have ge: "e \<le> range_end known" using stop prems(3) by auto
      then have "{cursor..<e} - ranges_set (known # ks) = {cursor..<range_start known}"
        using kn True by (fastforce simp: ranges_set_def range_set_def)
      then show ?thesis using m prems True ge by (auto simp: ranges_norm_Cons)
    next
      case go: False
      then have c': "?c = range_end known" "range_end known < e"
        using prems(4) by auto
      obtain more where rec: "not_covered_inner e (range_end known) ks = (more, c, rest)"
        and miss: "missing = ?m @ more"
        using prems(1) True go c' by (auto simp: Let_def split: prod.splits)
      have nxt: "\<forall>k \<in> set ks. range_end known < range_end k"
        using kn by (fastforce simp: ranges_norm_def)
      have IH: "range_end known \<le> c \<and> c \<le> e
        \<and> ranges_set more = {range_end known..<c} - ranges_set ks
        \<and> ranges_set ks \<inter> {c..<e} = {}
        \<and> ranges_norm more
        \<and> (\<forall>m \<in> set more. range_end known \<le> range_start m \<and> range_end m < c)
        \<and> (\<exists>used. ks = used @ rest \<and> (\<forall>k \<in> set used. range_end k \<le> e))"
      proof -
        have "not_covered_inner e ?c ks = (more, c, rest)" "?c < e" "\<forall>k \<in> set ks. ?c < range_end k"
          using rec c' nxt by simp_all
        from "2.IH" [OF True refl refl go this(1) kn(3) this(2,3)] show ?thesis
          unfolding c'(1) .
      qed
      then obtain used where used: "ks = used @ rest" "\<forall>k \<in> set used. range_end k \<le> e" by blast
      have low: "ranges_set ks \<inter> {..range_end known} = {}"
        using kn by (fastforce simp: ranges_set_def range_set_def)
      have "ranges_set missing = {cursor..<c} - ranges_set (known # ks)"
        using m IH miss kn low prems(4) by (auto simp: range_set_def)
      moreover have "ranges_set (known # ks) \<inter> {c..<e} = {}"
        using IH by (auto simp: range_set_def)
      moreover have "ranges_norm missing"
        unfolding miss ranges_norm_append using m IH kn by fastforce
      moreover have "\<forall>x \<in> set missing. cursor \<le> range_start x \<and> range_end x < c"
        using m IH kn prems(4) unfolding miss by fastforce
      moreover have "known # ks = (known # used) @ rest" "\<forall>k \<in> set (known # used). range_end k \<le> e"
        using used c' by auto
      moreover have "cursor \<le> c" using IH prems(4) by auto
      ultimately show ?thesis using IH by blast
    qed
  qed
qed

text \<open>One iteration of the outer loop.\<close>

lemma not_covered_one:
  assumes "ranges_norm cov" and "range_start r < range_end r"
    and "not_covered_inner (range_end r) (range_start r)
           (dropWhile (\<lambda>k. range_end k \<le> range_start r) cov) = (missing, c, rest)"
  defines "out \<equiv> missing @ (if c < range_end r then opt_list (OffsetRange_new c (range_end r)) else [])"
  shows "ranges_set out = range_set r - ranges_set cov" and "ranges_norm out"
    and "\<forall>m \<in> set out. range_start r \<le> range_start m \<and> range_end m \<le> range_end r"
    and "\<exists>used. cov = used @ rest \<and> (\<forall>k \<in> set used. range_end k \<le> range_end r)"
proof -
  let ?P = "\<lambda>k. range_end k \<le> range_start r"
  let ?ks = "dropWhile ?P cov"
  have cov: "takeWhile ?P cov @ ?ks = cov" by simp
  have norm: "ranges_norm ?ks"
    using assms(1) cov ranges_norm_append by metis
  have above: "\<forall>k \<in> set ?ks. range_start r < range_end k"
  proof (cases ?ks)
    case (Cons k ks)
    then have "\<not> ?P k" by (metis dropWhile_eq_Cons_conv)
    with norm Cons show ?thesis by (fastforce simp: ranges_norm_Cons ranges_norm_def)
  next
    case Nil
    show ?thesis unfolding Nil by simp
  qed
  have low: "ranges_set (takeWhile ?P cov) \<inter> range_set r = {}"
    by (auto simp: ranges_set_def range_set_def dest!: set_takeWhileD)
  have "ranges_set cov = ranges_set (takeWhile ?P cov) \<union> ranges_set ?ks"
    using cov ranges_set_simps(3) by metis
  then have same: "range_set r - ranges_set cov = range_set r - ranges_set ?ks"
    using low by blast
  note spec = not_covered_inner_spec [OF assms(3) norm assms(2) above]
  from spec obtain used where used: "?ks = used @ rest" "\<forall>k \<in> set used. range_end k \<le> range_end r"
    by blast
  have "range_set r - ranges_set ?ks = ranges_set missing \<union> {c..<range_end r}"
    using spec by (auto simp: range_set_def)
  then show "ranges_set out = range_set r - ranges_set cov"
    unfolding same out_def using spec by (auto simp: OffsetRange_new_def)
  show "ranges_norm out"
    unfolding out_def ranges_norm_append using spec by (auto simp: OffsetRange_new_def ranges_norm_Cons)
  show "\<forall>m \<in> set out. range_start r \<le> range_start m \<and> range_end m \<le> range_end r"
    unfolding out_def using spec by (auto simp: OffsetRange_new_def)
  have "cov = (takeWhile ?P cov @ used) @ rest" using cov used by simp
  moreover have "\<forall>k \<in> set (takeWhile ?P cov @ used). range_end k \<le> range_end r"
    using used assms(2) by (auto dest!: set_takeWhileD)
  ultimately show "\<exists>used. cov = used @ rest \<and> (\<forall>k \<in> set used. range_end k \<le> range_end r)"
    by blast
qed

lemma offset_ranges_not_covered_spec:
  assumes "ranges_norm rs" and "ranges_norm cov"
  shows "ranges_set (offset_ranges_not_covered rs cov) = ranges_set rs - ranges_set cov
    \<and> ranges_norm (offset_ranges_not_covered rs cov)
    \<and> (\<forall>m \<in> set (offset_ranges_not_covered rs cov).
          \<exists>r \<in> set rs. range_start r \<le> range_start m \<and> range_end m \<le> range_end r)"
  using assms
proof (induction rs arbitrary: cov)
  case Nil
  then show ?case by simp
next
  case (Cons r rs)
  obtain missing c rest where inner:
    "not_covered_inner (range_end r) (range_start r) (dropWhile (\<lambda>k. range_end k \<le> range_start r) cov)
       = (missing, c, rest)"
    by (metis prod_cases3)
  let ?out = "missing @ (if c < range_end r then opt_list (OffsetRange_new c (range_end r)) else [])"
  have r: "range_start r < range_end r" "\<forall>x \<in> set rs. range_end r < range_start x" "ranges_norm rs"
    using Cons.prems by (auto simp: ranges_norm_Cons)
  note one = not_covered_one [OF Cons.prems(2) r(1) inner]
  from one(4) obtain used where used: "cov = used @ rest" "\<forall>k \<in> set used. range_end k \<le> range_end r"
    by blast
  then have "ranges_norm rest" using Cons.prems(2) by (simp add: ranges_norm_append)
  note IH = Cons.IH [OF r(3) this]
  have "ranges_set rs \<inter> ranges_set used = {}"
    using r used by (fastforce simp: ranges_set_def range_set_def)
  then have "ranges_set rs - ranges_set cov = ranges_set rs - ranges_set rest"
    using used by auto
  then have set: "ranges_set (?out @ offset_ranges_not_covered rs rest) = ranges_set (r # rs) - ranges_set cov"
    using one(1) IH by auto
  have norm: "ranges_norm (?out @ offset_ranges_not_covered rs rest)"
    unfolding ranges_norm_append [of ?out]
  proof (intro conjI one(2) ballI)
    show "ranges_norm (offset_ranges_not_covered rs rest)" using IH by blast
    fix x y assume x: "x \<in> set ?out" and y: "y \<in> set (offset_ranges_not_covered rs rest)"
    from IH y obtain q where "q \<in> set rs" "range_start q \<le> range_start y" by blast
    with x one(3) r(2) show "range_end x < range_start y" by fastforce
  qed
  have eq: "offset_ranges_not_covered (r # rs) cov = ?out @ offset_ranges_not_covered rs rest"
    by (simp add: inner)
  have "\<forall>m \<in> set (?out @ offset_ranges_not_covered rs rest).
          \<exists>q \<in> set (r # rs). range_start q \<le> range_start m \<and> range_end m \<le> range_end q"
    using one(3) IH by (metis Un_iff list.set_intros(1) list.set_intros(2) set_append)
  with set norm show ?case unfolding eq by blast
qed

section \<open>Frame extents and accounting\<close>

definition datagram_feedback_range :: "datagram_id \<Rightarrow> offset_range option" where
  "datagram_feedback_range i =
     (case checked_add i 1 of None \<Rightarrow> None | Some e \<Rightarrow> OffsetRange_new i e)"

fun reliable_stream_frame_extent :: "frame \<Rightarrow> (u64 \<times> u64 \<times> usize) option" where
  "reliable_stream_frame_extent (StreamData _ offset payload) =
     (if length payload = 0 then None
      else Some (offset, saturating_add offset (length payload), length payload))"
| "reliable_stream_frame_extent _ = None"

definition reliable_stream_frame_accounted_bytes :: "frame \<Rightarrow> usize" where
  "reliable_stream_frame_accounted_bytes f =
     (case f of
        StreamData _ _ payload \<Rightarrow> if payload \<noteq> [] then length payload else 1
      | StreamRequalifyData _ _ _ payload \<Rightarrow> if payload \<noteq> [] then length payload else 1
      | _ \<Rightarrow> 1)"

definition reliable_path_frame_pacing_bytes :: "frame \<Rightarrow> usize" where
  "reliable_path_frame_pacing_bytes f =
     (case f of
        StreamData _ _ payload \<Rightarrow> max (length payload) 1
      | StreamRequalifyData _ _ _ payload \<Rightarrow> max (length payload) 1
      | PathCapacityData _ _ payload \<Rightarrow> max (length payload) 1
      | IpPacket _ _ payload \<Rightarrow> max (length payload) 1
      | StreamFin _ _ \<Rightarrow> 1
      | StreamAck _ _ _ \<Rightarrow> 1
      | StreamRequalifyAck _ _ _ _ \<Rightarrow> 1
      | StreamMaxData _ _ \<Rightarrow> 1
      | StreamFeedbackProbe _ _ _ \<Rightarrow> 1
      | StreamFeedbackReceipt _ _ \<Rightarrow> 1
      | StreamReturnPlanFinal _ _ \<Rightarrow> 1
      | StreamReset _ _ \<Rightarrow> 1
      | StreamDetach _ \<Rightarrow> 1
      | _ \<Rightarrow> 0)"

definition stream_ack_contiguous_frontier :: "offset_range list \<Rightarrow> u64" where
  "stream_ack_contiguous_frontier ranges =
     (case ranges of [] \<Rightarrow> 0 | r # _ \<Rightarrow> if range_start r = 0 then range_end r else 0)"

lemma stream_ack_contiguous_frontier_Least:
  assumes "ranges_norm rs"
  shows "stream_ack_contiguous_frontier rs = (LEAST x. x \<notin> ranges_set rs)"
proof (cases "rs \<noteq> [] \<and> range_start (hd rs) = 0")
  case True
  then obtain r rs' where rs: "rs = r # rs'" "range_start r = 0" by (cases rs) auto
  have "(LEAST x. x \<notin> ranges_set rs) = range_end r"
  proof (rule Least_equality)
    show "range_end r \<notin> ranges_set rs" using ranges_norm_gap assms rs by blast
    fix y assume "y \<notin> ranges_set rs"
    then show "range_end r \<le> y" using rs by (auto simp: range_set_def)
  qed
  with rs show ?thesis by (simp add: stream_ack_contiguous_frontier_def)
next
  case False
  then have "0 \<notin> ranges_set rs"
    using assms ranges_set_lower [of rs 1 0]
    by (cases rs) (auto simp: ranges_norm_Cons range_set_def ranges_set_def)
  then have "(LEAST x. x \<notin> ranges_set rs) = 0" by (intro Least_equality) auto
  with False show ?thesis by (cases rs) (auto simp: stream_ack_contiguous_frontier_def)
qed

section \<open>Acknowledged and retained parts of a flight interval\<close>

type_synonym interval = "u64 \<times> u64"

record flight_interval_split =
  fis_acked :: "interval list"
  fis_retained :: "interval list"

definition intervals_set :: "interval list \<Rightarrow> nat set" where
  "intervals_set xs = (\<Union>(a, b) \<in> set xs. {a..<b})"

lemma intervals_set_simps [simp]:
  "intervals_set [] = {}"
  "intervals_set ((a, b) # xs) = {a..<b} \<union> intervals_set xs"
  "intervals_set (xs @ ys) = intervals_set xs \<union> intervals_set ys"
  by (auto simp: intervals_set_def)

text \<open>The \<open>for\<close> loop over the ACK ranges: the acknowledged and the retained pieces it pushes
  from a cursor on, the tail after the loop included.\<close>

fun split_flight_loop :: "u64 \<Rightarrow> u64 \<Rightarrow> offset_range list \<Rightarrow> interval list \<times> interval list" where
  "split_flight_loop e cursor [] = ([], if cursor < e then [(cursor, e)] else [])"
| "split_flight_loop e cursor (r # rs) =
     (if range_end r \<le> cursor then split_flight_loop e cursor rs
      else if range_start r \<ge> e then ([], if cursor < e then [(cursor, e)] else [])
      else
        let ack_start = max cursor (range_start r);
            kept = (if cursor < ack_start then [(cursor, ack_start)] else []);
            ack_end = min e (range_end r);
            (acked, cursor') = (if ack_start < ack_end then ([(ack_start, ack_end)], ack_end) else ([], cursor))
        in if cursor' \<ge> e then (acked, kept)
           else let (a, k) = split_flight_loop e cursor' rs in (acked @ a, kept @ k))"

definition split_flight_interval_by_ack :: "u64 \<Rightarrow> u64 \<Rightarrow> offset_range list \<Rightarrow> flight_interval_split" where
  "split_flight_interval_by_ack s e ranges =
     (let first = (if length ranges > 1 \<and> range_end (ranges ! 0) \<le> s
                   then partition_point (\<lambda>r. range_end r \<le> s) ranges else 0);
          (acked, retained) = split_flight_loop e s (drop first ranges)
      in \<lparr>fis_acked = acked, fis_retained = retained\<rparr>)"

definition flight_interval_bytes :: "u64 \<Rightarrow> u64 \<Rightarrow> usize" where
  "flight_interval_bytes s e = saturating_sub e s"

lemma split_flight_loop_skip:
  "\<forall>r \<in> set xs. range_end r \<le> cursor \<Longrightarrow> split_flight_loop e cursor (xs @ rs) = split_flight_loop e cursor rs"
  by (induction xs) auto

text \<open>The seek over an irrelevant prefix does not change the result of the full scan.\<close>

lemma split_flight_seek:
  "split_flight_loop e s (drop (if length ranges > 1 \<and> range_end (ranges ! 0) \<le> s
                   then partition_point (\<lambda>r. range_end r \<le> s) ranges else 0) ranges)
   = split_flight_loop e s ranges"
proof -
  have "split_flight_loop e s (takeWhile (\<lambda>r. range_end r \<le> s) ranges @ dropWhile (\<lambda>r. range_end r \<le> s) ranges)
      = split_flight_loop e s (dropWhile (\<lambda>r. range_end r \<le> s) ranges)"
    by (rule split_flight_loop_skip) (auto dest: set_takeWhileD)
  then show ?thesis by (simp add: drop_partition_point)
qed

lemma split_flight_loop_spec:
  assumes "split_flight_loop e cursor rs = (acked, retained)" and "ranges_norm rs" and "cursor < e"
  shows "intervals_set acked = {cursor..<e} \<inter> ranges_set rs \<and> intervals_set retained = {cursor..<e} - ranges_set rs
    \<and> (\<forall>(a, b) \<in> set acked \<union> set retained. a < b)
    \<and> sum_list (map (\<lambda>(a, b). b - a) (acked @ retained)) = e - cursor"
  using assms
proof (induction rs arbitrary: cursor acked retained)
  case Nil
  then show ?case by auto
next
  case (Cons r rs)
  note norm = Cons.prems(2)
  have r: "range_start r < range_end r" "\<forall>x \<in> set rs. range_end r < range_start x" "ranges_norm rs"
    using norm by (auto simp: ranges_norm_Cons)
  consider (skip) "range_end r \<le> cursor"
    | (stop) "cursor < range_end r" "e \<le> range_start r"
    | (use) "cursor < range_end r" "range_start r < e"
    by linarith
  then show ?case
  proof cases
    case skip
    then have "range_set r \<inter> {cursor..<e} = {}" by (auto simp: range_set_def)
    with skip Cons r show ?thesis by auto
  next
    case stop
    then have "ranges_set (r # rs) \<inter> {cursor..<e} = {}"
      using r by (fastforce simp: ranges_set_def range_set_def)
    with stop Cons.prems show ?thesis by auto
  next
    case use
    let ?s = "max cursor (range_start r)" and ?t = "min e (range_end r)"
    let ?k = "if cursor < ?s then [(cursor, ?s)] else []"
    have st: "?s < ?t" using use Cons.prems(3) r(1) by auto
    have kset: "intervals_set ?k = {cursor..<?s}" by auto
    show ?thesis
    proof (cases "?t \<ge> e")
      case True
      then have eq: "acked = [(?s, ?t)]" "retained = ?k"
        using Cons.prems(1) use st by (auto simp: Let_def)
      have t: "?t = e" "e \<le> range_end r" using True by auto
      have sum: "sum_list (map (\<lambda>(a, b). b - a) ([(?s, ?t)] @ ?k)) = e - cursor"
        using st t Cons.prems(3) by auto
      have "\<forall>x \<in> set rs. e < range_start x" using r(2) t by fastforce
      then have hi: "ranges_set rs \<inter> {cursor..<e} = {}" by (fastforce simp: ranges_set_def range_set_def)
      show ?thesis unfolding eq using hi t st kset sum by (auto simp: range_set_def max_def split: if_splits)
    next
      case False
      then have t: "?t = range_end r" "range_end r < e" by auto
      obtain a k where rec: "split_flight_loop e (range_end r) rs = (a, k)" by (metis surj_pair)
      then have eq: "acked = (?s, range_end r) # a" "retained = ?k @ k"
        using Cons.prems(1) use st t False by (auto simp: Let_def)
      have IH: "intervals_set a = {range_end r..<e} \<inter> ranges_set rs \<and> intervals_set k = {range_end r..<e} - ranges_set rs
        \<and> (\<forall>(x, y) \<in> set a \<union> set k. x < y) \<and> sum_list (map (\<lambda>(x, y). y - x) (a @ k)) = e - range_end r"
        using Cons.IH [OF rec r(3)] t by simp
      have low: "\<And>x. x \<in> ranges_set rs \<Longrightarrow> range_end r < x"
        using r by (fastforce simp: ranges_set_def range_set_def)
      have sum: "sum_list (map (\<lambda>(a, b). b - a) (((?s, range_end r) # a) @ ?k @ k)) = e - cursor"
        using IH st t use Cons.prems(3) by (auto simp: max_def)
      have acked: "{?s..<range_end r} \<union> ({range_end r..<e} \<inter> ranges_set rs) = {cursor..<e} \<inter> ranges_set (r # rs)"
        using low t use Cons.prems(3) by (auto simp: range_set_def dest: low)
      have kept: "{cursor..<?s} \<union> ({range_end r..<e} - ranges_set rs) = {cursor..<e} - ranges_set (r # rs)"
        using low t use Cons.prems(3) r(1) by (auto simp: range_set_def dest: low)
      have pos: "\<forall>(a, b) \<in> set ((?s, range_end r) # a) \<union> set (?k @ k). a < b"
        using IH st t by auto
      show ?thesis unfolding eq intervals_set_simps kset using acked kept IH pos sum by simp
    qed
  qed
qed

section \<open>Ambiguity of an acknowledged interval\<close>

text \<open>The iterator is modelled by the list of the segments it yields; its state is the cursor
  and the suffix of the ambiguity index from \<open>index\<close> on.\<close>

function evidence_segments_from :: "u64 \<Rightarrow> u64 \<Rightarrow> interval list \<Rightarrow> (u64 \<times> u64 \<times> bool) list" where
  "evidence_segments_from e cursor amb =
     (if cursor \<ge> e then []
      else case amb of
        [] \<Rightarrow> [(cursor, e, False)]
      | (a, b) # rest \<Rightarrow>
          if b \<le> cursor then evidence_segments_from e cursor rest
          else if a \<ge> e then [(cursor, e, False)]
          else let is_ambiguous = (cursor \<ge> a);
                   segment_end = (if is_ambiguous then min b e else a)
               in (cursor, segment_end, is_ambiguous) # evidence_segments_from e segment_end ((a, b) # rest))"
  by pat_completeness auto
termination
  by (relation "measure (\<lambda>(e, cursor, amb). (e - cursor) + length amb)") (auto split: if_splits)

declare evidence_segments_from.simps [simp del]

definition flight_evidence_segments :: "u64 \<Rightarrow> u64 \<Rightarrow> interval list \<Rightarrow> (u64 \<times> u64 \<times> bool) list" where
  "flight_evidence_segments s e ambiguous =
     evidence_segments_from e s (drop (partition_point (\<lambda>(a, b). b \<le> s) ambiguous) ambiguous)"

text \<open>The ambiguity index: non-empty intervals in ascending order, possibly adjacent.\<close>

definition intervals_ordered :: "interval list \<Rightarrow> bool" where
  "intervals_ordered xs \<longleftrightarrow> (\<forall>(a, b) \<in> set xs. a < b) \<and> sorted_wrt (\<lambda>x y. snd x \<le> fst y) xs"

text \<open>\<open>covers_from c e segs\<close>: the segments are non-empty and follow each other from \<open>c\<close> to \<open>e\<close>.\<close>

fun segments_chain :: "u64 \<Rightarrow> u64 \<Rightarrow> (u64 \<times> u64 \<times> bool) list \<Rightarrow> bool" where
  "segments_chain c e [] \<longleftrightarrow> c = e"
| "segments_chain c e ((a, b, f) # xs) \<longleftrightarrow> a = c \<and> a < b \<and> b \<le> e \<and> segments_chain b e xs"

lemma intervals_ordered_Cons:
  "intervals_ordered ((a, b) # xs) \<longleftrightarrow> a < b \<and> (\<forall>y \<in> set xs. b \<le> fst y) \<and> intervals_ordered xs"
  by (auto simp: intervals_ordered_def)

lemma intervals_above:
  "intervals_ordered ((a, b) # rest) \<Longrightarrow> x \<in> intervals_set rest \<Longrightarrow> b \<le> x"
  by (fastforce simp: intervals_ordered_Cons intervals_set_def)

text \<open>Every segment carries the flag of its offsets.\<close>

fun segments_flagged :: "interval list \<Rightarrow> (u64 \<times> u64 \<times> bool) list \<Rightarrow> bool" where
  "segments_flagged amb [] \<longleftrightarrow> True"
| "segments_flagged amb ((a, b, f) # xs) \<longleftrightarrow>
     (\<forall>x \<in> {a..<b}. f \<longleftrightarrow> x \<in> intervals_set amb) \<and> segments_flagged amb xs"

lemma segments_flagged_skip:
  "segments_chain c e xs \<Longrightarrow> segments_flagged rest xs \<Longrightarrow> b \<le> c \<Longrightarrow> segments_flagged ((a, b) # rest) xs"
  by (induction c e xs rule: segments_chain.induct) auto

lemma evidence_segments_from_spec:
  assumes "intervals_ordered amb" and "cursor \<le> e"
  shows "segments_chain cursor e (evidence_segments_from e cursor amb)
    \<and> segments_flagged amb (evidence_segments_from e cursor amb)"
  using assms
proof (induction "(e - cursor) + length amb" arbitrary: cursor amb rule: less_induct)
  case less
  show ?case
  proof (cases "cursor < e \<and> amb \<noteq> []")
    case False
    then show ?thesis
      using less.prems(2) by (subst (1 2) evidence_segments_from.simps) (cases amb, auto)
  next
    case True
    then obtain a b rest where amb: "amb = (a, b) # rest" by (metis list.exhaust surj_pair)
    have ord: "a < b" "intervals_ordered rest" "\<And>x. x \<in> intervals_set rest \<Longrightarrow> b \<le> x"
      using less.prems(1) intervals_above [of a b rest] unfolding amb by (simp_all add: intervals_ordered_Cons)
    have lt: "cursor < e" using True by simp
    consider (skip) "b \<le> cursor" | (stop) "cursor < b" "e \<le> a"
      | (inside) "cursor < b" "a < e" "a \<le> cursor" | (before) "cursor < b" "a < e" "cursor < a" by linarith
    then show ?thesis
    proof cases
      case skip
      have same: "evidence_segments_from e cursor amb = evidence_segments_from e cursor rest"
        using skip lt unfolding amb by (subst evidence_segments_from.simps) simp
      show ?thesis
        unfolding same unfolding amb
        using less.hyps [of cursor rest] ord(2) less.prems(2) skip
          segments_flagged_skip [of cursor e _ rest b a]
        by (simp add: amb)
    next
      case stop
      then have "evidence_segments_from e cursor amb = [(cursor, e, False)]"
        using lt unfolding amb by (subst evidence_segments_from.simps) simp
      then show ?thesis using lt stop ord(1) by (fastforce simp: amb dest: ord(3))
    next
      case inside
      have split: "evidence_segments_from e cursor amb
          = (cursor, min b e, True) # evidence_segments_from e (min b e) amb"
        using inside lt unfolding amb by (subst evidence_segments_from.simps) (simp add: Let_def)
      have "\<forall>x \<in> {cursor..<min b e}. x \<in> intervals_set amb" using inside by (simp add: amb)
      then show ?thesis
        using less.hyps [of "min b e" amb] less.prems(1) lt inside by (simp add: split)
    next
      case before
      have split: "evidence_segments_from e cursor amb = (cursor, a, False) # evidence_segments_from e a amb"
        using before lt unfolding amb by (subst evidence_segments_from.simps) simp
      have "\<forall>x \<in> {cursor..<a}. x \<notin> intervals_set amb"
        using ord(1) by (auto simp: amb dest: ord(3))
      then show ?thesis
        using less.hyps [of a amb] less.prems(1) before by (simp add: split)
    qed
  qed
qed

lemma segments_flagged_prefix:
  "\<forall>(a, b) \<in> set pre. b \<le> c \<Longrightarrow> segments_chain c e xs \<Longrightarrow> segments_flagged amb xs \<Longrightarrow>
   segments_flagged (pre @ amb) xs"
  by (induction pre) (auto intro: segments_flagged_skip)

lemma segments_flagged_iff:
  "segments_flagged amb xs \<longleftrightarrow> (\<forall>(a, b, f) \<in> set xs. \<forall>x \<in> {a..<b}. f \<longleftrightarrow> x \<in> intervals_set amb)"
  by (induction xs) auto

lemma intervals_ordered_dropWhile:
  "intervals_ordered xs \<Longrightarrow> intervals_ordered (dropWhile P xs)"
  by (induction xs) (auto simp: intervals_ordered_def)

section \<open>Properties\<close>

text \<open>C36. Normalizing a list of ranges yields the unique normalized list that denotes the same
  offsets: whatever the order, overlap and adjacency of the input, and dropping empty and
  inverted ranges, the result is ascending, non-empty and separated, and any other normalized
  list of the same offsets is equal to it.\<close>

theorem normalize_offset_ranges_canonical:
  "ranges_norm (normalize_offset_ranges rs)
   \<and> ranges_set (normalize_offset_ranges rs) = ranges_set rs
   \<and> (\<forall>qs. ranges_norm qs \<longrightarrow> ranges_set qs = ranges_set rs \<longrightarrow> qs = normalize_offset_ranges rs)"
  using normalize_offset_ranges_spec ranges_norm_unique by metis

theorem normalize_offset_ranges_canonical_witness:
  "let rs = [\<lparr>range_start = 7, range_end = 9\<rparr>, \<lparr>range_start = 3, range_end = 3\<rparr>, \<lparr>range_start = 0, range_end = 4\<rparr>,
             \<lparr>range_start = 4, range_end = 6\<rparr>];
       qs = [\<lparr>range_start = 0, range_end = 6\<rparr>, \<lparr>range_start = 7, range_end = (9::nat)\<rparr>]
   in ranges_norm qs \<and> ranges_set qs = ranges_set rs \<and> qs = normalize_offset_ranges rs"
proof -
  let ?rs = "[\<lparr>range_start = 7, range_end = 9\<rparr>, \<lparr>range_start = 3, range_end = 3\<rparr>, \<lparr>range_start = 0, range_end = 4\<rparr>,
             \<lparr>range_start = 4, range_end = 6\<rparr>]"
  let ?qs = "[\<lparr>range_start = 0, range_end = 6\<rparr>, \<lparr>range_start = 7, range_end = (9::nat)\<rparr>]"
  have "ranges_norm ?qs" by (simp add: ranges_norm_def)
  moreover have "ranges_set ?qs = ranges_set ?rs" by auto
  ultimately show ?thesis
    using normalize_offset_ranges_canonical [of ?rs] by (simp only: Let_def)
qed

text \<open>C37. Subtracting normalized ranges from normalized ranges gives exactly the offsets that are
  not covered, again as a normalized list, although the loop never rewinds its index into the
  covered list.\<close>

theorem offset_ranges_not_covered_difference:
  assumes "ranges_norm rs" and "ranges_norm cov"
  shows "ranges_set (offset_ranges_not_covered rs cov) = ranges_set rs - ranges_set cov
    \<and> ranges_norm (offset_ranges_not_covered rs cov)"
  using offset_ranges_not_covered_spec [OF assms] by blast

theorem offset_ranges_not_covered_difference_witness:
  "let rs = [\<lparr>range_start = 0, range_end = 10\<rparr>, \<lparr>range_start = 20, range_end = 30\<rparr>];
       cov = [\<lparr>range_start = 2, range_end = 4\<rparr>, \<lparr>range_start = 8, range_end = 22\<rparr>]
   in ranges_norm rs \<and> ranges_norm cov
      \<and> offset_ranges_not_covered rs cov
          = [\<lparr>range_start = 0, range_end = 2\<rparr>, \<lparr>range_start = 4, range_end = 8\<rparr>, \<lparr>range_start = 22, range_end = (30::nat)\<rparr>]
      \<and> ranges_set (offset_ranges_not_covered rs cov) = ranges_set rs - ranges_set cov"
proof -
  let ?rs = "[\<lparr>range_start = 0, range_end = 10\<rparr>, \<lparr>range_start = 20, range_end = (30::nat)\<rparr>]"
  let ?cov = "[\<lparr>range_start = 2, range_end = 4\<rparr>, \<lparr>range_start = 8, range_end = (22::nat)\<rparr>]"
  have "ranges_norm ?rs" "ranges_norm ?cov" by (simp_all add: ranges_norm_def)
  note offset_ranges_not_covered_difference [OF this]
  moreover have "offset_ranges_not_covered ?rs ?cov
      = [\<lparr>range_start = 0, range_end = 2\<rparr>, \<lparr>range_start = 4, range_end = 8\<rparr>, \<lparr>range_start = 22, range_end = 30\<rparr>]"
    by (simp add: OffsetRange_new_def)
  ultimately show ?thesis
    using \<open>ranges_norm ?rs\<close> \<open>ranges_norm ?cov\<close> by (simp only: Let_def)
qed

text \<open>C38. Splitting a flight interval by a normalized ACK partitions it: the acknowledged pieces
  are the offsets of the interval inside the ACK, the retained pieces the rest, no piece is
  empty, no byte is counted twice, and seeking over the irrelevant prefix of the ACK changes
  nothing.\<close>

theorem split_flight_interval_partition:
  assumes "ranges_norm ranges" and "s < e"
  shows "intervals_set (fis_acked (split_flight_interval_by_ack s e ranges)) = {s..<e} \<inter> ranges_set ranges
    \<and> intervals_set (fis_retained (split_flight_interval_by_ack s e ranges)) = {s..<e} - ranges_set ranges
    \<and> sum_list (map (\<lambda>(a, b). flight_interval_bytes a b)
         (fis_acked (split_flight_interval_by_ack s e ranges) @ fis_retained (split_flight_interval_by_ack s e ranges)))
      = flight_interval_bytes s e"
proof -
  obtain acked retained where loop: "split_flight_loop e s ranges = (acked, retained)" by force
  then have "split_flight_interval_by_ack s e ranges = \<lparr>fis_acked = acked, fis_retained = retained\<rparr>"
    using split_flight_seek [of e s ranges] by (simp add: split_flight_interval_by_ack_def Let_def)
  then show ?thesis
    using split_flight_loop_spec [OF loop assms] by (simp add: flight_interval_bytes_def)
qed

theorem split_flight_interval_partition_witness:
  "let ranges = [\<lparr>range_start = 0, range_end = 3\<rparr>, \<lparr>range_start = 6, range_end = (8::nat)\<rparr>]
   in ranges_norm ranges \<and> (5::nat) < 10
      \<and> fis_retained (split_flight_interval_by_ack 5 10 ranges) = [(5, 6), (8, 10)]
      \<and> intervals_set (fis_acked (split_flight_interval_by_ack 5 10 ranges)) = {5..<10} \<inter> ranges_set ranges"
proof -
  let ?r = "[\<lparr>range_start = 0, range_end = 3\<rparr>, \<lparr>range_start = 6, range_end = (8::nat)\<rparr>]"
  have "ranges_norm ?r" by (simp add: ranges_norm_def)
  moreover have "(5::nat) < 10" by simp
  moreover have "fis_retained (split_flight_interval_by_ack 5 10 ?r) = [(5, 6), (8, 10)]"
    by (simp add: split_flight_interval_by_ack_def Let_def partition_point_def)
  ultimately show ?thesis
    using split_flight_interval_partition [of ?r 5 10] by (simp only: Let_def)
qed

text \<open>C39. The evidence segments of a released interval follow each other from its start to its
  end without a gap or an empty segment, and each carries the ambiguity flag of every one of
  its offsets.\<close>

theorem flight_evidence_segments_partition:
  assumes "intervals_ordered ambiguous" and "s \<le> e"
  shows "segments_chain s e (flight_evidence_segments s e ambiguous)
    \<and> (\<forall>(a, b, f) \<in> set (flight_evidence_segments s e ambiguous).
         \<forall>x \<in> {a..<b}. f \<longleftrightarrow> x \<in> intervals_set ambiguous)"
proof -
  let ?P = "\<lambda>(a, b). b \<le> s"
  let ?segs = "flight_evidence_segments s e ambiguous"
  have segs: "?segs = evidence_segments_from e s (dropWhile ?P ambiguous)"
    by (simp add: flight_evidence_segments_def drop_partition_point)
  have spec: "segments_chain s e ?segs" "segments_flagged (dropWhile ?P ambiguous) ?segs"
    using evidence_segments_from_spec intervals_ordered_dropWhile assms unfolding segs by blast+
  have "segments_flagged (takeWhile ?P ambiguous @ dropWhile ?P ambiguous) ?segs"
    by (rule segments_flagged_prefix [OF _ spec]) (auto dest!: set_takeWhileD)
  then show ?thesis using spec(1) segments_flagged_iff by simp
qed

theorem flight_evidence_segments_partition_witness:
  "intervals_ordered [(2, 4), (4, 6)] \<and> (1::nat) \<le> 9
   \<and> segments_chain 1 9 (flight_evidence_segments 1 9 [(2, 4), (4, 6)])
   \<and> flight_evidence_segments 1 9 [(2, 4), (4, 6)] = [(1, 2, False), (2, 4, True), (4, 6, True), (6, 9, False)]"
proof -
  have "intervals_ordered [(2, 4), (4, 6)]" by (simp add: intervals_ordered_def)
  moreover have "(1::nat) \<le> 9" by simp
  moreover have "flight_evidence_segments 1 9 [(2, 4), (4, 6)]
      = [(1, 2, False), (2, 4, True), (4, 6, True), (6, 9, False)]"
    by (simp add: flight_evidence_segments_def partition_point_def evidence_segments_from.simps)
  ultimately show ?thesis
    using flight_evidence_segments_partition [of "[(2, 4), (4, 6)]" 1 9] by simp
qed

end
