(* ===== verification/Path_Capacity.thy ===== *)
theory Path_Capacity
  imports Wire_Types
begin

text \<open>
  The receive side of a bounded path-capacity measurement,
  \<open>src/src/protocol/path_capacity.rs\<close>: a tracker that accepts one epoch of data records at a
  time, under tokens that strictly increase, and answers a finish record with an exact byte
  receipt. \<open>record_data\<close>, \<open>finish\<close> and \<open>cancel_for_path_drain\<close> return their result and
  the tracker after the call; \<open>finish\<close> takes the active epoch also when it fails.

  The properties relate the tracker to a history of calls: a receipt is the exact sum of the
  payload bytes recorded for its token since that epoch began, a token begins at most one
  epoch, and an epoch stays within the session envelope.
\<close>

datatype path_capacity_receive_error =
    InvalidData
  | ReceiptOverflow
  | SessionEnvelopeExceeded
  | InterleavedToken
  | NonIncreasingToken
  | FinishWithoutData
  | FinishMismatch

fun path_capacity_message :: "path_capacity_receive_error \<Rightarrow> string" where
  "path_capacity_message InvalidData = ''invalid path capacity data''"
| "path_capacity_message ReceiptOverflow = ''path capacity receipt overflow''"
| "path_capacity_message SessionEnvelopeExceeded = ''path capacity data exceeds the session envelope''"
| "path_capacity_message InterleavedToken = ''interleaved path capacity measurement tokens''"
| "path_capacity_message NonIncreasingToken = ''path capacity measurement token did not increase''"
| "path_capacity_message FinishWithoutData = ''path capacity finish has no data epoch''"
| "path_capacity_message FinishMismatch = ''path capacity finish does not match received data''"

record capacity_receive_tracker =
  crt_active :: "(u64 \<times> u64) option"
  crt_token_high_water :: u64
  crt_limit_bytes :: u64

definition capacity_tracker_new :: "u64 \<Rightarrow> capacity_receive_tracker" where
  "capacity_tracker_new limit_bytes =
     \<lparr>crt_active = None, crt_token_high_water = 0, crt_limit_bytes = max limit_bytes 1\<rparr>"

definition record_data ::
  "u64 \<Rightarrow> usize \<Rightarrow> capacity_receive_tracker \<Rightarrow>
     (path_capacity_receive_error + unit) \<times> capacity_receive_tracker" where
  "record_data token payload_bytes t =
     (if token = 0 \<or> payload_bytes = 0 then (Inl InvalidData, t)
      else case crt_active t of
        Some (active_token, received_bytes) \<Rightarrow>
          if active_token = token then
            (case checked_add received_bytes payload_bytes of
               None \<Rightarrow> (Inl ReceiptOverflow, t)
             | Some received \<Rightarrow>
                 if received > crt_limit_bytes t then (Inl SessionEnvelopeExceeded, t)
                 else (Inr (), t\<lparr>crt_active := Some (token, received)\<rparr>))
          else (Inl InterleavedToken, t)
      | None \<Rightarrow>
          if token \<le> crt_token_high_water t then (Inl NonIncreasingToken, t)
          else if payload_bytes \<le> crt_limit_bytes t then
            (Inr (), t\<lparr>crt_token_high_water := token, crt_active := Some (token, payload_bytes)\<rparr>)
          else (Inl SessionEnvelopeExceeded, t))"

definition capacity_finish ::
  "u64 \<Rightarrow> u64 \<Rightarrow> capacity_receive_tracker \<Rightarrow>
     (path_capacity_receive_error + u64) \<times> capacity_receive_tracker" where
  "capacity_finish token declared_bytes t =
     (case crt_active t of
        None \<Rightarrow> (Inl FinishWithoutData, t)
      | Some (active_token, received_bytes) \<Rightarrow>
          let t' = t\<lparr>crt_active := None\<rparr> in
          if token = 0 \<or> token \<noteq> active_token \<or> declared_bytes = 0 \<or> declared_bytes \<noteq> received_bytes
          then (Inl FinishMismatch, t') else (Inr received_bytes, t'))"

definition cancel_for_path_drain :: "capacity_receive_tracker \<Rightarrow> capacity_receive_tracker" where
  "cancel_for_path_drain t = t\<lparr>crt_active := None\<rparr>"

definition capacity_is_idle :: "capacity_receive_tracker \<Rightarrow> bool" where
  "capacity_is_idle t \<longleftrightarrow> crt_active t = None"

section \<open>Histories of calls\<close>

text \<open>A call, with the log entry it leaves: the data accepted, the receipts issued and the ends
  of an epoch (a finish, successful or not, or a cancellation).\<close>

datatype capacity_call = CallData u64 usize | CallFinish u64 u64 | CallCancel

datatype capacity_log = LogData u64 usize | LogReceipt u64 u64 | LogEnd

fun capacity_step ::
  "capacity_receive_tracker \<Rightarrow> capacity_call \<Rightarrow> capacity_receive_tracker \<times> capacity_log list" where
  "capacity_step t (CallData token n) =
     (case record_data token n t of
        (Inl _, t') \<Rightarrow> (t', []) | (Inr _, t') \<Rightarrow> (t', [LogData token n]))"
| "capacity_step t (CallFinish token declared) =
     (case capacity_finish token declared t of
        (Inl _, t') \<Rightarrow> (t', [LogEnd]) | (Inr n, t') \<Rightarrow> (t', [LogReceipt token n, LogEnd]))"
| "capacity_step t CallCancel = (cancel_for_path_drain t, [LogEnd])"

fun capacity_run ::
  "capacity_receive_tracker \<Rightarrow> capacity_call list \<Rightarrow> capacity_receive_tracker \<times> capacity_log list" where
  "capacity_run t [] = (t, [])"
| "capacity_run t (c # cs) =
     (let (t', l) = capacity_step t c; (t'', l') = capacity_run t' cs in (t'', l @ l'))"

text \<open>The bytes accepted since the last end of an epoch, read off a log (newest entry last).\<close>

fun open_bytes :: "capacity_log list \<Rightarrow> nat" where
  "open_bytes [] = 0"
| "open_bytes (LogEnd # l) = 0"
| "open_bytes (LogData token n # l) = n + open_bytes l"
| "open_bytes (LogReceipt token n # l) = open_bytes l"

definition epoch_bytes :: "capacity_log list \<Rightarrow> nat" where
  "epoch_bytes l = open_bytes (rev l)"

fun open_tokens :: "capacity_log list \<Rightarrow> u64 set" where
  "open_tokens [] = {}"
| "open_tokens (LogEnd # l) = {}"
| "open_tokens (LogData token n # l) = insert token (open_tokens l)"
| "open_tokens (LogReceipt token n # l) = open_tokens l"

definition epoch_tokens :: "capacity_log list \<Rightarrow> u64 set" where
  "epoch_tokens l = open_tokens (rev l)"

lemma epoch_bytes_simps [simp]:
  "epoch_bytes [] = 0" "epoch_bytes (l @ [LogEnd]) = 0"
  "epoch_bytes (l @ [LogData token n]) = n + epoch_bytes l"
  "epoch_bytes (l @ [LogReceipt token n]) = epoch_bytes l"
  by (simp_all add: epoch_bytes_def)

lemma epoch_tokens_simps [simp]:
  "epoch_tokens [] = {}" "epoch_tokens (l @ [LogEnd]) = {}"
  "epoch_tokens (l @ [LogData token n]) = insert token (epoch_tokens l)"
  "epoch_tokens (l @ [LogReceipt token n]) = epoch_tokens l"
  by (simp_all add: epoch_tokens_def)

text \<open>The tracker agrees with the log of the calls so far: the active epoch holds the bytes and
  the only token since the last end, within the envelope; every token ever accepted is at
  most the high-water mark.\<close>

definition tracker_agrees :: "capacity_log list \<Rightarrow> capacity_receive_tracker \<Rightarrow> bool" where
  "tracker_agrees l t \<longleftrightarrow>
     (case crt_active t of
        None \<Rightarrow> epoch_bytes l = 0 \<and> epoch_tokens l = {}
      | Some (token, n) \<Rightarrow>
          n = epoch_bytes l \<and> epoch_tokens l = {token} \<and> n \<le> crt_limit_bytes t
          \<and> 0 < n \<and> 0 < token \<and> token = crt_token_high_water t)
     \<and> (\<forall>token n. LogData token n \<in> set l \<longrightarrow> token \<le> crt_token_high_water t)"

lemma tracker_agrees_new: "tracker_agrees [] (capacity_tracker_new limit)"
  by (simp add: tracker_agrees_def capacity_tracker_new_def)

lemma record_data_cases:
  assumes "record_data token n t = (r, t')"
  shows "(\<exists>e. r = Inl e \<and> t' = t)
    \<or> (\<exists>m. r = Inr () \<and> crt_active t = Some (token, m) \<and> 0 < token \<and> 0 < n \<and> m + n \<le> crt_limit_bytes t
          \<and> t' = t\<lparr>crt_active := Some (token, m + n)\<rparr>)
    \<or> (r = Inr () \<and> crt_active t = None \<and> crt_token_high_water t < token \<and> 0 < n \<and> n \<le> crt_limit_bytes t
          \<and> t' = t\<lparr>crt_token_high_water := token, crt_active := Some (token, n)\<rparr>)"
proof (cases "crt_active t")
  case None
  then show ?thesis using assms by (auto simp: record_data_def split: if_splits)
next
  case (Some p)
  obtain a m where "p = (a, m)" by force
  with Some show ?thesis using assms
    by (auto simp: record_data_def checked_add_def split: if_splits)
qed

lemma tracker_agrees_step:
  assumes "tracker_agrees l t" and "capacity_step t c = (t', new)"
  shows "tracker_agrees (l @ new) t'"
proof (cases c)
  case (CallData token n)
  obtain r u where rec: "record_data token n t = (r, u)" by force
  from record_data_cases [OF rec] show ?thesis
  proof (elim disjE exE conjE)
    fix e assume "r = Inl e" "u = t"
    then show ?thesis using assms CallData rec by simp
  next
    fix m
    assume more: "r = Inr ()" "crt_active t = Some (token, m)" "m + n \<le> crt_limit_bytes t"
      "u = t\<lparr>crt_active := Some (token, m + n)\<rparr>"
    then have new: "t' = u" "new = [LogData token n]" using assms(2) CallData rec by auto
    show ?thesis using assms(1) more unfolding new tracker_agrees_def by auto
  next
    assume opened: "r = Inr ()" "crt_active t = None" "crt_token_high_water t < token" "0 < n" "n \<le> crt_limit_bytes t"
      "u = t\<lparr>crt_token_high_water := token, crt_active := Some (token, n)\<rparr>"
    then have new: "t' = u" "new = [LogData token n]" using assms(2) CallData rec by auto
    have "\<forall>a k. LogData a k \<in> set l \<longrightarrow> a \<le> token"
      using assms(1) opened(3) by (auto simp: tracker_agrees_def intro: order_trans less_imp_le)
    then show ?thesis using assms(1) opened unfolding new tracker_agrees_def by auto
  qed
next
  case (CallFinish token declared)
  obtain r u where fin: "capacity_finish token declared t = (r, u)" by force
  then have u: "crt_active u = None" "crt_token_high_water u = crt_token_high_water t"
    by (auto simp: capacity_finish_def Let_def split: option.splits if_splits)
  show ?thesis
  proof (cases r)
    case (Inl e)
    then have new: "t' = u" "new = [LogEnd]" using assms(2) CallFinish fin by auto
    show ?thesis using assms(1) u unfolding new by (auto simp: tracker_agrees_def)
  next
    case (Inr k)
    then have new: "t' = u" "new = [LogReceipt token k, LogEnd]" using assms(2) CallFinish fin by auto
    show ?thesis using assms(1) u unfolding new
      by (auto simp: tracker_agrees_def epoch_bytes_def epoch_tokens_def)
  qed
next
  case CallCancel
  then have "t' = t\<lparr>crt_active := None\<rparr>" "new = [LogEnd]"
    using assms(2) by (auto simp: cancel_for_path_drain_def)
  then show ?thesis using assms(1) by (auto simp: tracker_agrees_def)
qed

lemma tracker_agrees_run:
  "tracker_agrees l t \<Longrightarrow> capacity_run t cs = (t', new) \<Longrightarrow> tracker_agrees (l @ new) t'"
proof (induction cs arbitrary: l t new)
  case Nil
  then show ?case by simp
next
  case (Cons c cs)
  obtain u k where step: "capacity_step t c = (u, k)" by force
  obtain new' where run: "capacity_run u cs = (t', new')" and new: "new = k @ new'"
    using Cons.prems(2) step by (auto split: prod.splits)
  have "tracker_agrees (l @ k) u" by (rule tracker_agrees_step [OF Cons.prems(1) step])
  from Cons.IH [OF this run] show ?case by (simp add: new)
qed

lemma capacity_run_limit: "capacity_run t cs = (t', l) \<Longrightarrow> crt_limit_bytes t' = crt_limit_bytes t"
proof (induction cs arbitrary: t l)
  case Nil
  then show ?case by simp
next
  case (Cons c cs)
  have "crt_limit_bytes (fst (capacity_step t c)) = crt_limit_bytes t"
    by (cases c) (auto simp: record_data_def capacity_finish_def cancel_for_path_drain_def Let_def
        split: option.splits if_splits)
  with Cons show ?case by (auto split: prod.splits)
qed

section \<open>Properties\<close>

text \<open>C40. A receipt is exact: after any sequence of calls on a new tracker, a finish record is
  answered with a byte count exactly when that count is the declared one and equals the payload
  bytes accepted since the last finish or cancellation, all of them recorded under the same
  non-zero token; the count is positive and within the session envelope.\<close>

theorem capacity_receipt_exact:
  assumes "capacity_run (capacity_tracker_new limit) cs = (t, log)"
  shows "fst (capacity_finish token declared t) = Inr n \<longleftrightarrow>
     n = declared \<and> declared = epoch_bytes log \<and> epoch_tokens log = {token} \<and> 0 < token \<and> 0 < n \<and> n \<le> max limit 1"
proof -
  have agrees: "tracker_agrees log t"
    using tracker_agrees_run [OF tracker_agrees_new assms] by simp
  have "crt_limit_bytes t = max limit 1"
    using capacity_run_limit [OF assms] by (simp add: capacity_tracker_new_def)
  with agrees show ?thesis
    by (auto simp: capacity_finish_def tracker_agrees_def Let_def split: option.splits if_splits)
qed

theorem capacity_receipt_exact_witness:
  "let (t, log) = capacity_run (capacity_tracker_new 100) [CallData 3 40, CallFinish 3 40, CallData 5 10, CallData 4 9, CallData 5 20]
   in fst (capacity_finish 5 30 t) = Inr 30 \<and> epoch_bytes log = 30"
proof -
  have "capacity_run (capacity_tracker_new 100) [CallData 3 40, CallFinish 3 40, CallData 5 10, CallData 4 9, CallData 5 20]
      = (\<lparr>crt_active = Some (5, 30), crt_token_high_water = 5, crt_limit_bytes = 100\<rparr>,
         [LogData 3 40, LogReceipt 3 40, LogEnd, LogData 5 10, LogData 5 20])"
    by (simp add: capacity_tracker_new_def record_data_def capacity_finish_def checked_add_def u64_max_def)
  from capacity_receipt_exact [OF this, of 5 30 30] this show ?thesis
    by (simp add: epoch_bytes_def epoch_tokens_def)
qed

text \<open>Measurement tokens never repeat: once a data record under a token has been accepted
  and its epoch has ended (by a receipt, a rejected finish or a cancellation), no record with
  the same or a smaller token is accepted again.\<close>

theorem capacity_tokens_increase:
  assumes "capacity_run (capacity_tracker_new limit) cs = (t, log)"
    and "LogData token n \<in> set log" and "capacity_is_idle t" and "token' \<le> token" and "0 < token'" and "0 < m"
  shows "record_data token' m t = (Inl NonIncreasingToken, t)"
proof -
  have "tracker_agrees log t"
    using tracker_agrees_run [OF tracker_agrees_new assms(1)] by simp
  then have "token \<le> crt_token_high_water t"
    using assms(2) by (auto simp: tracker_agrees_def)
  with assms show ?thesis by (simp add: record_data_def capacity_is_idle_def)
qed

theorem capacity_tokens_increase_witness:
  "let (t, log) = capacity_run (capacity_tracker_new 100) [CallData 3 40, CallCancel]
   in LogData 3 40 \<in> set log \<and> capacity_is_idle t \<and> record_data 3 1 t = (Inl NonIncreasingToken, t)"
proof -
  have run: "capacity_run (capacity_tracker_new 100) [CallData 3 40, CallCancel]
      = (\<lparr>crt_active = None, crt_token_high_water = 3, crt_limit_bytes = 100\<rparr>, [LogData 3 40, LogEnd])"
    by (simp add: capacity_tracker_new_def record_data_def cancel_for_path_drain_def)
  then show ?thesis
    using capacity_tokens_increase [OF run, of 3 40 3 1] by (simp add: capacity_is_idle_def)
qed

end
