(* ===== verification/Btree_Map.thy ===== *)
theory Btree_Map
  imports Prelude
begin

text \<open>
  The part of \<open>std::collections::BTreeMap\<close> that the stream state uses, for keys of type
  \<open>u64\<close>: an association list in strictly ascending key order. \<open>bt_get\<close>, \<open>bt_insert\<close> and
  \<open>bt_remove\<close> are \<open>get\<close>, \<open>insert\<close> and \<open>remove\<close>; \<open>bt_last_le k\<close> is
  \<open>range(..=k).next_back()\<close>, \<open>bt_range a b\<close> is \<open>range(a..b)\<close>, \<open>bt_range_incl a b\<close> is
  \<open>range(a..=b)\<close> and \<open>bt_from a\<close> is \<open>range(a..)\<close>. The ranged views panic in Rust when the
  lower bound is above the upper one; every caller passes ordered bounds.

  The locale \<open>ordered_map\<close> is the contract the clients rely on (what a lookup returns after an
  insertion or a removal, and that the order of the keys is kept); it is interpreted on the
  association lists at the end of the theory.
\<close>

type_synonym 'v btree = "(nat \<times> 'v) list"

definition bt_wf :: "'v btree \<Rightarrow> bool" where
  "bt_wf m \<longleftrightarrow> sorted_wrt (<) (map fst m)"

definition bt_get :: "nat \<Rightarrow> 'v btree \<Rightarrow> 'v option" where
  "bt_get k m = map_of m k"

fun bt_insert :: "nat \<Rightarrow> 'v \<Rightarrow> 'v btree \<Rightarrow> 'v btree" where
  "bt_insert k v [] = [(k, v)]"
| "bt_insert k v ((k', v') # m) =
     (if k < k' then (k, v) # (k', v') # m
      else if k = k' then (k, v) # m
      else (k', v') # bt_insert k v m)"

definition bt_remove :: "nat \<Rightarrow> 'v btree \<Rightarrow> 'v btree" where
  "bt_remove k m = filter (\<lambda>e. fst e \<noteq> k) m"

definition bt_last_le :: "nat \<Rightarrow> 'v btree \<Rightarrow> (nat \<times> 'v) option" where
  "bt_last_le k m = (case filter (\<lambda>e. fst e \<le> k) m of [] \<Rightarrow> None | e # es \<Rightarrow> Some (last (e # es)))"

definition bt_range :: "nat \<Rightarrow> nat \<Rightarrow> 'v btree \<Rightarrow> 'v btree" where
  "bt_range a b m = filter (\<lambda>e. a \<le> fst e \<and> fst e < b) m"

definition bt_range_incl :: "nat \<Rightarrow> nat \<Rightarrow> 'v btree \<Rightarrow> 'v btree" where
  "bt_range_incl a b m = filter (\<lambda>e. a \<le> fst e \<and> fst e \<le> b) m"

definition bt_from :: "nat \<Rightarrow> 'v btree \<Rightarrow> 'v btree" where
  "bt_from a m = filter (\<lambda>e. a \<le> fst e) m"

text \<open>\<open>Iterator::next\<close> on a view.\<close>

definition bt_next :: "'v btree \<Rightarrow> (nat \<times> 'v) option" where
  "bt_next m = (case m of [] \<Rightarrow> None | e # es \<Rightarrow> Some e)"

section \<open>Membership and order\<close>

lemma bt_wf_Nil [simp]: "bt_wf []"
  by (simp add: bt_wf_def)

lemma bt_wf_Cons: "bt_wf (e # m) \<longleftrightarrow> (\<forall>x \<in> set m. fst e < fst x) \<and> bt_wf m"
  by (auto simp: bt_wf_def)

lemma bt_wf_append:
  "bt_wf (xs @ ys) \<longleftrightarrow> bt_wf xs \<and> bt_wf ys \<and> (\<forall>x \<in> set xs. \<forall>y \<in> set ys. fst x < fst y)"
  by (auto simp: bt_wf_def sorted_wrt_append)

lemma bt_wf_filter [simp]: "bt_wf m \<Longrightarrow> bt_wf (filter P m)"
  by (induction m) (auto simp: bt_wf_Cons)

lemma bt_wf_remove [simp]: "bt_wf m \<Longrightarrow> bt_wf (bt_remove k m)"
  by (simp add: bt_remove_def)

lemma bt_wf_distinct: "bt_wf m \<Longrightarrow> distinct (map fst m)"
  by (simp add: bt_wf_def strict_sorted_iff)

lemma bt_get_in: "bt_wf m \<Longrightarrow> bt_get k m = Some v \<longleftrightarrow> (k, v) \<in> set m"
  by (simp add: bt_get_def bt_wf_distinct)

lemma bt_get_SomeD: "bt_get k m = Some v \<Longrightarrow> (k, v) \<in> set m"
  by (simp add: bt_get_def map_of_SomeD)

lemma bt_get_None: "bt_get k m = None \<longleftrightarrow> (\<forall>e \<in> set m. fst e \<noteq> k)"
  by (auto simp: bt_get_def map_of_eq_None_iff)

lemma bt_wf_unique: "bt_wf m \<Longrightarrow> (k, v) \<in> set m \<Longrightarrow> (k, w) \<in> set m \<Longrightarrow> v = w"
  by (metis bt_get_in option.inject)

lemma set_bt_remove [simp]: "set (bt_remove k m) = {e \<in> set m. fst e \<noteq> k}"
  by (auto simp: bt_remove_def)

lemma set_bt_insert:
  "bt_wf m \<Longrightarrow> set (bt_insert k v m) = insert (k, v) {e \<in> set m. fst e \<noteq> k}"
proof (induction m)
  case Nil
  then show ?case by simp
next
  case (Cons e m)
  then show ?case by (cases e) (auto simp: bt_wf_Cons)
qed

lemma set_bt_insert_subset: "set (bt_insert k v m) \<subseteq> insert (k, v) (set m)"
  by (induction k v m rule: bt_insert.induct) auto

lemma bt_wf_insert [simp]: "bt_wf m \<Longrightarrow> bt_wf (bt_insert k v m)"
proof (induction m)
  case Nil
  then show ?case by (simp add: bt_wf_Cons)
next
  case (Cons e m)
  then show ?case
    by (cases e) (auto simp: bt_wf_Cons set_bt_insert)
qed

lemma bt_get_insert: "bt_wf m \<Longrightarrow> bt_get k' (bt_insert k v m) = (if k' = k then Some v else bt_get k' m)"
proof (induction m)
  case Nil
  then show ?case by (simp add: bt_get_def)
next
  case (Cons e m)
  then show ?case by (cases e) (auto simp: bt_get_def bt_wf_Cons)
qed

lemma bt_get_remove: "bt_get k' (bt_remove k m) = (if k' = k then None else bt_get k' m)"
  by (induction m) (auto simp: bt_get_def bt_remove_def)

lemma length_bt_remove: "bt_get k m = Some v \<Longrightarrow> length (bt_remove k m) < length m"
  unfolding bt_remove_def by (rule length_filter_less [of "(k, v)"]) (auto dest: bt_get_SomeD)

lemma length_bt_remove_wf: "bt_wf m \<Longrightarrow> bt_get k m = Some v \<Longrightarrow> Suc (length (bt_remove k m)) = length m"
proof (induction m)
  case Nil
  then show ?case by (simp add: bt_get_def)
next
  case (Cons e m)
  show ?case
  proof (cases "fst e = k")
    case True
    with Cons.prems have "filter (\<lambda>x. fst x \<noteq> k) m = m"
      by (auto simp: bt_wf_Cons filter_id_conv)
    with True show ?thesis by (simp add: bt_remove_def)
  next
    case False
    with Cons show ?thesis by (cases e) (auto simp: bt_wf_Cons bt_get_def bt_remove_def)
  qed
qed

lemma length_bt_insert: "bt_wf m \<Longrightarrow> bt_get k m = None \<Longrightarrow> length (bt_insert k v m) = Suc (length m)"
proof (induction m)
  case Nil
  then show ?case by simp
next
  case (Cons e m)
  then show ?case by (cases e) (auto simp: bt_wf_Cons bt_get_def split: if_splits)
qed

section \<open>Ranged views\<close>

lemma bt_last_le_SomeD: "bt_last_le k m = Some e \<Longrightarrow> e \<in> set m \<and> fst e \<le> k"
proof -
  assume "bt_last_le k m = Some e"
  then have "filter (\<lambda>e. fst e \<le> k) m \<noteq> []" and "e = last (filter (\<lambda>e. fst e \<le> k) m)"
    by (auto simp: bt_last_le_def split: list.splits)
  then have "e \<in> set (filter (\<lambda>e. fst e \<le> k) m)"
    using last_in_set by metis
  then show ?thesis by simp
qed

lemma bt_wf_last_max: "bt_wf m \<Longrightarrow> x \<in> set m \<Longrightarrow> fst x \<le> fst (last m)"
proof (induction m)
  case Nil
  then show ?case by simp
next
  case (Cons e m)
  then show ?case by (cases "m = []") (auto simp: bt_wf_Cons intro: less_imp_le)
qed

lemma bt_last_le_greatest:
  assumes "bt_wf m" and "bt_last_le k m = Some e" and "x \<in> set m" and "fst x \<le> k"
  shows "fst x \<le> fst e"
proof -
  from assms(2) have "e = last (filter (\<lambda>e. fst e \<le> k) m)"
    by (auto simp: bt_last_le_def split: list.splits)
  with assms show ?thesis
    using bt_wf_last_max [of "filter (\<lambda>e. fst e \<le> k) m" x] by simp
qed

lemma bt_last_le_None: "bt_last_le k m = None \<longleftrightarrow> (\<forall>e \<in> set m. k < fst e)"
proof -
  have "bt_last_le k m = None \<longleftrightarrow> filter (\<lambda>e. fst e \<le> k) m = []"
    by (auto simp: bt_last_le_def split: list.splits)
  then show ?thesis by (auto simp: filter_empty_conv not_le)
qed

lemma bt_next_None [simp]: "bt_next m = None \<longleftrightarrow> m = []"
  by (auto simp: bt_next_def split: list.splits)

lemma bt_next_SomeD: "bt_next m = Some e \<Longrightarrow> e \<in> set m"
  by (auto simp: bt_next_def split: list.splits)

lemma bt_next_least: "bt_wf m \<Longrightarrow> bt_next m = Some e \<Longrightarrow> x \<in> set m \<Longrightarrow> fst e \<le> fst x"
  by (auto simp: bt_next_def bt_wf_Cons split: list.splits)

lemmas bt_set_simps = bt_range_def bt_range_incl_def bt_from_def

section \<open>Uniqueness of the representation\<close>

text \<open>An association list in strictly ascending key order is determined by its entries.\<close>

lemma bt_eqI: "bt_wf m \<Longrightarrow> bt_wf n \<Longrightarrow> set m = set n \<Longrightarrow> m = n"
proof (induction m arbitrary: n)
  case Nil
  then show ?case by simp
next
  case (Cons e m)
  from Cons.prems(3) obtain f n' where n: "n = f # n'" by (cases n) auto
  from Cons.prems n have mem: "e \<in> set (f # n')" "f \<in> set (e # m)"
    and wf: "\<forall>x \<in> set m. fst e < fst x" "\<forall>x \<in> set n'. fst f < fst x" "bt_wf m" "bt_wf n'"
    by (auto simp: bt_wf_Cons)
  then have ef: "e = f" by fastforce
  with Cons.prems(3) n wf have "set m = set n'" by fastforce
  with Cons.IH wf have "m = n'" by blast
  with ef n show ?case by simp
qed

lemma sum_list_bt_remove:
  fixes f :: "nat \<times> 'v \<Rightarrow> nat"
  assumes "bt_wf m" and "(k, v) \<in> set m"
  shows "sum_list (map f (bt_remove k m)) + f (k, v) = sum_list (map f m)"
  using assms
proof (induction m)
  case Nil
  then show ?case by simp
next
  case (Cons e m)
  show ?case
  proof (cases "fst e = k")
    case True
    with Cons.prems have "filter (\<lambda>x. fst x \<noteq> k) m = m" and "e = (k, v)"
      by (auto simp: bt_wf_Cons filter_id_conv)
    then show ?thesis by (simp add: bt_remove_def)
  next
    case False
    with Cons show ?thesis by (auto simp: bt_wf_Cons bt_remove_def)
  qed
qed

lemma sum_list_bt_insert:
  fixes f :: "nat \<times> 'v \<Rightarrow> nat"
  assumes "bt_wf m" and "bt_get k m = None"
  shows "sum_list (map f (bt_insert k v m)) = f (k, v) + sum_list (map f m)"
  using assms
proof (induction m)
  case Nil
  then show ?case by simp
next
  case (Cons e m)
  then show ?case by (cases e) (auto simp: bt_wf_Cons bt_get_def split: if_splits)
qed

section \<open>The contract of an ordered map\<close>

locale ordered_map =
  fixes wf :: "'m \<Rightarrow> bool"
    and lookup :: "nat \<Rightarrow> 'm \<Rightarrow> 'v option"
    and insert_entry :: "nat \<Rightarrow> 'v \<Rightarrow> 'm \<Rightarrow> 'm"
    and remove_entry :: "nat \<Rightarrow> 'm \<Rightarrow> 'm"
    and entries :: "'m \<Rightarrow> (nat \<times> 'v) list"
  assumes wf_insert: "wf m \<Longrightarrow> wf (insert_entry k v m)"
    and wf_remove: "wf m \<Longrightarrow> wf (remove_entry k m)"
    and lookup_insert: "wf m \<Longrightarrow> lookup k' (insert_entry k v m) = (if k' = k then Some v else lookup k' m)"
    and lookup_remove: "wf m \<Longrightarrow> lookup k' (remove_entry k m) = (if k' = k then None else lookup k' m)"
    and lookup_entries: "wf m \<Longrightarrow> lookup k m = Some v \<longleftrightarrow> (k, v) \<in> set (entries m)"
    and entries_sorted: "wf m \<Longrightarrow> sorted_wrt (<) (map fst (entries m))"
begin

lemma entries_insert:
  "wf m \<Longrightarrow> set (entries (insert_entry k v m)) = insert (k, v) {e \<in> set (entries m). fst e \<noteq> k}"
  using lookup_entries [of "insert_entry k v m"] lookup_entries [of m] lookup_insert [of m _ k v]
    wf_insert [of m k v]
  by (auto split: if_splits) (metis option.inject)+

lemma entries_remove: "wf m \<Longrightarrow> set (entries (remove_entry k m)) = {e \<in> set (entries m). fst e \<noteq> k}"
  using lookup_entries [of "remove_entry k m"] lookup_entries [of m] lookup_remove [of m _ k]
    wf_remove [of m k]
  by (auto split: if_splits) (metis option.distinct(1))+

lemma remove_insert:
  "wf m \<Longrightarrow> lookup k m = None \<Longrightarrow> entries (remove_entry k (insert_entry k v m)) = entries m"
proof -
  assume m: "wf m" and k: "lookup k m = None"
  then have notin: "\<forall>w. (k, w) \<notin> set (entries m)"
    using lookup_entries by force
  have "set (entries (remove_entry k (insert_entry k v m))) = set (entries m)"
    using notin by (auto simp: entries_remove entries_insert wf_insert m)
  moreover have "bt_wf (entries (remove_entry k (insert_entry k v m)))" and "bt_wf (entries m)"
    using m by (auto simp: bt_wf_def entries_sorted wf_insert wf_remove)
  ultimately show ?thesis by (intro bt_eqI)
qed

end

interpretation btree_map: ordered_map bt_wf bt_get bt_insert bt_remove "\<lambda>m. m"
  by unfold_locales (auto simp: bt_get_insert bt_get_remove bt_get_in bt_wf_def [symmetric])

end
