(* ===== verification/Range_Set.thy ===== *)
theory Range_Set
  imports Offset_Ranges Btree_Map
begin

text \<open>
  The receive-range set of \<open>src/src/mux/stream.rs\<close> (\<open>RangeSet\<close>, \<open>ReceivedRange\<close>): a
  \<open>BTreeMap\<close> from the start of a received range to its end and a dirty flag. \<open>rs_set\<close> is the
  set of offsets it denotes and \<open>rs_wf\<close> its invariant: ranges are non-empty, ascending and
  separated by at least one offset. The loop of \<open>insert\<close> that absorbs the ranges the new one
  touches is \<open>absorb_ranges\<close>, terminating because each turn removes an entry.

  The locale \<open>interval_store\<close> is the contract the receive stream relies on; it is
  interpreted on the range set at the end.
\<close>

record received_range =
  rr_end :: u64
  rr_dirty :: bool

type_synonym rangeset = "received_range btree"

definition rs_len :: "rangeset \<Rightarrow> usize" where
  "rs_len s = length s"

fun count_merged :: "u64 \<Rightarrow> usize \<Rightarrow> rangeset \<Rightarrow> usize" where
  "count_merged merged_end removed [] = removed"
| "count_merged merged_end removed ((k, r) # rest) =
     (if k > merged_end then removed
      else count_merged (max merged_end (rr_end r)) (saturating_add removed 1) rest)"

definition range_count_after_insert :: "u64 \<Rightarrow> u64 \<Rightarrow> rangeset \<Rightarrow> usize" where
  "range_count_after_insert start e s =
     (if start \<ge> e then length s
      else
        let (merged_end, removed, view) =
              (case bt_last_le start s of
                 Some (previous_start, previous) \<Rightarrow>
                   if rr_end previous \<ge> start
                   then (max e (rr_end previous), 1, filter (\<lambda>x. previous_start < fst x) s)
                   else (e, 0, bt_from start s)
               | None \<Rightarrow> (e, 0, bt_from start s))
        in saturating_add (saturating_sub (length s) (count_merged merged_end removed view)) 1)"

function absorb_ranges :: "u64 \<Rightarrow> u64 \<Rightarrow> rangeset \<Rightarrow> u64 \<times> rangeset" where
  "absorb_ranges start merged_end s =
     (case bt_next (bt_range_incl start merged_end s) of
        None \<Rightarrow> (merged_end, s)
      | Some (k, r) \<Rightarrow> absorb_ranges start (max merged_end (rr_end r)) (bt_remove k s))"
  by pat_completeness auto

lemma bt_next_incl_SomeD:
  "bt_next (bt_range_incl a b s) = Some (k, r) \<Longrightarrow> (k, r) \<in> set s \<and> a \<le> k \<and> k \<le> b"
  by (drule bt_next_SomeD) (auto simp: bt_range_incl_def)

lemma length_bt_remove_in: "(k, r) \<in> set s \<Longrightarrow> length (bt_remove k s) < length s"
  unfolding bt_remove_def by (rule length_filter_less [of "(k, r)"]) auto

termination absorb_ranges
  by (relation "measure (\<lambda>(start, merged_end, s). length s)")
    (auto dest!: bt_next_incl_SomeD intro: length_bt_remove_in)

declare absorb_ranges.simps [simp del]

definition rs_insert :: "u64 \<Rightarrow> u64 \<Rightarrow> rangeset \<Rightarrow> rangeset" where
  "rs_insert start e s =
     (if start \<ge> e then s
      else
        let (merged_start, merged_end, s1) =
              (case bt_last_le start s of
                 Some (prev_start, previous) \<Rightarrow>
                   if rr_end previous \<ge> start
                   then (prev_start, max e (rr_end previous), bt_remove prev_start s)
                   else (start, e, s)
               | None \<Rightarrow> (start, e, s));
            (merged_end', s2) = absorb_ranges start merged_end s1
        in bt_insert merged_start \<lparr>rr_end = merged_end', rr_dirty = True\<rparr> s2)"

definition rs_covers :: "u64 \<Rightarrow> u64 \<Rightarrow> rangeset \<Rightarrow> bool" where
  "rs_covers start e s = (case bt_last_le start s of None \<Rightarrow> False | Some (_, r) \<Rightarrow> rr_end r \<ge> e)"

fun uncovered_loop :: "u64 \<Rightarrow> u64 \<Rightarrow> rangeset \<Rightarrow> offset_range list" where
  "uncovered_loop e cursor [] =
     (if cursor < e then opt_list (OffsetRange_new cursor e) else [])"
| "uncovered_loop e cursor ((k, r) # rest) =
     (if cursor \<ge> e \<or> k \<ge> e
      then (if cursor < e then opt_list (OffsetRange_new cursor e) else [])
      else (if k > cursor then opt_list (OffsetRange_new cursor (min k e)) else [])
           @ uncovered_loop e (max cursor (min (rr_end r) e)) rest)"

definition uncovered_ranges :: "u64 \<Rightarrow> u64 \<Rightarrow> rangeset \<Rightarrow> offset_range list" where
  "uncovered_ranges start e s =
     (if start \<ge> e then []
      else
        let cursor = (case bt_last_le start s of
                        Some (_, r) \<Rightarrow> if rr_end r > start then min (rr_end r) e else start
                      | None \<Rightarrow> start)
        in uncovered_loop e cursor (bt_from start s))"

definition ranges_limited :: "usize \<Rightarrow> rangeset \<Rightarrow> offset_range list" where
  "ranges_limited limit s = List.map_filter (\<lambda>(k, r). OffsetRange_new k (rr_end r)) (take limit s)"

definition rs_ranges :: "rangeset \<Rightarrow> offset_range list" where
  "rs_ranges s = ranges_limited u64_max s"

definition take_changed_ranges :: "rangeset \<Rightarrow> offset_range list \<times> rangeset" where
  "take_changed_ranges s =
     (List.map_filter (\<lambda>(k, r). if rr_dirty r then Some \<lparr>range_start = k, range_end = rr_end r\<rparr> else None) s,
      map (\<lambda>(k, r). (k, r\<lparr>rr_dirty := False\<rparr>)) s)"

record ack_range_summary =
  ars_count :: usize
  ars_largest_end :: u64

definition rs_summary :: "rangeset \<Rightarrow> ack_range_summary" where
  "rs_summary s =
     \<lparr>ars_count = length s, ars_largest_end = (if s = [] then 0 else rr_end (snd (last s)))\<rparr>"

section \<open>Invariant and denotation\<close>

definition rs_wf :: "rangeset \<Rightarrow> bool" where
  "rs_wf s \<longleftrightarrow> (\<forall>e \<in> set s. fst e < rr_end (snd e)) \<and> sorted_wrt (\<lambda>x y. rr_end (snd x) < fst y) s"

definition rs_set :: "rangeset \<Rightarrow> nat set" where
  "rs_set s = (\<Union>e \<in> set s. {fst e..<rr_end (snd e)})"

lemma rs_wf_Nil [simp]: "rs_wf []"
  by (simp add: rs_wf_def)

lemma rs_set_simps [simp]:
  "rs_set [] = {}" "rs_set (e # s) = {fst e..<rr_end (snd e)} \<union> rs_set s"
  "rs_set (s @ t) = rs_set s \<union> rs_set t"
  by (auto simp: rs_set_def)

lemma rs_wf_Cons:
  "rs_wf (e # s) \<longleftrightarrow> fst e < rr_end (snd e) \<and> (\<forall>x \<in> set s. rr_end (snd e) < fst x) \<and> rs_wf s"
  by (auto simp: rs_wf_def)

lemma rs_wf_nonempty: "rs_wf s \<Longrightarrow> e \<in> set s \<Longrightarrow> fst e < rr_end (snd e)"
  by (simp add: rs_wf_def)

lemma rs_wf_filter [simp]: "rs_wf s \<Longrightarrow> rs_wf (filter P s)"
  by (induction s) (auto simp: rs_wf_Cons)

lemma rs_wf_bt_wf: "rs_wf s \<Longrightarrow> bt_wf s"
  by (induction s) (fastforce simp: rs_wf_Cons bt_wf_Cons)+

lemma rs_wf_less:
  "rs_wf s \<Longrightarrow> x \<in> set s \<Longrightarrow> y \<in> set s \<Longrightarrow> fst x < fst y \<Longrightarrow> rr_end (snd x) < fst y"
proof (induction s)
  case Nil
  then show ?case by simp
next
  case (Cons e s)
  then have "\<not> (y = e \<and> x \<in> set s)" by (force simp: rs_wf_Cons)
  with Cons show ?case by (auto simp: rs_wf_Cons)
qed

lemma rs_wf_key_eq: "rs_wf s \<Longrightarrow> x \<in> set s \<Longrightarrow> y \<in> set s \<Longrightarrow> fst x = fst y \<Longrightarrow> x = y"
  by (metis bt_wf_unique prod.collapse rs_wf_bt_wf)

lemma rs_end_notin: "rs_wf s \<Longrightarrow> e \<in> set s \<Longrightarrow> rr_end (snd e) \<notin> rs_set s"
proof
  assume s: "rs_wf s" "e \<in> set s" and "rr_end (snd e) \<in> rs_set s"
  then obtain x where x: "x \<in> set s" "fst x \<le> rr_end (snd e)" "rr_end (snd e) < rr_end (snd x)"
    by (auto simp: rs_set_def)
  then have "fst e \<noteq> fst x" using s rs_wf_key_eq by fastforce
  then consider "fst e < fst x" | "fst x < fst e" by linarith
  then show False
    using rs_wf_less [OF s x(1)] rs_wf_less [OF s(1) x(1) s(2)] rs_wf_nonempty [OF s] x by cases auto
qed

lemma rs_wf_insertI:
  assumes "rs_wf s" and "k < rr_end v" and "\<forall>e \<in> set s. rr_end (snd e) < k \<or> rr_end v < fst e"
  shows "rs_wf (bt_insert k v s)"
  using assms
proof (induction s)
  case Nil
  then show ?case by (simp add: rs_wf_Cons)
next
  case (Cons e s)
  obtain k' v' where e: "e = (k', v')" by force
  from Cons.prems(3) e consider (after) "rr_end v' < k" | (before) "rr_end v < k'" by auto
  then show ?case
  proof cases
    case after
    have "k' < k" using after Cons.prems(1) e by (simp add: rs_wf_Cons)
    moreover have "\<forall>x \<in> set (bt_insert k v s). rr_end v' < fst x"
      using set_bt_insert_subset [of k v s] Cons.prems(1) after e by (auto simp: rs_wf_Cons)
    ultimately show ?thesis using Cons e by (simp add: rs_wf_Cons)
  next
    case before
    then have "k < k'" using Cons.prems(2) by simp
    moreover have "\<forall>x \<in> set s. rr_end v < fst x"
      using Cons.prems(1) before e by (fastforce simp: rs_wf_Cons)
    ultimately show ?thesis using Cons.prems before e by (simp add: rs_wf_Cons)
  qed
qed

section \<open>Insertion\<close>

lemma absorb_ranges_spec:
  assumes "rs_wf s" and "start \<le> me"
    and "absorb_ranges start me s = (me', s')"
  shows "s' = filter (\<lambda>e. \<not> (start \<le> fst e \<and> fst e \<le> me)) s
    \<and> me \<le> me' \<and> (\<forall>e \<in> set s'. start \<le> fst e \<longrightarrow> me' < fst e)
    \<and> {start..<me'} = {start..<me} \<union> rs_set (filter (\<lambda>e. start \<le> fst e \<and> fst e \<le> me) s)"
  using assms
proof (induction "length s" arbitrary: s me rule: less_induct)
  case less
  let ?in = "\<lambda>m e. start \<le> fst e \<and> fst e \<le> m"
  show ?case
  proof (cases "bt_next (bt_range_incl start me s)")
    case None
    then have none: "\<forall>e \<in> set s. \<not> ?in me e"
      by (simp add: bt_range_incl_def filter_empty_conv)
    have "me' = me" "s' = s" using less.prems(3) None by (simp_all add: absorb_ranges.simps)
    then show ?thesis using none by (auto simp: filter_id_conv filter_empty_conv not_le)
  next
    case (Some e)
    obtain k r where e: "e = (k, r)" by force
    have kr: "(k, r) \<in> set s" "start \<le> k" "k \<le> me"
      using bt_next_incl_SomeD [OF Some [unfolded e]] by simp_all
    let ?s1 = "bt_remove k s" and ?m1 = "max me (rr_end r)"
    have rec: "absorb_ranges start ?m1 ?s1 = (me', s')"
      using less.prems(3) Some e by (simp add: absorb_ranges.simps [of start me s])
    have IH: "s' = filter (\<lambda>x. \<not> ?in ?m1 x) ?s1" "?m1 \<le> me'"
      "\<forall>x \<in> set s'. start \<le> fst x \<longrightarrow> me' < fst x"
      "{start..<me'} = {start..<?m1} \<union> rs_set (filter (?in ?m1) ?s1)"
      using less.hyps [OF length_bt_remove_in [OF kr(1)] _ _ rec] less.prems(1,2)
      by (simp_all add: bt_remove_def)
    have same: "?in ?m1 x \<longleftrightarrow> ?in me x" if "x \<in> set s" "fst x \<noteq> k" for x
      using rs_wf_less [OF less.prems(1) kr(1), of x] that kr by (cases "k < fst x") auto
    have "s' = filter (\<lambda>x. \<not> ?in me x) s"
      unfolding IH(1) bt_remove_def filter_filter using same kr by (intro filter_cong) auto
    moreover have "rs_set (filter (?in me) s) = {k..<rr_end r} \<union> rs_set (filter (?in ?m1) ?s1)"
    proof -
      have "x \<in> set (filter (?in me) s) \<longleftrightarrow> x = (k, r) \<or> x \<in> set (filter (?in ?m1) ?s1)" for x
        using same [of x] kr rs_wf_key_eq [OF less.prems(1) _ kr(1), of x] by (cases "fst x = k") auto
      then have "set (filter (?in me) s) = insert (k, r) (set (filter (?in ?m1) ?s1))" by blast
      then show ?thesis by (simp add: rs_set_def)
    qed
    moreover have "{start..<?m1} \<union> X = {start..<me} \<union> ({k..<rr_end r} \<union> X)" for X
      using kr by auto
    ultimately show ?thesis using IH by auto
  qed
qed

text \<open>The ranges the new range touches, and the shape of the result.\<close>

definition touches :: "u64 \<Rightarrow> u64 \<Rightarrow> nat \<times> received_range \<Rightarrow> bool" where
  "touches a b e \<longleftrightarrow> a \<le> rr_end (snd e) \<and> fst e \<le> b"

lemma low_ranges_prev:
  assumes wf: "rs_wf s" and p: "bt_last_le a s = Some (ps, p)" and x: "x \<in> set s" "fst x < a" "fst x \<noteq> ps"
  shows "rr_end (snd x) < ps"
proof -
  have "fst x \<le> ps" using bt_last_le_greatest [OF rs_wf_bt_wf [OF wf] p x(1)] x(2) by simp
  with x(3) have "fst x < fst (ps, p)" by simp
  then show ?thesis using rs_wf_less [OF wf x(1), of "(ps, p)"] bt_last_le_SomeD [OF p] by simp
qed

lemma touches_prev:
  assumes wf: "rs_wf s" and p: "bt_last_le a s = Some (ps, p)" "a \<le> rr_end p" and ab: "a < b"
    and x: "x \<in> set s"
  shows "touches a b x \<longleftrightarrow> fst x = ps \<or> a \<le> fst x \<and> fst x \<le> max b (rr_end p)"
proof -
  have ps: "(ps, p) \<in> set s" "ps \<le> a" using bt_last_le_SomeD [OF p(1)] by auto
  consider (prev) "fst x = ps" | (low) "fst x < a" "fst x \<noteq> ps" | (high) "a \<le> fst x" "fst x \<noteq> ps"
    by linarith
  then show ?thesis
  proof cases
    case prev
    then have "x = (ps, p)" using rs_wf_key_eq [OF wf x ps(1)] by simp
    then show ?thesis using p ps ab by (simp add: touches_def)
  next
    case low
    then show ?thesis using low_ranges_prev [OF wf p(1) x] ps by (simp add: touches_def)
  next
    case high
    then have "rr_end p < fst x" using rs_wf_less [OF wf ps(1) x] ps(2) by simp
    then show ?thesis using high rs_wf_nonempty [OF wf x] by (auto simp: touches_def)
  qed
qed

lemma rs_insert_structure_prev:
  assumes wf: "rs_wf s" and ab: "a < b" and p: "bt_last_le a s = Some (ps, p)" "a \<le> rr_end p"
  shows "\<exists>me. rs_insert a b s
      = bt_insert ps \<lparr>rr_end = me, rr_dirty = True\<rparr> (filter (\<lambda>e. \<not> touches a b e) s)
    \<and> b \<le> me \<and> {ps..<me} = {a..<b} \<union> rs_set (filter (touches a b) s)
    \<and> (\<forall>e \<in> set (filter (\<lambda>e. \<not> touches a b e) s). rr_end (snd e) < ps \<or> me < fst e)"
proof -
  have ps: "(ps, p) \<in> set s" "ps \<le> a" using bt_last_le_SomeD [OF p(1)] by auto
  let ?m = "max b (rr_end p)" and ?s1 = "bt_remove ps s"
  let ?in = "\<lambda>e. a \<le> fst e \<and> fst e \<le> ?m"
  note t = touches_prev [OF wf p ab]
  obtain me s2 where ab2: "absorb_ranges a ?m ?s1 = (me, s2)" by force
  have s1: "rs_wf ?s1" using wf by (simp add: bt_remove_def)
  have am: "a \<le> ?m" using ab by auto
  note spec = absorb_ranges_spec [OF s1 am ab2]
  have s2: "s2 = filter (\<lambda>e. \<not> touches a b e) s"
    unfolding spec [THEN conjunct1] bt_remove_def filter_filter
    by (rule filter_cong) (simp_all add: t)
  have "x \<in> set (filter (touches a b) s) \<longleftrightarrow> x = (ps, p) \<or> x \<in> set (filter ?in ?s1)" for x
    using t [of x] ps rs_wf_key_eq [OF wf _ ps(1), of x] by (cases "fst x = ps") auto
  then have "set (filter (touches a b) s) = insert (ps, p) (set (filter ?in ?s1))" by blast
  then have touched: "rs_set (filter (touches a b) s) = {ps..<rr_end p} \<union> rs_set (filter ?in ?s1)"
    by (simp add: rs_set_def)
  have me: "{a..<me} = {a..<?m} \<union> rs_set (filter ?in ?s1)" "?m \<le> me" using spec by blast+
  have "{ps..<me} = {ps..<a} \<union> {a..<me}" using ps(2) me(2) ab by auto
  also have "\<dots> = {a..<b} \<union> rs_set (filter (touches a b) s)"
    unfolding me(1) touched using ps(2) p(2) by auto
  finally have "{ps..<me} = {a..<b} \<union> rs_set (filter (touches a b) s)" .
  moreover have "rr_end (snd e) < ps \<or> me < fst e" if e: "e \<in> set (filter (\<lambda>e. \<not> touches a b e) s)" for e
  proof (cases "a \<le> fst e")
    case True
    then show ?thesis using spec [THEN conjunct2, THEN conjunct2, THEN conjunct1] e unfolding s2 by blast
  next
    case False
    then show ?thesis using e t [of e] low_ranges_prev [OF wf p(1), of e] by simp
  qed
  moreover have "rs_insert a b s = bt_insert ps \<lparr>rr_end = me, rr_dirty = True\<rparr> (filter (\<lambda>e. \<not> touches a b e) s)"
    using p ab ab2 s2 by (simp add: rs_insert_def)
  moreover have "b \<le> me" using me(2) by simp
  ultimately show ?thesis by blast
qed

lemma low_ranges_fresh:
  assumes wf: "rs_wf s" and f: "\<forall>ps p. bt_last_le a s = Some (ps, p) \<longrightarrow> rr_end p < a"
    and x: "x \<in> set s" "fst x < a"
  shows "rr_end (snd x) < a"
proof -
  obtain ps p where p: "bt_last_le a s = Some (ps, p)"
    using x bt_last_le_None [of a s] by (cases "bt_last_le a s") auto
  then have "(ps, p) \<in> set s" "ps \<le> a" "rr_end p < a" using f bt_last_le_SomeD [OF p] by auto
  then show ?thesis
    using low_ranges_prev [OF wf p x] rs_wf_key_eq [OF wf x(1), of "(ps, p)"] by (cases "fst x = ps") auto
qed

lemma rs_insert_structure_fresh:
  assumes wf: "rs_wf s" and ab: "a < b" and f: "\<forall>ps p. bt_last_le a s = Some (ps, p) \<longrightarrow> rr_end p < a"
  shows "\<exists>me. rs_insert a b s
      = bt_insert a \<lparr>rr_end = me, rr_dirty = True\<rparr> (filter (\<lambda>e. \<not> touches a b e) s)
    \<and> b \<le> me \<and> {a..<me} = {a..<b} \<union> rs_set (filter (touches a b) s)
    \<and> (\<forall>e \<in> set (filter (\<lambda>e. \<not> touches a b e) s). rr_end (snd e) < a \<or> me < fst e)"
proof -
  obtain me s2 where ab2: "absorb_ranges a b s = (me, s2)" by force
  have "a \<le> b" using ab by simp
  note spec = absorb_ranges_spec [OF wf this ab2]
  have t: "touches a b x \<longleftrightarrow> a \<le> fst x \<and> fst x \<le> b" if "x \<in> set s" for x
    using low_ranges_fresh [OF wf f that] rs_wf_nonempty [OF wf that]
    by (cases "a \<le> fst x") (auto simp: touches_def)
  have ft: "filter (touches a b) s = filter (\<lambda>e. a \<le> fst e \<and> fst e \<le> b) s"
    by (rule filter_cong) (simp_all add: t)
  have s2: "s2 = filter (\<lambda>e. \<not> touches a b e) s"
    unfolding spec [THEN conjunct1] by (rule filter_cong) (simp_all add: t)
  have "rr_end (snd e) < a \<or> me < fst e" if e: "e \<in> set (filter (\<lambda>e. \<not> touches a b e) s)" for e
  proof (cases "a \<le> fst e")
    case True
    then show ?thesis using spec [THEN conjunct2, THEN conjunct2, THEN conjunct1] e unfolding s2 by blast
  next
    case False
    then show ?thesis using e low_ranges_fresh [OF wf f, of e] by simp
  qed
  moreover have "rs_insert a b s = bt_insert a \<lparr>rr_end = me, rr_dirty = True\<rparr> (filter (\<lambda>e. \<not> touches a b e) s)"
    using f ab ab2 s2 by (cases "bt_last_le a s") (auto simp: rs_insert_def)
  ultimately show ?thesis using spec unfolding ft by blast
qed

lemma rs_insert_structure:
  assumes wf: "rs_wf s" and ab: "a < b"
  shows "\<exists>ms me. rs_insert a b s
      = bt_insert ms \<lparr>rr_end = me, rr_dirty = True\<rparr> (filter (\<lambda>e. \<not> touches a b e) s)
    \<and> ms \<le> a \<and> b \<le> me \<and> {ms..<me} = {a..<b} \<union> rs_set (filter (touches a b) s)
    \<and> (\<forall>e \<in> set (filter (\<lambda>e. \<not> touches a b e) s). rr_end (snd e) < ms \<or> me < fst e)"
proof (cases "\<exists>ps p. bt_last_le a s = Some (ps, p) \<and> a \<le> rr_end p")
  case True
  then obtain ps p where p: "bt_last_le a s = Some (ps, p)" "a \<le> rr_end p" by blast
  moreover have "ps \<le> a" using bt_last_le_SomeD [OF p(1)] by simp
  ultimately show ?thesis using rs_insert_structure_prev [OF wf ab p] by blast
next
  case False
  then have "\<forall>ps p. bt_last_le a s = Some (ps, p) \<longrightarrow> rr_end p < a" by (auto simp: not_le)
  from rs_insert_structure_fresh [OF wf ab this] show ?thesis by blast
qed

lemma rs_set_split: "rs_set s = rs_set (filter P s) \<union> rs_set (filter (\<lambda>e. \<not> P e) s)"
  by (auto simp: rs_set_def)

lemma set_bt_insert_new: "bt_wf m \<Longrightarrow> \<forall>e \<in> set m. fst e \<noteq> k \<Longrightarrow> set (bt_insert k v m) = insert (k, v) (set m)"
  by (auto simp: set_bt_insert)

lemma rs_insert_correct:
  assumes wf: "rs_wf s"
  shows "rs_wf (rs_insert a b s) \<and> rs_set (rs_insert a b s) = rs_set s \<union> {a..<b}"
proof (cases "a < b")
  case False
  then show ?thesis using wf by (simp add: rs_insert_def)
next
  case True
  let ?rest = "filter (\<lambda>e. \<not> touches a b e) s"
  obtain ms me where i: "rs_insert a b s = bt_insert ms \<lparr>rr_end = me, rr_dirty = True\<rparr> ?rest"
    "ms \<le> a" "b \<le> me" "{ms..<me} = {a..<b} \<union> rs_set (filter (touches a b) s)"
    "\<forall>e \<in> set ?rest. rr_end (snd e) < ms \<or> me < fst e"
    using rs_insert_structure [OF wf True] by blast
  have lt: "ms < me" using i True by simp
  have rest: "rs_wf ?rest" using wf by simp
  have "fst e \<noteq> ms" if "e \<in> set ?rest" for e
    using i(5) that lt rs_wf_nonempty [OF rest that] by fastforce
  then have "set (rs_insert a b s) = insert (ms, \<lparr>rr_end = me, rr_dirty = True\<rparr>) (set ?rest)"
    unfolding i(1) by (intro set_bt_insert_new rs_wf_bt_wf rest) blast
  then have "rs_set (rs_insert a b s) = {ms..<me} \<union> rs_set ?rest" by (simp add: rs_set_def)
  also have "\<dots> = rs_set s \<union> {a..<b}" unfolding i(4) using rs_set_split [of s "touches a b"] by blast
  finally show ?thesis using rs_wf_insertI [OF rest, of ms "\<lparr>rr_end = me, rr_dirty = True\<rparr>"] lt i by simp
qed

lemmas rs_wf_insert = rs_insert_correct [THEN conjunct1]
lemmas rs_set_insert = rs_insert_correct [THEN conjunct2]

text \<open>An entry of the result is dirty unless it was there before.\<close>

lemma rs_insert_clean_entries:
  assumes "rs_wf s" and "e \<in> set (rs_insert a b s)"
  shows "e \<in> set s \<or> rr_dirty (snd e)"
proof (cases "a < b")
  case True
  then obtain ms me where "rs_insert a b s
      = bt_insert ms \<lparr>rr_end = me, rr_dirty = True\<rparr> (filter (\<lambda>e. \<not> touches a b e) s)"
    using rs_insert_structure [OF assms(1)] by blast
  then show ?thesis
    using assms(2) set_bt_insert_subset [of ms "\<lparr>rr_end = me, rr_dirty = True\<rparr>" "filter (\<lambda>e. \<not> touches a b e) s"]
    by auto
qed (use assms in \<open>simp add: rs_insert_def\<close>)

section \<open>The retained-node count preview\<close>

lemma count_merged_filter:
  "rs_wf v \<Longrightarrow> n + length v \<le> u64_max
    \<Longrightarrow> count_merged me n v = n + length (filter (\<lambda>e. fst e \<le> me) v)"
proof (induction v arbitrary: me n)
  case Nil
  then show ?case by simp
next
  case (Cons e v)
  obtain k r where e: "e = (k, r)" by force
  have above: "\<forall>x \<in> set v. rr_end r < fst x" "k < rr_end r" using Cons.prems(1) e by (auto simp: rs_wf_Cons)
  show ?case
  proof (cases "k > me")
    case True
    then have "filter (\<lambda>e. fst e \<le> me) v = []" using above by (fastforce simp: filter_empty_conv)
    then show ?thesis using True e by simp
  next
    case False
    have "filter (\<lambda>e. fst e \<le> max me (rr_end r)) v = filter (\<lambda>e. fst e \<le> me) v"
      using above by (intro filter_cong) auto
    then show ?thesis using Cons False e by (simp add: saturating_add_def rs_wf_Cons)
  qed
qed

lemma length_touched_prev:
  assumes wf: "rs_wf s" and ab: "a < b" and p: "bt_last_le a s = Some (ps, p)" "a \<le> rr_end p"
  shows "length (filter (touches a b) s)
    = Suc (length (filter (\<lambda>e. fst e \<le> max b (rr_end p)) (filter (\<lambda>e. ps < fst e) s)))"
proof -
  have ps: "(ps, p) \<in> set s" "ps \<le> a" using bt_last_le_SomeD [OF p(1)] by auto
  let ?m = "max b (rr_end p)"
  have low: "fst x < ps" if "x \<in> set s" "fst x < a" "fst x \<noteq> ps" for x
    using low_ranges_prev [OF wf p(1) that] rs_wf_nonempty [OF wf that(1)] by linarith
  have cond: "touches a b x \<and> fst x \<noteq> ps \<longleftrightarrow> fst x \<le> ?m \<and> ps < fst x" if "x \<in> set s" for x
    using touches_prev [OF wf p ab that] low [OF that] ps(2) by (cases "a \<le> fst x") auto
  have rest: "bt_remove ps (filter (touches a b) s) = filter (\<lambda>e. fst e \<le> ?m) (filter (\<lambda>e. ps < fst e) s)"
    unfolding bt_remove_def filter_filter by (rule filter_cong) (use cond in auto)
  have "(ps, p) \<in> set (filter (touches a b) s)"
    using ps touches_prev [OF wf p ab ps(1)] by simp
  then have "bt_get ps (filter (touches a b) s) = Some p"
    by (simp only: bt_get_in [OF rs_wf_bt_wf [OF rs_wf_filter [OF wf]]])
  from length_bt_remove_wf [OF rs_wf_bt_wf [OF rs_wf_filter [OF wf]] this] rest show ?thesis by simp
qed

lemma length_touched_fresh:
  assumes wf: "rs_wf s" and f: "\<forall>ps p. bt_last_le a s = Some (ps, p) \<longrightarrow> rr_end p < a"
  shows "filter (touches a b) s = filter (\<lambda>e. fst e \<le> b) (bt_from a s)"
  unfolding bt_from_def filter_filter
proof (rule filter_cong)
  fix x assume x: "x \<in> set s"
  show "touches a b x \<longleftrightarrow> a \<le> fst x \<and> fst x \<le> b"
    using low_ranges_fresh [OF wf f x] rs_wf_nonempty [OF wf x]
    by (cases "a \<le> fst x") (auto simp: touches_def)
qed simp

lemma length_rs_insert:
  assumes wf: "rs_wf s" and ab: "a < b"
  shows "length (rs_insert a b s) = Suc (length s - length (filter (touches a b) s))"
proof -
  let ?rest = "filter (\<lambda>e. \<not> touches a b e) s"
  obtain ms me where i: "rs_insert a b s = bt_insert ms \<lparr>rr_end = me, rr_dirty = True\<rparr> ?rest"
    "ms \<le> a" "b \<le> me" "\<forall>e \<in> set ?rest. rr_end (snd e) < ms \<or> me < fst e"
    using rs_insert_structure [OF wf ab] by blast
  have rest: "rs_wf ?rest" using wf by simp
  have "fst e \<noteq> ms" if "e \<in> set ?rest" for e
    using i that ab rs_wf_nonempty [OF rest that] by fastforce
  then have "bt_get ms ?rest = None" using bt_get_None by blast
  then have "length (rs_insert a b s) = Suc (length ?rest)"
    unfolding i(1) by (rule length_bt_insert [OF rs_wf_bt_wf [OF rest]])
  then show ?thesis using sum_length_filter_compl [of "touches a b" s] by simp
qed

lemma range_count_after_insert_eq:
  assumes wf: "rs_wf s" and len: "length s < u64_max"
  shows "range_count_after_insert a b s = length (rs_insert a b s)"
proof (cases "a < b")
  case False
  then show ?thesis by (simp add: range_count_after_insert_def rs_insert_def)
next
  case ab: True
  note bound = length_filter_le [where xs = s]
  have len': "Suc (length (filter P s)) \<le> u64_max" for P
    using len bound [of P] by linarith
  show ?thesis
  proof (cases "\<exists>ps p. bt_last_le a s = Some (ps, p) \<and> a \<le> rr_end p")
    case True
    then obtain ps p where p: "bt_last_le a s = Some (ps, p)" "a \<le> rr_end p" by blast
    then have "count_merged (max b (rr_end p)) 1 (filter (\<lambda>e. ps < fst e) s) = length (filter (touches a b) s)"
      using count_merged_filter [of "filter (\<lambda>e. ps < fst e) s" 1] wf len'
      by (simp add: length_touched_prev [OF wf ab p])
    then show ?thesis using p ab len by (simp add: range_count_after_insert_def length_rs_insert [OF wf ab] saturating_add_def)
  next
    case False
    then have f: "\<forall>ps p. bt_last_le a s = Some (ps, p) \<longrightarrow> rr_end p < a" by (auto simp: not_le)
    have "count_merged b 0 (bt_from a s) = length (filter (touches a b) s)"
      using count_merged_filter [of "bt_from a s" 0] wf len' [THEN Suc_leD]
      by (simp add: length_touched_fresh [OF wf f] bt_from_def)
    then show ?thesis using f ab len
      by (cases "bt_last_le a s")
        (auto simp: range_count_after_insert_def length_rs_insert [OF wf ab] saturating_add_def)
  qed
qed

section \<open>Coverage queries\<close>

lemma rs_covers_iff:
  assumes wf: "rs_wf s" and ab: "a < b"
  shows "rs_covers a b s \<longleftrightarrow> {a..<b} \<subseteq> rs_set s"
proof
  assume "rs_covers a b s"
  then obtain k r where p: "bt_last_le a s = Some (k, r)" and "b \<le> rr_end r"
    by (auto simp: rs_covers_def split: option.splits)
  moreover have "(k, r) \<in> set s" "k \<le> a" using bt_last_le_SomeD [OF p] by auto
  ultimately have "{a..<b} \<subseteq> {fst (k, r)..<rr_end (snd (k, r))}" "(k, r) \<in> set s" by auto
  then show "{a..<b} \<subseteq> rs_set s" unfolding rs_set_def by blast
next
  assume sub: "{a..<b} \<subseteq> rs_set s"
  then obtain e where e: "e \<in> set s" "fst e \<le> a" "a < rr_end (snd e)" using ab by (fastforce simp: rs_set_def)
  have "bt_last_le a s \<noteq> None" using e bt_last_le_None [of a s] by fastforce
  then obtain k r where p: "bt_last_le a s = Some (k, r)" by auto
  have kr: "(k, r) \<in> set s" "k \<le> a" using bt_last_le_SomeD [OF p] by auto
  have "fst e \<le> k" using bt_last_le_greatest [OF rs_wf_bt_wf [OF wf] p e(1,2)] by simp
  then have "e = (k, r)"
    using rs_wf_less [OF wf e(1) kr(1)] rs_wf_key_eq [OF wf e(1) kr(1)] e kr by (cases "fst e = k") auto
  then have "rr_end r \<notin> {a..<b}" "a < rr_end r" using rs_end_notin [OF wf kr(1)] subsetD [OF sub, of "rr_end r"] e by auto
  then show "rs_covers a b s" using p by (simp add: rs_covers_def)
qed

lemma OffsetRange_new_less: "a < b \<Longrightarrow> OffsetRange_new a b = Some \<lparr>range_start = a, range_end = b\<rparr>"
  by (simp add: OffsetRange_new_def)

lemma uncovered_loop_spec:
  "rs_wf v \<Longrightarrow> ranges_set (uncovered_loop e c v) = {c..<e} - rs_set v
    \<and> ranges_norm (uncovered_loop e c v)
    \<and> (\<forall>r \<in> set (uncovered_loop e c v). c \<le> range_start r)"
proof (induction v arbitrary: c)
  case Nil
  then show ?case by (simp add: OffsetRange_new_less ranges_norm_Cons)
next
  case (Cons x v)
  obtain k r where x: "x = (k, r)" by force
  have wf: "rs_wf v" "k < rr_end r" and above: "\<And>y. y \<in> set v \<Longrightarrow> rr_end r < fst y"
    using Cons.prems x by (auto simp: rs_wf_Cons)
  have high: "y \<in> rs_set v \<Longrightarrow> rr_end r < y" for y
    unfolding rs_set_def using above by (meson UN_E atLeastLessThan_iff less_le_trans)
  show ?case
  proof (cases "c \<ge> e \<or> k \<ge> e")
    case True
    have "{c..<e} \<inter> rs_set (x # v) = {}" using True x wf(2) by (auto dest: high)
    then have "{c..<e} - rs_set (x # v) = {c..<e}" by blast
    then show ?thesis using True x by (simp add: OffsetRange_new_less ranges_norm_Cons)
  next
    case False
    let ?c = "max c (min (rr_end r) e)"
    note IH = Cons.IH [OF wf(1), of ?c]
    have c: "k < ?c" "c \<le> ?c" using wf(2) False by auto
    then have tail: "k < range_start q" "c \<le> range_start q" if "q \<in> set (uncovered_loop e ?c v)" for q
      using IH that by (meson less_le_trans order_trans)+
    have "{c..<e} - rs_set (x # v) = (if k > c then {c..<k} else {}) \<union> ({?c..<e} - rs_set v)"
      using False x wf(2) by (auto dest: high)
    then show ?thesis using IH tail False x
      by (simp add: OffsetRange_new_less ranges_norm_Cons min_def)
  qed
qed

lemma rs_set_from:
  assumes wf: "rs_wf s"
    and c: "c = (case bt_last_le a s of Some (_, r) \<Rightarrow> if rr_end r > a then min (rr_end r) b else a | None \<Rightarrow> a)"
    and ab: "a < b"
  shows "{a..<b} - rs_set s = {c..<b} - rs_set (bt_from a s)"
proof (cases "bt_last_le a s")
  case None
  then have "bt_from a s = s" using bt_last_le_None [of a s] by (auto simp: bt_from_def filter_id_conv)
  then show ?thesis using c None by simp
next
  case (Some p)
  obtain k r where p: "p = (k, r)" by force
  note last = Some [unfolded p]
  have kr: "(k, r) \<in> set s" "k \<le> a" using bt_last_le_SomeD [OF last] by auto
  have out: "y \<in> rs_set s \<longleftrightarrow> y \<in> {k..<rr_end r} \<or> y \<in> rs_set (bt_from a s)" if "a \<le> y" for y
  proof -
    have "y < rr_end (snd x) \<Longrightarrow> fst x \<le> y \<Longrightarrow> x \<in> set s \<Longrightarrow> x = (k, r) \<or> a \<le> fst x" for x
      using low_ranges_prev [OF wf last, of x] rs_wf_key_eq [OF wf _ kr(1), of x] kr that
      by (cases "fst x = k") auto
    then have "y \<in> rs_set s \<Longrightarrow> y \<in> {k..<rr_end r} \<or> y \<in> rs_set (bt_from a s)"
      unfolding rs_set_def bt_from_def by fastforce
    moreover have "{k..<rr_end r} \<subseteq> rs_set s" using kr(1) unfolding rs_set_def by force
    moreover have "rs_set (bt_from a s) \<subseteq> rs_set s" unfolding rs_set_def bt_from_def by auto
    ultimately show ?thesis by blast
  qed
  have "y \<in> {a..<b} - rs_set s \<longleftrightarrow> y \<in> {c..<b} - rs_set (bt_from a s)" for y
    using out [of y] c kr Some p ab by (cases "a \<le> y") auto
  then show ?thesis by blast
qed

lemma uncovered_ranges_correct:
  assumes "rs_wf s"
  shows "ranges_set (uncovered_ranges a b s) = {a..<b} - rs_set s \<and> ranges_norm (uncovered_ranges a b s)"
proof (cases "a < b")
  case False
  then show ?thesis by (simp add: uncovered_ranges_def ranges_set_def ranges_norm_def)
next
  case True
  define c where "c = (case bt_last_le a s of Some (_, r) \<Rightarrow> if rr_end r > a then min (rr_end r) b else a | None \<Rightarrow> a)"
  have "uncovered_ranges a b s = uncovered_loop b c (bt_from a s)"
    using True by (simp add: uncovered_ranges_def c_def)
  then show ?thesis
    using uncovered_loop_spec [of "bt_from a s" b c] rs_set_from [OF assms c_def True] assms
    by (simp add: bt_from_def)
qed

section \<open>Range views and the dirty flags\<close>

lemma ranges_limited_map:
  "rs_wf s \<Longrightarrow> ranges_limited n s = map (\<lambda>(k, r). \<lparr>range_start = k, range_end = rr_end r\<rparr>) (take n s)"
proof (induction s arbitrary: n)
  case Nil
  then show ?case by (simp add: ranges_limited_def List.map_filter_def)
next
  case (Cons e s)
  then show ?case
    by (cases n; cases e)
      (auto simp: ranges_limited_def List.map_filter_def rs_wf_Cons OffsetRange_new_def)
qed

lemma ranges_limited_0 [simp]: "ranges_limited 0 s = []"
  by (simp add: ranges_limited_def List.map_filter_def)

lemma ranges_of_map:
  "ranges_set (map (\<lambda>(k, r). \<lparr>range_start = k, range_end = rr_end r\<rparr>) s) = rs_set s"
  "rs_wf s \<Longrightarrow> ranges_norm (map (\<lambda>(k, r). \<lparr>range_start = k, range_end = rr_end r\<rparr>) s)"
  by (induction s) (auto simp: ranges_norm_Cons rs_wf_Cons)

lemma rs_wf_take: "rs_wf s \<Longrightarrow> rs_wf (take n s)"
  by (auto simp: rs_wf_def sorted_wrt_take dest: in_set_takeD)

lemma ranges_limited_correct:
  assumes "rs_wf s"
  shows "ranges_norm (ranges_limited n s)" "ranges_set (ranges_limited n s) = rs_set (take n s)"
  using assms by (simp_all add: ranges_limited_map ranges_of_map rs_wf_take)

lemma rs_ranges_correct:
  assumes "rs_wf s" and "length s \<le> u64_max"
  shows "ranges_norm (rs_ranges s)" "ranges_set (rs_ranges s) = rs_set s"
  using ranges_limited_correct [OF assms(1), of u64_max] assms(2) by (simp_all add: rs_ranges_def)

lemma take_changed_ranges_map:
  "fst (take_changed_ranges s)
    = map (\<lambda>(k, r). \<lparr>range_start = k, range_end = rr_end r\<rparr>) (filter (\<lambda>e. rr_dirty (snd e)) s)"
  by (induction s) (auto simp: take_changed_ranges_def List.map_filter_def split: if_splits)

lemma take_changed_ranges_correct:
  assumes "rs_wf s"
  shows "ranges_norm (fst (take_changed_ranges s))"
    "ranges_set (fst (take_changed_ranges s)) = rs_set (filter (\<lambda>e. rr_dirty (snd e)) s)"
    "rs_wf (snd (take_changed_ranges s))"
    "rs_set (snd (take_changed_ranges s)) = rs_set s"
    "\<forall>e \<in> set (snd (take_changed_ranges s)). \<not> rr_dirty (snd e)"
proof -
  show "ranges_norm (fst (take_changed_ranges s))"
    "ranges_set (fst (take_changed_ranges s)) = rs_set (filter (\<lambda>e. rr_dirty (snd e)) s)"
    using assms by (simp_all add: take_changed_ranges_map ranges_of_map)
  show "rs_wf (snd (take_changed_ranges s))"
    using assms by (induction s) (auto simp: take_changed_ranges_def rs_wf_Cons)
  show "rs_set (snd (take_changed_ranges s)) = rs_set s"
    by (induction s) (auto simp: take_changed_ranges_def)
  show "\<forall>e \<in> set (snd (take_changed_ranges s)). \<not> rr_dirty (snd e)"
    by (auto simp: take_changed_ranges_def)
qed

lemma rs_summary_largest_end:
  assumes "rs_wf s"
  shows "rs_set s \<subseteq> {..<ars_largest_end (rs_summary s)}"
proof (cases s rule: rev_cases)
  case (snoc t e)
  have "rr_end (snd x) < rr_end (snd e)" if "x \<in> set t" for x
    using assms that unfolding snoc by (fastforce simp: rs_wf_def sorted_wrt_append)
  then show ?thesis unfolding snoc by (fastforce simp: rs_set_def rs_summary_def)
qed simp

section \<open>The contract of the range set\<close>

text \<open>
  What the receive stream relies on: a store of offsets with an insertion that adds exactly an
  interval, a coverage test, and the maximal uncovered parts of an interval.
\<close>

locale interval_store =
  fixes wf :: "'s \<Rightarrow> bool"
    and covered :: "'s \<Rightarrow> nat set"
    and ins :: "nat \<Rightarrow> nat \<Rightarrow> 's \<Rightarrow> 's"
    and covers :: "nat \<Rightarrow> nat \<Rightarrow> 's \<Rightarrow> bool"
    and uncovered :: "nat \<Rightarrow> nat \<Rightarrow> 's \<Rightarrow> offset_range list"
  assumes ins_wf: "wf s \<Longrightarrow> wf (ins a b s)"
    and ins_covered: "wf s \<Longrightarrow> covered (ins a b s) = covered s \<union> {a..<b}"
    and covers_iff: "wf s \<Longrightarrow> a < b \<Longrightarrow> covers a b s \<longleftrightarrow> {a..<b} \<subseteq> covered s"
    and uncovered_set: "wf s \<Longrightarrow> ranges_set (uncovered a b s) = {a..<b} - covered s"
    and uncovered_norm: "wf s \<Longrightarrow> ranges_norm (uncovered a b s)"
begin

lemma covers_after_ins: "wf s \<Longrightarrow> a < b \<Longrightarrow> covers a b (ins a b s)"
  by (simp add: covers_iff ins_wf ins_covered)

lemma uncovered_Nil_iff: "wf s \<Longrightarrow> a < b \<Longrightarrow> uncovered a b s = [] \<longleftrightarrow> covers a b s"
proof -
  assume s: "wf s" "a < b"
  have "uncovered a b s = [] \<longleftrightarrow> ranges_set (uncovered a b s) = {}"
    using uncovered_norm [OF s(1), of a b] by (cases "uncovered a b s") (auto simp: ranges_norm_Cons range_set_def)
  then show ?thesis using s by (simp add: uncovered_set covers_iff)
qed

lemma uncovered_piece:
  assumes "wf s" and "r \<in> set (uncovered a b s)"
  shows "range_start r < range_end r" "{range_start r..<range_end r} \<subseteq> {a..<b} - covered s"
    "a \<le> range_start r" "range_end r \<le> b"
proof -
  show lt: "range_start r < range_end r" using uncovered_norm [OF assms(1)] assms(2) by (auto simp: ranges_norm_def)
  show sub: "{range_start r..<range_end r} \<subseteq> {a..<b} - covered s"
    unfolding uncovered_set [OF assms(1), symmetric] ranges_set_def range_set_def using assms(2) by blast
  have "range_start r \<in> {range_start r..<range_end r}" "range_end r - 1 \<in> {range_start r..<range_end r}"
    using lt by auto
  then have "range_start r \<in> {a..<b}" "range_end r - 1 \<in> {a..<b}" using sub by blast+
  then show "a \<le> range_start r" "range_end r \<le> b" using lt by auto
qed

lemma uncovered_covers: "wf s \<Longrightarrow> r \<in> set (uncovered a b s) \<Longrightarrow> \<not> covers (range_start r) (range_end r) s"
  using uncovered_piece [of s r a b] by (simp add: covers_iff) fastforce

lemma ins_uncovered_pieces:
  "wf s \<Longrightarrow> covered (fold (\<lambda>r. ins (range_start r) (range_end r)) (uncovered a b s) s) = covered (ins a b s)"
proof -
  assume s: "wf s"
  have "wf (fold (\<lambda>r. ins (range_start r) (range_end r)) rs s)
    \<and> covered (fold (\<lambda>r. ins (range_start r) (range_end r)) rs s) = covered s \<union> ranges_set rs" for rs
    using s by (induction rs arbitrary: s) (auto simp: ins_wf ins_covered range_set_def)
  then show ?thesis using s by (simp add: uncovered_set ins_covered)
qed

end

interpretation range_store: interval_store rs_wf rs_set rs_insert rs_covers uncovered_ranges
  by unfold_locales
    (simp_all add: rs_wf_insert rs_set_insert rs_covers_iff uncovered_ranges_correct)

end
