(* ===== verification/Chunk_Store.thy ===== *)
theory Chunk_Store
  imports Btree_Map
begin

text \<open>
  Payload chunks keyed by their stream offset, the shape of both the receive reorder buffer and
  the send reinjection cache of \<open>src/src/mux/stream.rs\<close>, and the errors of the two streams
  (\<open>StreamError\<close>). \<open>chunks_ok\<close> says the chunks are non-empty and do not overlap,
  \<open>chunks_set\<close> is the set of offsets they hold, \<open>chunks_len\<close> the bytes they hold, and
  \<open>chunks_of f\<close> says that they are pieces of the byte stream \<open>f\<close>.
\<close>

datatype stream_error =
    EmptyPayload
  | PayloadTooLarge usize usize
  | FlowControlBlocked u64 u64
  | FlowControlViolation u64 u64
  | ReinjectionCacheFull usize usize
  | TooManyReinjectionCacheChunks usize usize
  | ReorderBufferFull usize usize
  | TooManyReorderBufferChunks usize usize
  | TooManyReceiveRanges usize usize
  | TooManyAckRanges usize usize
  | InvalidAckRange u64 u64
  | AckRangeBeyondAssigned u64 u64 u64
  | OverlappingData
  | OffsetOverflow
  | InvalidPreparedFrame

type_synonym chunks = "byte list btree"

definition chunk_end :: "nat \<times> byte list \<Rightarrow> nat" where
  "chunk_end e = fst e + length (snd e)"

definition chunk_set :: "nat \<times> byte list \<Rightarrow> nat set" where
  "chunk_set e = {fst e..<chunk_end e}"

definition chunks_set :: "chunks \<Rightarrow> nat set" where
  "chunks_set m = (\<Union>e \<in> set m. chunk_set e)"

definition chunks_len :: "chunks \<Rightarrow> nat" where
  "chunks_len m = sum_list (map (length \<circ> snd) m)"

definition chunks_ok :: "chunks \<Rightarrow> bool" where
  "chunks_ok m \<longleftrightarrow> (\<forall>e \<in> set m. snd e \<noteq> []) \<and> sorted_wrt (\<lambda>x y. chunk_end x \<le> fst y) m"

definition chunks_of :: "(nat \<Rightarrow> byte) \<Rightarrow> chunks \<Rightarrow> bool" where
  "chunks_of f m \<longleftrightarrow> (\<forall>e \<in> set m. snd e = seg f (fst e) (chunk_end e))"

lemma chunk_end_mk [simp]: "chunk_end (k, c) = k + length c"
  by (simp add: chunk_end_def)

lemma chunk_set_mk [simp]: "chunk_set (k, c) = {k..<k + length c}"
  by (simp add: chunk_set_def)

lemma chunks_simps [simp]:
  "chunks_set [] = {}" "chunks_set (e # m) = chunk_set e \<union> chunks_set m"
  "chunks_set (m @ m') = chunks_set m \<union> chunks_set m'"
  "chunks_len [] = 0" "chunks_len (e # m) = length (snd e) + chunks_len m"
  "chunks_len (m @ m') = chunks_len m + chunks_len m'"
  "chunks_ok []" "chunks_of f []"
  "chunks_of f (e # m) \<longleftrightarrow> snd e = seg f (fst e) (chunk_end e) \<and> chunks_of f m"
  "chunks_of f (m @ m') \<longleftrightarrow> chunks_of f m \<and> chunks_of f m'"
  by (auto simp: chunks_set_def chunks_len_def chunks_ok_def chunks_of_def)

lemma chunks_ok_Cons:
  "chunks_ok (e # m) \<longleftrightarrow> snd e \<noteq> [] \<and> (\<forall>x \<in> set m. chunk_end e \<le> fst x) \<and> chunks_ok m"
  by (auto simp: chunks_ok_def)

lemma chunks_ok_append:
  "chunks_ok (m @ m') \<longleftrightarrow> chunks_ok m \<and> chunks_ok m' \<and> (\<forall>x \<in> set m. \<forall>y \<in> set m'. chunk_end x \<le> fst y)"
  by (auto simp: chunks_ok_def sorted_wrt_append)

lemma chunks_ok_filter [simp]: "chunks_ok m \<Longrightarrow> chunks_ok (filter P m)"
  by (induction m) (auto simp: chunks_ok_Cons)

lemma chunks_of_filter: "chunks_of f m \<Longrightarrow> chunks_of f (filter P m)"
  by (simp add: chunks_of_def)

lemma chunks_set_mono: "set m \<subseteq> set m' \<Longrightarrow> chunks_set m \<subseteq> chunks_set m'"
  by (auto simp: chunks_set_def)

lemma chunk_nonempty: "chunks_ok m \<Longrightarrow> e \<in> set m \<Longrightarrow> fst e < chunk_end e"
  by (auto simp: chunks_ok_def chunk_end_def)

lemma chunks_ok_bt_wf: "chunks_ok m \<Longrightarrow> bt_wf m"
proof (induction m)
  case (Cons e m)
  then have "fst e < chunk_end e" by (auto intro: chunk_nonempty)
  with Cons show ?case by (fastforce simp: chunks_ok_Cons bt_wf_Cons)
qed simp

lemma chunks_ok_less:
  assumes "chunks_ok m" "x \<in> set m" "y \<in> set m" "fst x < fst y"
  shows "chunk_end x \<le> fst y"
  using assms
proof (induction m)
  case (Cons e m)
  have "\<not> (y = e \<and> x \<in> set m)"
    using Cons.prems chunk_nonempty [OF Cons.prems(1), of e] by (fastforce simp: chunks_ok_Cons)
  then show ?case using Cons by (auto simp: chunks_ok_Cons)
qed simp

lemma chunks_ok_key_eq: "chunks_ok m \<Longrightarrow> x \<in> set m \<Longrightarrow> y \<in> set m \<Longrightarrow> fst x = fst y \<Longrightarrow> x = y"
  by (metis bt_wf_unique prod.collapse chunks_ok_bt_wf)

lemma chunk_set_disjoint:
  assumes "chunks_ok m" "x \<in> set m" "y \<in> set m" "x \<noteq> y"
  shows "chunk_set x \<inter> chunk_set y = {}"
proof -
  have "fst x \<noteq> fst y" using chunks_ok_key_eq [OF assms(1-3)] assms(4) by blast
  then consider "fst x < fst y" | "fst y < fst x" by linarith
  then show ?thesis
    using chunks_ok_less [OF assms(1-3)] chunks_ok_less [OF assms(1,3,2)] by cases (auto simp: chunk_set_def)
qed

lemma chunk_in_set: "e \<in> set m \<Longrightarrow> chunk_set e \<subseteq> chunks_set m"
  by (auto simp: chunks_set_def)

lemma chunk_start_in_set: "chunks_ok m \<Longrightarrow> e \<in> set m \<Longrightarrow> fst e \<in> chunks_set m"
  using chunk_in_set [of e m] chunk_nonempty [of m e] by (auto simp: chunk_set_def)

lemma chunks_set_lower: "(\<And>e. e \<in> set m \<Longrightarrow> n \<le> fst e) \<Longrightarrow> x \<in> chunks_set m \<Longrightarrow> n \<le> x"
  by (force simp: chunks_set_def chunk_set_def)

lemma chunks_set_above: "\<forall>e \<in> set m. n < fst e \<Longrightarrow> x \<in> chunks_set m \<Longrightarrow> n < x"
  using chunks_set_lower [of m "Suc n" x] by (metis Suc_le_eq)

lemma chunks_len_remove:
  "bt_wf m \<Longrightarrow> bt_get k m = Some c \<Longrightarrow> chunks_len m = length c + chunks_len (bt_remove k m)"
  using sum_list_bt_remove [of m k c "length \<circ> snd"] bt_get_SomeD [of k m c]
  by (simp add: chunks_len_def comp_def)

lemma chunks_len_insert:
  "bt_wf m \<Longrightarrow> bt_get k m = None \<Longrightarrow> chunks_len (bt_insert k c m) = length c + chunks_len m"
  using sum_list_bt_insert [where f = "length \<circ> snd" and m = m and k = k and v = c] by (simp add: chunks_len_def comp_def)

lemma chunks_ok_remove [simp]: "chunks_ok m \<Longrightarrow> chunks_ok (bt_remove k m)"
  by (simp add: bt_remove_def)

lemma length_le_chunks_len: "chunks_ok m \<Longrightarrow> length m \<le> chunks_len m"
proof (induction m)
  case (Cons e m)
  then show ?case by (cases "snd e") (auto simp: chunks_ok_Cons)
qed simp

text \<open>A chunk that does not meet the others can be inserted.\<close>

lemma disjoint_chunk_sides:
  assumes "chunks_ok m" and "c \<noteq> []" and "{k..<k + length c} \<inter> chunks_set m = {}" and "e \<in> set m"
  shows "chunk_end e \<le> k \<or> k + length c \<le> fst e"
proof -
  have e: "chunk_set e \<inter> {k..<k + length c} = {}" "fst e < chunk_end e"
    using assms chunk_in_set [OF assms(4)] chunk_nonempty [OF assms(1,4)] by auto
  show ?thesis
  proof (rule ccontr)
    assume "\<not> ?thesis"
    then have "max k (fst e) \<in> chunk_set e \<inter> {k..<k + length c}"
      using e(2) assms(2) by (auto simp: chunk_set_def max_def)
    with e(1) show False by blast
  qed
qed

lemma disjoint_chunk_key:
  assumes "chunks_ok m" and "c \<noteq> []" and "{k..<k + length c} \<inter> chunks_set m = {}"
  shows "bt_get k m = None"
proof -
  have "k \<in> {k..<k + length c}" using assms(2) by (cases c) auto
  then have "k \<notin> chunks_set m" using assms(3) by blast
  then show ?thesis using chunk_start_in_set [OF assms(1)] bt_get_None by metis
qed

lemma chunks_ok_insert:
  assumes "chunks_ok m" and "c \<noteq> []" and "{k..<k + length c} \<inter> chunks_set m = {}"
  shows "chunks_ok (bt_insert k c m)"
proof -
  have sides: "\<forall>e \<in> set m. chunk_end e \<le> k \<or> k + length c \<le> fst e"
    using disjoint_chunk_sides [OF assms] by blast
  show ?thesis using assms(1) sides
  proof (induction m)
    case Nil
    then show ?case using assms(2) by (simp add: chunks_ok_Cons)
  next
    case (Cons e m)
    obtain k' c' where e: "e = (k', c')" by force
    have e0: "k' < k' + length c'" using chunk_nonempty [OF Cons.prems(1), of e] e by simp
    from Cons.prems(2) e consider (after) "k' + length c' \<le> k" | (before) "k + length c \<le> k'" by auto
    then show ?case
    proof cases
      case after
      have "\<forall>x \<in> set (bt_insert k c m). k' + length c' \<le> fst x"
        using set_bt_insert_subset [of k c m] Cons.prems(1) after e by (auto simp: chunks_ok_Cons)
      moreover have "k' < k" by (rule less_le_trans [OF e0 after])
      ultimately show ?thesis using Cons e by (simp add: chunks_ok_Cons)
    next
      case before
      moreover have "0 < length c" using assms(2) by simp
      ultimately have "k < k'" by linarith
      moreover have "k + length c \<le> fst x" if "x \<in> set m" for x
        using Cons.prems(1) before e that by (simp add: chunks_ok_Cons) (meson le_add1 order_trans)
      ultimately show ?thesis using Cons.prems before e assms(2) by (simp add: chunks_ok_Cons)
    qed
  qed
qed

lemma chunks_insert:
  assumes "chunks_ok m" and "bt_get k m = None"
  shows "set (bt_insert k c m) = insert (k, c) (set m)"
    "chunks_set (bt_insert k c m) = {k..<k + length c} \<union> chunks_set m"
proof -
  show "set (bt_insert k c m) = insert (k, c) (set m)"
    using set_bt_insert [OF chunks_ok_bt_wf [OF assms(1)], of k c] assms(2) by (auto simp: bt_get_None)
  then show "chunks_set (bt_insert k c m) = {k..<k + length c} \<union> chunks_set m"
    by (simp add: chunks_set_def)
qed

lemma length_filter_insert:
  "bt_get k m = None \<Longrightarrow> bt_wf m
    \<Longrightarrow> length (filter P (bt_insert k c m)) = (if P (k, c) then 1 else 0) + length (filter P m)"
  by (induction m) (auto simp: bt_wf_Cons bt_get_None)

text \<open>Removing a chunk takes exactly its offsets away.\<close>

lemma chunks_set_remove:
  assumes "chunks_ok m" and "bt_get k m = Some c"
  shows "chunks_set (bt_remove k m) = chunks_set m - {k..<k + length c}"
proof -
  have kc: "(k, c) \<in> set m" using bt_get_SomeD [OF assms(2)] .
  have "set m = insert (k, c) (set (bt_remove k m))"
    using kc chunks_ok_key_eq [OF assms(1) kc] by (auto simp: image_iff)
  then have "chunks_set m = \<Union> (chunk_set ` insert (k, c) (set (bt_remove k m)))"
    unfolding chunks_set_def by (rule arg_cong)
  then have "chunks_set m = {k..<k + length c} \<union> chunks_set (bt_remove k m)"
    by (simp add: chunks_set_def)
  moreover have "{k..<k + length c} \<inter> chunks_set (bt_remove k m) = {}"
  proof -
    have "chunk_set (k, c) \<inter> chunk_set e = {}" if e: "e \<in> set (bt_remove k m)" for e
    proof -
      from e have "e \<in> set m" "(k, c) \<noteq> e" by auto
      then show ?thesis by (rule chunk_set_disjoint [OF assms(1) kc])
    qed
    then show ?thesis unfolding chunks_set_def chunk_set_mk by blast
  qed
  ultimately show ?thesis by blast
qed

text \<open>A finite set of offsets held by chunks has as many elements as the chunks have bytes.\<close>

lemma card_chunks_set: "chunks_ok m \<Longrightarrow> card (chunks_set m) = chunks_len m \<and> finite (chunks_set m)"
proof (induction m)
  case (Cons e m)
  have "chunk_end e \<le> x" if "x \<in> chunks_set m" for x
    using Cons.prems that by (intro chunks_set_lower [of m "chunk_end e" x]) (auto simp: chunks_ok_Cons)
  then have "chunk_set e \<inter> chunks_set m = {}" by (force simp: chunk_set_def)
  moreover have "finite (chunk_set e)" "card (chunk_set e) = length (snd e)"
    by (simp_all add: chunk_set_def chunk_end_def)
  ultimately show ?case
    using Cons by (simp add: chunks_ok_Cons card_Un_disjoint)
qed simp

end
