(* ===== verification/Resource_Limits.thy ===== *)
theory Resource_Limits
  imports Prelude
begin

text \<open>
  The configured bounds: \<open>ResourceLimits\<close> with its defaults and \<open>validate\<close>
  (\<open>src/src/performance.rs\<close>), and the two views the components receive, \<open>MuxLimits\<close>
  (\<open>src/src/mux/limits.rs\<close>) and \<open>CodecLimits\<close> (\<open>src/src/protocol/codec.rs\<close>).
  A \<open>Duration\<close> is its number of nanoseconds.
\<close>

type_synonym duration = nat

definition duration_from_millis :: "u64 \<Rightarrow> duration" where
  "duration_from_millis ms = ms * 1000000"

definition as_millis :: "duration \<Rightarrow> nat" where
  "as_millis d = d div 1000000"

section \<open>Default bounds\<close>

definition DEFAULT_STREAM_WINDOW_BYTES :: u64 where
  "DEFAULT_STREAM_WINDOW_BYTES = 64 * 1024 * 1024"

definition DEFAULT_REPAIR_BYTES :: usize where
  "DEFAULT_REPAIR_BYTES = 64 * 1024 * 1024"

definition DEFAULT_REORDER_BYTES :: usize where
  "DEFAULT_REORDER_BYTES = 64 * 1024 * 1024"

definition DEFAULT_DATAGRAM_QUEUE_BYTES :: usize where
  "DEFAULT_DATAGRAM_QUEUE_BYTES = 16 * 1024 * 1024"

definition DEFAULT_PATH_FLIGHT_BYTES :: usize where
  "DEFAULT_PATH_FLIGHT_BYTES = DEFAULT_REPAIR_BYTES"

definition DEFAULT_MAX_RELIABLE_RELAY_CHUNK_BYTES :: usize where
  "DEFAULT_MAX_RELIABLE_RELAY_CHUNK_BYTES = 512 * 1024"

definition DEFAULT_MAX_REINJECTION_CACHE_CHUNKS :: usize where
  "DEFAULT_MAX_REINJECTION_CACHE_CHUNKS = 65536"

definition DEFAULT_MAX_REORDER_BUFFER_CHUNKS :: usize where
  "DEFAULT_MAX_REORDER_BUFFER_CHUNKS = 65536"

definition DEFAULT_MAX_RETAINED_RECEIVE_RANGES :: usize where
  "DEFAULT_MAX_RETAINED_RECEIVE_RANGES = 65536"

definition DEFAULT_MAX_STREAMS :: usize where
  "DEFAULT_MAX_STREAMS = 65536"

definition DEFAULT_MAX_QUIC_CONCURRENT_BIDI_STREAMS :: usize where
  "DEFAULT_MAX_QUIC_CONCURRENT_BIDI_STREAMS = DEFAULT_MAX_STREAMS * 2 + 1"

definition DEFAULT_MAX_QUIC_LOSS_JOURNAL_BYTES :: usize where
  "DEFAULT_MAX_QUIC_LOSS_JOURNAL_BYTES = 64 * 1024 * 1024"

definition DEFAULT_TCP_PATH_HEARTBEAT_INTERVAL :: duration where
  "DEFAULT_TCP_PATH_HEARTBEAT_INTERVAL = duration_from_millis 10000"

definition DEFAULT_TCP_PATH_HEARTBEAT_TIMEOUT :: duration where
  "DEFAULT_TCP_PATH_HEARTBEAT_TIMEOUT = duration_from_millis 30000"

definition DEFAULT_QUIC_PATH_KEEP_ALIVE_INTERVAL :: duration where
  "DEFAULT_QUIC_PATH_KEEP_ALIVE_INTERVAL = duration_from_millis 10000"

definition DEFAULT_QUIC_PATH_IDLE_TIMEOUT :: duration where
  "DEFAULT_QUIC_PATH_IDLE_TIMEOUT = duration_from_millis 30000"

definition MAX_QUIC_VARINT :: nat where
  "MAX_QUIC_VARINT = 2 ^ 62 - 1"

lemmas default_limit_defs =
  DEFAULT_STREAM_WINDOW_BYTES_def
  DEFAULT_REPAIR_BYTES_def
  DEFAULT_REORDER_BYTES_def
  DEFAULT_DATAGRAM_QUEUE_BYTES_def
  DEFAULT_PATH_FLIGHT_BYTES_def
  DEFAULT_MAX_RELIABLE_RELAY_CHUNK_BYTES_def
  DEFAULT_MAX_REINJECTION_CACHE_CHUNKS_def
  DEFAULT_MAX_REORDER_BUFFER_CHUNKS_def
  DEFAULT_MAX_RETAINED_RECEIVE_RANGES_def
  DEFAULT_MAX_STREAMS_def
  DEFAULT_MAX_QUIC_CONCURRENT_BIDI_STREAMS_def
  DEFAULT_MAX_QUIC_LOSS_JOURNAL_BYTES_def
  DEFAULT_TCP_PATH_HEARTBEAT_INTERVAL_def
  DEFAULT_TCP_PATH_HEARTBEAT_TIMEOUT_def
  DEFAULT_QUIC_PATH_KEEP_ALIVE_INTERVAL_def
  DEFAULT_QUIC_PATH_IDLE_TIMEOUT_def
  MAX_QUIC_VARINT_def

section \<open>Resource limits\<close>

record resource_limits =
  rl_max_frame_bytes :: "usize"
  rl_max_payload_bytes :: "usize"
  rl_max_ack_ranges :: "usize"
  rl_max_paths :: "usize"
  rl_max_streams :: "usize"
  rl_max_quic_concurrent_bidi_streams :: "usize"
  rl_max_quic_loss_journal_bytes :: "usize"
  rl_max_stream_window_bytes :: "u64"
  rl_max_repair_bytes :: "usize"
  rl_max_reorder_bytes :: "usize"
  rl_max_reinjection_cache_chunks :: "usize"
  rl_max_reorder_buffer_chunks :: "usize"
  rl_max_retained_receive_ranges :: "usize"
  rl_max_datagram_queue_bytes :: "usize"
  rl_max_path_flight_bytes :: "usize"
  rl_max_reliable_relay_chunk_bytes :: "usize"
  rl_max_response_prefetch_bytes :: "usize option"
  rl_tcp_path_heartbeat_interval :: "duration"
  rl_tcp_path_heartbeat_timeout :: "duration"
  rl_quic_path_keep_alive_interval :: "duration"
  rl_quic_path_idle_timeout :: "duration"

definition default_resource_limits :: resource_limits where
  "default_resource_limits =
     \<lparr>rl_max_frame_bytes = 1048576,
      rl_max_payload_bytes = 1048512,
      rl_max_ack_ranges = 256,
      rl_max_paths = 64,
      rl_max_streams = DEFAULT_MAX_STREAMS,
      rl_max_quic_concurrent_bidi_streams = DEFAULT_MAX_QUIC_CONCURRENT_BIDI_STREAMS,
      rl_max_quic_loss_journal_bytes = DEFAULT_MAX_QUIC_LOSS_JOURNAL_BYTES,
      rl_max_stream_window_bytes = DEFAULT_STREAM_WINDOW_BYTES,
      rl_max_repair_bytes = DEFAULT_REPAIR_BYTES,
      rl_max_reorder_bytes = DEFAULT_REORDER_BYTES,
      rl_max_reinjection_cache_chunks = DEFAULT_MAX_REINJECTION_CACHE_CHUNKS,
      rl_max_reorder_buffer_chunks = DEFAULT_MAX_REORDER_BUFFER_CHUNKS,
      rl_max_retained_receive_ranges = DEFAULT_MAX_RETAINED_RECEIVE_RANGES,
      rl_max_datagram_queue_bytes = DEFAULT_DATAGRAM_QUEUE_BYTES,
      rl_max_path_flight_bytes = DEFAULT_PATH_FLIGHT_BYTES,
      rl_max_reliable_relay_chunk_bytes = DEFAULT_MAX_RELIABLE_RELAY_CHUNK_BYTES,
      rl_max_response_prefetch_bytes = None,
      rl_tcp_path_heartbeat_interval = DEFAULT_TCP_PATH_HEARTBEAT_INTERVAL,
      rl_tcp_path_heartbeat_timeout = DEFAULT_TCP_PATH_HEARTBEAT_TIMEOUT,
      rl_quic_path_keep_alive_interval = DEFAULT_QUIC_PATH_KEEP_ALIVE_INTERVAL,
      rl_quic_path_idle_timeout = DEFAULT_QUIC_PATH_IDLE_TIMEOUT\<rparr>"

datatype resource_limit_error =
    FrameLimitTooSmall
  | PayloadLimitExceedsFrameLimit
  | AckRangeLimitZero
  | PathLimitZero
  | PathLimitTooLarge
  | StreamLimitZero
  | QuicBidiStreamLimitZero
  | StreamWindowLimitZero
  | ReinjectionLimitTooSmall
  | ReorderLimitTooSmall
  | ReinjectionCacheChunkLimitZero
  | ReorderBufferChunkLimitZero
  | RetainedReceiveRangeLimitZero
  | DatagramQueueLimitTooSmall
  | MaxReliableRelayChunkBytesZero
  | MaxReliableRelayChunkExceedsPayloadLimit
  | MaxResponsePrefetchBytesZero
  | PathFlightLimitTooSmall
  | PathFlightLimitExceedsReinjectionLimit
  | TcpPathHeartbeatIntervalZero
  | TcpPathHeartbeatTimeoutZero
  | TcpPathHeartbeatTimeoutTooSmall
  | QuicPathKeepAliveIntervalZero
  | QuicPathIdleTimeoutZero
  | QuicPathIdleTimeoutTooSmall
  | QuicPathIdleTimeoutTooLarge

definition resource_limits_validate :: "resource_limits \<Rightarrow> resource_limit_error + unit" where
  "resource_limits_validate r =
     (if rl_max_frame_bytes r < 64 then Inl FrameLimitTooSmall
      else if rl_max_payload_bytes r > saturating_sub (rl_max_frame_bytes r) 16 then Inl PayloadLimitExceedsFrameLimit
      else if rl_max_ack_ranges r = 0 then Inl AckRangeLimitZero
      else if rl_max_paths r = 0 then Inl PathLimitZero
      else if rl_max_paths r > 65535 then Inl PathLimitTooLarge
      else if rl_max_streams r = 0 then Inl StreamLimitZero
      else if rl_max_quic_concurrent_bidi_streams r = 0 then Inl QuicBidiStreamLimitZero
      else if rl_max_stream_window_bytes r = 0 then Inl StreamWindowLimitZero
      else if rl_max_repair_bytes r < rl_max_payload_bytes r then Inl ReinjectionLimitTooSmall
      else if rl_max_reorder_bytes r < rl_max_payload_bytes r then Inl ReorderLimitTooSmall
      else if rl_max_reinjection_cache_chunks r = 0 then Inl ReinjectionCacheChunkLimitZero
      else if rl_max_reorder_buffer_chunks r = 0 then Inl ReorderBufferChunkLimitZero
      else if rl_max_retained_receive_ranges r = 0 then Inl RetainedReceiveRangeLimitZero
      else if rl_max_datagram_queue_bytes r < rl_max_payload_bytes r then Inl DatagramQueueLimitTooSmall
      else if rl_max_reliable_relay_chunk_bytes r = 0 then Inl MaxReliableRelayChunkBytesZero
      else if rl_max_reliable_relay_chunk_bytes r > rl_max_payload_bytes r then Inl MaxReliableRelayChunkExceedsPayloadLimit
      else if rl_max_response_prefetch_bytes r = Some 0 then Inl MaxResponsePrefetchBytesZero
      else if rl_max_path_flight_bytes r < rl_max_reliable_relay_chunk_bytes r then Inl PathFlightLimitTooSmall
      else if rl_max_path_flight_bytes r > rl_max_repair_bytes r then Inl PathFlightLimitExceedsReinjectionLimit
      else if rl_tcp_path_heartbeat_interval r = 0 then Inl TcpPathHeartbeatIntervalZero
      else if rl_tcp_path_heartbeat_timeout r = 0 then Inl TcpPathHeartbeatTimeoutZero
      else if rl_tcp_path_heartbeat_timeout r < rl_tcp_path_heartbeat_interval r then Inl TcpPathHeartbeatTimeoutTooSmall
      else if rl_quic_path_keep_alive_interval r = 0 then Inl QuicPathKeepAliveIntervalZero
      else if rl_quic_path_idle_timeout r = 0 then Inl QuicPathIdleTimeoutZero
      else if rl_quic_path_idle_timeout r \<le> rl_quic_path_keep_alive_interval r then Inl QuicPathIdleTimeoutTooSmall
      else if as_millis (rl_quic_path_idle_timeout r) > MAX_QUIC_VARINT then Inl QuicPathIdleTimeoutTooLarge
      else Inr ())"

section \<open>The limits of the codec and of the multiplexer\<close>

record codec_limits =
  cl_max_frame_bytes :: usize
  cl_max_payload_bytes :: usize
  cl_max_ack_ranges :: usize
  cl_max_host_bytes :: usize
  cl_max_paths :: usize

definition default_codec_limits :: codec_limits where
  "default_codec_limits =
     \<lparr>cl_max_frame_bytes = 1048576, cl_max_payload_bytes = 1048512, cl_max_ack_ranges = 256,
      cl_max_host_bytes = 255, cl_max_paths = 64\<rparr>"

definition codec_limits_from :: "resource_limits \<Rightarrow> codec_limits" where
  "codec_limits_from r =
     \<lparr>cl_max_frame_bytes = rl_max_frame_bytes r, cl_max_payload_bytes = rl_max_payload_bytes r,
      cl_max_ack_ranges = rl_max_ack_ranges r, cl_max_host_bytes = 255, cl_max_paths = rl_max_paths r\<rparr>"

record mux_limits =
  ml_max_payload_bytes :: "usize"
  ml_max_ack_ranges :: "usize"
  ml_max_streams :: "usize"
  ml_max_quic_concurrent_bidi_streams :: "usize"
  ml_max_quic_loss_journal_bytes :: "usize"
  ml_max_stream_window_bytes :: "u64"
  ml_max_repair_bytes :: "usize"
  ml_max_reorder_bytes :: "usize"
  ml_max_reinjection_cache_chunks :: "usize"
  ml_max_reorder_buffer_chunks :: "usize"
  ml_max_retained_receive_ranges :: "usize"
  ml_max_datagram_queue_bytes :: "usize"
  ml_max_path_flight_bytes :: "usize"
  ml_max_reliable_relay_chunk_bytes :: "usize"
  ml_tcp_path_heartbeat_interval :: "duration"
  ml_tcp_path_heartbeat_timeout :: "duration"
  ml_quic_path_keep_alive_interval :: "duration"
  ml_quic_path_idle_timeout :: "duration"

definition default_mux_limits :: mux_limits where
  "default_mux_limits =
     \<lparr>ml_max_payload_bytes = 1048512,
      ml_max_ack_ranges = 256,
      ml_max_streams = 65536,
      ml_max_quic_concurrent_bidi_streams = DEFAULT_MAX_QUIC_CONCURRENT_BIDI_STREAMS,
      ml_max_quic_loss_journal_bytes = DEFAULT_MAX_QUIC_LOSS_JOURNAL_BYTES,
      ml_max_stream_window_bytes = DEFAULT_STREAM_WINDOW_BYTES,
      ml_max_repair_bytes = DEFAULT_REPAIR_BYTES,
      ml_max_reorder_bytes = DEFAULT_REORDER_BYTES,
      ml_max_reinjection_cache_chunks = DEFAULT_MAX_REINJECTION_CACHE_CHUNKS,
      ml_max_reorder_buffer_chunks = DEFAULT_MAX_REORDER_BUFFER_CHUNKS,
      ml_max_retained_receive_ranges = DEFAULT_MAX_RETAINED_RECEIVE_RANGES,
      ml_max_datagram_queue_bytes = DEFAULT_DATAGRAM_QUEUE_BYTES,
      ml_max_path_flight_bytes = DEFAULT_PATH_FLIGHT_BYTES,
      ml_max_reliable_relay_chunk_bytes = DEFAULT_MAX_RELIABLE_RELAY_CHUNK_BYTES,
      ml_tcp_path_heartbeat_interval = DEFAULT_TCP_PATH_HEARTBEAT_INTERVAL,
      ml_tcp_path_heartbeat_timeout = DEFAULT_TCP_PATH_HEARTBEAT_TIMEOUT,
      ml_quic_path_keep_alive_interval = DEFAULT_QUIC_PATH_KEEP_ALIVE_INTERVAL,
      ml_quic_path_idle_timeout = DEFAULT_QUIC_PATH_IDLE_TIMEOUT\<rparr>"

definition mux_limits_from :: "resource_limits \<Rightarrow> mux_limits" where
  "mux_limits_from r =
     \<lparr>ml_max_payload_bytes = rl_max_payload_bytes r,
      ml_max_ack_ranges = rl_max_ack_ranges r,
      ml_max_streams = rl_max_streams r,
      ml_max_quic_concurrent_bidi_streams = rl_max_quic_concurrent_bidi_streams r,
      ml_max_quic_loss_journal_bytes = rl_max_quic_loss_journal_bytes r,
      ml_max_stream_window_bytes = rl_max_stream_window_bytes r,
      ml_max_repair_bytes = rl_max_repair_bytes r,
      ml_max_reorder_bytes = rl_max_reorder_bytes r,
      ml_max_reinjection_cache_chunks = rl_max_reinjection_cache_chunks r,
      ml_max_reorder_buffer_chunks = rl_max_reorder_buffer_chunks r,
      ml_max_retained_receive_ranges = rl_max_retained_receive_ranges r,
      ml_max_datagram_queue_bytes = rl_max_datagram_queue_bytes r,
      ml_max_path_flight_bytes = rl_max_path_flight_bytes r,
      ml_max_reliable_relay_chunk_bytes = rl_max_reliable_relay_chunk_bytes r,
      ml_tcp_path_heartbeat_interval = rl_tcp_path_heartbeat_interval r,
      ml_tcp_path_heartbeat_timeout = rl_tcp_path_heartbeat_timeout r,
      ml_quic_path_keep_alive_interval = rl_quic_path_keep_alive_interval r,
      ml_quic_path_idle_timeout = rl_quic_path_idle_timeout r\<rparr>"

section \<open>What a validated configuration guarantees\<close>

text \<open>
  The bounds a component relies on: a maximal payload fits every byte ceiling, no count ceiling
  is zero, and a path may hold at least one relay chunk without exceeding the repair ceiling.
\<close>

definition mux_limits_consistent :: "mux_limits \<Rightarrow> bool" where
  "mux_limits_consistent l \<longleftrightarrow>
     0 < ml_max_payload_bytes l
     \<and> ml_max_payload_bytes l \<le> ml_max_repair_bytes l
     \<and> ml_max_payload_bytes l \<le> ml_max_reorder_bytes l
     \<and> ml_max_payload_bytes l \<le> ml_max_datagram_queue_bytes l
     \<and> 0 < ml_max_ack_ranges l \<and> 0 < ml_max_streams l
     \<and> 0 < ml_max_quic_concurrent_bidi_streams l \<and> 0 < ml_max_stream_window_bytes l
     \<and> 0 < ml_max_reinjection_cache_chunks l \<and> 0 < ml_max_reorder_buffer_chunks l
     \<and> 0 < ml_max_retained_receive_ranges l
     \<and> 0 < ml_max_reliable_relay_chunk_bytes l
     \<and> ml_max_reliable_relay_chunk_bytes l \<le> ml_max_payload_bytes l
     \<and> ml_max_reliable_relay_chunk_bytes l \<le> ml_max_path_flight_bytes l
     \<and> ml_max_path_flight_bytes l \<le> ml_max_repair_bytes l
     \<and> 0 < ml_tcp_path_heartbeat_interval l
     \<and> ml_tcp_path_heartbeat_interval l \<le> ml_tcp_path_heartbeat_timeout l
     \<and> 0 < ml_quic_path_keep_alive_interval l
     \<and> ml_quic_path_keep_alive_interval l < ml_quic_path_idle_timeout l
     \<and> as_millis (ml_quic_path_idle_timeout l) \<le> MAX_QUIC_VARINT"

definition codec_limits_consistent :: "codec_limits \<Rightarrow> bool" where
  "codec_limits_consistent l \<longleftrightarrow>
     64 \<le> cl_max_frame_bytes l \<and> cl_max_payload_bytes l + 16 \<le> cl_max_frame_bytes l
     \<and> 0 < cl_max_ack_ranges l \<and> 0 < cl_max_paths l \<and> cl_max_paths l < 2 ^ 16"

text \<open>
  \<open>validate\<close> accepts a configuration exactly when the multiplexer and codec limits made
  from it are consistent and the optional response prefetch ceiling is not zero.
\<close>

theorem resource_limits_validate_exact:
  "resource_limits_validate r = Inr () \<longleftrightarrow>
     mux_limits_consistent (mux_limits_from r) \<and> codec_limits_consistent (codec_limits_from r)
     \<and> rl_max_response_prefetch_bytes r \<noteq> Some 0"
proof -
  have "resource_limits_validate r = Inr () \<longleftrightarrow> \<not> (rl_max_frame_bytes r < 64)
      \<and> \<not> (rl_max_payload_bytes r > saturating_sub (rl_max_frame_bytes r) 16)
      \<and> \<not> (rl_max_ack_ranges r = 0)
      \<and> \<not> (rl_max_paths r = 0)
      \<and> \<not> (rl_max_paths r > 65535)
      \<and> \<not> (rl_max_streams r = 0)
      \<and> \<not> (rl_max_quic_concurrent_bidi_streams r = 0)
      \<and> \<not> (rl_max_stream_window_bytes r = 0)
      \<and> \<not> (rl_max_repair_bytes r < rl_max_payload_bytes r)
      \<and> \<not> (rl_max_reorder_bytes r < rl_max_payload_bytes r)
      \<and> \<not> (rl_max_reinjection_cache_chunks r = 0)
      \<and> \<not> (rl_max_reorder_buffer_chunks r = 0)
      \<and> \<not> (rl_max_retained_receive_ranges r = 0)
      \<and> \<not> (rl_max_datagram_queue_bytes r < rl_max_payload_bytes r)
      \<and> \<not> (rl_max_reliable_relay_chunk_bytes r = 0)
      \<and> \<not> (rl_max_reliable_relay_chunk_bytes r > rl_max_payload_bytes r)
      \<and> \<not> (rl_max_response_prefetch_bytes r = Some 0)
      \<and> \<not> (rl_max_path_flight_bytes r < rl_max_reliable_relay_chunk_bytes r)
      \<and> \<not> (rl_max_path_flight_bytes r > rl_max_repair_bytes r)
      \<and> \<not> (rl_tcp_path_heartbeat_interval r = 0)
      \<and> \<not> (rl_tcp_path_heartbeat_timeout r = 0)
      \<and> \<not> (rl_tcp_path_heartbeat_timeout r < rl_tcp_path_heartbeat_interval r)
      \<and> \<not> (rl_quic_path_keep_alive_interval r = 0)
      \<and> \<not> (rl_quic_path_idle_timeout r = 0)
      \<and> \<not> (rl_quic_path_idle_timeout r \<le> rl_quic_path_keep_alive_interval r)
      \<and> \<not> (as_millis (rl_quic_path_idle_timeout r) > MAX_QUIC_VARINT)"
    unfolding resource_limits_validate_def by (simp only: sum.distinct if_split_eq1 simp_thms not_False_eq_True not_True_eq_False) blast
  then show ?thesis
    by (auto simp: mux_limits_consistent_def codec_limits_consistent_def mux_limits_from_def
        codec_limits_from_def)
qed

lemma default_resource_limits_valid: "resource_limits_validate default_resource_limits = Inr ()"
  by (simp add: resource_limits_validate_def default_resource_limits_def default_limit_defs
      duration_from_millis_def as_millis_def)

lemma default_limits_agree:
  "mux_limits_from default_resource_limits = default_mux_limits"
  "codec_limits_from default_resource_limits = default_codec_limits"
  by (simp_all add: mux_limits_from_def codec_limits_from_def default_resource_limits_def
      default_mux_limits_def default_codec_limits_def default_limit_defs)

end
