(* ===== verification/Recv_Stream.thy ===== *)
theory Recv_Stream
  imports Range_Set Chunk_Store Resource_Limits
begin

text \<open>
  The receive half of a reliable stream, \<open>ReliableRecvStream\<close> of
  \<open>src/src/mux/stream.rs\<close>: \<open>receive_data\<close> with its fast path and its reordering path, the
  exact previews it consults at the configured ceilings, the acknowledgement frames and the
  flow-control frames. \<open>recv_inv\<close> is the invariant of the stream; \<open>recv_of f\<close> adds that
  the buffered bytes are bytes of the sent stream \<open>f\<close>.
\<close>

record recv_chunk_outcome =
  ro_delivered :: "byte list list"

type_synonym receive_outcome = recv_chunk_outcome

record recv_stream =
  rv_stream_id :: stream_id
  rv_next_offset :: u64
  rv_published_max_offset :: u64
  rv_reorder_bytes :: usize
  rv_buffered :: chunks
  rv_received_ranges :: rangeset
  rv_ack_high_water :: u64
  rv_limits :: mux_limits

definition recv_new_with_initial_max_offset :: "stream_id \<Rightarrow> mux_limits \<Rightarrow> u64 \<Rightarrow> recv_stream" where
  "recv_new_with_initial_max_offset sid limits initial_max_offset =
     \<lparr>rv_stream_id = sid, rv_next_offset = 0, rv_published_max_offset = initial_max_offset,
      rv_reorder_bytes = 0, rv_buffered = [], rv_received_ranges = [], rv_ack_high_water = 0,
      rv_limits = limits\<rparr>"

definition commit_max_data :: "u64 \<Rightarrow> recv_stream \<Rightarrow> recv_stream" where
  "commit_max_data max_offset rv =
     rv\<lparr>rv_published_max_offset := max (rv_published_max_offset rv) max_offset\<rparr>"

section \<open>Receiving data\<close>

function drain_buffered ::
  "u64 \<Rightarrow> usize \<Rightarrow> chunks \<Rightarrow> byte list list \<Rightarrow> u64 \<times> usize \<times> chunks \<times> byte list list" where
  "drain_buffered next_off reorder buffered delivered =
     (case bt_get next_off buffered of
        None \<Rightarrow> (next_off, reorder, buffered, delivered)
      | Some payload \<Rightarrow>
          drain_buffered (saturating_add next_off (length payload)) (saturating_sub reorder (length payload))
            (bt_remove next_off buffered) (delivered @ [payload]))"
  by pat_completeness auto

termination drain_buffered
  by (relation "measure (\<lambda>(n, r, buffered, d). length buffered)") (auto intro: length_bt_remove)

declare drain_buffered.simps [simp del]

definition receive_missing_range ::
  "u64 \<Rightarrow> byte list \<Rightarrow> offset_range \<Rightarrow> u64 \<times> usize \<times> chunks \<times> byte list list
    \<Rightarrow> u64 \<times> usize \<times> chunks \<times> byte list list" where
  "receive_missing_range offset payload r st =
     (case st of (next_off, reorder, buffered, delivered) \<Rightarrow>
        let start = saturating_sub (range_start r) offset;
            stop = min (saturating_sub (range_end r) offset) (length payload)
        in if start \<ge> stop then st
           else
             let chunk = bslice start stop payload
             in if range_start r = next_off
                then drain_buffered (saturating_add next_off (length chunk))
                       (saturating_sub reorder (length chunk)) buffered (delivered @ [chunk])
                else (next_off, reorder, bt_insert (range_start r) chunk buffered, delivered))"

definition receive_missing ::
  "u64 \<Rightarrow> byte list \<Rightarrow> offset_range list \<Rightarrow> u64 \<times> usize \<times> chunks \<times> byte list list
    \<Rightarrow> u64 \<times> usize \<times> chunks \<times> byte list list" where
  "receive_missing offset payload missing st = fold (receive_missing_range offset payload) missing st"

text \<open>
  The loop of \<open>reorder_chunk_count_after_receive\<close>; the index into \<open>missing_ranges\<close> is the
  remaining suffix. Its cursor need not move on an empty chunk, so the loop is a partial
  function; \<open>chunk_count_loop_exact\<close> below shows that it returns on every reachable state.
\<close>

partial_function (option) chunk_count_loop ::
  "u64 \<Rightarrow> offset_range list \<Rightarrow> chunks \<Rightarrow> usize \<Rightarrow> usize option" where
  "chunk_count_loop cursor missing buffered retained =
     (let missing' = dropWhile (\<lambda>r. range_end r \<le> cursor) missing
      in if missing' \<noteq> [] \<and> range_start (hd missing') = cursor
         then chunk_count_loop (range_end (hd missing')) (tl missing') buffered (saturating_sub retained 1)
         else
           (case bt_get cursor buffered of
              None \<Rightarrow> Some retained
            | Some payload \<Rightarrow>
                chunk_count_loop (saturating_add cursor (length payload)) missing' buffered
                  (saturating_sub retained 1)))"

definition reorder_chunk_count_after_receive :: "offset_range list \<Rightarrow> recv_stream \<Rightarrow> usize option" where
  "reorder_chunk_count_after_receive missing rv =
     chunk_count_loop (rv_next_offset rv) missing (rv_buffered rv)
       (saturating_add (length (rv_buffered rv)) (length missing))"

text \<open>
  The parts of \<open>receive_data\<close>, in the order of the code: the checks before the range set is
  consulted, the ceiling on retained ranges, the in-order fast path, the ceilings of the reorder
  buffer, and the insertion of the missing parts.
\<close>

definition receive_precheck :: "u64 \<Rightarrow> byte list \<Rightarrow> recv_stream \<Rightarrow> stream_error + u64" where
  "receive_precheck offset payload rv =
     (if payload = [] then Inl EmptyPayload
      else if length payload > ml_max_payload_bytes (rv_limits rv)
      then Inl (PayloadTooLarge (length payload) (ml_max_payload_bytes (rv_limits rv)))
      else
        (case checked_add offset (length payload) of
           None \<Rightarrow> Inl OffsetOverflow
         | Some e \<Rightarrow>
             if e > rv_published_max_offset rv
             then Inl (FlowControlViolation e (rv_published_max_offset rv))
             else Inr e))"

definition receive_range_check :: "u64 \<Rightarrow> u64 \<Rightarrow> recv_stream \<Rightarrow> stream_error option" where
  "receive_range_check offset e rv =
     (let limit = ml_max_retained_receive_ranges (rv_limits rv)
      in if saturating_add (rs_len (rv_received_ranges rv)) 1 > limit
         then
           (let actual = range_count_after_insert offset e (rv_received_ranges rv)
            in if actual > limit then Some (TooManyReceiveRanges actual limit) else None)
         else None)"

definition receive_reorder_check :: "offset_range list \<Rightarrow> recv_stream \<Rightarrow> (stream_error + usize) option" where
  "receive_reorder_check missing rv =
     (let limit = ml_max_reorder_bytes (rv_limits rv);
          chunk_limit = ml_max_reorder_buffer_chunks (rv_limits rv)
      in case checked_sum 0 (map range_len missing) of
           None \<Rightarrow> Some (Inl (ReorderBufferFull u64_max limit))
         | Some missing_bytes \<Rightarrow>
             (case checked_add (rv_reorder_bytes rv) missing_bytes of
                None \<Rightarrow> Some (Inl (ReorderBufferFull u64_max limit))
              | Some new_reorder_bytes \<Rightarrow>
                  if new_reorder_bytes > limit
                  then Some (Inl (ReorderBufferFull new_reorder_bytes limit))
                  else if saturating_add (length (rv_buffered rv)) (length missing) > chunk_limit
                  then
                    (case reorder_chunk_count_after_receive missing rv of
                       None \<Rightarrow> None
                     | Some actual \<Rightarrow>
                         if actual > chunk_limit
                         then Some (Inl (TooManyReorderBufferChunks actual chunk_limit))
                         else Some (Inr new_reorder_bytes))
                  else Some (Inr new_reorder_bytes)))"

definition store_received :: "u64 \<Rightarrow> u64 \<Rightarrow> u64 \<times> usize \<times> chunks \<times> byte list list \<Rightarrow> recv_stream
    \<Rightarrow> (stream_error + receive_outcome) \<times> recv_stream" where
  "store_received offset e st rv =
     (case st of (next_off, reorder, buffered, delivered) \<Rightarrow>
        (Inr \<lparr>ro_delivered = delivered\<rparr>,
         rv\<lparr>rv_received_ranges := rs_insert offset e (rv_received_ranges rv),
            rv_next_offset := next_off, rv_reorder_bytes := reorder, rv_buffered := buffered\<rparr>))"

definition is_in_order :: "u64 \<Rightarrow> u64 \<Rightarrow> offset_range list \<Rightarrow> recv_stream \<Rightarrow> bool" where
  "is_in_order offset e missing rv \<longleftrightarrow>
     offset = rv_next_offset rv \<and> length missing = 1
     \<and> range_start (hd missing) = offset \<and> range_end (hd missing) = e"

definition receive_data ::
  "u64 \<Rightarrow> byte list \<Rightarrow> recv_stream \<Rightarrow> ((stream_error + receive_outcome) \<times> recv_stream) option" where
  "receive_data offset payload rv =
     (case receive_precheck offset payload rv of
        Inl err \<Rightarrow> Some (Inl err, rv)
      | Inr e \<Rightarrow>
          if rs_covers offset e (rv_received_ranges rv) then Some (Inr \<lparr>ro_delivered = []\<rparr>, rv)
          else
            let missing = uncovered_ranges offset e (rv_received_ranges rv)
            in if missing = [] then Some (Inr \<lparr>ro_delivered = []\<rparr>, rv)
               else
                 (case receive_range_check offset e rv of
                    Some err \<Rightarrow> Some (Inl err, rv)
                  | None \<Rightarrow>
                      if is_in_order offset e missing rv
                      then Some (store_received offset e
                             (drain_buffered e (rv_reorder_bytes rv) (rv_buffered rv) [payload]) rv)
                      else
                        (case receive_reorder_check missing rv of
                           None \<Rightarrow> None
                         | Some (Inl err) \<Rightarrow> Some (Inl err, rv)
                         | Some (Inr new_reorder_bytes) \<Rightarrow>
                             Some (store_received offset e
                               (receive_missing offset payload missing
                                 (rv_next_offset rv, new_reorder_bytes, rv_buffered rv, [])) rv))))"

section \<open>Acknowledgements and flow control\<close>

definition ack_ranges :: "recv_stream \<Rightarrow> offset_range list" where
  "ack_ranges rv = rs_ranges (rv_received_ranges rv)"

definition ack_range_summary :: "recv_stream \<Rightarrow> ack_range_summary" where
  "ack_range_summary rv = rs_summary (rv_received_ranges rv)"

definition ack_ranges_limited :: "usize \<Rightarrow> recv_stream \<Rightarrow> offset_range list" where
  "ack_ranges_limited limit rv =
     (if limit = 0 then [] else ranges_limited limit (rv_received_ranges rv))"

definition ack_frame :: "recv_stream \<Rightarrow> frame" where
  "ack_frame rv =
     (let ranges = ack_ranges_limited (max (ml_max_ack_ranges (rv_limits rv)) 1) rv
      in StreamAck (rv_stream_id rv)
           (if ranges \<noteq> [] \<and> range_start (last ranges) > 0 then Some 0 else None) ranges)"

text \<open>\<open>chunks(n)\<close> of a slice, for \<open>n > 0\<close>.\<close>

function slice_chunks :: "nat \<Rightarrow> 'a list \<Rightarrow> 'a list list" where
  "slice_chunks n xs = (if xs = [] \<or> n = 0 then [] else take n xs # slice_chunks n (drop n xs))"
  by pat_completeness auto

termination slice_chunks
  by (relation "measure (length \<circ> snd)") auto

declare slice_chunks.simps [simp del]

fun scope_chunks :: "stream_id \<Rightarrow> u64 \<Rightarrow> offset_range list list \<Rightarrow> frame list" where
  "scope_chunks sid high_water [] = []"
| "scope_chunks sid high_water (chunk # rest) =
     StreamAck sid (if range_start (last chunk) > high_water then Some high_water else None) chunk
     # scope_chunks sid (max high_water (range_end (last chunk))) rest"

definition scoped_ack_frames :: "offset_range list \<Rightarrow> u64 \<Rightarrow> recv_stream \<Rightarrow> frame list" where
  "scoped_ack_frames ranges high_water rv =
     (if ranges = [] then [StreamAck (rv_stream_id rv) None ranges]
      else scope_chunks (rv_stream_id rv) high_water
             (slice_chunks (max (ml_max_ack_ranges (rv_limits rv)) 1) ranges))"

definition ack_frames :: "recv_stream \<Rightarrow> frame list" where
  "ack_frames rv = scoped_ack_frames (ack_ranges rv) 0 rv"

definition take_ack_update :: "recv_stream \<Rightarrow> frame list \<times> recv_stream" where
  "take_ack_update rv =
     (let (ranges, rs) = take_changed_ranges (rv_received_ranges rv);
          rv1 = rv\<lparr>rv_received_ranges := rs\<rparr>;
          frames = scoped_ack_frames ranges (rv_ack_high_water rv1) rv1
      in (frames, rv1\<lparr>rv_ack_high_water := ars_largest_end (ack_range_summary rv1)\<rparr>))"

definition max_data_offset_with_window :: "u64 \<Rightarrow> recv_stream \<Rightarrow> u64" where
  "max_data_offset_with_window window_bytes rv = saturating_add (rv_next_offset rv) (max window_bytes 1)"

definition max_data_offset :: "recv_stream \<Rightarrow> u64" where
  "max_data_offset rv = max_data_offset_with_window (ml_max_stream_window_bytes (rv_limits rv)) rv"

definition max_data_frame_with_window :: "u64 \<Rightarrow> recv_stream \<Rightarrow> frame" where
  "max_data_frame_with_window window_bytes rv =
     StreamMaxData (rv_stream_id rv) (max_data_offset_with_window window_bytes rv)"

definition max_data_frame :: "recv_stream \<Rightarrow> frame" where
  "max_data_frame rv = max_data_frame_with_window (ml_max_stream_window_bytes (rv_limits rv)) rv"

section \<open>Draining the reorder buffer\<close>

lemma drain_buffered_spec:
  assumes "chunks_ok buf" and "\<forall>e \<in> set buf. n \<le> fst e \<and> chunk_end e \<le> u64_max"
  shows "\<exists>pre buf'. buf = pre @ buf'
    \<and> drain_buffered n rb buf d = (n + chunks_len pre, rb - chunks_len pre, buf', d @ map snd pre)
    \<and> chunks_set pre = {n..<n + chunks_len pre}
    \<and> (\<forall>e \<in> set buf'. n + chunks_len pre < fst e)
    \<and> (\<forall>f. chunks_of f buf \<longrightarrow> concat (map snd pre) = seg f n (n + chunks_len pre))"
  using assms
proof (induction buf arbitrary: n rb d)
  case Nil
  then show ?case by (simp add: drain_buffered.simps bt_get_def)
next
  case (Cons e buf)
  obtain k c where e: "e = (k, c)" by force
  have ok: "chunks_ok buf" "c \<noteq> []" "\<forall>x \<in> set buf. k + length c \<le> fst x" "n \<le> k" "k + length c \<le> u64_max"
    using Cons.prems e by (auto simp: chunks_ok_Cons)
  show ?case
  proof (cases "k = n")
    case True
    have rm: "bt_remove n (e # buf) = buf"
      using ok(2,3) e True by (force simp: bt_remove_def filter_id_conv)
    have "drain_buffered n rb (e # buf) d
        = drain_buffered (n + length c) (rb - length c) buf (d @ [c])"
      using e True ok(5) rm by (subst drain_buffered.simps) (simp add: bt_get_def saturating_sub_def)
    moreover obtain pre buf' where IH: "buf = pre @ buf'"
      "drain_buffered (n + length c) (rb - length c) buf (d @ [c])
        = (n + length c + chunks_len pre, rb - length c - chunks_len pre, buf', (d @ [c]) @ map snd pre)"
      "chunks_set pre = {n + length c..<n + length c + chunks_len pre}"
      "\<forall>e \<in> set buf'. n + length c + chunks_len pre < fst e"
      "\<forall>f. chunks_of f buf \<longrightarrow> concat (map snd pre) = seg f (n + length c) (n + length c + chunks_len pre)"
      using Cons.IH [of "n + length c" "rb - length c" "d @ [c]"] ok Cons.prems(2) True by auto
    moreover have "{n..<n + length c} \<union> {n + length c..<n + length c + chunks_len pre}
        = {n..<n + (length c + chunks_len pre)}"
      by (simp add: ivl_disj_un add.assoc)
    moreover have "c @ concat (map snd pre) = seg f n (n + (length c + chunks_len pre))"
      if "chunks_of f (e # buf)" for f
    proof -
      have "c = seg f n (n + length c)" "chunks_of f buf" using that e True by simp_all
      then show ?thesis
        using IH(5) seg_append [of n "n + length c" "n + length c + chunks_len pre" f] by (simp add: add.assoc)
    qed
    ultimately show ?thesis using e True
      by (intro exI [of _ "e # pre"] exI [of _ buf']) (simp add: add.assoc)
  next
    case False
    then have "n < k" using ok(4) by simp
    then have gt: "\<forall>x \<in> set (e # buf). n < fst x" using ok(3) e by (auto dest!: bspec)
    then have "bt_get n (e # buf) = None" using bt_get_None [of n "e # buf"] by blast
    then have "drain_buffered n rb (e # buf) d = (n, rb, e # buf, d)"
      by (subst drain_buffered.simps) simp
    with gt show ?thesis by (intro exI [of _ "[]"] exI [of _ "e # buf"]) simp
  qed
qed

section \<open>Storing the missing parts\<close>

definition ranges_len :: "offset_range list \<Rightarrow> nat" where
  "ranges_len ms = sum_list (map range_len ms)"

definition rx_total :: "nat \<Rightarrow> chunks \<Rightarrow> offset_range list \<Rightarrow> nat set" where
  "rx_total n buf ms = {..<n} \<union> chunks_set buf \<union> ranges_set ms"

definition rx_inv :: "(nat \<Rightarrow> byte) \<Rightarrow> nat \<Rightarrow> nat \<Rightarrow> chunks \<Rightarrow> offset_range list \<Rightarrow> bool" where
  "rx_inv f n rb buf ms \<longleftrightarrow>
     chunks_ok buf \<and> (\<forall>e \<in> set buf. n < fst e) \<and> chunks_of f buf
     \<and> ranges_norm ms \<and> (\<forall>r \<in> set ms. n \<le> range_start r)
     \<and> ranges_set ms \<inter> chunks_set buf = {} \<and> rb = chunks_len buf + ranges_len ms
     \<and> chunks_set buf \<union> ranges_set ms \<subseteq> {..<u64_max}"

lemma rx_chunk_end:
  assumes "rx_inv f n rb buf ms" "e \<in> set buf" shows "chunk_end e \<le> u64_max"
proof -
  have "chunk_end e - 1 \<in> chunk_set e"
    using assms chunk_nonempty [of buf e] by (auto simp: rx_inv_def chunk_set_def)
  then have "chunk_end e - 1 < u64_max"
    using assms chunk_in_set [OF assms(2)] by (auto simp: rx_inv_def)
  then show ?thesis by linarith
qed

lemma rx_range_end:
  assumes "rx_inv f n rb buf ms" "r \<in> set ms" shows "range_end r \<le> u64_max"
proof -
  have "range_end r - 1 \<in> range_set r" using assms by (auto simp: rx_inv_def ranges_norm_def range_set_def)
  then have "range_end r - 1 < u64_max" using assms by (auto simp: rx_inv_def ranges_set_def)
  then show ?thesis by linarith
qed

text \<open>The payload holds the range and carries the bytes of \<open>f\<close> there.\<close>

definition carries :: "(nat \<Rightarrow> byte) \<Rightarrow> nat \<Rightarrow> byte list \<Rightarrow> offset_range \<Rightarrow> bool" where
  "carries f off payload r \<longleftrightarrow>
     off \<le> range_start r \<and> range_end r \<le> off + length payload
     \<and> (\<forall>i \<in> range_set r. payload ! (i - off) = f i)"

lemma carries_bslice:
  assumes "carries f off payload r"
  shows "bslice (range_start r - off) (range_end r - off) payload = seg f (range_start r) (range_end r)"
proof (rule nth_equalityI)
  show "length (bslice (range_start r - off) (range_end r - off) payload)
      = length (seg f (range_start r) (range_end r))"
    using assms by (auto simp: carries_def)
  fix i assume "i < length (bslice (range_start r - off) (range_end r - off) payload)"
  then have i: "range_start r + i \<in> range_set r" "i < range_end r - range_start r"
    using assms by (auto simp: carries_def range_set_def)
  then have "payload ! (range_start r + i - off) = f (range_start r + i)"
    using assms by (simp add: carries_def)
  moreover have "range_start r - off + i = range_start r + i - off" "range_start r - off \<le> length payload"
    using i(2) assms by (auto simp: carries_def)
  then have "drop (range_start r - off) payload ! i = payload ! (range_start r + i - off)"
    by simp
  ultimately show "bslice (range_start r - off) (range_end r - off) payload ! i
      = seg f (range_start r) (range_end r) ! i"
    using i(2) assms by (simp add: bslice_def seg_def carries_def)
qed

lemma receive_missing_range_chunk:
  assumes c: "carries f off payload r" and lt: "range_start r < range_end r"
  shows "receive_missing_range off payload r (n, rb, buf, d) =
    (let chunk = seg f (range_start r) (range_end r)
     in if range_start r = n
        then drain_buffered (saturating_add n (range_len r)) (rb - range_len r) buf (d @ [chunk])
        else (n, rb, bt_insert (range_start r) chunk buf, d))"
proof -
  note carries_bslice [OF c]
  moreover have "min (range_end r - off) (length payload) = range_end r - off"
    using c by (auto simp: carries_def)
  moreover have "\<not> range_end r - off \<le> range_start r - off" using c lt by (auto simp: carries_def)
  ultimately show ?thesis
    by (cases "range_start r = n") (simp_all add: receive_missing_range_def range_len_def)
qed

lemma rx_step_next:
  assumes inv: "rx_inv f n rb buf (r # ms)" and eq: "range_start r = n"
  shows "\<exists>pre buf'. buf = pre @ buf'
    \<and> drain_buffered (saturating_add n (range_len r)) (rb - range_len r) buf (d @ [seg f n (range_end r)])
      = (range_end r + chunks_len pre, chunks_len buf' + ranges_len ms, buf', d @ seg f n (range_end r) # map snd pre)
    \<and> rx_inv f (range_end r + chunks_len pre) (chunks_len buf' + ranges_len ms) buf' ms
    \<and> concat (seg f n (range_end r) # map snd pre) = seg f n (range_end r + chunks_len pre)
    \<and> rx_total (range_end r + chunks_len pre) buf' ms = rx_total n buf (r # ms)
    \<and> (\<forall>e \<in> set pre. fst e < range_end r + chunks_len pre)"
proof -
  let ?n1 = "range_end r"
  have i: "chunks_ok buf" "\<forall>e \<in> set buf. n < fst e" "chunks_of f buf" "ranges_norm (r # ms)"
    "ranges_set (r # ms) \<inter> chunks_set buf = {}" "rb = chunks_len buf + range_len r + ranges_len ms"
    "chunks_set buf \<union> ranges_set (r # ms) \<subseteq> {..<u64_max}"
    using inv by (auto simp: rx_inv_def ranges_len_def)
  have r: "n < ?n1" "\<forall>q \<in> set ms. ?n1 < range_start q" "ranges_norm ms"
    using i(4) eq by (auto simp: ranges_norm_Cons)
  have len: "range_len r = ?n1 - n" using eq by (simp add: range_len_def)
  have add: "saturating_add n (range_len r) = ?n1"
    using r len rx_range_end [OF inv, of r] by simp
  have "\<forall>e \<in> set buf. ?n1 \<le> fst e"
  proof
    fix e assume e: "e \<in> set buf"
    then have "fst e \<notin> range_set r" using i(5) chunk_start_in_set [OF i(1) e] by auto
    then show "?n1 \<le> fst e" using i(2) e eq by (fastforce simp: range_set_def)
  qed
  then obtain pre buf' where p: "buf = pre @ buf'"
    "drain_buffered ?n1 (rb - range_len r) buf (d @ [seg f n ?n1])
      = (?n1 + chunks_len pre, rb - range_len r - chunks_len pre, buf', (d @ [seg f n ?n1]) @ map snd pre)"
    "chunks_set pre = {?n1..<?n1 + chunks_len pre}" "\<forall>e \<in> set buf'. ?n1 + chunks_len pre < fst e"
    "concat (map snd pre) = seg f ?n1 (?n1 + chunks_len pre)"
    using drain_buffered_spec [OF i(1), of ?n1 "rb - range_len r" "d @ [seg f n ?n1]"]
      rx_chunk_end [OF inv] i(3) by blast
  have ms: "\<forall>q \<in> set ms. ?n1 + chunks_len pre \<le> range_start q"
  proof
    fix q assume q: "q \<in> set ms"
    have "range_start q \<in> ranges_set ms"
      using r(3) q by (auto simp: ranges_norm_def ranges_set_def range_set_def)
    then have "range_start q \<notin> chunks_set pre" using i(5) p(1) by auto
    then show "?n1 + chunks_len pre \<le> range_start q" using p(3) r(2) q by fastforce
  qed
  have rb: "rb - range_len r - chunks_len pre = chunks_len buf' + ranges_len ms" using i(6) p(1) by simp
  have inv': "rx_inv f (?n1 + chunks_len pre) (chunks_len buf' + ranges_len ms) buf' ms"
    unfolding rx_inv_def using i p(1,4) ms r(3) by (auto simp: chunks_ok_append)
  have tot: "rx_total (?n1 + chunks_len pre) buf' ms = rx_total n buf (r # ms)"
  proof -
    have "{..<?n1 + chunks_len pre} = {..<n} \<union> {n..<?n1} \<union> {?n1..<?n1 + chunks_len pre}"
      using r(1) by auto
    then show ?thesis using p(3) eq unfolding rx_total_def p(1) by (simp add: range_set_def) blast
  qed
  have lt: "\<forall>e \<in> set pre. fst e < ?n1 + chunks_len pre"
  proof
    fix e assume e: "e \<in> set pre"
    have "chunks_ok pre" using i(1) p(1) by (simp add: chunks_ok_append)
    then have "fst e \<in> chunks_set pre" using e by (rule chunk_start_in_set)
    then show "fst e < ?n1 + chunks_len pre" using p(3) by simp
  qed
  show ?thesis
    using p(1,2,5) rb inv' tot lt add r(1)
    by (intro exI [of _ pre] exI [of _ buf']) (simp add: seg_append)
qed

lemma rx_step_later:
  assumes inv: "rx_inv f n rb buf (r # ms)" and ne: "range_start r \<noteq> n"
  defines "c \<equiv> seg f (range_start r) (range_end r)"
  shows "rx_inv f n rb (bt_insert (range_start r) c buf) ms"
    "rx_total n (bt_insert (range_start r) c buf) ms = rx_total n buf (r # ms)"
    "bt_get (range_start r) buf = None"
proof -
  have i: "chunks_ok buf" "\<forall>e \<in> set buf. n < fst e" "chunks_of f buf" "ranges_norm (r # ms)"
    "\<forall>q \<in> set (r # ms). n \<le> range_start q"
    "ranges_set (r # ms) \<inter> chunks_set buf = {}" "rb = chunks_len buf + range_len r + ranges_len ms"
    "chunks_set buf \<union> ranges_set (r # ms) \<subseteq> {..<u64_max}"
    using inv by (auto simp: rx_inv_def ranges_len_def)
  have r: "range_start r < range_end r" "ranges_norm ms" "\<forall>q \<in> set ms. range_end r < range_start q"
    using i(4) by (auto simp: ranges_norm_Cons)
  have c: "length c = range_len r" "c \<noteq> []" "{range_start r..<range_start r + length c} = range_set r"
    using r(1) by (auto simp: c_def range_len_def range_set_def seg_def)
  have dj: "{range_start r..<range_start r + length c} \<inter> chunks_set buf = {}" using c(3) i(6) by auto
  show new: "bt_get (range_start r) buf = None" by (rule disjoint_chunk_key [OF i(1) c(2) dj])
  note ins = chunks_insert [OF i(1) new, of c]
  have "range_set r \<inter> ranges_set ms = {}"
    using ranges_set_lower [of ms "range_end r"] r(3) by (fastforce simp: range_set_def)
  moreover have "chunks_len (bt_insert (range_start r) c buf) = range_len r + chunks_len buf"
    using chunks_len_insert [OF chunks_ok_bt_wf [OF i(1)] new, of c] c(1) by simp
  moreover have "chunks_of f (bt_insert (range_start r) c buf)"
    using i(3) r(1) unfolding chunks_of_def ins(1) by (auto simp: c_def)
  ultimately show "rx_inv f n rb (bt_insert (range_start r) c buf) ms"
    unfolding rx_inv_def ins using chunks_ok_insert [OF i(1) c(2) dj] i r c(3) ne by auto
  show "rx_total n (bt_insert (range_start r) c buf) ms = rx_total n buf (r # ms)"
    unfolding rx_total_def ins using c(3) by auto
qed

lemma rx_step:
  assumes inv: "rx_inv f n rb buf (r # ms)" and pay: "carries f off payload r"
  shows "\<exists>n' rb' buf' \<delta>. receive_missing_range off payload r (n, rb, buf, d) = (n', rb', buf', d @ \<delta>)
    \<and> rx_inv f n' rb' buf' ms \<and> n \<le> n' \<and> concat \<delta> = seg f n n'
    \<and> rx_total n' buf' ms = rx_total n buf (r # ms)
    \<and> (\<forall>N \<ge> n'. length (filter (\<lambda>x. N < fst x) buf')
          = length (filter (\<lambda>x. N < fst x) buf) + (if N < range_start r then 1 else 0))"
proof -
  have lt: "range_start r < range_end r" using inv by (simp add: rx_inv_def ranges_norm_Cons)
  note step = receive_missing_range_chunk [OF pay lt, of n rb buf d, unfolded Let_def]
  show ?thesis
  proof (cases "range_start r = n")
    case True
    from rx_step_next [OF inv True, of d] obtain pre buf' where p: "buf = pre @ buf'"
      "drain_buffered (saturating_add n (range_len r)) (rb - range_len r) buf (d @ [seg f n (range_end r)])
      = (range_end r + chunks_len pre, chunks_len buf' + ranges_len ms, buf', d @ seg f n (range_end r) # map snd pre)"
      "rx_inv f (range_end r + chunks_len pre) (chunks_len buf' + ranges_len ms) buf' ms"
      "concat (seg f n (range_end r) # map snd pre) = seg f n (range_end r + chunks_len pre)"
      "rx_total (range_end r + chunks_len pre) buf' ms = rx_total n buf (r # ms)"
      "\<forall>e \<in> set pre. fst e < range_end r + chunks_len pre"
      by blast
    have "filter (\<lambda>x. N < fst x) pre = []" if "range_end r + chunks_len pre \<le> N" for N
      using p(6) that by (auto simp: filter_empty_conv dest!: bspec)
    then have cnt: "\<forall>N \<ge> range_end r + chunks_len pre. length (filter (\<lambda>x. N < fst x) buf')
        = length (filter (\<lambda>x. N < fst x) buf) + (if N < range_start r then 1 else 0)"
      using True lt unfolding p(1) by simp
    have "receive_missing_range off payload r (n, rb, buf, d)
      = (range_end r + chunks_len pre, chunks_len buf' + ranges_len ms, buf', d @ seg f n (range_end r) # map snd pre)"
      unfolding step using True p(2) by simp
    moreover have "n \<le> range_end r + chunks_len pre" using True lt by simp
    ultimately show ?thesis using p(3-5) cnt by blast
  next
    case False
    note l = rx_step_later [OF inv False]
    have "length (filter (\<lambda>x. N < fst x) (bt_insert (range_start r) (seg f (range_start r) (range_end r)) buf))
      = length (filter (\<lambda>x. N < fst x) buf) + (if N < range_start r then 1 else 0)" for N
      using length_filter_insert [OF l(3)] inv by (simp add: rx_inv_def chunks_ok_bt_wf)
    moreover have "receive_missing_range off payload r (n, rb, buf, d)
      = (n, rb, bt_insert (range_start r) (seg f (range_start r) (range_end r)) buf, d @ [])"
      unfolding step using False by simp
    ultimately show ?thesis using l(1,2)
      by (intro exI [of _ n] exI [of _ rb] exI [of _ "[]"]
          exI [of _ "bt_insert (range_start r) (seg f (range_start r) (range_end r)) buf"]) simp
  qed
qed

lemma receive_missing_spec:
  assumes "rx_inv f n rb buf ms" and "\<forall>r \<in> set ms. carries f off payload r"
  shows "\<exists>n' rb' buf' \<delta>. receive_missing off payload ms (n, rb, buf, d) = (n', rb', buf', d @ \<delta>)
    \<and> rx_inv f n' rb' buf' [] \<and> n \<le> n' \<and> concat \<delta> = seg f n n'
    \<and> rx_total n' buf' [] = rx_total n buf ms
    \<and> length buf' = length (filter (\<lambda>x. n' < fst x) buf) + length (filter (\<lambda>r. n' < range_start r) ms)"
  using assms
proof (induction ms arbitrary: n rb buf d)
  case Nil
  then have "filter (\<lambda>x. n < fst x) buf = buf" by (simp add: rx_inv_def filter_id_conv)
  with Nil show ?case by (simp add: receive_missing_def)
next
  case (Cons r ms)
  from rx_step [OF Cons.prems(1), of off payload d] Cons.prems(2) obtain n1 rb1 buf1 \<delta>1 where s:
    "receive_missing_range off payload r (n, rb, buf, d) = (n1, rb1, buf1, d @ \<delta>1)"
    "rx_inv f n1 rb1 buf1 ms" "n \<le> n1" "concat \<delta>1 = seg f n n1"
    "rx_total n1 buf1 ms = rx_total n buf (r # ms)"
    "\<forall>N \<ge> n1. length (filter (\<lambda>x. N < fst x) buf1)
          = length (filter (\<lambda>x. N < fst x) buf) + (if N < range_start r then 1 else 0)"
    by (metis list.set_intros(1))
  from Cons.IH [OF s(2), of "d @ \<delta>1"] Cons.prems(2) obtain n' rb' buf' \<delta> where t:
    "receive_missing off payload ms (n1, rb1, buf1, d @ \<delta>1) = (n', rb', buf', (d @ \<delta>1) @ \<delta>)"
    "rx_inv f n' rb' buf' []" "n1 \<le> n'" "concat \<delta> = seg f n1 n'"
    "rx_total n' buf' [] = rx_total n1 buf1 ms"
    "length buf' = length (filter (\<lambda>x. n' < fst x) buf1) + length (filter (\<lambda>r. n' < range_start r) ms)"
    by auto
  have "receive_missing off payload (r # ms) (n, rb, buf, d) = (n', rb', buf', d @ (\<delta>1 @ \<delta>))"
    using s(1) t(1) by (simp add: receive_missing_def)
  moreover have "concat (\<delta>1 @ \<delta>) = seg f n n'" using s(3,4) t(3,4) by (simp add: seg_append)
  moreover have "length buf' = length (filter (\<lambda>x. n' < fst x) buf)
      + length (filter (\<lambda>r. n' < range_start r) (r # ms))"
    using s(6) t(3,6) by simp
  ultimately show ?case using t(2,5) s(5) order_trans [OF s(3) t(3)] by metis
qed

text \<open>The fast path is the general path on the one missing range.\<close>

lemma in_order_is_receive_missing:
  assumes "payload \<noteq> []" and "n + length payload \<le> u64_max"
  shows "drain_buffered (n + length payload) rb buf [payload]
    = receive_missing n payload [\<lparr>range_start = n, range_end = n + length payload\<rparr>]
        (n, rb + length payload, buf, [])"
  using assms by (simp add: receive_missing_def receive_missing_range_def Let_def)

section \<open>The preview of the reorder buffer\<close>

text \<open>\<open>first_gap T n x\<close>: \<open>x\<close> is the first offset from \<open>n\<close> that is not in \<open>T\<close>.\<close>

definition first_gap :: "nat set \<Rightarrow> nat \<Rightarrow> nat \<Rightarrow> bool" where
  "first_gap T n x \<longleftrightarrow> n \<le> x \<and> {n..<x} \<subseteq> T \<and> x \<notin> T"

lemma first_gap_unique: "first_gap T n x \<Longrightarrow> first_gap T n y \<Longrightarrow> x = y"
  unfolding first_gap_def by (metis atLeastLessThan_iff linorder_neqE_nat subset_iff)

lemma first_gap_extend: "{n..<m} \<subseteq> T \<Longrightarrow> n \<le> m \<Longrightarrow> first_gap T m x \<Longrightarrow> first_gap T n x"
  unfolding first_gap_def by (metis Un_subset_iff ivl_disj_un_two(3) order_trans)

definition pieces_at :: "nat \<Rightarrow> offset_range list \<Rightarrow> chunks \<Rightarrow> nat" where
  "pieces_at n ms buf = length (filter (\<lambda>x. n \<le> fst x) buf) + length (filter (\<lambda>r. n \<le> range_start r) ms)"

definition count_inv :: "nat \<Rightarrow> offset_range list \<Rightarrow> chunks \<Rightarrow> bool" where
  "count_inv c ms buf \<longleftrightarrow>
     chunks_ok buf \<and> ranges_norm ms \<and> ranges_set ms \<inter> chunks_set buf = {}
     \<and> (\<forall>r \<in> set ms. c \<le> range_start r)
     \<and> (\<forall>x \<in> set buf. c \<le> fst x \<or> chunk_end x \<le> c)
     \<and> chunks_set buf \<subseteq> {..<u64_max}"

lemma count_inv_range:
  assumes "count_inv c (r # ms) buf" and "range_start r = c"
  shows "count_inv (range_end r) ms buf" "{c..<range_end r} \<subseteq> ranges_set (r # ms)" "c \<le> range_end r"
    "pieces_at c (r # ms) buf = Suc (pieces_at (range_end r) ms buf)"
    "\<And>x. range_end r \<le> x \<Longrightarrow> pieces_at x (r # ms) buf = pieces_at x ms buf"
proof -
  have i: "chunks_ok buf" "ranges_norm ms" "c < range_end r" "\<forall>q \<in> set ms. range_end r < range_start q"
    "ranges_set ms \<inter> chunks_set buf = {}" "{c..<range_end r} \<inter> chunks_set buf = {}"
    "\<forall>x \<in> set buf. c \<le> fst x \<or> chunk_end x \<le> c" "chunks_set buf \<subseteq> {..<u64_max}"
    using assms by (auto simp: count_inv_def ranges_norm_Cons range_set_def)
  have buf: "c \<le> fst x \<longleftrightarrow> range_end r \<le> fst x" if "x \<in> set buf" for x
  proof -
    have "fst x \<notin> {c..<range_end r}" using i(6) chunk_start_in_set [OF i(1) that] by blast
    then show ?thesis using i(3) by auto
  qed
  have far: "range_end r \<le> fst x \<or> chunk_end x \<le> range_end r" if "x \<in> set buf" for x
    using i(3,7) buf [OF that] that by fastforce
  show "count_inv (range_end r) ms buf"
    unfolding count_inv_def using i far by (auto intro: less_imp_le)
  show "{c..<range_end r} \<subseteq> ranges_set (r # ms)" using assms(2) by (auto simp: range_set_def)
  show "c \<le> range_end r" using i(3) by simp
  have "filter (\<lambda>x. c \<le> fst x) buf = filter (\<lambda>x. range_end r \<le> fst x) buf"
    using buf by (intro filter_cong) auto
  moreover have "filter (\<lambda>q. c \<le> range_start q) ms = ms" "filter (\<lambda>q. range_end r \<le> range_start q) ms = ms"
    using i(3,4) by (auto simp: filter_id_conv dest!: bspec)
  ultimately show "pieces_at c (r # ms) buf = Suc (pieces_at (range_end r) ms buf)"
    using assms(2) by (simp add: pieces_at_def)
  show "\<And>x. range_end r \<le> x \<Longrightarrow> pieces_at x (r # ms) buf = pieces_at x ms buf"
    using i(3) assms(2) by (simp add: pieces_at_def)
qed

lemma count_inv_chunk:
  assumes "count_inv c ms buf" and "bt_get c buf = Some p"
  shows "count_inv (c + length p) ms buf" "{c..<c + length p} \<subseteq> chunks_set buf"
    "pieces_at c ms buf = Suc (pieces_at (c + length p) ms buf)" "c + length p \<le> u64_max"
proof -
  have i: "chunks_ok buf" "ranges_norm ms" "ranges_set ms \<inter> chunks_set buf = {}"
    "\<forall>r \<in> set ms. c \<le> range_start r"
    "\<forall>x \<in> set buf. c \<le> fst x \<or> chunk_end x \<le> c" "chunks_set buf \<subseteq> {..<u64_max}"
    using assms by (auto simp: count_inv_def)
  have p: "(c, p) \<in> set buf" using bt_get_SomeD [OF assms(2)] .
  have len: "0 < length p" using chunk_nonempty [OF i(1) p] by simp
  show sub: "{c..<c + length p} \<subseteq> chunks_set buf" using chunk_in_set [OF p] by simp
  moreover have "c + length p - 1 \<in> {c..<c + length p}"
    unfolding atLeastLessThan_iff using len by linarith
  ultimately have "c + length p - 1 < u64_max" using i(6) by blast
  then show "c + length p \<le> u64_max" by linarith
  have above: "c + length p \<le> fst x" if "x \<in> set buf" "c \<le> fst x" "fst x \<noteq> c" for x
    using chunks_ok_less [OF i(1) p that(1)] that by simp
  have ms: "c + length p \<le> range_start r" if "r \<in> set ms" for r
  proof -
    have "range_start r \<in> ranges_set ms"
      using that i(2) by (auto simp: ranges_set_def range_set_def ranges_norm_def)
    then have "range_start r \<notin> {c..<c + length p}" using sub i(3) by blast
    then show ?thesis using i(4) that by auto
  qed
  have far: "c + length p \<le> fst x \<or> chunk_end x \<le> c + length p" if "x \<in> set buf" for x
  proof (cases "fst x = c")
    case True
    then have "x = (c, p)" using chunks_ok_key_eq [OF i(1) that p] by simp
    then show ?thesis by simp
  next
    case False
    then show ?thesis using bspec [OF i(5) that] above [OF that] by auto
  qed
  show "count_inv (c + length p) ms buf" unfolding count_inv_def using i ms far by blast
  have "bt_remove c (filter (\<lambda>x. c \<le> fst x) buf) = filter (\<lambda>x. c + length p \<le> fst x) buf"
    unfolding bt_remove_def filter_filter using above len by (intro filter_cong) auto
  moreover have "bt_get c (filter (\<lambda>x. c \<le> fst x) buf) = Some p"
    using p by (simp add: bt_get_in chunks_ok_bt_wf [OF i(1)])
  ultimately have "length (filter (\<lambda>x. c \<le> fst x) buf) = Suc (length (filter (\<lambda>x. c + length p \<le> fst x) buf))"
    using length_bt_remove_wf [of "filter (\<lambda>x. c \<le> fst x) buf" c p] chunks_ok_bt_wf [OF i(1)] by simp
  moreover have "filter (\<lambda>r. c \<le> range_start r) ms = ms" "filter (\<lambda>r. c + length p \<le> range_start r) ms = ms"
    using i(4) ms by (auto simp: filter_id_conv)
  ultimately show "pieces_at c ms buf = Suc (pieces_at (c + length p) ms buf)" by (simp add: pieces_at_def)
qed

lemma count_inv_stop:
  assumes "count_inv c ms buf" and "ms = [] \<or> range_start (hd ms) \<noteq> c" and "bt_get c buf = None"
  shows "c \<notin> chunks_set buf \<union> ranges_set ms"
proof -
  have "c \<notin> chunk_set x" if "x \<in> set buf" for x
  proof -
    have "fst x \<noteq> c" using assms(3) that by (auto simp: bt_get_None)
    then show ?thesis using assms(1) that by (auto simp: count_inv_def chunk_set_def dest!: bspec)
  qed
  moreover have "c \<notin> ranges_set ms"
  proof (cases ms)
    case (Cons r rest)
    then have "c < range_start r" using assms by (auto simp: count_inv_def)
    moreover have "\<forall>q \<in> set ms. range_start r \<le> range_start q"
      using assms(1) Cons by (auto simp: count_inv_def ranges_norm_Cons dest!: bspec)
    ultimately show ?thesis using ranges_set_lower [of ms "range_start r" c] by (meson leD)
  qed simp
  ultimately show ?thesis by (auto simp: chunks_set_def)
qed

lemma chunk_count_loop_exact:
  assumes "count_inv c ms buf"
  shows "\<exists>x. first_gap (chunks_set buf \<union> ranges_set ms) c x
    \<and> chunk_count_loop c ms buf (pieces_at c ms buf + k) = Some (pieces_at x ms buf + k)"
  using assms
proof (induction "pieces_at c ms buf" arbitrary: c ms rule: less_induct)
  case less
  have skip: "dropWhile (\<lambda>r. range_end r \<le> c) ms = ms"
    using less.prems by (cases ms) (auto simp: count_inv_def ranges_norm_Cons)
  note unf = chunk_count_loop.simps [of c ms buf "pieces_at c ms buf + k", unfolded Let_def skip]
  show ?case
  proof (cases "ms \<noteq> [] \<and> range_start (hd ms) = c")
    case True
    then obtain r rest where ms: "ms = r # rest" "range_start r = c" by (cases ms) auto
    note s = count_inv_range [OF less.prems [unfolded ms(1)] ms(2)]
    obtain x where x: "first_gap (chunks_set buf \<union> ranges_set rest) (range_end r) x"
      "chunk_count_loop (range_end r) rest buf (pieces_at (range_end r) rest buf + k) = Some (pieces_at x rest buf + k)"
      using less.hyps [OF _ s(1)] s(4) ms(1) by auto
    have "x \<notin> range_set r" using x(1) by (auto simp: first_gap_def range_set_def)
    then have "first_gap (chunks_set buf \<union> ranges_set ms) (range_end r) x"
      using x(1) ms(1) by (auto simp: first_gap_def)
    then have "first_gap (chunks_set buf \<union> ranges_set ms) c x"
      using first_gap_extend s(2,3) ms(1) by (metis le_supI2)
    moreover have "chunk_count_loop c ms buf (pieces_at c ms buf + k) = Some (pieces_at x ms buf + k)"
      using unf True x ms s(4,5) by (simp add: first_gap_def)
    ultimately show ?thesis by blast
  next
    case False
    show ?thesis
    proof (cases "bt_get c buf")
      case None
      then have "first_gap (chunks_set buf \<union> ranges_set ms) c c"
        using count_inv_stop [OF less.prems] False by (auto simp: first_gap_def)
      moreover have "chunk_count_loop c ms buf (pieces_at c ms buf + k) = Some (pieces_at c ms buf + k)"
        using unf False None by simp
      ultimately show ?thesis by blast
    next
      case (Some p)
      note s = count_inv_chunk [OF less.prems Some]
      obtain x where x: "first_gap (chunks_set buf \<union> ranges_set ms) (c + length p) x"
        "chunk_count_loop (c + length p) ms buf (pieces_at (c + length p) ms buf + k) = Some (pieces_at x ms buf + k)"
        using less.hyps [OF _ s(1)] s(3) by auto
      have "first_gap (chunks_set buf \<union> ranges_set ms) c x"
        using first_gap_extend [OF _ _ x(1)] s(2) by (simp add: le_supI1)
      moreover have "chunk_count_loop c ms buf (pieces_at c ms buf + k) = Some (pieces_at x ms buf + k)"
        using unf False Some x(2) s(3,4) by simp
      ultimately show ?thesis by blast
    qed
  qed
qed

section \<open>The invariant of the receive stream\<close>

definition recv_inv :: "recv_stream \<Rightarrow> bool" where
  "recv_inv rv \<longleftrightarrow>
     rs_wf (rv_received_ranges rv) \<and> chunks_ok (rv_buffered rv)
     \<and> (\<forall>e \<in> set (rv_buffered rv). rv_next_offset rv < fst e)
     \<and> rs_set (rv_received_ranges rv) = {..<rv_next_offset rv} \<union> chunks_set (rv_buffered rv)
     \<and> rv_reorder_bytes rv = chunks_len (rv_buffered rv)
     \<and> rs_set (rv_received_ranges rv) \<subseteq> {..<rv_published_max_offset rv}
     \<and> rv_published_max_offset rv \<le> u64_max
     \<and> rv_reorder_bytes rv \<le> ml_max_reorder_bytes (rv_limits rv)
     \<and> length (rv_buffered rv) \<le> ml_max_reorder_buffer_chunks (rv_limits rv)
     \<and> length (rv_received_ranges rv) \<le> ml_max_retained_receive_ranges (rv_limits rv)"

definition recv_of :: "(nat \<Rightarrow> byte) \<Rightarrow> recv_stream \<Rightarrow> bool" where
  "recv_of f rv \<longleftrightarrow> recv_inv rv \<and> chunks_of f (rv_buffered rv)"

lemma recv_new_inv: "m \<le> u64_max \<Longrightarrow> recv_of f (recv_new_with_initial_max_offset sid limits m)"
  by (simp add: recv_of_def recv_inv_def recv_new_with_initial_max_offset_def)

lemma commit_max_data_inv: "m \<le> u64_max \<Longrightarrow> recv_of f rv \<Longrightarrow> recv_of f (commit_max_data m rv)"
  by (auto simp: recv_of_def recv_inv_def commit_max_data_def less_max_iff_disj)

text \<open>A range set whose offsets are 64 bit values has fewer entries than there are offsets.\<close>

lemma rs_length_bound:
  "rs_wf s \<Longrightarrow> s \<noteq> [] \<Longrightarrow> \<forall>e \<in> set s. a \<le> fst e \<and> rr_end (snd e) \<le> m \<Longrightarrow> a + 2 * length s \<le> m + 1"
proof (induction s arbitrary: a)
  case (Cons e s)
  have e: "fst e < rr_end (snd e)" "\<forall>x \<in> set s. rr_end (snd e) < fst x" "rs_wf s"
    using Cons.prems(1) by (auto simp: rs_wf_Cons)
  show ?case
  proof (cases "s = []")
    case True
    then show ?thesis using Cons.prems e by auto
  next
    case False
    have "\<forall>x \<in> set s. rr_end (snd e) + 1 \<le> fst x \<and> rr_end (snd x) \<le> m"
      using Cons.prems(3) e(2) by auto
    from Cons.IH [OF e(3) False this] show ?thesis using Cons.prems(3) e(1) by auto
  qed
qed simp

lemma rs_length_less:
  assumes "rs_wf s" "rs_set s \<subseteq> {..<u64_max}" shows "length s < u64_max"
proof (cases "s = []")
  case True
  then show ?thesis by (simp add: u64_max_def)
next
  case False
  have "rr_end (snd e) \<le> u64_max" if "e \<in> set s" for e
  proof -
    have "rr_end (snd e) - 1 \<in> rs_set s"
      using rs_wf_nonempty [OF assms(1) that] that by (force simp: rs_set_def)
    then have "rr_end (snd e) - 1 < u64_max" using assms(2) by auto
    then show ?thesis by linarith
  qed
  then have "2 * length s \<le> u64_max + 1" using rs_length_bound [OF assms(1) False, of 0 u64_max] by simp
  then show ?thesis using False by (simp add: u64_max_def)
qed

lemma recv_inv_bounds:
  assumes "recv_inv rv"
  shows "rs_set (rv_received_ranges rv) \<subseteq> {..<u64_max}" "length (rv_received_ranges rv) < u64_max"
proof -
  have "{..<rv_published_max_offset rv} \<subseteq> {..<u64_max}" using assms by (auto simp: recv_inv_def)
  then show b: "rs_set (rv_received_ranges rv) \<subseteq> {..<u64_max}" using assms by (auto simp: recv_inv_def)
  show "length (rv_received_ranges rv) < u64_max"
    using rs_length_less [OF _ b] assms by (simp add: recv_inv_def)
qed

section \<open>The checks of \<open>receive_data\<close>\<close>

lemma receive_precheck_Inr:
  "receive_precheck off payload rv = Inr e \<longleftrightarrow>
     payload \<noteq> [] \<and> length payload \<le> ml_max_payload_bytes (rv_limits rv)
     \<and> e = off + length payload \<and> e \<le> rv_published_max_offset rv \<and> e \<le> u64_max"
  by (auto simp: receive_precheck_def checked_add_def split: if_splits)

lemma receive_range_check_None:
  assumes "recv_inv rv" and "off < e" and "receive_range_check off e rv = None"
  shows "length (rs_insert off e (rv_received_ranges rv)) \<le> ml_max_retained_receive_ranges (rv_limits rv)"
proof (cases "saturating_add (rs_len (rv_received_ranges rv)) 1 > ml_max_retained_receive_ranges (rv_limits rv)")
  case True
  then show ?thesis
    using assms range_count_after_insert_eq [of "rv_received_ranges rv" off e] recv_inv_bounds [OF assms(1)]
    by (simp add: receive_range_check_def recv_inv_def Let_def split: if_splits)
next
  case False
  then have "length (rv_received_ranges rv) + 1 \<le> ml_max_retained_receive_ranges (rv_limits rv)"
    using recv_inv_bounds [OF assms(1)] by (simp add: rs_len_def)
  then show ?thesis using length_rs_insert [of "rv_received_ranges rv" off e] assms by (simp add: recv_inv_def)
qed

lemma ranges_len_card: "ranges_norm ms \<Longrightarrow> card (ranges_set ms) = ranges_len ms \<and> finite (ranges_set ms)"
proof (induction ms)
  case (Cons r ms)
  have "range_set r \<inter> ranges_set ms = {}"
    using Cons.prems ranges_set_lower [of ms "range_end r"]
    by (auto simp: ranges_norm_Cons range_set_def intro: less_imp_le) (meson leD less_imp_le)
  moreover have "card (range_set r) = range_len r" "finite (range_set r)"
    by (simp_all add: range_set_def range_len_def)
  ultimately show ?case using Cons by (simp add: ranges_norm_Cons ranges_len_def card_Un_disjoint)
qed (simp add: ranges_len_def)

lemma length_le_ranges_len: "ranges_norm ms \<Longrightarrow> length ms \<le> ranges_len ms"
  by (induction ms) (auto simp: ranges_norm_Cons ranges_len_def range_len_def)

text \<open>The state from which the missing parts of a segment are stored.\<close>

lemma missing_rx_inv:
  assumes inv: "recv_of f rv" and off: "off + length payload \<le> u64_max"
    and pay: "\<forall>i < length payload. off + i \<notin> rs_set (rv_received_ranges rv) \<longrightarrow> payload ! i = f (off + i)"
  defines "ms \<equiv> uncovered_ranges off (off + length payload) (rv_received_ranges rv)"
  shows "rx_inv f (rv_next_offset rv) (rv_reorder_bytes rv + ranges_len ms) (rv_buffered rv) ms"
    "rx_total (rv_next_offset rv) (rv_buffered rv) ms
      = rs_set (rv_received_ranges rv) \<union> {off..<off + length payload}"
    "\<forall>r \<in> set ms. carries f off payload r"
proof -
  have wf: "rs_wf (rv_received_ranges rv)" using inv by (simp add: recv_of_def recv_inv_def)
  have R: "rs_set (rv_received_ranges rv) = {..<rv_next_offset rv} \<union> chunks_set (rv_buffered rv)"
    using inv by (simp add: recv_of_def recv_inv_def)
  have ms: "ranges_set ms = {off..<off + length payload} - rs_set (rv_received_ranges rv)" "ranges_norm ms"
    unfolding ms_def using uncovered_ranges_correct [OF wf] by simp_all
  have "carries f off payload r" if "r \<in> set ms" for r
  proof -
    note piece = range_store.uncovered_piece [OF wf that [unfolded ms_def]]
    have "payload ! (i - off) = f i" if "i \<in> range_set r" for i
    proof -
      have "i \<in> {off..<off + length payload}" "i \<notin> rs_set (rv_received_ranges rv)"
        using piece(2) that by (auto simp: range_set_def)
      then show ?thesis using pay [rule_format, of "i - off"] by auto
    qed
    then show ?thesis using piece(3,4) by (simp add: carries_def)
  qed
  then show "\<forall>r \<in> set ms. carries f off payload r" by blast
  show "rx_total (rv_next_offset rv) (rv_buffered rv) ms
      = rs_set (rv_received_ranges rv) \<union> {off..<off + length payload}"
    unfolding rx_total_def ms(1) R by blast
  have start: "rv_next_offset rv \<le> range_start r" if "r \<in> set ms" for r
  proof -
    have "range_start r \<in> ranges_set ms"
      using that ms(2) by (auto simp: ranges_set_def range_set_def ranges_norm_def)
    then show ?thesis using ms(1) R by auto
  qed
  have "chunks_set (rv_buffered rv) \<subseteq> {..<u64_max}"
    using recv_inv_bounds(1) [of rv] inv R by (auto simp: recv_of_def)
  moreover have "ranges_set ms \<subseteq> {..<u64_max}" using ms(1) off by auto
  moreover have "ranges_set ms \<inter> chunks_set (rv_buffered rv) = {}" using ms(1) R by blast
  ultimately show "rx_inv f (rv_next_offset rv) (rv_reorder_bytes rv + ranges_len ms) (rv_buffered rv) ms"
    using inv ms(2) start by (simp add: rx_inv_def recv_of_def recv_inv_def)
qed

lemma rx_first_gap: "rx_inv f n rb buf [] \<Longrightarrow> m \<le> n \<Longrightarrow> first_gap (rx_total n buf []) m n"
  using chunks_set_above [of buf n n] by (auto simp: first_gap_def rx_total_def rx_inv_def)

lemma recv_first_gap: "recv_inv rv \<Longrightarrow> first_gap (rs_set (rv_received_ranges rv)) 0 (rv_next_offset rv)"
  using chunks_set_above [of "rv_buffered rv" "rv_next_offset rv" "rv_next_offset rv"]
  by (auto simp: first_gap_def recv_inv_def)

lemma chunk_count_exact:
  assumes inv: "rx_inv f n rb buf ms" and pay: "\<forall>r \<in> set ms. carries f off payload r"
    and res: "receive_missing off payload ms (n, rb, buf, d) = (n', rb', buf', d')"
    and bound: "rb \<le> u64_max"
  shows "chunk_count_loop n ms buf (saturating_add (length buf) (length ms)) = Some (length buf')"
proof -
  have i: "chunks_ok buf" "\<forall>e \<in> set buf. n < fst e" "ranges_norm ms" "\<forall>r \<in> set ms. n \<le> range_start r"
    "ranges_set ms \<inter> chunks_set buf = {}" "rb = chunks_len buf + ranges_len ms"
    "chunks_set buf \<subseteq> {..<u64_max}"
    using inv by (auto simp: rx_inv_def)
  have c: "count_inv n ms buf" unfolding count_inv_def using i by (auto intro: less_imp_le)
  have "length buf + length ms \<le> u64_max"
    using length_le_chunks_len [OF i(1)] length_le_ranges_len [OF i(3)] i(6) bound by linarith
  moreover have "pieces_at n ms buf = length buf + length ms"
    using i(2,4) by (simp add: pieces_at_def filter_id_conv less_imp_le)
  ultimately obtain x where x: "first_gap (chunks_set buf \<union> ranges_set ms) n x"
    "chunk_count_loop n ms buf (saturating_add (length buf) (length ms)) = Some (pieces_at x ms buf)"
    using chunk_count_loop_exact [OF c, of 0] by auto
  obtain n2 rb2 buf2 \<delta> where m: "receive_missing off payload ms (n, rb, buf, d) = (n2, rb2, buf2, d @ \<delta>)"
    "rx_inv f n2 rb2 buf2 []" "n \<le> n2" "rx_total n2 buf2 [] = rx_total n buf ms"
    "length buf2 = length (filter (\<lambda>x. n2 < fst x) buf) + length (filter (\<lambda>r. n2 < range_start r) ms)"
    using receive_missing_spec [OF inv pay, of d] by blast
  have n': "n2 = n'" "buf2 = buf'" using m(1) res by auto
  have gap: "first_gap (rx_total n buf ms) n n'" using rx_first_gap [OF m(2,3)] m(4) n' by simp
  moreover have "first_gap (rx_total n buf ms) n x"
    using x(1) by (auto simp: first_gap_def rx_total_def)
  ultimately have "x = n'" using first_gap_unique by blast
  have out: "n' \<notin> chunks_set buf \<union> ranges_set ms" using gap by (auto simp: first_gap_def rx_total_def)
  have "filter (\<lambda>e. n' < fst e) buf = filter (\<lambda>e. n' \<le> fst e) buf"
    using out chunk_start_in_set [OF i(1)] by (intro filter_cong) (auto simp: less_le)
  moreover have "filter (\<lambda>r. n' < range_start r) ms = filter (\<lambda>r. n' \<le> range_start r) ms"
  proof (rule filter_cong)
    fix r assume "r \<in> set ms"
    then have "range_start r \<in> ranges_set ms"
      using i(3) by (auto simp: ranges_set_def range_set_def ranges_norm_def)
    then show "n' < range_start r \<longleftrightarrow> n' \<le> range_start r" using out by (auto simp: less_le)
  qed simp
  ultimately show ?thesis using x(2) m(5) \<open>x = n'\<close> n' by (simp add: pieces_at_def)
qed

section \<open>Correctness of \<open>receive_data\<close>\<close>

lemma rx_chunks_len_le:
  assumes "rx_inv f n rb buf ms" and "rx_inv f n' rb' buf' []" and "n \<le> n'"
    and "rx_total n' buf' [] = rx_total n buf ms"
  shows "chunks_len buf' \<le> chunks_len buf + ranges_len ms"
proof -
  have c: "card (chunks_set buf) = chunks_len buf" "finite (chunks_set buf)"
    "card (chunks_set buf') = chunks_len buf'"
    "card (ranges_set ms) = ranges_len ms" "finite (ranges_set ms)"
    using assms(1,2) card_chunks_set ranges_len_card by (auto simp: rx_inv_def)
  have "n' < x" if "x \<in> chunks_set buf'" for x
    using chunks_set_above [of buf' n' x] that assms(2) by (simp add: rx_inv_def)
  then have "chunks_set buf' \<subseteq> rx_total n' buf' [] - {..<n}"
    using assms(3) by (fastforce simp: rx_total_def)
  then have "chunks_set buf' \<subseteq> rx_total n buf ms - {..<n}" using assms(4) by simp
  then have "chunks_set buf' \<subseteq> chunks_set buf \<union> ranges_set ms" by (auto simp: rx_total_def)
  then have "card (chunks_set buf') \<le> card (chunks_set buf \<union> ranges_set ms)"
    using c by (intro card_mono) auto
  also have "\<dots> \<le> card (chunks_set buf) + card (ranges_set ms)" by (rule card_Un_le)
  finally show ?thesis using c by simp
qed

text \<open>
  Storing a segment whose missing parts carry the bytes of \<open>f\<close>, once the ceilings hold.
\<close>

definition receive_effect :: "(nat \<Rightarrow> byte) \<Rightarrow> u64 \<Rightarrow> u64 \<Rightarrow> recv_stream \<Rightarrow> receive_outcome \<Rightarrow> recv_stream \<Rightarrow> bool" where
  "receive_effect f off e rv out rv' \<longleftrightarrow>
     rv_next_offset rv \<le> rv_next_offset rv'
     \<and> concat (ro_delivered out) = seg f (rv_next_offset rv) (rv_next_offset rv')
     \<and> rs_set (rv_received_ranges rv') = rs_set (rv_received_ranges rv) \<union> {off..<e}
     \<and> first_gap (rs_set (rv_received_ranges rv')) 0 (rv_next_offset rv')
     \<and> rv_stream_id rv' = rv_stream_id rv \<and> rv_limits rv' = rv_limits rv
     \<and> rv_published_max_offset rv' = rv_published_max_offset rv
     \<and> rv_ack_high_water rv' = rv_ack_high_water rv"

lemma store_received_effect:
  assumes inv: "recv_of f rv"
    and e: "off + length payload \<le> rv_published_max_offset rv" "off + length payload \<le> u64_max"
    and pay: "\<forall>i < length payload. off + i \<notin> rs_set (rv_received_ranges rv) \<longrightarrow> payload ! i = f (off + i)"
    and ms: "ms = uncovered_ranges off (off + length payload) (rv_received_ranges rv)"
    and res: "receive_missing off payload ms
        (rv_next_offset rv, rv_reorder_bytes rv + ranges_len ms, rv_buffered rv, []) = (n', rb', buf', d')"
    and lim: "length (rs_insert off (off + length payload) (rv_received_ranges rv))
        \<le> ml_max_retained_receive_ranges (rv_limits rv)"
      "chunks_len buf' \<le> ml_max_reorder_bytes (rv_limits rv)"
      "length buf' \<le> ml_max_reorder_buffer_chunks (rv_limits rv)"
  shows "\<exists>out rv'. store_received off (off + length payload) (n', rb', buf', d') rv = (Inr out, rv')
    \<and> recv_of f rv' \<and> receive_effect f off (off + length payload) rv out rv'"
proof -
  note m = missing_rx_inv [OF inv e(2) pay, folded ms]
  obtain n2 rb2 buf2 \<delta> where s: "receive_missing off payload ms
        (rv_next_offset rv, rv_reorder_bytes rv + ranges_len ms, rv_buffered rv, []) = (n2, rb2, buf2, [] @ \<delta>)"
    "rx_inv f n2 rb2 buf2 []" "rv_next_offset rv \<le> n2" "concat \<delta> = seg f (rv_next_offset rv) n2"
    "rx_total n2 buf2 [] = rx_total (rv_next_offset rv) (rv_buffered rv) ms"
    using receive_missing_spec [OF m(1,3), of "[]"] by blast
  have eqs: "n2 = n'" "rb2 = rb'" "buf2 = buf'" "\<delta> = d'" using s(1) res by auto
  note r = s(2-5) [unfolded eqs]
  define R where "R = rs_insert off (off + length payload) (rv_received_ranges rv)"
  have wf: "rs_wf (rv_received_ranges rv)" using inv by (simp add: recv_of_def recv_inv_def)
  have R: "rs_wf R" "rs_set R = rs_set (rv_received_ranges rv) \<union> {off..<off + length payload}"
    unfolding R_def by (simp_all add: rs_wf_insert rs_set_insert wf)
  have tot: "rs_set R = {..<n'} \<union> chunks_set buf'"
    using r(4) m(2) R(2) by (simp add: rx_total_def)
  have gap: "first_gap (rs_set R) 0 n'" using rx_first_gap [OF r(1), of 0] tot by (simp add: rx_total_def)
  have pub: "rs_set R \<subseteq> {..<rv_published_max_offset rv}"
    using inv e(1) unfolding R(2) by (auto simp: recv_of_def recv_inv_def)
  have rb: "rb' = chunks_len buf'" using r(1) by (simp add: rx_inv_def ranges_len_def)
  let ?rv = "rv\<lparr>rv_received_ranges := R, rv_next_offset := n', rv_reorder_bytes := rb', rv_buffered := buf'\<rparr>"
  have "recv_of f ?rv"
    using inv r(1) R(1) tot pub rb lim R_def by (simp add: recv_of_def recv_inv_def rx_inv_def)
  moreover have "receive_effect f off (off + length payload) rv \<lparr>ro_delivered = d'\<rparr> ?rv"
    using r(2,3) R(2) gap by (simp add: receive_effect_def)
  ultimately show ?thesis by (simp add: store_received_def R_def)
qed

lemma receive_in_order:
  assumes inv: "recv_of f rv" and ne: "payload \<noteq> []"
    and e: "off + length payload \<le> rv_published_max_offset rv" "off + length payload \<le> u64_max"
    and pay: "\<forall>i < length payload. off + i \<notin> rs_set (rv_received_ranges rv) \<longrightarrow> payload ! i = f (off + i)"
    and ord: "is_in_order off (off + length payload)
        (uncovered_ranges off (off + length payload) (rv_received_ranges rv)) rv"
    and lim: "length (rs_insert off (off + length payload) (rv_received_ranges rv))
        \<le> ml_max_retained_receive_ranges (rv_limits rv)"
  shows "\<exists>out rv'. store_received off (off + length payload)
      (drain_buffered (off + length payload) (rv_reorder_bytes rv) (rv_buffered rv) [payload]) rv = (Inr out, rv')
    \<and> recv_of f rv' \<and> receive_effect f off (off + length payload) rv out rv'"
proof -
  let ?ms = "uncovered_ranges off (off + length payload) (rv_received_ranges rv)"
  have ms: "?ms = [\<lparr>range_start = off, range_end = off + length payload\<rparr>]" and off: "off = rv_next_offset rv"
    using ord by (cases ?ms; auto simp: is_in_order_def)+
  have len: "ranges_len ?ms = length payload" unfolding ms by (simp add: ranges_len_def range_len_def)
  note m = missing_rx_inv [OF inv e(2) pay]
  obtain n' rb' buf' d' where d: "drain_buffered (off + length payload) (rv_reorder_bytes rv) (rv_buffered rv) [payload]
      = (n', rb', buf', d')" by (metis prod_cases4)
  have res: "receive_missing off payload ?ms
      (rv_next_offset rv, rv_reorder_bytes rv + ranges_len ?ms, rv_buffered rv, []) = (n', rb', buf', d')"
    using d in_order_is_receive_missing [OF ne e(2), of "rv_reorder_bytes rv" "rv_buffered rv"] len
    by (simp add: ms off [symmetric])
  have ok: "chunks_ok (rv_buffered rv)" using inv by (simp add: recv_of_def recv_inv_def)
  have "off + length payload \<le> fst x" if x: "x \<in> set (rv_buffered rv)" for x
  proof -
    have "fst x \<notin> {off..<off + length payload}"
      using m(1) chunk_start_in_set [OF ok x] unfolding ms rx_inv_def by auto
    moreover have "off < fst x" using inv x off by (simp add: recv_of_def recv_inv_def)
    ultimately show ?thesis by auto
  qed
  then have "\<exists>pre. rv_buffered rv = pre @ buf'"
    using drain_buffered_spec [OF ok, of "off + length payload" "rv_reorder_bytes rv" "[payload]"]
      rx_chunk_end [OF m(1)] d by auto
  then have "chunks_len buf' \<le> chunks_len (rv_buffered rv)" "length buf' \<le> length (rv_buffered rv)" by auto
  then have lim': "chunks_len buf' \<le> ml_max_reorder_bytes (rv_limits rv)"
    "length buf' \<le> ml_max_reorder_buffer_chunks (rv_limits rv)"
    using inv by (auto simp: recv_of_def recv_inv_def)
  show ?thesis unfolding d by (rule store_received_effect [OF inv e pay refl res lim lim'])
qed

text \<open>The reorder checks return, and what they accept keeps the buffer within its ceilings.\<close>

lemma receive_reorder_check_returns:
  assumes inv: "rx_inv f (rv_next_offset rv) (rv_reorder_bytes rv + ranges_len ms) (rv_buffered rv) ms"
    and pay: "\<forall>r \<in> set ms. carries f off payload r"
    and res: "receive_missing off payload ms
        (rv_next_offset rv, rv_reorder_bytes rv + ranges_len ms, rv_buffered rv, []) = (n', rb', buf', d')"
  shows "(\<exists>err. receive_reorder_check ms rv = Some (Inl err))
    \<or> receive_reorder_check ms rv = Some (Inr (rv_reorder_bytes rv + ranges_len ms))
      \<and> rv_reorder_bytes rv + ranges_len ms \<le> ml_max_reorder_bytes (rv_limits rv)
      \<and> length buf' \<le> ml_max_reorder_buffer_chunks (rv_limits rv)"
proof (cases "rv_reorder_bytes rv + ranges_len ms \<le> u64_max")
  case False
  then show ?thesis
    by (auto simp: receive_reorder_check_def ranges_len_def checked_add_def Let_def
        dest!: checked_sum_SomeD split: option.splits)
next
  case True
  then have sum: "checked_sum 0 (map range_len ms) = Some (ranges_len ms)"
    using checked_sum_Some [of 0 "map range_len ms"] by (simp add: ranges_len_def)
  note cnt = chunk_count_exact [OF inv pay res True]
  have le: "length buf' \<le> length (rv_buffered rv) + length ms"
  proof -
    obtain n2 rb2 buf2 \<delta> where s: "receive_missing off payload ms
        (rv_next_offset rv, rv_reorder_bytes rv + ranges_len ms, rv_buffered rv, []) = (n2, rb2, buf2, [] @ \<delta>)"
      "length buf2 = length (filter (\<lambda>x. n2 < fst x) (rv_buffered rv)) + length (filter (\<lambda>r. n2 < range_start r) ms)"
      using receive_missing_spec [OF inv pay, of "[]"] by blast
    then show ?thesis using res by (auto intro: add_mono)
  qed
  have "length (rv_buffered rv) + length ms \<le> u64_max"
    using inv True length_le_chunks_len [of "rv_buffered rv"] length_le_ranges_len [of ms]
    by (simp add: rx_inv_def)
  then show ?thesis using sum True cnt le
    by (simp add: receive_reorder_check_def checked_add_def reorder_chunk_count_after_receive_def Let_def)
qed

lemma receive_data_general:
  assumes inv: "recv_of f rv"
    and pay: "\<forall>i < length payload. off + i \<notin> rs_set (rv_received_ranges rv) \<longrightarrow> payload ! i = f (off + i)"
  shows "(\<exists>err. receive_data off payload rv = Some (Inl err, rv))
    \<or> (\<exists>out rv'. receive_data off payload rv = Some (Inr out, rv') \<and> payload \<noteq> []
        \<and> off + length payload \<le> rv_published_max_offset rv
        \<and> recv_of f rv' \<and> receive_effect f off (off + length payload) rv out rv')"
proof (cases "receive_precheck off payload rv")
  case (Inl err)
  then show ?thesis by (simp add: receive_data_def)
next
  case (Inr e)
  then have ne: "payload \<noteq> []" and e: "e = off + length payload"
    "off + length payload \<le> rv_published_max_offset rv" "off + length payload \<le> u64_max"
    using receive_precheck_Inr by auto
  have lt: "off < off + length payload" using ne by simp
  have wf: "rs_wf (rv_received_ranges rv)" and ri: "recv_inv rv"
    using inv by (auto simp: recv_of_def recv_inv_def)
  let ?ms = "uncovered_ranges off (off + length payload) (rv_received_ranges rv)"
  note unf = receive_data_def [of off payload rv] Inr e(1) Let_def
  show ?thesis
  proof (cases "?ms = []")
    case True
    then have cov: "{off..<off + length payload} \<subseteq> rs_set (rv_received_ranges rv)"
      using range_store.uncovered_Nil_iff [OF wf lt] rs_covers_iff [OF wf lt] by simp
    have "receive_effect f off (off + length payload) rv \<lparr>ro_delivered = []\<rparr> rv"
      using cov recv_first_gap [OF ri] by (auto simp: receive_effect_def)
    then show ?thesis using True unf inv ne e by simp
  next
    case False
    then have nc: "\<not> rs_covers off (off + length payload) (rv_received_ranges rv)"
      using range_store.uncovered_Nil_iff [OF wf lt] by simp
    show ?thesis
    proof (cases "receive_range_check off (off + length payload) rv")
      case (Some err)
      then show ?thesis using False nc unf by simp
    next
      case None
      note lim = receive_range_check_None [OF ri lt None]
      show ?thesis
      proof (cases "is_in_order off (off + length payload) ?ms rv")
        case True
        then show ?thesis
          using receive_in_order [OF inv ne e(2,3) pay True lim] False nc None unf ne e by auto
      next
        case slow: False
        obtain n' rb' buf' d' where res: "receive_missing off payload ?ms
            (rv_next_offset rv, rv_reorder_bytes rv + ranges_len ?ms, rv_buffered rv, []) = (n', rb', buf', d')"
          by (metis prod_cases4)
        note m = missing_rx_inv [OF inv e(3) pay]
        have len: "chunks_len buf' \<le> rv_reorder_bytes rv + ranges_len ?ms"
          using receive_missing_spec [OF m(1,3), of "[]"] res rx_chunks_len_le [OF m(1)] m(1)
          by (fastforce simp: rx_inv_def)
        consider (err) err where "receive_reorder_check ?ms rv = Some (Inl err)"
          | (ok) "receive_reorder_check ?ms rv = Some (Inr (rv_reorder_bytes rv + ranges_len ?ms))"
            "rv_reorder_bytes rv + ranges_len ?ms \<le> ml_max_reorder_bytes (rv_limits rv)"
            "length buf' \<le> ml_max_reorder_buffer_chunks (rv_limits rv)"
          using receive_reorder_check_returns [OF m(1,3) res] by blast
        then show ?thesis
        proof cases
          case err
          then show ?thesis using False nc None slow unf by simp
        next
          case ok
          obtain out rv' where "store_received off (off + length payload) (n', rb', buf', d') rv = (Inr out, rv')"
            "recv_of f rv'" "receive_effect f off (off + length payload) rv out rv'"
            using store_received_effect [OF inv e(2,3) pay refl res lim order_trans [OF len ok(2)] ok(3)] by blast
          then show ?thesis using False nc None slow unf ok(1) res ne e by simp
        qed
      qed
    qed
  qed
qed

text \<open>Any buffer is made of pieces of some stream, which may be chosen freely elsewhere.\<close>

lemma ex_stream_of_chunks:
  "chunks_ok m \<Longrightarrow> \<exists>f. chunks_of f m \<and> (\<forall>i. i \<notin> chunks_set m \<longrightarrow> f i = g i)"
proof (induction m)
  case (Cons e m)
  then obtain f where f: "chunks_of f m" "\<forall>i. i \<notin> chunks_set m \<longrightarrow> f i = g i" by (auto simp: chunks_ok_Cons)
  define h where "h i = (if i \<in> chunk_set e then snd e ! (i - fst e) else f i)" for i
  have "snd e = seg h (fst e) (chunk_end e)"
    by (rule nth_equalityI) (auto simp: h_def chunk_set_def chunk_end_def seg_def)
  moreover have "snd x = seg h (fst x) (chunk_end x)" if x: "x \<in> set m" for x
  proof -
    have "chunk_end e \<le> fst x" using Cons.prems x by (auto simp: chunks_ok_Cons)
    then have "seg h (fst x) (chunk_end x) = seg f (fst x) (chunk_end x)"
      by (intro seg_cong) (auto simp: h_def chunk_set_def)
    then show ?thesis using f(1) x by (simp add: chunks_of_def)
  qed
  moreover have "h i = g i" if "i \<notin> chunks_set (e # m)" for i using that f(2) by (simp add: h_def)
  ultimately show ?case by (intro exI [of _ h]) (simp add: chunks_of_def)
qed auto

lemma receive_data_any_payload:
  assumes "recv_inv rv"
  shows "\<exists>f. recv_of f rv
    \<and> (\<forall>i < length payload. off + i \<notin> rs_set (rv_received_ranges rv) \<longrightarrow> payload ! i = f (off + i))"
proof -
  have "chunks_ok (rv_buffered rv)" using assms by (simp add: recv_inv_def)
  then obtain f where f: "chunks_of f (rv_buffered rv)"
    "\<forall>i. i \<notin> chunks_set (rv_buffered rv) \<longrightarrow> f i = payload ! (i - off)"
    using ex_stream_of_chunks [of "rv_buffered rv" "\<lambda>i. payload ! (i - off)"] by blast
  have "chunks_set (rv_buffered rv) \<subseteq> rs_set (rv_received_ranges rv)" using assms by (auto simp: recv_inv_def)
  then have "payload ! i = f (off + i)" if "off + i \<notin> rs_set (rv_received_ranges rv)" for i
    using f(2) that by (metis add_diff_cancel_left' subsetD)
  then show ?thesis using f(1) assms by (auto simp: recv_of_def)
qed

section \<open>Acknowledgements\<close>

text \<open>
  What an acknowledgement asserts about the set \<open>R\<close> of received offsets: every offset in its
  ranges is received and, when it has a scope, every received offset between the start of the
  scope and the end of its last range is in its ranges.
\<close>

fun ack_truthful :: "nat set \<Rightarrow> frame \<Rightarrow> bool" where
  "ack_truthful R (StreamAck sid scope ranges) \<longleftrightarrow>
     ranges_norm ranges \<and> ranges_set ranges \<subseteq> R
     \<and> (\<forall>s. scope = Some s \<longrightarrow> ranges \<noteq> [] \<and> {s..<range_end (last ranges)} \<inter> R \<subseteq> ranges_set ranges)"
| "ack_truthful R _ \<longleftrightarrow> False"

fun ack_positive :: "frame \<Rightarrow> nat set" where
  "ack_positive (StreamAck sid scope ranges) = ranges_set ranges"
| "ack_positive _ = {}"

fun ack_range_count :: "frame \<Rightarrow> nat" where
  "ack_range_count (StreamAck sid scope ranges) = length ranges"
| "ack_range_count _ = 0"

lemma slice_chunks_concat: "0 < n \<Longrightarrow> concat (slice_chunks n xs) = xs"
proof (induction n xs rule: slice_chunks.induct)
  case (1 n xs)
  then show ?case by (subst slice_chunks.simps) auto
qed

lemma slice_chunks_member: "c \<in> set (slice_chunks n xs) \<Longrightarrow> c \<noteq> [] \<and> length c \<le> n"
proof (induction n xs rule: slice_chunks.induct)
  case (1 n xs)
  show ?case
  proof (cases "xs = [] \<or> n = 0")
    case True
    then show ?thesis using "1.prems" by (subst (asm) slice_chunks.simps) simp
  next
    case False
    then have "c = take n xs \<or> c \<in> set (slice_chunks n (drop n xs))"
      using "1.prems" by (subst (asm) slice_chunks.simps) simp
    then show ?thesis using "1.IH" [OF False] False by auto
  qed
qed

lemma ranges_norm_last: "ranges_norm c \<Longrightarrow> c \<noteq> [] \<Longrightarrow> x \<in> ranges_set c \<Longrightarrow> x < range_end (last c)"
proof (induction c)
  case (Cons r c)
  show ?case
  proof (cases "c = []")
    case True
    then show ?thesis using Cons.prems by (simp add: range_set_def)
  next
    case False
    have "range_end r < range_start (last c)" "range_start (last c) < range_end (last c)"
      using Cons.prems(1) False by (simp_all add: ranges_norm_def)
    then have lt: "range_end r < range_end (last c)" by simp
    show ?thesis
    proof (cases "x \<in> range_set r")
      case True
      then have "x < range_end r" by (simp add: range_set_def)
      then show ?thesis using lt False by simp
    qed (use Cons False in \<open>simp add: ranges_norm_Cons\<close>)
  qed
qed simp

text \<open>
  The frames made from a sorted list of ranges, when every received offset from the high water
  on is in the list.
\<close>

lemma scope_chunks_truthful:
  "ranges_norm (concat cs) \<Longrightarrow> [] \<notin> set cs \<Longrightarrow> ranges_set (concat cs) \<subseteq> R
    \<Longrightarrow> R \<inter> {h..} \<subseteq> ranges_set (concat cs)
    \<Longrightarrow> fr \<in> set (scope_chunks sid h cs) \<Longrightarrow> ack_truthful R fr"
proof (induction cs arbitrary: h)
  case (Cons c cs)
  have c: "c \<noteq> []" "ranges_norm c" "ranges_norm (concat cs)" "[] \<notin> set cs"
    "\<forall>x \<in> set c. \<forall>y \<in> set (concat cs). range_end x < range_start y"
    using Cons.prems(1,2) by (auto simp: ranges_norm_append)
  have set: "ranges_set (concat (c # cs)) = ranges_set c \<union> ranges_set (concat cs)"
    by (auto simp: ranges_set_def)
  note below = ranges_norm_last [OF c(2,1)]
  have above: "range_end (last c) < x" if "x \<in> ranges_set (concat cs)" for x
  proof -
    have "Suc (range_end (last c)) \<le> range_start y" if "y \<in> set (concat cs)" for y
      using bspec [OF bspec [OF c(5) last_in_set [OF c(1)]] that] by simp
    then have "Suc (range_end (last c)) \<le> x" using that by (rule ranges_set_lower)
    then show ?thesis by simp
  qed
  show ?case
  proof (cases "fr \<in> set (scope_chunks sid (max h (range_end (last c))) cs)")
    case True
    have "R \<inter> {max h (range_end (last c))..} \<subseteq> ranges_set (concat cs)"
      using Cons.prems(4) below unfolding set by fastforce
    then show ?thesis using Cons.IH [OF c(3,4) _ _ True] Cons.prems(3) set by blast
  next
    case False
    then have fr: "fr = StreamAck sid (if range_start (last c) > h then Some h else None) c"
      using Cons.prems(5) by simp
    have "{h..<range_end (last c)} \<inter> R \<subseteq> ranges_set c"
      using Cons.prems(4) above unfolding set by fastforce
    then show ?thesis using fr c(1,2) Cons.prems(3) set by auto
  qed
qed simp

lemma scope_chunks_ranges: "(\<Union>fr \<in> set (scope_chunks sid h cs). ack_positive fr) = ranges_set (concat cs)"
  by (induction cs arbitrary: h) (auto simp: ranges_set_def)

lemma scope_chunks_count: "fr \<in> set (scope_chunks sid h cs) \<Longrightarrow> \<exists>c \<in> set cs. ack_range_count fr = length c"
  by (induction cs arbitrary: h) auto

lemma scoped_ack_frames_correct:
  assumes "ranges_norm ranges" and "ranges_set ranges \<subseteq> R" and "R \<inter> {h..} \<subseteq> ranges_set ranges"
  shows "\<forall>fr \<in> set (scoped_ack_frames ranges h rv). ack_truthful R fr
      \<and> ack_range_count fr \<le> max (ml_max_ack_ranges (rv_limits rv)) 1"
    "(\<Union>fr \<in> set (scoped_ack_frames ranges h rv). ack_positive fr) = ranges_set ranges"
proof -
  define n where "n = max (ml_max_ack_ranges (rv_limits rv)) 1"
  have cat: "concat (slice_chunks n ranges) = ranges" by (rule slice_chunks_concat) (simp add: n_def)
  have ne: "[] \<notin> set (slice_chunks n ranges)" using slice_chunks_member by blast
  show "(\<Union>fr \<in> set (scoped_ack_frames ranges h rv). ack_positive fr) = ranges_set ranges"
    unfolding scoped_ack_frames_def n_def [symmetric] by (simp add: scope_chunks_ranges cat)
  have "\<forall>fr \<in> set (scoped_ack_frames ranges h rv). ack_truthful R fr \<and> ack_range_count fr \<le> n"
  proof (cases "ranges = []")
    case True
    then show ?thesis by (simp add: scoped_ack_frames_def)
  next
    case False
    have "ack_truthful R fr \<and> ack_range_count fr \<le> n"
      if fr: "fr \<in> set (scope_chunks (rv_stream_id rv) h (slice_chunks n ranges))" for fr
      using scope_chunks_truthful [OF _ ne _ _ fr, of R] assms cat scope_chunks_count [OF fr]
        slice_chunks_member [of _ n ranges] by auto
    then show ?thesis using False unfolding scoped_ack_frames_def n_def [symmetric] by simp
  qed
  then show "\<forall>fr \<in> set (scoped_ack_frames ranges h rv). ack_truthful R fr
      \<and> ack_range_count fr \<le> max (ml_max_ack_ranges (rv_limits rv)) 1"
    by (simp only: n_def)
qed

end
