(* ===== verification/Recv_Correct.thy ===== *)
theory Recv_Correct
  imports Recv_Stream
begin

text \<open>
  The properties of the receive stream: what \<open>receive_data\<close> delivers, that it always returns
  and stays within the configured ceilings whatever the peer sends, that in-order data makes
  progress, that its previews are exact, and that the acknowledgements it publishes are true.
\<close>

section \<open>Concrete streams for the examples\<close>

definition ex_limits :: mux_limits where
  "ex_limits = default_mux_limits\<lparr>ml_max_payload_bytes := 8, ml_max_reorder_bytes := 16,
     ml_max_reorder_buffer_chunks := 2, ml_max_retained_receive_ranges := 2, ml_max_ack_ranges := 1\<rparr>"

definition ex_recv :: recv_stream where
  "ex_recv = recv_new_with_initial_max_offset 7 ex_limits 100"

text \<open>Offsets 4 and 5 received out of order, as \<open>receive_data 4 [4, 5]\<close> leaves the stream.\<close>

definition ex_recv_gap :: recv_stream where
  "ex_recv_gap = ex_recv\<lparr>rv_reorder_bytes := 2, rv_buffered := [(4, [4, 5])],
     rv_received_ranges := [(4, \<lparr>rr_end = 6, rr_dirty = True\<rparr>)]\<rparr>"

lemmas ex_recv_simps =
  ex_recv_gap_def ex_recv_def ex_limits_def recv_new_with_initial_max_offset_def default_mux_limits_def

lemma ex_recv_gap_of: "recv_of of_nat ex_recv_gap"
  by (auto simp: ex_recv_simps recv_of_def recv_inv_def rs_wf_Cons chunks_ok_Cons u64_max_def seg_def upt_rec)

lemma ex_recv_gap_next [simp]: "rv_next_offset ex_recv_gap = 0"
  by (simp add: ex_recv_simps)

lemma ex_receive_data:
  "receive_data 0 [0, 1, 2, 3] ex_recv_gap = Some (Inr \<lparr>ro_delivered = [[0, 1, 2, 3], [4, 5]]\<rparr>,
     ex_recv_gap\<lparr>rv_next_offset := 6, rv_reorder_bytes := 0, rv_buffered := [],
       rv_received_ranges := [(0, \<lparr>rr_end = 6, rr_dirty = True\<rparr>)]\<rparr>)"
  by code_simp

section \<open>Delivery\<close>

lemma receive_effectD:
  assumes "receive_effect f off e rv out rv'"
  shows "rv_next_offset rv \<le> rv_next_offset rv'"
    "concat (ro_delivered out) = seg f (rv_next_offset rv) (rv_next_offset rv')"
    "rs_set (rv_received_ranges rv') = rs_set (rv_received_ranges rv) \<union> {off..<e}"
    "first_gap (rs_set (rv_received_ranges rv')) 0 (rv_next_offset rv')"
    "rv_limits rv' = rv_limits rv"
    "rv_published_max_offset rv' = rv_published_max_offset rv"
  using assms unfolding receive_effect_def by blast+

lemma first_gap_Least: "first_gap T 0 x \<Longrightarrow> (LEAST x. x \<notin> T) = x"
proof (rule Least_equality)
  assume g: "first_gap T 0 x"
  then show "x \<notin> T" by (simp add: first_gap_def)
  fix y assume "y \<notin> T"
  then have "y \<notin> {0..<x}" using g by (auto simp: first_gap_def)
  then show "x \<le> y" by simp
qed

text \<open>
  C3. When the stream holds bytes of the sent stream \<open>f\<close> and a segment of \<open>f\<close> is
  accepted, in whatever order and with whatever overlap it arrives, the bytes handed to the
  application are exactly the bytes of \<open>f\<close> from the old to the new delivery offset, the new
  delivery offset is the first offset not received, and the received offsets grow by exactly the
  segment.
\<close>

theorem receive_data_delivers_in_order:
  assumes "recv_of f rv" and "payload = seg f off (off + length payload)"
    and "receive_data off payload rv = Some (Inr out, rv')"
  shows "recv_of f rv'
    \<and> concat (ro_delivered out) = seg f (rv_next_offset rv) (rv_next_offset rv')
    \<and> rv_next_offset rv \<le> rv_next_offset rv'
    \<and> rs_set (rv_received_ranges rv') = rs_set (rv_received_ranges rv) \<union> {off..<off + length payload}
    \<and> rv_next_offset rv' = (LEAST x. x \<notin> rs_set (rv_received_ranges rv'))"
proof -
  have "payload ! i = f (off + i)" if "i < length payload" for i
    using that arg_cong [OF assms(2), of "\<lambda>p. p ! i"] by (simp add: seg_def)
  then have e: "recv_of f rv'" "receive_effect f off (off + length payload) rv out rv'"
    using receive_data_general [OF assms(1), of payload off] assms(3) by auto
  have "(LEAST x. x \<notin> rs_set (rv_received_ranges rv')) = rv_next_offset rv'"
    by (rule first_gap_Least [OF receive_effectD(4) [OF e(2)]])
  then show ?thesis using e(1) receive_effectD(1-3) [OF e(2)] by simp
qed

theorem receive_data_delivers_in_order_witness:
  "\<exists>out rv'. receive_data 0 [0, 1, 2, 3] ex_recv_gap = Some (Inr out, rv')
    \<and> concat (ro_delivered out) = seg of_nat 0 (rv_next_offset rv')"
proof -
  have "[0, 1, 2, 3] = seg (of_nat :: nat \<Rightarrow> byte) 0 (0 + length [0 :: byte, 1, 2, 3])"
    by (simp add: seg_def upt_rec)
  from receive_data_delivers_in_order [OF ex_recv_gap_of this ex_receive_data]
  show ?thesis using ex_receive_data by auto
qed

text \<open>
  C4. From every reachable state and for any offset and payload, honest or not,
  \<open>receive_data\<close> returns, keeps the invariant, leaves the stream unchanged when it reports an
  error, and the reorder buffer, its chunk count and the retained ranges stay within the
  configured ceilings.
\<close>

theorem receive_data_total_bounded:
  assumes "recv_inv rv"
  shows "\<exists>res rv'. receive_data off payload rv = Some (res, rv') \<and> recv_inv rv'
    \<and> (isl res \<longrightarrow> rv' = rv)
    \<and> rv_limits rv' = rv_limits rv
    \<and> rv_reorder_bytes rv' = chunks_len (rv_buffered rv')
    \<and> rv_reorder_bytes rv' \<le> ml_max_reorder_bytes (rv_limits rv)
    \<and> length (rv_buffered rv') \<le> ml_max_reorder_buffer_chunks (rv_limits rv)
    \<and> length (rv_received_ranges rv') \<le> ml_max_retained_receive_ranges (rv_limits rv)"
proof -
  obtain f where f: "recv_of f rv"
    "\<forall>i < length payload. off + i \<notin> rs_set (rv_received_ranges rv) \<longrightarrow> payload ! i = f (off + i)"
    using receive_data_any_payload [OF assms] by blast
  from receive_data_general [OF f] obtain res rv' where r: "receive_data off payload rv = Some (res, rv')"
    "recv_inv rv'" "isl res \<longrightarrow> rv' = rv" "rv_limits rv' = rv_limits rv"
  proof (elim disjE exE conjE)
    fix err assume "receive_data off payload rv = Some (Inl err, rv)"
    then show ?thesis using that [of "Inl err" rv] assms by simp
  next
    fix out rv' assume "receive_data off payload rv = Some (Inr out, rv')" "recv_of f rv'"
      "receive_effect f off (off + length payload) rv out rv'"
    then show ?thesis using that [of "Inr out" rv'] receive_effectD(5) by (simp add: recv_of_def)
  qed
  then show ?thesis unfolding recv_inv_def by auto
qed

theorem receive_data_total_bounded_witness:
  "recv_inv ex_recv_gap \<and> (\<exists>res rv'. receive_data 5 [9, 9, 9] ex_recv_gap = Some (res, rv') \<and> recv_inv rv')"
proof -
  have "recv_inv ex_recv_gap" using ex_recv_gap_of by (simp add: recv_of_def)
  with receive_data_total_bounded [OF this, of 5 "[9, 9, 9]"] show ?thesis by blast
qed

section \<open>Progress\<close>

lemma uncovered_whole:
  assumes wf: "rs_wf s" and lt: "a < b" and d: "{a..<b} \<inter> rs_set s = {}"
  shows "uncovered_ranges a b s = [\<lparr>range_start = a, range_end = b\<rparr>]"
proof (rule ranges_norm_unique)
  show "ranges_norm (uncovered_ranges a b s)" using uncovered_ranges_correct [OF wf] by simp
  show "ranges_norm [\<lparr>range_start = a, range_end = b\<rparr>]" using lt by (simp add: ranges_norm_Cons)
  have "{a..<b} - rs_set s = {a..<b}" using d by blast
  then show "ranges_set (uncovered_ranges a b s) = ranges_set [\<lparr>range_start = a, range_end = b\<rparr>]"
    using uncovered_ranges_correct [OF wf, of a b] by simp
qed

lemma insert_at_next_count:
  assumes inv: "recv_inv rv" and lt: "rv_next_offset rv < e"
    and room: "0 < rv_next_offset rv
      \<or> length (rv_received_ranges rv) < ml_max_retained_receive_ranges (rv_limits rv)"
  shows "length (rs_insert (rv_next_offset rv) e (rv_received_ranges rv))
    \<le> ml_max_retained_receive_ranges (rv_limits rv)"
proof -
  let ?n = "rv_next_offset rv" and ?s = "rv_received_ranges rv"
  have wf: "rs_wf ?s" using inv by (simp add: recv_inv_def)
  note len = length_rs_insert [OF wf lt]
  show ?thesis
  proof (cases "0 < ?n")
    case True
    then have "?n - 1 \<in> rs_set ?s" "?n \<notin> rs_set ?s"
      using recv_first_gap [OF inv] by (auto simp: first_gap_def subset_iff)
    then obtain x where x: "x \<in> set ?s" "fst x \<le> ?n - 1" "?n - 1 < rr_end (snd x)" "\<not> ?n < rr_end (snd x)"
      by (fastforce simp: rs_set_def)
    then have "touches ?n e x" using True lt by (simp add: touches_def)
    then have "filter (touches ?n e) ?s \<noteq> []" using x(1) by (auto simp: filter_empty_conv)
    then have "0 < length (filter (touches ?n e) ?s)" by blast
    moreover have "length (filter (touches ?n e) ?s) \<le> length ?s" by (rule length_filter_le)
    moreover have "length ?s \<le> ml_max_retained_receive_ranges (rv_limits rv)"
      using inv by (simp add: recv_inv_def)
    ultimately show ?thesis using len by linarith
  next
    case False
    then show ?thesis using len room by simp
  qed
qed

lemma in_order_progress:
  assumes inv: "recv_inv rv" and ne: "payload \<noteq> []" and sz: "length payload \<le> ml_max_payload_bytes (rv_limits rv)"
    and cr: "rv_next_offset rv + length payload \<le> rv_published_max_offset rv"
    and d: "{rv_next_offset rv..<rv_next_offset rv + length payload} \<inter> rs_set (rv_received_ranges rv) = {}"
    and room: "0 < rv_next_offset rv
      \<or> length (rv_received_ranges rv) < ml_max_retained_receive_ranges (rv_limits rv)"
  shows "\<exists>out rv'. receive_data (rv_next_offset rv) payload rv = Some (Inr out, rv')
    \<and> rv_next_offset rv + length payload \<le> rv_next_offset rv'
    \<and> take (length payload) (concat (ro_delivered out)) = payload"
proof -
  let ?n = "rv_next_offset rv" and ?s = "rv_received_ranges rv"
  let ?e = "?n + length payload"
  have wf: "rs_wf ?s" and pm: "rv_published_max_offset rv \<le> u64_max" using inv by (auto simp: recv_inv_def)
  have lt: "?n < ?e" using ne by simp
  obtain f where f: "recv_of f rv"
    "\<forall>i < length payload. ?n + i \<notin> rs_set ?s \<longrightarrow> payload ! i = f (?n + i)"
    using receive_data_any_payload [OF inv] by blast
  have pre: "receive_precheck ?n payload rv = Inr ?e"
    using ne sz cr pm receive_precheck_Inr [of ?n payload rv ?e] by simp
  note ms = uncovered_whole [OF wf lt d]
  have nc: "\<not> rs_covers ?n ?e ?s" using range_store.uncovered_Nil_iff [OF wf lt] ms by simp
  have "range_count_after_insert ?n ?e ?s \<le> ml_max_retained_receive_ranges (rv_limits rv)"
    using range_count_after_insert_eq [OF wf] recv_inv_bounds(2) [OF inv] insert_at_next_count [OF inv lt room]
    by simp
  then have rc: "receive_range_check ?n ?e rv = None" by (simp add: receive_range_check_def Let_def)
  have ord: "is_in_order ?n ?e [\<lparr>range_start = ?n, range_end = ?e\<rparr>] rv" by (simp add: is_in_order_def)
  have "\<exists>out rv'. receive_data ?n payload rv = Some (Inr out, rv')"
    using pre nc ms rc ord by (simp add: receive_data_def store_received_def split: prod.splits)
  then obtain out rv' where r: "receive_data ?n payload rv = Some (Inr out, rv')" by blast
  then have eff: "receive_effect f ?n ?e rv out rv'" using receive_data_general [OF f] by auto
  have "first_gap (rs_set ?s \<union> {?n..<?e}) 0 (rv_next_offset rv')"
    using receive_effectD(3,4) [OF eff] by simp
  moreover have "{..<?e} \<subseteq> rs_set ?s \<union> {?n..<?e}"
    using recv_first_gap [OF inv] by (auto simp: first_gap_def)
  ultimately have le: "?e \<le> rv_next_offset rv'" unfolding first_gap_def by (meson lessThan_iff not_le subset_iff)
  have "payload = seg f ?n ?e"
  proof (rule nth_equalityI)
    fix i assume i: "i < length payload"
    then have "?n + i \<in> {?n..<?e}" by simp
    then have "?n + i \<notin> rs_set ?s" using d by blast
    then show "payload ! i = seg f ?n ?e ! i" using f(2) i by (simp add: seg_def)
  qed simp
  moreover have "take (length payload) (concat (ro_delivered out)) = seg f ?n ?e"
    using receive_effectD(2) [OF eff] le by (simp add: take_seg min_def)
  ultimately show ?thesis using r le by simp
qed

text \<open>
  In-order data is never refused: a well-sized segment that starts at the delivery offset,
  lies within the published credit and meets nothing received is accepted and delivered,
  however full the reorder buffer is, provided some byte was delivered before or the range set
  is below its ceiling.
\<close>

theorem receive_in_order_accepted:
  assumes "recv_inv rv" and "payload \<noteq> []" and "length payload \<le> ml_max_payload_bytes (rv_limits rv)"
    and "rv_next_offset rv + length payload \<le> rv_published_max_offset rv"
    and "{rv_next_offset rv..<rv_next_offset rv + length payload} \<inter> rs_set (rv_received_ranges rv) = {}"
    and "0 < rv_next_offset rv
      \<or> length (rv_received_ranges rv) < ml_max_retained_receive_ranges (rv_limits rv)"
  shows "\<exists>out rv'. receive_data (rv_next_offset rv) payload rv = Some (Inr out, rv')
    \<and> rv_next_offset rv + length payload \<le> rv_next_offset rv'
    \<and> take (length payload) (concat (ro_delivered out)) = payload"
  by (rule in_order_progress [OF assms])

theorem receive_in_order_accepted_witness:
  "\<exists>out rv'. receive_data 0 [0, 1, 2, 3] ex_recv_gap = Some (Inr out, rv') \<and> 4 \<le> rv_next_offset rv'"
proof -
  have "recv_inv ex_recv_gap" using ex_recv_gap_of by (simp add: recv_of_def)
  moreover have "length [0 :: byte, 1, 2, 3] \<le> ml_max_payload_bytes (rv_limits ex_recv_gap)"
    "rv_next_offset ex_recv_gap + length [0 :: byte, 1, 2, 3] \<le> rv_published_max_offset ex_recv_gap"
    "{rv_next_offset ex_recv_gap..<rv_next_offset ex_recv_gap + length [0 :: byte, 1, 2, 3]}
      \<inter> rs_set (rv_received_ranges ex_recv_gap) = {}"
    "0 < rv_next_offset ex_recv_gap
      \<or> length (rv_received_ranges ex_recv_gap) < ml_max_retained_receive_ranges (rv_limits ex_recv_gap)"
    by (auto simp: ex_recv_simps)
  ultimately have "\<exists>out rv'. receive_data (rv_next_offset ex_recv_gap) [0, 1, 2, 3] ex_recv_gap = Some (Inr out, rv')
    \<and> rv_next_offset ex_recv_gap + length [0 :: byte, 1, 2, 3] \<le> rv_next_offset rv'
    \<and> take (length [0 :: byte, 1, 2, 3]) (concat (ro_delivered out)) = [0, 1, 2, 3]"
    by (intro receive_in_order_accepted) simp_all
  then show ?thesis by auto
qed

section \<open>Previews\<close>

text \<open>
  C26. The previews consulted at the ceilings are exact: \<open>range_count_after_insert\<close> is the
  number of retained ranges after the insertion, and the loop of
  \<open>reorder_chunk_count_after_receive\<close> ends with the number of chunks the reorder buffer
  holds after the segment is stored.
\<close>

theorem receive_previews_exact:
  assumes inv: "recv_inv rv" and e: "off + length payload \<le> u64_max"
    and ms: "ms = uncovered_ranges off (off + length payload) (rv_received_ranges rv)"
    and fit: "rv_reorder_bytes rv + ranges_len ms \<le> u64_max"
    and res: "receive_missing off payload ms
        (rv_next_offset rv, rv_reorder_bytes rv + ranges_len ms, rv_buffered rv, []) = (n', rb', buf', d')"
  shows "range_count_after_insert off (off + length payload) (rv_received_ranges rv)
      = length (rs_insert off (off + length payload) (rv_received_ranges rv))
    \<and> reorder_chunk_count_after_receive ms rv = Some (length buf')"
proof -
  obtain f where f: "recv_of f rv"
    "\<forall>i < length payload. off + i \<notin> rs_set (rv_received_ranges rv) \<longrightarrow> payload ! i = f (off + i)"
    using receive_data_any_payload [OF inv] by blast
  note m = missing_rx_inv [OF f(1) e f(2), folded ms]
  have "range_count_after_insert off (off + length payload) (rv_received_ranges rv)
      = length (rs_insert off (off + length payload) (rv_received_ranges rv))"
    using range_count_after_insert_eq recv_inv_bounds(2) [OF inv] inv by (simp add: recv_inv_def)
  then show ?thesis
    using chunk_count_exact [OF m(1,3) res fit] by (simp add: reorder_chunk_count_after_receive_def)
qed

theorem receive_previews_exact_witness:
  "range_count_after_insert 5 8 (rv_received_ranges ex_recv_gap) = 1
    \<and> reorder_chunk_count_after_receive [\<lparr>range_start = 6, range_end = 8\<rparr>] ex_recv_gap = Some 2"
proof -
  have i: "recv_inv ex_recv_gap" using ex_recv_gap_of by (simp add: recv_of_def)
  have ms: "[\<lparr>range_start = 6, range_end = 8\<rparr>]
      = uncovered_ranges 5 (5 + length [5 :: byte, 6, 7]) (rv_received_ranges ex_recv_gap)"
    by code_simp
  have res: "receive_missing 5 [5, 6, 7] [\<lparr>range_start = 6, range_end = 8\<rparr>]
      (rv_next_offset ex_recv_gap, rv_reorder_bytes ex_recv_gap + ranges_len [\<lparr>range_start = 6, range_end = 8\<rparr>],
       rv_buffered ex_recv_gap, []) = (0, 4, [(4, [4, 5]), (6, [6, 7])], [])"
    by code_simp
  have "length (rs_insert 5 (5 + length [5 :: byte, 6, 7]) (rv_received_ranges ex_recv_gap)) = 1"
    by code_simp
  then show ?thesis
    using receive_previews_exact [OF i _ ms _ res]
    by (simp add: u64_max_def ranges_len_def range_len_def ex_recv_simps)
qed

section \<open>Acknowledgements\<close>

lemma cumulative_acks:
  assumes "recv_inv rv"
  shows "(\<forall>fr \<in> set (ack_frames rv). ack_truthful (rs_set (rv_received_ranges rv)) fr
        \<and> ack_range_count fr \<le> max (ml_max_ack_ranges (rv_limits rv)) 1)
    \<and> (\<Union>fr \<in> set (ack_frames rv). ack_positive fr) = rs_set (rv_received_ranges rv)
    \<and> ack_truthful (rs_set (rv_received_ranges rv)) (ack_frame rv)
    \<and> ack_range_count (ack_frame rv) \<le> max (ml_max_ack_ranges (rv_limits rv)) 1"
proof -
  let ?s = "rv_received_ranges rv" and ?n = "max (ml_max_ack_ranges (rv_limits rv)) 1"
  have wf: "rs_wf ?s" and len: "length ?s \<le> u64_max"
    using assms recv_inv_bounds(2) [OF assms] by (auto simp: recv_inv_def)
  note r = rs_ranges_correct [OF wf len]
  have all: "(\<forall>fr \<in> set (ack_frames rv). ack_truthful (rs_set ?s) fr \<and> ack_range_count fr \<le> ?n)"
    "(\<Union>fr \<in> set (ack_frames rv). ack_positive fr) = rs_set ?s"
    using scoped_ack_frames_correct [OF r(1), of "rs_set ?s" 0 rv] r(2)
    by (simp_all add: ack_frames_def ack_ranges_def)
  let ?r = "ranges_limited ?n ?s"
  have fr: "ack_frame rv = StreamAck (rv_stream_id rv)
      (if ?r \<noteq> [] \<and> range_start (last ?r) > 0 then Some 0 else None) ?r"
    by (simp add: ack_frame_def ack_ranges_limited_def Let_def)
  note l = ranges_limited_correct [OF wf, of ?n]
  have split: "rs_set ?s = rs_set (take ?n ?s) \<union> rs_set (drop ?n ?s)"
    using rs_set_simps(3) [of "take ?n ?s" "drop ?n ?s"] by simp
  have "{0..<range_end (last ?r)} \<inter> rs_set (drop ?n ?s) = {}" if "?r \<noteq> []"
  proof -
    have "range_end (last ?r) = rr_end (snd (last (take ?n ?s)))" "take ?n ?s \<noteq> []"
      using that unfolding ranges_limited_map [OF wf] by (auto simp: last_map split: prod.splits)
    moreover have "rr_end (snd x) < fst y" if "x \<in> set (take ?n ?s)" "y \<in> set (drop ?n ?s)" for x y
    proof -
      have "rs_wf (take ?n ?s @ drop ?n ?s)" using wf by simp
      then show ?thesis using that unfolding rs_wf_def sorted_wrt_append by blast
    qed
    ultimately have "range_end (last ?r) < fst y" if "y \<in> set (drop ?n ?s)" for y
      using that last_in_set [of "take ?n ?s"] by metis
    then show ?thesis by (fastforce simp: rs_set_def)
  qed
  then have "ack_truthful (rs_set ?s) (ack_frame rv)"
    unfolding fr using l split by auto
  moreover have "ack_range_count (ack_frame rv) \<le> ?n"
    unfolding fr by (simp add: ranges_limited_map [OF wf])
  ultimately show ?thesis using all by blast
qed

text \<open>
  C27. The cumulative acknowledgements are true: each frame of \<open>ack_frames\<close> and the single
  \<open>ack_frame\<close> lists only received offsets within the configured number of ranges; a frame
  with a scope omits no received offset between the start of its scope and its last range; and
  together the frames list every received offset.
\<close>

theorem ack_frames_truthful:
  assumes "recv_inv rv"
  shows "(\<forall>fr \<in> set (ack_frames rv). ack_truthful (rs_set (rv_received_ranges rv)) fr
        \<and> ack_range_count fr \<le> max (ml_max_ack_ranges (rv_limits rv)) 1)
    \<and> (\<Union>fr \<in> set (ack_frames rv). ack_positive fr) = rs_set (rv_received_ranges rv)
    \<and> ack_truthful (rs_set (rv_received_ranges rv)) (ack_frame rv)
    \<and> ack_range_count (ack_frame rv) \<le> max (ml_max_ack_ranges (rv_limits rv)) 1"
  by (rule cumulative_acks [OF assms])

theorem ack_frames_truthful_witness:
  "recv_inv ex_recv_gap \<and> (\<Union>fr \<in> set (ack_frames ex_recv_gap). ack_positive fr) = {4..<6}"
proof -
  have i: "recv_inv ex_recv_gap" using ex_recv_gap_of by (simp add: recv_of_def)
  have "rs_set (rv_received_ranges ex_recv_gap) = {4..<6}" by (simp add: ex_recv_simps)
  then show ?thesis using ack_frames_truthful [OF i] i by simp
qed

text \<open>
  The incremental acknowledgements: \<open>ack_inv A\<close> says that the offsets of the entries not
  marked as changed were published (are in \<open>A\<close>) and lie below the high water.
\<close>

definition ack_inv :: "nat set \<Rightarrow> recv_stream \<Rightarrow> bool" where
  "ack_inv A rv \<longleftrightarrow>
     (\<forall>e \<in> set (rv_received_ranges rv). \<not> rr_dirty (snd e) \<longrightarrow>
        {fst e..<rr_end (snd e)} \<subseteq> A \<and> rr_end (snd e) \<le> rv_ack_high_water rv)"

lemma ack_inv_new: "ack_inv A (recv_new_with_initial_max_offset sid l m)"
  by (simp add: ack_inv_def recv_new_with_initial_max_offset_def)

lemma ack_inv_mono: "ack_inv A rv \<Longrightarrow> A \<subseteq> B \<Longrightarrow> ack_inv B rv"
  unfolding ack_inv_def by blast

lemma ack_inv_commit: "ack_inv A rv \<Longrightarrow> ack_inv A (commit_max_data m rv)"
  by (simp add: ack_inv_def commit_max_data_def)

lemma receive_data_ranges:
  "receive_data off payload rv = Some (res, rv') \<Longrightarrow> rv_ack_high_water rv' = rv_ack_high_water rv
    \<and> (rv_received_ranges rv' = rv_received_ranges rv
       \<or> (\<exists>e. rv_received_ranges rv' = rs_insert off e (rv_received_ranges rv)))"
  by (auto simp: receive_data_def store_received_def Let_def
      split: sum.splits option.splits if_splits prod.splits)

lemma ack_inv_receive:
  assumes "recv_inv rv" and "ack_inv A rv" and "receive_data off payload rv = Some (res, rv')"
  shows "ack_inv A rv'"
proof -
  have wf: "rs_wf (rv_received_ranges rv)" using assms(1) by (simp add: recv_inv_def)
  note r = receive_data_ranges [OF assms(3)]
  then have "x \<in> set (rv_received_ranges rv) \<or> rr_dirty (snd x)" if "x \<in> set (rv_received_ranges rv')" for x
    using rs_insert_clean_entries [OF wf] that by metis
  then show ?thesis using assms(2) r unfolding ack_inv_def by metis
qed

lemma length_take_changed: "length (snd (take_changed_ranges s)) = length s"
  by (simp add: take_changed_ranges_def)

lemma incremental_acks:
  assumes inv: "recv_inv rv" and ack: "ack_inv A rv" and upd: "take_ack_update rv = (frames, rv')"
  shows "(\<forall>fr \<in> set frames. ack_truthful (rs_set (rv_received_ranges rv)) fr
        \<and> ack_range_count fr \<le> max (ml_max_ack_ranges (rv_limits rv)) 1)
    \<and> rs_set (rv_received_ranges rv) \<subseteq> A \<union> (\<Union>fr \<in> set frames. ack_positive fr)
    \<and> recv_inv rv' \<and> ack_inv (A \<union> (\<Union>fr \<in> set frames. ack_positive fr)) rv'
    \<and> rs_set (rv_received_ranges rv') = rs_set (rv_received_ranges rv)"
proof -
  let ?s = "rv_received_ranges rv"
  let ?dirty = "filter (\<lambda>e. rr_dirty (snd e)) ?s"
  have wf: "rs_wf ?s" using inv by (simp add: recv_inv_def)
  note c = take_changed_ranges_correct [OF wf]
  have frames: "frames = scoped_ack_frames (fst (take_changed_ranges ?s)) (rv_ack_high_water rv)
      (rv\<lparr>rv_received_ranges := snd (take_changed_ranges ?s)\<rparr>)"
    and rv': "rv' = rv\<lparr>rv_received_ranges := snd (take_changed_ranges ?s),
      rv_ack_high_water := ars_largest_end (rs_summary (snd (take_changed_ranges ?s)))\<rparr>"
    using upd by (auto simp: take_ack_update_def ack_range_summary_def Let_def split: prod.splits)
  have clean: "x \<in> A \<and> x < rv_ack_high_water rv" if x: "x \<in> rs_set ?s" "x \<notin> rs_set ?dirty" for x
  proof -
    obtain e where e: "e \<in> set ?s" "x \<in> {fst e..<rr_end (snd e)}" using x(1) by (auto simp: rs_set_def)
    then have "\<not> rr_dirty (snd e)" using x(2) by (auto simp: rs_set_def)
    then show ?thesis using ack e by (fastforce simp: ack_inv_def)
  qed
  have sub: "rs_set ?dirty \<subseteq> rs_set ?s" by (auto simp: rs_set_def)
  have "rs_set ?s \<inter> {rv_ack_high_water rv..} \<subseteq> rs_set ?dirty" using clean by fastforce
  note sc = scoped_ack_frames_correct [OF c(1), unfolded c(2), OF sub this,
      of "rv\<lparr>rv_received_ranges := snd (take_changed_ranges ?s)\<rparr>"]
  have pub: "rs_set ?s \<subseteq> A \<union> (\<Union>fr \<in> set frames. ack_positive fr)"
    unfolding frames sc(2) using clean by blast
  have "recv_inv rv'"
    using inv c(3,4) unfolding rv' by (auto simp: recv_inv_def length_take_changed)
  moreover have "ack_inv (A \<union> (\<Union>fr \<in> set frames. ack_positive fr)) rv'"
  proof -
    have "{fst e..<rr_end (snd e)} \<subseteq> rs_set ?s" if "e \<in> set (snd (take_changed_ranges ?s))" for e
    proof -
      have "{fst e..<rr_end (snd e)} \<subseteq> rs_set (snd (take_changed_ranges ?s))"
        unfolding rs_set_def using that by blast
      then show ?thesis by (simp only: c(4))
    qed
    moreover have "rr_end (snd e) \<le> ars_largest_end (rs_summary (snd (take_changed_ranges ?s)))"
      if e: "e \<in> set (snd (take_changed_ranges ?s))" for e
    proof -
      have "rr_end (snd e) - 1 \<in> {fst e..<rr_end (snd e)}" using rs_wf_nonempty [OF c(3) e] by auto
      then have "rr_end (snd e) - 1 \<in> rs_set (snd (take_changed_ranges ?s))"
        unfolding rs_set_def using e by blast
      then have "rr_end (snd e) - 1 < ars_largest_end (rs_summary (snd (take_changed_ranges ?s)))"
        using rs_summary_largest_end [OF c(3)] by blast
      then show ?thesis by linarith
    qed
    ultimately show ?thesis using pub unfolding ack_inv_def rv' by simp (meson order_trans)
  qed
  ultimately show ?thesis using sc(1) pub c(4) unfolding frames rv' by simp
qed

text \<open>
  The incremental acknowledgements are true and complete: each frame of
  \<open>take_ack_update\<close> lists only received offsets and omits none within its scope, and every
  received offset that was not published before is in one of the frames, so that afterwards all
  received offsets have been published.
\<close>

theorem take_ack_update_publishes:
  assumes "recv_inv rv" and "ack_inv A rv" and "take_ack_update rv = (frames, rv')"
  shows "(\<forall>fr \<in> set frames. ack_truthful (rs_set (rv_received_ranges rv)) fr
        \<and> ack_range_count fr \<le> max (ml_max_ack_ranges (rv_limits rv)) 1)
    \<and> rs_set (rv_received_ranges rv) \<subseteq> A \<union> (\<Union>fr \<in> set frames. ack_positive fr)
    \<and> recv_inv rv' \<and> ack_inv (A \<union> (\<Union>fr \<in> set frames. ack_positive fr)) rv'
    \<and> rs_set (rv_received_ranges rv') = rs_set (rv_received_ranges rv)"
  by (rule incremental_acks [OF assms])

theorem take_ack_update_publishes_witness:
  "\<exists>frames rv'. take_ack_update ex_recv_gap = (frames, rv')
    \<and> {4..<6} \<subseteq> (\<Union>fr \<in> set frames. ack_positive fr) \<and> ack_inv {4..<6} rv'"
proof -
  have i: "recv_inv ex_recv_gap" using ex_recv_gap_of by (simp add: recv_of_def)
  have a: "ack_inv {} ex_recv_gap" by (simp add: ack_inv_def ex_recv_simps)
  have u: "take_ack_update ex_recv_gap = ([StreamAck 7 (Some 0) [\<lparr>range_start = 4, range_end = 6\<rparr>]],
      ex_recv_gap\<lparr>rv_ack_high_water := 6, rv_received_ranges := [(4, \<lparr>rr_end = 6, rr_dirty = False\<rparr>)]\<rparr>)"
    by code_simp
  from take_ack_update_publishes [OF i a u] show ?thesis using u by (auto simp: range_set_def)
qed

end
