(* ===== verification/Send_Stream.thy ===== *)
theory Send_Stream
  imports Offset_Ranges Chunk_Store Resource_Limits
begin

text \<open>
  The send half of a reliable stream, \<open>ReliableSendStream\<close> of \<open>src/src/mux/stream.rs\<close>:
  preparing, committing and rolling back data, releasing acknowledged bytes from the reinjection
  cache, and selecting the frames to retransmit. A cache entry keeps its own offset next to its
  key, as \<open>SentChunk\<close> does; \<open>plain\<close> forgets it and gives the chunks of
  \<open>Chunk_Store\<close>. \<open>send_of\<close> is the invariant: with the bytes sent so far as a list, every
  cached chunk is a piece of that list and the counters agree with the cache.
\<close>

record sent_chunk =
  sc_offset :: u64
  sc_payload :: "byte list"

type_synonym reinjection_cache = "sent_chunk btree"

record send_stream =
  sd_stream_id :: stream_id
  sd_next_offset :: u64
  sd_max_offset :: u64
  sd_reinjection_bytes :: usize
  sd_reinjection_cache :: reinjection_cache
  sd_limits :: mux_limits

record ack_outcome =
  ao_released_bytes :: usize
  ao_released_chunks :: usize
  ao_remaining_reinjection_bytes :: usize

record validated_stream_ack =
  va_scope_start :: "u64 option"
  va_ranges :: "offset_range list"
  va_assigned_end :: u64

definition send_new_with_initial_max_offset :: "stream_id \<Rightarrow> mux_limits \<Rightarrow> u64 \<Rightarrow> send_stream" where
  "send_new_with_initial_max_offset sid limits initial_max_offset =
     \<lparr>sd_stream_id = sid, sd_next_offset = 0, sd_max_offset = initial_max_offset,
      sd_reinjection_bytes = 0, sd_reinjection_cache = [], sd_limits = limits\<rparr>"

definition send_new :: "stream_id \<Rightarrow> mux_limits \<Rightarrow> send_stream" where
  "send_new sid limits = send_new_with_initial_max_offset sid limits (ml_max_stream_window_bytes limits)"

definition send_credit_bytes :: "send_stream \<Rightarrow> usize" where
  "send_credit_bytes sd = saturating_sub (sd_max_offset sd) (sd_next_offset sd)"

definition data_ack_frontier :: "send_stream \<Rightarrow> u64" where
  "data_ack_frontier sd =
     (case sd_reinjection_cache sd of [] \<Rightarrow> sd_next_offset sd | (offset, _) # _ \<Rightarrow> offset)"

definition update_max_offset :: "u64 \<Rightarrow> send_stream \<Rightarrow> send_stream" where
  "update_max_offset max_offset sd = sd\<lparr>sd_max_offset := max (sd_max_offset sd) max_offset\<rparr>"

section \<open>Slices and overlap\<close>

definition sent_chunk_end :: "sent_chunk \<Rightarrow> u64" where
  "sent_chunk_end c = saturating_add (sc_offset c) (length (sc_payload c))"

definition sent_chunk_slice :: "sent_chunk \<Rightarrow> u64 \<Rightarrow> u64 \<Rightarrow> sent_chunk option" where
  "sent_chunk_slice c start e =
     (if start \<ge> e then None
      else
        let slice_start = saturating_sub start (sc_offset c);
            slice_end = min (saturating_sub e (sc_offset c)) (length (sc_payload c))
        in if slice_start \<ge> slice_end then None
           else Some \<lparr>sc_offset = start, sc_payload = bslice slice_start slice_end (sc_payload c)\<rparr>)"

definition first_overlapping_reinjection_chunk :: "reinjection_cache \<Rightarrow> u64 \<Rightarrow> u64 \<Rightarrow> u64 option" where
  "first_overlapping_reinjection_chunk cache start e =
     (if start \<ge> e then None
      else
        let from_start = map_option fst (bt_next (bt_range start e cache))
        in case bt_last_le start cache of
             Some (offset, c) \<Rightarrow> if sent_chunk_end c > start then Some offset else from_start
           | None \<Rightarrow> from_start)"

definition has_unacknowledged_ranges :: "offset_range list \<Rightarrow> send_stream \<Rightarrow> bool" where
  "has_unacknowledged_ranges ranges sd \<longleftrightarrow>
     list_ex (\<lambda>r. first_overlapping_reinjection_chunk (sd_reinjection_cache sd) (range_start r) (range_end r) \<noteq> None)
       ranges"

definition push_retained :: "offset_range \<Rightarrow> nat \<times> sent_chunk \<Rightarrow> offset_range list \<Rightarrow> offset_range list" where
  "push_retained scope entry retained =
     (let e = min (saturating_add (fst entry) (length (sc_payload (snd entry)))) (range_end scope);
          start = max (fst entry) (range_start scope)
      in if start \<ge> e then retained
         else if retained \<noteq> [] \<and> range_end (last retained) = start
         then butlast retained @ [(last retained)\<lparr>range_end := e\<rparr>]
         else retained @ [\<lparr>range_start = start, range_end = e\<rparr>])"

definition retained_ranges_in_scope :: "offset_range \<Rightarrow> send_stream \<Rightarrow> offset_range list" where
  "retained_ranges_in_scope scope sd =
     (case first_overlapping_reinjection_chunk (sd_reinjection_cache sd) (range_start scope) (range_end scope) of
        None \<Rightarrow> []
      | Some first \<Rightarrow> fold (push_retained scope) (bt_range first (range_end scope) (sd_reinjection_cache sd)) [])"

section \<open>Sending\<close>

text \<open>The checks that \<open>prepare_data\<close> and \<open>commit_prepared_data\<close> share.\<close>

definition check_send_limits :: "usize \<Rightarrow> send_stream \<Rightarrow> stream_error + u64 \<times> usize" where
  "check_send_limits len sd =
     (case checked_add (sd_next_offset sd) len of
        None \<Rightarrow> Inl OffsetOverflow
      | Some e \<Rightarrow>
          if e > sd_max_offset sd then Inl (FlowControlBlocked e (sd_max_offset sd))
          else
            (case checked_add (sd_reinjection_bytes sd) len of
               None \<Rightarrow> Inl (ReinjectionCacheFull u64_max (ml_max_repair_bytes (sd_limits sd)))
             | Some new_bytes \<Rightarrow>
                 if new_bytes > ml_max_repair_bytes (sd_limits sd)
                 then Inl (ReinjectionCacheFull new_bytes (ml_max_repair_bytes (sd_limits sd)))
                 else
                   (case checked_add (length (sd_reinjection_cache sd)) 1 of
                      None \<Rightarrow> Inl (TooManyReinjectionCacheChunks u64_max
                                  (ml_max_reinjection_cache_chunks (sd_limits sd)))
                    | Some new_chunks \<Rightarrow>
                        if new_chunks > ml_max_reinjection_cache_chunks (sd_limits sd)
                        then Inl (TooManyReinjectionCacheChunks new_chunks
                                  (ml_max_reinjection_cache_chunks (sd_limits sd)))
                        else Inr (e, new_bytes))))"

definition prepare_data :: "byte list \<Rightarrow> send_stream \<Rightarrow> stream_error + frame" where
  "prepare_data payload sd =
     (if payload = [] then Inl EmptyPayload
      else if length payload > ml_max_payload_bytes (sd_limits sd)
      then Inl (PayloadTooLarge (length payload) (ml_max_payload_bytes (sd_limits sd)))
      else
        (case check_send_limits (length payload) sd of
           Inl err \<Rightarrow> Inl err
         | Inr _ \<Rightarrow> Inr (StreamData (sd_stream_id sd) (sd_next_offset sd) payload)))"

definition commit_prepared_data :: "frame \<Rightarrow> send_stream \<Rightarrow> (stream_error + unit) \<times> send_stream" where
  "commit_prepared_data frame sd =
     (case frame of
        StreamData sid offset payload \<Rightarrow>
          if sid \<noteq> sd_stream_id sd \<or> offset \<noteq> sd_next_offset sd then (Inl InvalidPreparedFrame, sd)
          else
            (case check_send_limits (length payload) sd of
               Inl err \<Rightarrow> (Inl err, sd)
             | Inr (e, new_bytes) \<Rightarrow>
                 (Inr (), sd\<lparr>sd_next_offset := e, sd_reinjection_bytes := new_bytes,
                    sd_reinjection_cache :=
                      bt_insert offset \<lparr>sc_offset = offset, sc_payload = payload\<rparr> (sd_reinjection_cache sd)\<rparr>))
      | _ \<Rightarrow> (Inl InvalidPreparedFrame, sd))"

definition send_data :: "byte list \<Rightarrow> send_stream \<Rightarrow> (stream_error + frame) \<times> send_stream" where
  "send_data payload sd =
     (case prepare_data payload sd of
        Inl err \<Rightarrow> (Inl err, sd)
      | Inr fr \<Rightarrow>
          (case commit_prepared_data fr sd of
             (Inl err, sd') \<Rightarrow> (Inl err, sd')
           | (Inr _, sd') \<Rightarrow> (Inr fr, sd')))"

definition rollback_committed_data :: "frame \<Rightarrow> send_stream \<Rightarrow> (stream_error + unit) \<times> send_stream" where
  "rollback_committed_data frame sd =
     (case frame of
        StreamData sid offset payload \<Rightarrow>
          (case checked_add offset (length payload) of
             None \<Rightarrow> (Inl OffsetOverflow, sd)
           | Some e \<Rightarrow>
               if sid \<noteq> sd_stream_id sd \<or> e \<noteq> sd_next_offset sd then (Inl InvalidPreparedFrame, sd)
               else
                 (case bt_get offset (sd_reinjection_cache sd) of
                    None \<Rightarrow> (Inl InvalidPreparedFrame, sd)
                  | Some c \<Rightarrow>
                      let sd1 = sd\<lparr>sd_reinjection_cache := bt_remove offset (sd_reinjection_cache sd)\<rparr>
                      in if length (sc_payload c) \<noteq> length payload \<or> sc_offset c \<noteq> offset
                         then (Inl InvalidPreparedFrame, sd1)
                         else (Inr (), sd1\<lparr>sd_next_offset := offset,
                                 sd_reinjection_bytes :=
                                   saturating_sub (sd_reinjection_bytes sd) (length payload)\<rparr>)))
      | _ \<Rightarrow> (Inl InvalidPreparedFrame, sd))"

section \<open>Acknowledgements\<close>

fun check_ack_ranges :: "u64 \<Rightarrow> offset_range list \<Rightarrow> stream_error option" where
  "check_ack_ranges assigned_end [] = None"
| "check_ack_ranges assigned_end (r # rs) =
     (if range_start r \<ge> range_end r then Some (InvalidAckRange (range_start r) (range_end r))
      else if range_end r > assigned_end
      then Some (AckRangeBeyondAssigned (range_start r) (range_end r) assigned_end)
      else check_ack_ranges assigned_end rs)"

definition max_range_end :: "offset_range list \<Rightarrow> u64 option" where
  "max_range_end ranges = (if ranges = [] then None else Some (fold (\<lambda>r m. max m (range_end r)) ranges 0))"

definition validate_stream_ack ::
  "u64 option \<Rightarrow> offset_range list \<Rightarrow> u64 \<Rightarrow> stream_error + validated_stream_ack" where
  "validate_stream_ack scope_start ranges assigned_end =
     (case check_ack_ranges assigned_end ranges of
        Some err \<Rightarrow> Inl err
      | None \<Rightarrow>
          let result = Inr \<lparr>va_scope_start = scope_start, va_ranges = normalize_offset_ranges ranges,
                            va_assigned_end = assigned_end\<rparr>
          in case scope_start of
               None \<Rightarrow> result
             | Some start \<Rightarrow>
                 if \<not> list_ex (\<lambda>r. start < range_end r) ranges
                 then Inl (InvalidAckRange start (case max_range_end ranges of None \<Rightarrow> 0 | Some m \<Rightarrow> m))
                 else result)"

text \<open>
  The loop of \<open>apply_normalized_ack\<close> over the chunks that one range touches. Every turn that
  does not leave the loop removes at least one cached byte, so the bytes held by the cache are a
  termination measure for any cache.
\<close>

definition cache_len :: "reinjection_cache \<Rightarrow> nat" where
  "cache_len cache = sum_list (map (length \<circ> sc_payload \<circ> snd) cache)"

definition insert_slice :: "sent_chunk option \<Rightarrow> reinjection_cache \<Rightarrow> reinjection_cache" where
  "insert_slice s cache = (case s of None \<Rightarrow> cache | Some c \<Rightarrow> bt_insert (sc_offset c) c cache)"

text \<open>
  One turn on the removed chunk \<open>c\<close>: \<open>None\<close> when nothing of it is acknowledged, otherwise
  the cache with the unacknowledged ends put back, the bytes released, and one released chunk
  when none of it is left.
\<close>

definition release_chunk ::
  "u64 \<Rightarrow> u64 \<Rightarrow> sent_chunk \<Rightarrow> reinjection_cache \<Rightarrow> (reinjection_cache \<times> usize \<times> usize) option" where
  "release_chunk start e c cache =
     (let chunk_start = sc_offset c;
          chunk_stop = sent_chunk_end c;
          acked_start = max chunk_start start;
          acked_end = min chunk_stop e
      in if acked_start \<ge> acked_end then None
         else if acked_start = chunk_start \<and> acked_end = chunk_stop
         then Some (cache, saturating_sub acked_end acked_start, 1)
         else Some (insert_slice (sent_chunk_slice c acked_end chunk_stop)
                      (insert_slice (sent_chunk_slice c chunk_start acked_start) cache),
                    saturating_sub acked_end acked_start, 0))"

function release_range ::
  "u64 \<Rightarrow> u64 \<Rightarrow> reinjection_cache \<Rightarrow> usize \<Rightarrow> usize \<Rightarrow> reinjection_cache \<times> usize \<times> usize" where
  "release_range start e cache released_bytes released_chunks =
     (case first_overlapping_reinjection_chunk cache start e of
        None \<Rightarrow> (cache, released_bytes, released_chunks)
      | Some offset \<Rightarrow>
          (case bt_get offset cache of
             None \<Rightarrow> (cache, released_bytes, released_chunks)
           | Some c \<Rightarrow>
               (case release_chunk start e c (bt_remove offset cache) of
                  None \<Rightarrow> (bt_insert (sc_offset c) c (bt_remove offset cache), released_bytes, released_chunks)
                | Some (cache', bytes, n) \<Rightarrow>
                    release_range start e cache' (saturating_add released_bytes bytes) (released_chunks + n))))"
  by pat_completeness auto

lemma cache_len_remove: "bt_get k m = Some c \<Longrightarrow> cache_len (bt_remove k m) + length (sc_payload c) \<le> cache_len m"
proof (induction m)
  case (Cons e m)
  then show ?case
    by (cases "fst e = k")
      (auto simp: cache_len_def bt_remove_def bt_get_def split: if_splits intro!: sum_list_filter_le_nat)
qed (simp add: bt_get_def)

lemma cache_len_insert: "cache_len (bt_insert k c m) \<le> length (sc_payload c) + cache_len m"
  by (induction m) (auto simp: cache_len_def)

lemma cache_len_insert_slice:
  "cache_len (insert_slice (sent_chunk_slice c a b) m) \<le> (b - a) + cache_len m"
proof -
  have "length (sc_payload c') \<le> b - a" if "sent_chunk_slice c a b = Some c'" for c'
    using that by (auto simp: sent_chunk_slice_def Let_def split: if_splits)
  then show ?thesis
    using cache_len_insert [of _ _ m] unfolding insert_slice_def
    by (auto split: option.split) (meson add_le_mono1 le_trans)
qed

lemma release_chunk_less:
  assumes "bt_get k cache = Some c" and "release_chunk start e c (bt_remove k cache) = Some (cache', bytes, n)"
  shows "cache_len cache' < cache_len cache"
proof -
  let ?s = "max (sc_offset c) start" and ?e = "min (sent_chunk_end c) e" and ?m = "bt_remove k cache"
  have lt: "?s < ?e" using assms(2) by (auto simp: release_chunk_def Let_def split: if_splits)
  have le: "sent_chunk_end c \<le> sc_offset c + length (sc_payload c)"
    by (simp add: sent_chunk_end_def saturating_add_le)
  have "cache_len (insert_slice (sent_chunk_slice c ?e (sent_chunk_end c))
        (insert_slice (sent_chunk_slice c (sc_offset c) ?s) ?m))
      \<le> (sent_chunk_end c - ?e) + ((?s - sc_offset c) + cache_len ?m)"
    by (meson add_left_mono cache_len_insert_slice le_trans)
  then have "cache_len cache' \<le> (sent_chunk_end c - ?e) + ((?s - sc_offset c) + cache_len ?m)"
    using assms(2) by (auto simp: release_chunk_def Let_def split: if_splits)
  also have "\<dots> < cache_len cache"
    using cache_len_remove [OF assms(1)] lt le by linarith
  finally show ?thesis .
qed

termination release_range
  by (relation "measure (\<lambda>(start, e, cache, b, n). cache_len cache)") (auto intro: release_chunk_less)

declare release_range.simps [simp del]

text \<open>
  The preview of the number of chunks after an acknowledgement. The index found by
  \<open>partition_point\<close> and the index loop are the remaining suffix of the ranges.
\<close>

fun unacked_loop :: "u64 \<Rightarrow> offset_range list \<Rightarrow> u64 \<Rightarrow> usize \<Rightarrow> u64 \<times> usize" where
  "unacked_loop chunk_stop [] cursor segments = (cursor, segments)"
| "unacked_loop chunk_stop (r # rs) cursor segments =
     (if range_start r \<ge> chunk_stop then (cursor, segments)
      else if min (max cursor (range_end r)) chunk_stop \<ge> chunk_stop
      then (min (max cursor (range_end r)) chunk_stop,
            if range_start r > cursor then saturating_add segments 1 else segments)
      else unacked_loop chunk_stop rs (min (max cursor (range_end r)) chunk_stop)
             (if range_start r > cursor then saturating_add segments 1 else segments))"

definition unacked_segments_after_ranges :: "sent_chunk \<Rightarrow> offset_range list \<Rightarrow> usize" where
  "unacked_segments_after_ranges c ranges =
     (let chunk_start = sc_offset c;
          chunk_stop = sent_chunk_end c;
          rest = drop (partition_point (\<lambda>r. range_end r \<le> chunk_start) ranges) ranges;
          (cursor, segments) = unacked_loop chunk_stop rest chunk_start 0
      in if cursor < chunk_stop then saturating_add segments 1 else segments)"

definition reinjection_chunk_count_after_ack :: "reinjection_cache \<Rightarrow> offset_range list \<Rightarrow> usize" where
  "reinjection_chunk_count_after_ack cache ranges =
     (case checked_sum 0 (map (\<lambda>e. unacked_segments_after_ranges (snd e) ranges) cache) of
        None \<Rightarrow> u64_max
      | Some n \<Rightarrow> n)"

fun release_ranges ::
  "offset_range list \<Rightarrow> reinjection_cache \<times> usize \<times> usize \<Rightarrow> reinjection_cache \<times> usize \<times> usize" where
  "release_ranges [] st = st"
| "release_ranges (r # rs) (cache, bytes, n) =
     release_ranges rs (release_range (range_start r) (range_end r) cache bytes n)"

definition apply_normalized_ack :: "offset_range list \<Rightarrow> send_stream \<Rightarrow> (stream_error + ack_outcome) \<times> send_stream" where
  "apply_normalized_ack ranges sd =
     (if ranges = [] \<or> sd_reinjection_cache sd = []
      then (Inr \<lparr>ao_released_bytes = 0, ao_released_chunks = 0,
                 ao_remaining_reinjection_bytes = sd_reinjection_bytes sd\<rparr>, sd)
      else
        let limit = ml_max_reinjection_cache_chunks (sd_limits sd);
            actual = reinjection_chunk_count_after_ack (sd_reinjection_cache sd) ranges
        in if saturating_add (length (sd_reinjection_cache sd)) (length ranges) > limit \<and> actual > limit
           then (Inl (TooManyReinjectionCacheChunks actual limit), sd)
           else
             (case release_ranges ranges (sd_reinjection_cache sd, 0, 0) of
                (cache, released_bytes, released_chunks) \<Rightarrow>
                  let remaining = saturating_sub (sd_reinjection_bytes sd) released_bytes
                  in (Inr \<lparr>ao_released_bytes = released_bytes, ao_released_chunks = released_chunks,
                           ao_remaining_reinjection_bytes = remaining\<rparr>,
                      sd\<lparr>sd_reinjection_cache := cache, sd_reinjection_bytes := remaining\<rparr>)))"

definition apply_validated_ack :: "validated_stream_ack \<Rightarrow> send_stream \<Rightarrow> (stream_error + ack_outcome) \<times> send_stream" where
  "apply_validated_ack ack sd = apply_normalized_ack (va_ranges ack) sd"

definition apply_ack :: "offset_range list \<Rightarrow> send_stream \<Rightarrow> (stream_error + ack_outcome) \<times> send_stream" where
  "apply_ack ranges sd =
     (case validate_stream_ack None ranges (sd_next_offset sd) of
        Inl err \<Rightarrow> (Inl err, sd)
      | Inr ack \<Rightarrow> apply_validated_ack ack sd)"

section \<open>Retransmission\<close>

text \<open>
  \<open>push_retransmission_slice\<close> returns whether the caller goes on, with the frames and the
  bytes emitted so far.
\<close>

type_synonym emission = "frame list \<times> usize"

definition push_retransmission_slice ::
  "stream_id \<Rightarrow> sent_chunk \<Rightarrow> u64 \<Rightarrow> u64 \<Rightarrow> usize \<Rightarrow> emission \<Rightarrow> bool \<times> emission" where
  "push_retransmission_slice sid c start0 e0 byte_limit em =
     (if start0 \<ge> e0 \<or> snd em \<ge> byte_limit then (False, em)
      else
        let chunk_stop = sent_chunk_end c;
            start = min (max start0 (sc_offset c)) chunk_stop;
            e = min (max e0 start) chunk_stop;
            available = saturating_sub e start;
            remaining = saturating_sub byte_limit (snd em);
            len = min available remaining
        in if len = 0 then (False, em)
           else
             let slice_start = saturating_sub start (sc_offset c);
                 slice_end = min (saturating_add slice_start len) (length (sc_payload c))
             in if slice_start \<ge> slice_end then (False, em)
                else
                  let emitted = saturating_add (snd em) (slice_end - slice_start)
                  in (emitted < byte_limit,
                      fst em @ [StreamData sid start (bslice slice_start slice_end (sc_payload c))], emitted))"

fun range_slices ::
  "stream_id \<Rightarrow> sent_chunk \<Rightarrow> usize \<Rightarrow> offset_range list \<Rightarrow> emission \<Rightarrow> bool \<times> emission" where
  "range_slices sid c byte_limit [] em = (True, em)"
| "range_slices sid c byte_limit (r # rs) em =
     (if range_start r \<ge> sent_chunk_end c then (True, em)
      else if range_end r > sc_offset c
      then (case push_retransmission_slice sid c (max (range_start r) (sc_offset c))
                   (min (range_end r) (sent_chunk_end c)) byte_limit em of
              (False, em') \<Rightarrow> (False, em')
            | (True, em') \<Rightarrow> range_slices sid c byte_limit rs em')
      else range_slices sid c byte_limit rs em)"

fun chunk_slices ::
  "stream_id \<Rightarrow> usize \<Rightarrow> reinjection_cache \<Rightarrow> offset_range list \<Rightarrow> emission \<Rightarrow> emission" where
  "chunk_slices sid byte_limit [] ranges em = em"
| "chunk_slices sid byte_limit (x # xs) ranges em =
     (case range_slices sid (snd x) byte_limit (dropWhile (\<lambda>r. range_end r \<le> sc_offset (snd x)) ranges) em of
        (False, em') \<Rightarrow> em'
      | (True, em') \<Rightarrow>
          chunk_slices sid byte_limit xs (dropWhile (\<lambda>r. range_end r \<le> sc_offset (snd x)) ranges) em')"

definition retransmission_frames_for_ranges :: "offset_range list \<Rightarrow> usize \<Rightarrow> send_stream \<Rightarrow> frame list" where
  "retransmission_frames_for_ranges ranges0 byte_limit sd =
     (if byte_limit = 0 \<or> ranges0 = [] then []
      else
        let ranges = normalize_offset_ranges ranges0
        in if ranges = [] then []
           else
             (case first_overlapping_reinjection_chunk (sd_reinjection_cache sd)
                     (range_start (hd ranges)) (range_end (last ranges)) of
                None \<Rightarrow> []
              | Some first \<Rightarrow>
                  fst (chunk_slices (sd_stream_id sd) byte_limit
                        (bt_range first (range_end (last ranges)) (sd_reinjection_cache sd)) ranges ([], 0))))"

definition first_retransmission_frame_for_range :: "offset_range \<Rightarrow> usize \<Rightarrow> send_stream \<Rightarrow> frame option" where
  "first_retransmission_frame_for_range r byte_limit sd =
     (if byte_limit = 0 then None
      else
        (case first_overlapping_reinjection_chunk (sd_reinjection_cache sd) (range_start r) (range_end r) of
           None \<Rightarrow> None
         | Some key \<Rightarrow>
             (case bt_get key (sd_reinjection_cache sd) of
                None \<Rightarrow> None
              | Some c \<Rightarrow>
                  let start = max (range_start r) (sc_offset c);
                      e = min (range_end r) (saturating_add start byte_limit)
                  in map_option (\<lambda>s. StreamData (sd_stream_id sd) (sc_offset s) (sc_payload s))
                       (sent_chunk_slice c start e))))"

fun gap_slices ::
  "stream_id \<Rightarrow> sent_chunk \<Rightarrow> usize \<Rightarrow> u64 \<Rightarrow> offset_range list \<Rightarrow> u64 \<Rightarrow> emission \<Rightarrow> (emission, u64 \<times> emission) sum" where
  "gap_slices sid c byte_limit stop [] cursor em = Inr (cursor, em)"
| "gap_slices sid c byte_limit stop (r # rs) cursor em =
     (if range_start r \<ge> stop then Inr (cursor, em)
      else
        (case (if range_start r > cursor
               then push_retransmission_slice sid c cursor (min (range_start r) stop) byte_limit em
               else (True, em)) of
           (False, em') \<Rightarrow> Inl em'
         | (True, em') \<Rightarrow>
             if min (max cursor (range_end r)) stop \<ge> stop
             then Inr (min (max cursor (range_end r)) stop, em')
             else gap_slices sid c byte_limit stop rs (min (max cursor (range_end r)) stop) em'))"

definition gap_chunk ::
  "stream_id \<Rightarrow> usize \<Rightarrow> u64 \<Rightarrow> offset_range list \<Rightarrow> sent_chunk \<Rightarrow> emission \<Rightarrow> bool \<times> emission" where
  "gap_chunk sid byte_limit largest_acked_end ranges c em =
     (let chunk_start = sc_offset c;
          stop = min (sent_chunk_end c) largest_acked_end;
          rest = drop (partition_point (\<lambda>r. range_end r \<le> chunk_start) ranges) ranges
      in case gap_slices sid c byte_limit stop rest chunk_start em of
           Inl em' \<Rightarrow> (False, em')
         | Inr (cursor, em') \<Rightarrow>
             if cursor < stop then push_retransmission_slice sid c cursor stop byte_limit em' else (True, em'))"

fun gap_chunks ::
  "stream_id \<Rightarrow> usize \<Rightarrow> u64 \<Rightarrow> offset_range list \<Rightarrow> reinjection_cache \<Rightarrow> emission \<Rightarrow> emission" where
  "gap_chunks sid byte_limit largest_acked_end ranges [] em = em"
| "gap_chunks sid byte_limit largest_acked_end ranges (x # xs) em =
     (if sc_offset (snd x) \<ge> largest_acked_end then em
      else
        (case gap_chunk sid byte_limit largest_acked_end ranges (snd x) em of
           (False, em') \<Rightarrow> em'
         | (True, em') \<Rightarrow> gap_chunks sid byte_limit largest_acked_end ranges xs em'))"

definition retransmission_frames_for_normalized_ack_gaps ::
  "offset_range list \<Rightarrow> usize \<Rightarrow> send_stream \<Rightarrow> frame list" where
  "retransmission_frames_for_normalized_ack_gaps ranges byte_limit sd =
     (if byte_limit = 0 then []
      else
        (case max_range_end ranges of
           None \<Rightarrow> []
         | Some largest_acked_end \<Rightarrow>
             fst (gap_chunks (sd_stream_id sd) byte_limit largest_acked_end ranges
                   (sd_reinjection_cache sd) ([], 0))))"

definition retransmission_frames_for_ack_gaps :: "offset_range list \<Rightarrow> usize \<Rightarrow> send_stream \<Rightarrow> frame list" where
  "retransmission_frames_for_ack_gaps ranges byte_limit sd =
     (if byte_limit = 0 then []
      else retransmission_frames_for_normalized_ack_gaps (normalize_offset_ranges ranges) byte_limit sd)"

definition retransmission_frames_after_normalized_ack_frontier ::
  "offset_range list \<Rightarrow> usize \<Rightarrow> send_stream \<Rightarrow> frame list" where
  "retransmission_frames_after_normalized_ack_frontier ranges byte_limit sd =
     (if byte_limit = 0 \<or> sd_reinjection_cache sd = [] then []
      else
        (case max_range_end ranges of
           None \<Rightarrow> []
         | Some largest_acked_end \<Rightarrow>
             if largest_acked_end \<ge> sd_next_offset sd then []
             else retransmission_frames_for_ranges
                    [\<lparr>range_start = largest_acked_end, range_end = sd_next_offset sd\<rparr>] byte_limit sd))"

definition retransmission_frames_after_ack_frontier :: "offset_range list \<Rightarrow> usize \<Rightarrow> send_stream \<Rightarrow> frame list" where
  "retransmission_frames_after_ack_frontier ranges byte_limit sd =
     (if byte_limit = 0 \<or> sd_reinjection_cache sd = [] then []
      else retransmission_frames_after_normalized_ack_frontier (normalize_offset_ranges ranges) byte_limit sd)"

end
