(* ===== verification/Send_Cache.thy ===== *)
theory Send_Cache
  imports Send_Stream
begin

text \<open>
  The reinjection cache as chunks: how the operations of \<open>Send_Stream\<close> act on
  \<open>plain cache\<close>, the chunk that \<open>first_overlapping_reinjection_chunk\<close> finds, and the
  effect of releasing an acknowledged range, which is to cut that range out of every chunk
  (\<open>cut_out\<close>). The preview of the number of chunks is shown equal to the number of pieces.
\<close>

section \<open>Forgetting the redundant offset\<close>

definition plain :: "reinjection_cache \<Rightarrow> chunks" where
  "plain m = map (\<lambda>(k, c). (k, sc_payload c)) m"

definition keyed :: "reinjection_cache \<Rightarrow> bool" where
  "keyed m \<longleftrightarrow> (\<forall>e \<in> set m. sc_offset (snd e) = fst e)"

lemma plain_simps [simp]:
  "plain [] = []" "plain (e # m) = (fst e, sc_payload (snd e)) # plain m"
  "plain (m @ m') = plain m @ plain m'" "length (plain m) = length m"
  by (auto simp: plain_def split: prod.splits)

lemma plain_insert: "plain (bt_insert k c m) = bt_insert k (sc_payload c) (plain m)"
  by (induction m) (auto split: prod.splits)

lemma plain_filter: "plain (filter (\<lambda>e. P (fst e)) m) = filter (\<lambda>e. P (fst e)) (plain m)"
  by (induction m) auto

lemma plain_remove: "plain (bt_remove k m) = bt_remove k (plain m)"
  unfolding bt_remove_def by (rule plain_filter)

lemma plain_get: "bt_get k (plain m) = map_option sc_payload (bt_get k m)"
  by (induction m) (auto simp: bt_get_def)

lemma plain_set: "set (plain m) = (\<lambda>e. (fst e, sc_payload (snd e))) ` set m"
  by (induction m) auto

lemma plain_fst: "fst ` set (plain m) = fst ` set m"
  by (force simp: plain_set)

lemma cache_len_plain: "cache_len m = chunks_len (plain m)"
  by (induction m) (auto simp: cache_len_def)

lemma keyed_get: "keyed m \<Longrightarrow> bt_get k m = Some c \<Longrightarrow> sc_offset c = k"
  using bt_get_SomeD [of k m c] by (auto simp: keyed_def)

lemma keyed_simps [simp]: "keyed []" "keyed m \<Longrightarrow> keyed (bt_remove k m)"
  "keyed m \<Longrightarrow> keyed (filter P m)" "keyed (e # m) \<longleftrightarrow> sc_offset (snd e) = fst e \<and> keyed m"
  by (auto simp: keyed_def)

lemma keyed_insert: "keyed m \<Longrightarrow> sc_offset c = k \<Longrightarrow> keyed (bt_insert k c m)"
  using set_bt_insert_subset [of k c m] by (auto simp: keyed_def)

definition cache_ok :: "reinjection_cache \<Rightarrow> bool" where
  "cache_ok m \<longleftrightarrow> keyed m \<and> chunks_ok (plain m) \<and> chunks_set (plain m) \<subseteq> {..<u64_max}"

abbreviation cache_set :: "reinjection_cache \<Rightarrow> nat set" where
  "cache_set m \<equiv> chunks_set (plain m)"

lemma bt_wf_plain: "bt_wf (plain m) \<longleftrightarrow> bt_wf m"
proof (induction m)
  case (Cons e m)
  have "(\<forall>x \<in> set (plain m). fst e < fst x) \<longleftrightarrow> (\<forall>x \<in> set m. fst e < fst x)"
    by (auto simp: plain_set)
  then show ?case using Cons by (simp add: bt_wf_Cons)
qed simp

lemma cache_ok_bt_wf: "cache_ok m \<Longrightarrow> bt_wf m"
  using chunks_ok_bt_wf bt_wf_plain by (auto simp: cache_ok_def)

lemma chunk_end_bound:
  assumes "chunks_ok m" "chunks_set m \<subseteq> {..<n}" "e \<in> set m" shows "chunk_end e \<le> n"
proof -
  have "chunk_end e - 1 \<in> chunk_set e" using chunk_nonempty [OF assms(1,3)] by (auto simp: chunk_set_def)
  then have "chunk_end e - 1 < n" using chunk_in_set [OF assms(3)] assms(2) by blast
  then show ?thesis by linarith
qed

lemma cache_entry:
  assumes "cache_ok m" and "bt_get k m = Some c"
  shows "(k, sc_payload c) \<in> set (plain m)" "sc_offset c = k" "sc_payload c \<noteq> []"
    "k + length (sc_payload c) \<le> u64_max" "sent_chunk_end c = k + length (sc_payload c)"
proof -
  show e: "(k, sc_payload c) \<in> set (plain m)"
    using bt_get_SomeD [OF assms(2)] unfolding plain_set by force
  show o': "sc_offset c = k" using assms keyed_get [of m k c] by (simp add: cache_ok_def)
  show "sc_payload c \<noteq> []" using e assms(1) by (auto simp: cache_ok_def chunks_ok_def)
  show b: "k + length (sc_payload c) \<le> u64_max"
    using chunk_end_bound [OF _ _ e, of u64_max] assms(1) by (simp add: cache_ok_def)
  show "sent_chunk_end c = k + length (sc_payload c)" using b o' by (simp add: sent_chunk_end_def)
qed

section \<open>The first overlapping chunk\<close>

lemma bt_get_of_entry: "bt_wf m \<Longrightarrow> (k, c) \<in> set m \<Longrightarrow> bt_get k m = Some c"
  by (simp add: bt_get_in)

lemma plain_entry:
  assumes "cache_ok m" and "e \<in> set (plain m)"
  obtains c where "(fst e, c) \<in> set m" "bt_get (fst e) m = Some c" "snd e = sc_payload c"
proof -
  from assms(2) obtain x where x: "x \<in> set m" "e = (fst x, sc_payload (snd x))" unfolding plain_set by blast
  then have "(fst e, snd x) \<in> set m" by simp
  then show ?thesis
    using that [of "snd x"] bt_get_of_entry [OF cache_ok_bt_wf [OF assms(1)], of "fst e" "snd x"] x(2) by simp
qed

lemma chunks_below_last:
  assumes ok: "cache_ok m" and last: "\<And>k c. bt_last_le a m = Some (k, c) \<Longrightarrow> sent_chunk_end c \<le> a"
    and e: "e \<in> set (plain m)" "fst e < a"
  shows "chunk_end e \<le> a"
proof -
  have wf: "bt_wf m" and pwf: "chunks_ok (plain m)" using ok cache_ok_bt_wf by (auto simp: cache_ok_def)
  obtain c where c: "(fst e, c) \<in> set m" by (rule plain_entry [OF ok e(1)])
  then have "bt_last_le a m \<noteq> None" using e(2) bt_last_le_None [of a m] by fastforce
  then obtain k' c' where l: "bt_last_le a m = Some (k', c')" by auto
  have l': "(k', c') \<in> set m" "k' \<le> a" using bt_last_le_SomeD [OF l] by auto
  note entry' = cache_entry [OF ok bt_get_of_entry [OF wf l'(1)]]
  have "fst e \<le> k'" using bt_last_le_greatest [OF wf l c] e(2) by simp
  then show ?thesis
    using chunks_ok_less [OF pwf e(1) entry'(1)] chunks_ok_key_eq [OF pwf e(1) entry'(1)]
      last [OF l] entry'(5) l'(2)
    by (cases "fst e = k'") auto
qed

lemma first_overlapping_None:
  assumes ok: "cache_ok m" and lt: "a < b" and none: "first_overlapping_reinjection_chunk m a b = None"
  shows "cache_set m \<inter> {a..<b} = {}"
proof -
  have no: "bt_range a b m = []" and last: "\<And>k c. bt_last_le a m = Some (k, c) \<Longrightarrow> sent_chunk_end c \<le> a"
    using none lt by (auto simp: first_overlapping_reinjection_chunk_def Let_def split: option.splits if_splits)
  have "chunk_set e \<inter> {a..<b} = {}" if e: "e \<in> set (plain m)" for e
  proof (cases "fst e < a")
    case True
    have "chunk_end e \<le> a" by (rule chunks_below_last [OF ok _ e True]) (rule last)
    then show ?thesis by (auto simp: chunk_set_def)
  next
    case False
    obtain c where "(fst e, c) \<in> set m" by (rule plain_entry [OF ok e])
    moreover have "(fst e, c) \<notin> set (bt_range a b m)" using no by simp
    ultimately have "b \<le> fst e" using False by (simp add: bt_range_def)
    then show ?thesis by (auto simp: chunk_set_def)
  qed
  then show ?thesis unfolding chunks_set_def by blast
qed

lemma first_overlapping_Some:
  assumes ok: "cache_ok m" and some: "first_overlapping_reinjection_chunk m a b = Some k"
  shows "\<exists>c. bt_get k m = Some c \<and> a < k + length (sc_payload c) \<and> k < b \<and> a < b
    \<and> (\<forall>e \<in> set (plain m). fst e < k \<longrightarrow> chunk_end e \<le> a)"
proof -
  have wf: "bt_wf m" and pwf: "chunks_ok (plain m)" using ok cache_ok_bt_wf by (auto simp: cache_ok_def)
  have lt: "a < b" using some by (simp add: first_overlapping_reinjection_chunk_def split: if_splits)
  show ?thesis
  proof (cases "\<exists>c. bt_last_le a m = Some (k, c) \<and> a < sent_chunk_end c")
    case True
    then obtain c where c: "bt_last_le a m = Some (k, c)" "a < sent_chunk_end c" by blast
    have k: "(k, c) \<in> set m" "k \<le> a" using bt_last_le_SomeD [OF c(1)] by auto
    note g = bt_get_of_entry [OF wf k(1)]
    have "chunk_end e \<le> a" if "e \<in> set (plain m)" "fst e < k" for e
      using chunks_ok_less [OF pwf that(1) cache_entry(1) [OF ok g]] that(2) k(2) by simp
    then show ?thesis using g c(2) cache_entry(5) [OF ok g] k(2) lt by auto
  next
    case False
    then obtain c where c: "bt_next (bt_range a b m) = Some (k, c)"
      using some lt by (auto simp: first_overlapping_reinjection_chunk_def Let_def
          split: option.splits if_splits)
    have last: "\<And>k' c'. bt_last_le a m = Some (k', c') \<Longrightarrow> sent_chunk_end c' \<le> a"
      using False some lt by (auto simp: first_overlapping_reinjection_chunk_def Let_def
          split: option.splits if_splits)
    have kc: "(k, c) \<in> set m" "a \<le> k" "k < b" using bt_next_SomeD [OF c] by (auto simp: bt_range_def)
    note g = bt_get_of_entry [OF wf kc(1)]
    have "chunk_end e \<le> a" if e: "e \<in> set (plain m)" "fst e < k" for e
    proof (rule chunks_below_last [OF ok last e(1)])
      obtain c1 where c1: "(fst e, c1) \<in> set m" by (rule plain_entry [OF ok e(1)])
      show "fst e < a"
      proof (rule ccontr)
        assume "\<not> fst e < a"
        then have "(fst e, c1) \<in> set (bt_range a b m)" using c1 e(2) kc(3) by (simp add: bt_range_def)
        moreover have "bt_wf (bt_range a b m)" using wf by (simp add: bt_range_def)
        ultimately show False using bt_next_least [OF _ c] e(2) by fastforce
      qed
    qed
    moreover have "0 < length (sc_payload c)" using cache_entry(3) [OF ok g] by simp
    then have "a < k + length (sc_payload c)" using kc(2) by linarith
    ultimately show ?thesis using g kc(3) lt by blast
  qed
qed

section \<open>Cutting a range out of the chunks\<close>

definition cut_out :: "nat \<Rightarrow> nat \<Rightarrow> nat \<times> byte list \<Rightarrow> chunks" where
  "cut_out a b e =
     (if b \<le> fst e \<or> chunk_end e \<le> a \<or> b \<le> a then [e]
      else (if fst e < a then [(fst e, take (a - fst e) (snd e))] else [])
           @ (if b < chunk_end e then [(b, drop (b - fst e) (snd e))] else []))"

lemma cut_pieces:
  assumes "snd e \<noteq> []" and "x \<in> set (cut_out a b e)"
  shows "fst e \<le> fst x" "chunk_end x \<le> chunk_end e" "snd x \<noteq> []"
    "b \<le> a \<or> b \<le> fst x \<or> chunk_end x \<le> a"
  using assms by (auto simp: cut_out_def chunk_end_def split: if_splits)

lemma chunks_ok_cut: "snd e \<noteq> [] \<Longrightarrow> chunks_ok (cut_out a b e)"
  by (auto simp: cut_out_def chunks_ok_def chunk_end_def)

lemma chunks_set_cut: "chunks_set (cut_out a b e) = chunk_set e - {a..<b}"
  by (auto simp: cut_out_def chunk_set_def chunk_end_def)

lemma chunks_of_cut: "snd e = seg f (fst e) (chunk_end e) \<Longrightarrow> chunks_of f (cut_out a b e)"
proof -
  assume e: "snd e = seg f (fst e) (chunk_end e)"
  have "take n (snd e) = seg f (fst e) (min (chunk_end e) (fst e + n))"
    "drop n (snd e) = seg f (fst e + n) (chunk_end e)" for n
    using arg_cong [OF e, of "take n"] arg_cong [OF e, of "drop n"] by (simp_all only: take_seg drop_seg)
  note td = this
  have whole: "chunks_of f [e]" using e by (simp add: chunks_of_def)
  have "fst e + length (take n (snd e)) = min (chunk_end e) (fst e + n)" for n by (simp add: chunk_end_def)
  then have left: "chunks_of f [(fst e, take n (snd e))]" for n by (simp add: td(1))
  have right: "chunks_of f [(b, drop (b - fst e) (snd e))]" if "fst e \<le> b" "b \<le> chunk_end e"
  proof -
    have "b + length (drop (b - fst e) (snd e)) = chunk_end e" using that by (simp add: chunk_end_def)
    then show ?thesis using that by (simp add: td(2))
  qed
  have main: "chunks_of f (if Q then [e] else (if P then [(fst e, take (a - fst e) (snd e))] else [])
      @ (if b < chunk_end e then [(b, drop (b - fst e) (snd e))] else []))"
    if "\<not> Q \<Longrightarrow> fst e \<le> b" for P Q
    using whole left right that by (cases Q) (simp_all del: chunks_simps(9))
  show ?thesis unfolding cut_out_def by (rule main) auto
qed

lemma cut_idem: "snd e \<noteq> [] \<Longrightarrow> x \<in> set (cut_out a b e) \<Longrightarrow> cut_out a b x = [x]"
  using cut_pieces(4) [of e x a b] by (auto simp: cut_out_def)

lemma chunks_ok_concat:
  assumes "chunks_ok m"
    and "\<And>e. e \<in> set m \<Longrightarrow> chunks_ok (g e)"
    and "\<And>e x. e \<in> set m \<Longrightarrow> x \<in> set (g e) \<Longrightarrow> fst e \<le> fst x \<and> chunk_end x \<le> chunk_end e"
  shows "chunks_ok (concat (map g m))"
  using assms
proof (induction m)
  case (Cons e m)
  have "chunk_end x \<le> fst y" if x: "x \<in> set (g e)" and y: "y \<in> set (concat (map g m))" for x y
  proof -
    obtain e' where e': "e' \<in> set m" "y \<in> set (g e')" using y by auto
    have "chunk_end x \<le> chunk_end e" "chunk_end e \<le> fst e'" "fst e' \<le> fst y"
      using Cons.prems x e' by (auto simp: chunks_ok_Cons)
    then show ?thesis by linarith
  qed
  moreover have "chunks_ok (concat (map g m))"
    using Cons by (intro Cons.IH) (auto simp: chunks_ok_Cons)
  moreover have "chunks_ok (g e)" using Cons.prems(2) by simp
  ultimately show ?case unfolding list.map concat.simps chunks_ok_append by blast
qed simp

definition cut_all :: "nat \<Rightarrow> nat \<Rightarrow> chunks \<Rightarrow> chunks" where
  "cut_all a b m = concat (map (cut_out a b) m)"

lemma cut_all_ok: "chunks_ok m \<Longrightarrow> chunks_ok (cut_all a b m)"
  unfolding cut_all_def
  by (rule chunks_ok_concat) (auto simp: chunks_ok_def [of m] chunks_ok_cut cut_pieces)

lemma cut_all_set: "chunks_set (cut_all a b m) = chunks_set m - {a..<b}"
  by (induction m) (auto simp: cut_all_def chunks_set_cut)

lemma cut_all_of: "chunks_of f m \<Longrightarrow> chunks_of f (cut_all a b m)"
  by (induction m) (auto simp: cut_all_def chunks_of_cut)

lemma cut_all_id: "chunks_set m \<inter> {a..<b} = {} \<Longrightarrow> chunks_ok m \<Longrightarrow> cut_all a b m = m"
proof (induction m)
  case (Cons e m)
  have "snd e \<noteq> []" "chunk_set e \<inter> {a..<b} = {}" using Cons.prems by (auto simp: chunks_ok_Cons)
  moreover have "max (fst e) a \<in> chunk_set e \<inter> {a..<b}" if "fst e < b" "a < chunk_end e" "a < b"
    using that chunk_nonempty [OF Cons.prems(2), of e] by (auto simp: chunk_set_def)
  ultimately have "cut_out a b e = [e]" unfolding cut_out_def by (metis emptyE not_le)
  then show ?case using Cons by (auto simp: cut_all_def chunks_ok_Cons)
qed (simp add: cut_all_def)

section \<open>Releasing a range\<close>

lemma sent_chunk_slice_Some:
  assumes "sc_offset c \<le> a" "a < b" "b \<le> sc_offset c + length (sc_payload c)"
  shows "sent_chunk_slice c a b
    = Some \<lparr>sc_offset = a, sc_payload = bslice (a - sc_offset c) (b - sc_offset c) (sc_payload c)\<rparr>"
proof -
  have "min (b - sc_offset c) (length (sc_payload c)) = b - sc_offset c" "\<not> b - sc_offset c \<le> a - sc_offset c"
    using assms by linarith+
  then show ?thesis using assms(2) by (simp add: sent_chunk_slice_def Let_def)
qed

lemma sent_chunk_slice_None: "b \<le> a \<Longrightarrow> sent_chunk_slice c a b = None"
  by (simp add: sent_chunk_slice_def)

lemma insert_slice_plain:
  assumes "keyed m" and "sc_offset c \<le> a" and "b \<le> sc_offset c + length (sc_payload c)"
  shows "keyed (insert_slice (sent_chunk_slice c a b) m)"
    "plain (insert_slice (sent_chunk_slice c a b) m)
      = (if a < b then bt_insert a (bslice (a - sc_offset c) (b - sc_offset c) (sc_payload c)) (plain m)
         else plain m)"
  using assms
  by (cases "a < b"; simp add: insert_slice_def sent_chunk_slice_Some sent_chunk_slice_None keyed_insert plain_insert)+

lemma set_insert_fresh: "bt_wf m \<Longrightarrow> bt_get k m = None \<Longrightarrow> set (bt_insert k v m) = insert (k, v) (set m)"
  by (auto simp: set_bt_insert bt_get_None)

lemma plain_remove_entry:
  assumes ok: "cache_ok m" and g: "bt_get k m = Some c"
  shows "set (plain (bt_remove k m)) = set (plain m) - {(k, sc_payload c)}"
proof -
  have pwf: "chunks_ok (plain m)" using ok by (simp add: cache_ok_def)
  have key: "x = (k, sc_payload c)" if "x \<in> set (plain m)" "fst x = k" for x
    using chunks_ok_key_eq [OF pwf that(1) cache_entry(1) [OF ok g]] that(2) by simp
  have "x \<in> {e \<in> set (plain m). fst e \<noteq> k} \<longleftrightarrow> x \<in> set (plain m) - {(k, sc_payload c)}" for x
    using key [of x] by (cases "fst x = k") auto
  then show ?thesis unfolding plain_remove set_bt_remove by blast
qed

lemma plain_remove_free:
  assumes ok: "cache_ok m" and g: "bt_get k m = Some c" and x: "k \<le> x" "x < k + length (sc_payload c)"
  shows "bt_get x (plain (bt_remove k m)) = None"
proof -
  have pwf: "chunks_ok (plain m)" using ok by (simp add: cache_ok_def)
  have "fst y \<noteq> x" if y: "y \<in> set (plain (bt_remove k m))" for y
  proof -
    have y': "y \<in> set (plain m)" "y \<noteq> (k, sc_payload c)" using y plain_remove_entry [OF ok g] by auto
    have "chunk_set y \<inter> chunk_set (k, sc_payload c) = {}"
      by (rule chunk_set_disjoint [OF pwf y'(1) cache_entry(1) [OF ok g] y'(2)])
    moreover have "fst y \<in> chunk_set y" using chunk_nonempty [OF pwf y'(1)] by (simp add: chunk_set_def)
    ultimately show ?thesis using x by auto
  qed
  then show ?thesis unfolding bt_get_None by blast
qed

lemma release_chunk_spec:
  assumes ok: "cache_ok m" and g: "bt_get k m = Some c" and ov: "a < k + length (sc_payload c)" "k < b" "a < b"
  shows "\<exists>m' n. release_chunk a b c (bt_remove k m)
      = Some (m', chunks_len [(k, sc_payload c)] - chunks_len (cut_out a b (k, sc_payload c)), n)
    \<and> keyed m' \<and> bt_wf m'
    \<and> set (plain m') = (set (plain m) - {(k, sc_payload c)}) \<union> set (cut_out a b (k, sc_payload c))"
proof -
  note e = cache_entry [OF ok g]
  let ?p = "sc_payload c" and ?m = "bt_remove k m"
  let ?s = "max k a" and ?e = "min (k + length ?p) b"
  have pwf: "chunks_ok (plain m)" and ky: "keyed m" and wf: "bt_wf m"
    using ok cache_ok_bt_wf by (auto simp: cache_ok_def)
  have "0 < length ?p" using e(3) by simp
  then have nle: "\<not> ?e \<le> ?s" using ov by linarith
  note rm = plain_remove_entry [OF ok g] and free = plain_remove_free [OF ok g]
  have cut: "cut_out a b (k, ?p) = (if k < a then [(k, take (a - k) ?p)] else [])
      @ (if b < k + length ?p then [(b, drop (b - k) ?p)] else [])"
    using ov by (simp add: cut_out_def)
  have bytes: "?e - ?s = chunks_len [(k, ?p)] - chunks_len (cut_out a b (k, ?p))"
    using ov unfolding cut by (auto simp: min_def max_def)
  show ?thesis
  proof (cases "?s = k \<and> ?e = k + length ?p")
    case True
    then have "cut_out a b (k, ?p) = []" unfolding cut by auto
    moreover have "release_chunk a b c ?m = Some (?m, ?e - ?s, 1)"
      using True nle e(2,5) by (simp add: release_chunk_def Let_def)
    ultimately show ?thesis using bytes ky wf rm by auto
  next
    case False
    define m1 where "m1 = insert_slice (sent_chunk_slice c k ?s) ?m"
    define m2 where "m2 = insert_slice (sent_chunk_slice c ?e (k + length ?p)) m1"
    have "release_chunk a b c ?m = Some (m2, ?e - ?s, 0)"
      unfolding m1_def m2_def release_chunk_def Let_def e(2,5) using False nle by simp
    moreover have p1: "keyed ?m" "sc_offset c \<le> k" "?s \<le> sc_offset c + length ?p"
      using ky e(2) ov by auto
    note i1 = insert_slice_plain [OF p1, folded m1_def]
    have m1: "plain m1 = (if k < a then bt_insert k (take (a - k) ?p) (plain ?m) else plain ?m)"
      using i1(2) e(2) by (cases "k < a") (simp_all add: bslice_def max_def)
    have p2: "keyed m1" "sc_offset c \<le> ?e" "k + length ?p \<le> sc_offset c + length ?p"
      using i1(1) e(2) ov by auto
    note i2 = insert_slice_plain [OF p2, folded m2_def]
    have m2: "plain m2 = (if b < k + length ?p then bt_insert b (drop (b - k) ?p) (plain m1) else plain m1)"
      using i2(2) e(2) by (cases "b < k + length ?p") (simp_all add: bslice_def min_def)
    have w: "bt_wf (plain ?m)" using wf bt_wf_plain [of ?m] by simp
    have w1: "bt_wf (plain m1)" unfolding m1 using w by simp
    have "bt_get k (plain ?m) = None" using free [of k] e(3) by simp
    then have s1: "set (plain m1) = set (plain ?m) \<union> set (if k < a then [(k, take (a - k) ?p)] else [])"
      unfolding m1 using set_insert_fresh [OF w] by simp
    have "bt_get b (plain m1) = None" if "b < k + length ?p"
      using free [of b] ov that s1 by (auto simp: bt_get_None split: if_splits)
    then have "set (plain m2) = set (plain ?m) \<union> set (cut_out a b (k, ?p))"
      unfolding m2 cut using set_insert_fresh [OF w1] s1 by simp
    moreover have "bt_wf m2" using w1 m2 bt_wf_plain [of m2] by (simp split: if_splits)
    ultimately show ?thesis using bytes i2(1) rm by auto
  qed
qed

lemma set_eq_chunks_eq: "bt_wf m \<Longrightarrow> chunks_ok xs \<Longrightarrow> set (plain m) = set xs \<Longrightarrow> plain m = xs"
  by (simp add: bt_eqI bt_wf_plain chunks_ok_bt_wf)

text \<open>One turn leaves a well-formed cache in which only the found chunk is cut.\<close>

lemma release_chunk_ok:
  assumes ok: "cache_ok m" and g: "bt_get k m = Some c" and ov: "a < k + length (sc_payload c)" "k < b" "a < b"
  shows "\<exists>m' bytes n. release_chunk a b c (bt_remove k m) = Some (m', bytes, n) \<and> cache_ok m'
    \<and> cut_all a b (plain m') = cut_all a b (plain m)
    \<and> bytes + chunks_len (plain m') = chunks_len (plain m)"
proof -
  note e = cache_entry [OF ok g]
  let ?e = "(k, sc_payload c)"
  let ?g = "\<lambda>x. if x = ?e then cut_out a b x else [x]"
  have pwf: "chunks_ok (plain m)" using ok by (simp add: cache_ok_def)
  obtain m' n where r: "release_chunk a b c (bt_remove k m)
      = Some (m', chunks_len [?e] - chunks_len (cut_out a b ?e), n)" "keyed m'" "bt_wf m'"
    "set (plain m') = (set (plain m) - {?e}) \<union> set (cut_out a b ?e)"
    using release_chunk_spec [OF ok g ov] by blast
  have ne: "snd x \<noteq> []" if "x \<in> set (plain m)" for x using pwf that by (simp add: chunks_ok_def)
  have ok': "chunks_ok (concat (map ?g (plain m)))"
  proof (rule chunks_ok_concat [OF pwf])
    fix x assume x: "x \<in> set (plain m)"
    show "chunks_ok (?g x)" using chunks_ok_cut [OF ne [OF x], of a b] ne [OF x]
      by (cases "x = ?e") (simp_all add: chunks_ok_Cons)
    fix y assume "y \<in> set (?g x)"
    then show "fst x \<le> fst y \<and> chunk_end y \<le> chunk_end x"
      using cut_pieces(1,2) [OF ne [OF x], of y a b] by (cases "x = ?e") simp_all
  qed
  have "set (plain m') = set (concat (map ?g (plain m)))" unfolding r(4) using e(1) by auto
  then have pl: "plain m' = concat (map ?g (plain m))" by (rule set_eq_chunks_eq [OF r(3) ok'])
  have "concat (map (cut_out a b) (cut_out a b ?e)) = cut_out a b ?e"
    using cut_idem [of ?e _ a b] e(3) by (simp add: cut_out_def)
  then have cuts: "cut_all a b (concat (map ?g xs)) = cut_all a b xs" for xs
    unfolding cut_all_def by (induction xs) auto
  have sub: "chunks_set (concat (map ?g xs)) \<subseteq> chunks_set xs" for xs
    by (induction xs) (auto simp: chunks_set_cut)
  have "chunks_set (plain m) \<subseteq> {..<u64_max}" using ok by (simp add: cache_ok_def)
  then have "chunks_set (plain m') \<subseteq> {..<u64_max}" unfolding pl by (rule order_trans [OF sub])
  then have "cache_ok m'" using r(2) ok' pl by (simp add: cache_ok_def)
  moreover have "chunks_len (cut_out a b ?e) \<le> chunks_len [?e]"
    by (auto simp: cut_out_def)
  moreover have "chunks_len (plain m') + chunks_len [?e] = chunks_len (plain m) + chunks_len (cut_out a b ?e)"
  proof -
    have "distinct (plain m)" using bt_wf_distinct [OF chunks_ok_bt_wf [OF pwf]] by (simp add: distinct_map)
    moreover have "\<lbrakk>distinct xs; ?e \<in> set xs\<rbrakk>
        \<Longrightarrow> chunks_len (concat (map ?g xs)) + chunks_len [?e] = chunks_len xs + chunks_len (cut_out a b ?e)" for xs
    proof (induction xs)
      case (Cons x xs)
      have "?e \<notin> set xs \<Longrightarrow> concat (map ?g xs) = xs" by (induction xs) auto
      then show ?case using Cons by (cases "x = ?e") auto
    qed simp
    ultimately show ?thesis unfolding pl using e(1) by blast
  qed
  ultimately show ?thesis using r(1) pl cuts by auto
qed

lemma release_range_spec:
  assumes "cache_ok m" and "a < b" and "rb + chunks_len (plain m) \<le> u64_max"
  shows "\<exists>m' rb' n'. release_range a b m rb n = (m', rb', n') \<and> cache_ok m'
    \<and> plain m' = cut_all a b (plain m) \<and> rb' + chunks_len (plain m') = rb + chunks_len (plain m)"
  using assms
proof (induction "cache_len m" arbitrary: m rb n rule: less_induct)
  case less
  have pwf: "chunks_ok (plain m)" using less.prems(1) by (simp add: cache_ok_def)
  show ?case
  proof (cases "first_overlapping_reinjection_chunk m a b")
    case None
    then have "cut_all a b (plain m) = plain m"
      using cut_all_id first_overlapping_None [OF less.prems(1,2)] pwf by blast
    then show ?thesis using None less.prems by (simp add: release_range.simps)
  next
    case (Some k)
    obtain c where c: "bt_get k m = Some c" "a < k + length (sc_payload c)" "k < b"
      using first_overlapping_Some [OF less.prems(1) Some] by blast
    obtain m1 bytes d where r: "release_chunk a b c (bt_remove k m) = Some (m1, bytes, d)" "cache_ok m1"
      "cut_all a b (plain m1) = cut_all a b (plain m)" "bytes + chunks_len (plain m1) = chunks_len (plain m)"
      using release_chunk_ok [OF less.prems(1) c less.prems(2)] by blast
    have step: "release_range a b m rb n = release_range a b m1 (rb + bytes) (n + d)"
      using Some c(1) r(1,4) less.prems(3) by (subst release_range.simps) simp
    have "cache_len m1 < cache_len m" by (rule release_chunk_less [OF c(1) r(1)])
    from less.hyps [OF this r(2) less.prems(2), of "rb + bytes" "n + d"] less.prems(3) r(3,4)
    show ?thesis unfolding step by (auto simp: add.assoc)
  qed
qed

section \<open>Releasing all the ranges of an acknowledgement\<close>

fun cut_ranges :: "offset_range list \<Rightarrow> chunks \<Rightarrow> chunks" where
  "cut_ranges [] m = m"
| "cut_ranges (r # rs) m = cut_ranges rs (cut_all (range_start r) (range_end r) m)"

lemma cut_ranges_ok: "chunks_ok m \<Longrightarrow> chunks_ok (cut_ranges rs m)"
  by (induction rs arbitrary: m) (auto simp: cut_all_ok)

lemma cut_ranges_set: "chunks_set (cut_ranges rs m) = chunks_set m - ranges_set rs"
  by (induction rs arbitrary: m) (auto simp: cut_all_set range_set_def)

lemma cut_ranges_of: "chunks_of f m \<Longrightarrow> chunks_of f (cut_ranges rs m)"
  by (induction rs arbitrary: m) (auto simp: cut_all_of)

lemma cut_ranges_append: "cut_ranges rs (m @ m') = cut_ranges rs m @ cut_ranges rs m'"
  by (induction rs arbitrary: m m') (auto simp: cut_all_def)

lemma cut_ranges_Nil [simp]: "cut_ranges rs [] = []"
  by (induction rs) (auto simp: cut_all_def)

lemma release_ranges_spec:
  assumes "cache_ok m" and "\<forall>r \<in> set rs. range_start r < range_end r" and "rb + chunks_len (plain m) \<le> u64_max"
  shows "\<exists>m' rb' n'. release_ranges rs (m, rb, n) = (m', rb', n') \<and> cache_ok m'
    \<and> plain m' = cut_ranges rs (plain m) \<and> rb' + chunks_len (plain m') = rb + chunks_len (plain m)"
  using assms
proof (induction rs arbitrary: m rb n)
  case (Cons r rs)
  obtain m1 rb1 n1 where s: "release_range (range_start r) (range_end r) m rb n = (m1, rb1, n1)" "cache_ok m1"
    "plain m1 = cut_all (range_start r) (range_end r) (plain m)"
    "rb1 + chunks_len (plain m1) = rb + chunks_len (plain m)"
    using release_range_spec [OF Cons.prems(1), of "range_start r" "range_end r" rb n] Cons.prems(2,3) by auto
  from Cons.IH [OF s(2), of rb1 n1] Cons.prems(2,3) s show ?case by auto
qed simp

section \<open>The preview of the number of chunks\<close>

lemma cut_all_one: "cut_all a b [e] = cut_out a b e"
  by (simp add: cut_all_def)

lemma cut_ranges_outside:
  "\<forall>r \<in> set rs. chunk_end e \<le> range_start r \<or> range_end r \<le> fst e \<Longrightarrow> cut_ranges rs [e] = [e]"
  by (induction rs) (auto simp: cut_all_def cut_out_def)

lemma cut_ranges_dropWhile:
  "cut_ranges (dropWhile (\<lambda>r. range_end r \<le> fst e) rs) [e] = cut_ranges rs [e]"
  by (induction rs) (auto simp: cut_all_def cut_out_def)

lemma unacked_loop_count:
  assumes "ranges_norm rs" and "\<forall>r \<in> set rs. cursor < range_end r" and "p \<noteq> []"
    and "unacked_loop (cursor + length p) rs cursor s = (cursor', s')" and "s + length rs < u64_max"
  shows "(if cursor' < cursor + length p then s' + 1 else s') = s + length (cut_ranges rs [(cursor, p)])
    \<and> s' \<le> s + length rs"
  using assms
proof (induction rs arbitrary: cursor p s)
  case (Cons r rs)
  let ?stop = "cursor + length p"
  have norm: "range_start r < range_end r" "\<forall>q \<in> set rs. range_end r < range_start q" "ranges_norm rs"
    using Cons.prems(1) by (auto simp: ranges_norm_Cons)
  have later: "\<forall>q \<in> set rs. range_end r < range_end q"
    using norm(2,3) by (auto simp: ranges_norm_def dest!: bspec)
  show ?case
  proof (cases "range_start r \<ge> ?stop")
    case True
    then have "\<forall>q \<in> set (r # rs). chunk_end (cursor, p) \<le> range_start q"
      using norm(1,2) by (auto dest!: bspec)
    then have "cut_ranges (r # rs) [(cursor, p)] = [(cursor, p)]" by (intro cut_ranges_outside) blast
    then show ?thesis using True Cons.prems(3,4) by auto
  next
    case False
    define s1 where "s1 = (if range_start r > cursor then s + 1 else s)"
    have s1': "(if range_start r > cursor then saturating_add s 1 else s) = s1"
      using Cons.prems(5) by (simp add: s1_def)
    have end': "cursor < range_end r" using Cons.prems(2) by simp
    let ?left = "if cursor < range_start r then [(cursor, take (range_start r - cursor) p)] else []"
    let ?right = "if range_end r < ?stop then [(range_end r, drop (range_end r - cursor) p)] else []"
    have cut: "cut_out (range_start r) (range_end r) (cursor, p) = ?left @ ?right"
      using False end' norm(1) by (simp add: cut_out_def)
    have "cut_ranges rs ?left = ?left"
    proof (cases "cursor < range_start r")
      case True
      have "chunk_end (cursor, take (range_start r - cursor) p) \<le> range_start r" using True by simp
      then have "\<forall>q \<in> set rs. chunk_end (cursor, take (range_start r - cursor) p) \<le> range_start q"
        using norm(1,2) by (meson less_imp_le order_trans)
      then show ?thesis using True by (simp only: if_True) (rule cut_ranges_outside, blast)
    qed simp
    then have cr: "cut_ranges (r # rs) [(cursor, p)] = ?left @ cut_ranges rs ?right"
      by (simp only: cut_ranges.simps cut_all_one cut cut_ranges_append)
    have len: "length ?left = s1 - s" "s \<le> s1" by (simp_all add: s1_def)
    show ?thesis
    proof (cases "range_end r < ?stop")
      case False': False
      then have "unacked_loop ?stop (r # rs) cursor s = (?stop, s1)"
        using False end' s1' by (simp add: min_def max_def)
      then have "cursor' = ?stop" "s' = s1" using Cons.prems(4) by simp_all
      moreover have "s1 \<le> s + 1" by (simp add: s1_def)
      ultimately show ?thesis using False' cr len by simp
    next
      case True
      let ?p = "drop (range_end r - cursor) p"
      have stop: "range_end r + length ?p = ?stop" "?p \<noteq> []" using True end' by auto
      have "unacked_loop (range_end r + length ?p) rs (range_end r) s1 = (cursor', s')"
        using Cons.prems(4) False True end' s1' unfolding stop(1) by (simp add: min_def max_def)
      from Cons.IH [OF norm(3) later stop(2) this] Cons.prems(5)
      have "(if cursor' < ?stop then s' + 1 else s') = s1 + length (cut_ranges rs ?right) \<and> s' \<le> s1 + length rs"
        using True stop(1) by (auto simp: s1_def)
      moreover have "length (cut_ranges (r # rs) [(cursor, p)]) = (s1 - s) + length (cut_ranges rs ?right)"
        using cr len(1) by simp
      moreover have "s1 \<le> s + 1" by (simp add: s1_def)
      ultimately show ?thesis using len(2) by (cases "cursor' < ?stop") auto
    qed
  qed
qed auto

lemma unacked_segments_count:
  assumes "ranges_norm rs" and "sc_payload c \<noteq> []" and "sc_offset c + length (sc_payload c) \<le> u64_max"
    and "length rs < u64_max"
  shows "unacked_segments_after_ranges c rs = length (cut_ranges rs [(sc_offset c, sc_payload c)])"
proof -
  let ?rs = "dropWhile (\<lambda>r. range_end r \<le> sc_offset c) rs"
  have norm: "ranges_norm ?rs"
    using assms(1) by (metis ranges_norm_append takeWhile_dropWhile_id)
  have "\<forall>r \<in> set ?rs. sc_offset c < range_end r"
  proof (cases "?rs = []")
    case True
    show ?thesis unfolding True by simp
  next
    case False
    then obtain r rest where rs: "?rs = r # rest" by (meson neq_Nil_conv)
    have "\<not> range_end r \<le> sc_offset c" using hd_dropWhile [OF False] rs by simp
    moreover have "range_end r < range_end q" if "q \<in> set rest" for q
      using norm that unfolding rs by (fastforce simp: ranges_norm_Cons ranges_norm_def)
    ultimately show ?thesis unfolding rs by (metis not_le less_trans set_ConsD)
  qed
  moreover have len: "length ?rs \<le> length rs" by (rule length_dropWhile_le)
  moreover obtain cursor s where l: "unacked_loop (sent_chunk_end c) ?rs (sc_offset c) 0 = (cursor, s)" by force
  moreover have stop: "sent_chunk_end c = sc_offset c + length (sc_payload c)" using assms(3) by (simp add: sent_chunk_end_def)
  ultimately have r: "(if cursor < sent_chunk_end c then s + 1 else s)
      = length (cut_ranges ?rs [(sc_offset c, sc_payload c)])" "s \<le> length ?rs"
    using unacked_loop_count [OF norm _ assms(2), of "sc_offset c" 0 cursor s] assms(4) by auto
  have "cut_ranges ?rs [(sc_offset c, sc_payload c)] = cut_ranges rs [(sc_offset c, sc_payload c)]"
    using cut_ranges_dropWhile [of "(sc_offset c, sc_payload c)" rs] by simp
  then show ?thesis
    using r l len assms(4) by (simp add: unacked_segments_after_ranges_def drop_partition_point split: if_splits)
qed

lemma preview_count:
  assumes "cache_ok m" and "ranges_norm rs" and "length rs < u64_max"
    and "length (cut_ranges rs (plain m)) \<le> u64_max"
  shows "reinjection_chunk_count_after_ack m rs = length (cut_ranges rs (plain m))"
proof -
  have "sum_list (map (\<lambda>e. unacked_segments_after_ranges (snd e) rs) m') = length (cut_ranges rs (plain m'))"
    if "set m' \<subseteq> set m" for m'
    using that
  proof (induction m')
    case (Cons e m')
    have "bt_get (fst e) m = Some (snd e)"
      using Cons.prems bt_get_of_entry [OF cache_ok_bt_wf [OF assms(1)]] by simp
    note en = cache_entry [OF assms(1) this]
    have "unacked_segments_after_ranges (snd e) rs = length (cut_ranges rs [(fst e, sc_payload (snd e))])"
      using unacked_segments_count [OF assms(2) en(3) _ assms(3)] en(2,4) by simp
    then show ?case
      using Cons cut_ranges_append [of rs "[(fst e, sc_payload (snd e))]" "plain m'"] by simp
  qed simp
  then have "sum_list (map (\<lambda>e. unacked_segments_after_ranges (snd e) rs) m) = length (cut_ranges rs (plain m))"
    by simp
  then show ?thesis
    using checked_sum_Some [of 0 "map (\<lambda>e. unacked_segments_after_ranges (snd e) rs) m"] assms(4)
    by (simp add: reinjection_chunk_count_after_ack_def)
qed

end
