(* ===== verification/Send_Correct.thy ===== *)
theory Send_Correct
  imports Send_Cache
begin

text \<open>
  The invariant of the send stream and the properties of sending, rolling back and
  acknowledging: every byte sent is retained until it is acknowledged, an acknowledgement
  releases exactly the bytes it names, and the cache stays within its ceilings.
\<close>

definition send_of :: "byte list \<Rightarrow> send_stream \<Rightarrow> bool" where
  "send_of sent sd \<longleftrightarrow>
     sd_next_offset sd = length sent
     \<and> keyed (sd_reinjection_cache sd)
     \<and> chunks_ok (plain (sd_reinjection_cache sd))
     \<and> chunks_of (nth sent) (plain (sd_reinjection_cache sd))
     \<and> cache_set (sd_reinjection_cache sd) \<subseteq> {..<length sent}
     \<and> sd_reinjection_bytes sd = chunks_len (plain (sd_reinjection_cache sd))
     \<and> length sent \<le> sd_max_offset sd \<and> sd_max_offset sd \<le> u64_max
     \<and> sd_reinjection_bytes sd \<le> ml_max_repair_bytes (sd_limits sd)
     \<and> length (sd_reinjection_cache sd) \<le> ml_max_reinjection_cache_chunks (sd_limits sd)"

lemma send_of_new: "m \<le> u64_max \<Longrightarrow> send_of [] (send_new_with_initial_max_offset sid l m)"
  by (simp add: send_of_def send_new_with_initial_max_offset_def)

lemma update_max_offset_of: "m \<le> u64_max \<Longrightarrow> send_of sent sd \<Longrightarrow> send_of sent (update_max_offset m sd)"
  by (simp add: send_of_def update_max_offset_def le_max_iff_disj)

lemma send_of_cache:
  assumes "send_of sent sd"
  shows "cache_ok (sd_reinjection_cache sd)" "length sent \<le> u64_max"
    "chunks_len (plain (sd_reinjection_cache sd)) \<le> u64_max"
proof -
  show le: "length sent \<le> u64_max" using assms by (simp add: send_of_def)
  have sub: "cache_set (sd_reinjection_cache sd) \<subseteq> {..<length sent}" using assms by (simp add: send_of_def)
  also have "{..<length sent} \<subseteq> {..<u64_max}" using le by auto
  finally show "cache_ok (sd_reinjection_cache sd)" using assms by (simp add: cache_ok_def send_of_def)
  have "card (cache_set (sd_reinjection_cache sd)) \<le> card {..<length sent}"
    by (rule card_mono [OF _ sub]) simp
  then show "chunks_len (plain (sd_reinjection_cache sd)) \<le> u64_max"
    using assms le card_chunks_set [of "plain (sd_reinjection_cache sd)"] by (simp add: send_of_def)
qed

section \<open>Sending\<close>

lemma check_send_limits_Inr:
  "check_send_limits len sd = Inr (e, nb) \<longleftrightarrow>
     e = sd_next_offset sd + len \<and> nb = sd_reinjection_bytes sd + len \<and> e \<le> u64_max
     \<and> e \<le> sd_max_offset sd \<and> nb \<le> u64_max \<and> nb \<le> ml_max_repair_bytes (sd_limits sd)
     \<and> length (sd_reinjection_cache sd) + 1 \<le> u64_max
     \<and> length (sd_reinjection_cache sd) + 1 \<le> ml_max_reinjection_cache_chunks (sd_limits sd)"
  by (auto simp: check_send_limits_def checked_add_def Let_def split: if_splits)

lemma seg_nth_append: "seg (nth (xs @ ys)) (length xs) (length xs + length ys) = ys"
  by (rule nth_equalityI) (simp_all add: seg_def nth_append)

lemma chunks_of_extend:
  assumes "chunks_of (nth sent) m" and "chunks_ok m" and "chunks_set m \<subseteq> {..<length sent}"
  shows "chunks_of (nth (sent @ p)) m"
  unfolding chunks_of_def
proof
  fix e assume e: "e \<in> set m"
  have "chunk_end e \<le> length sent" by (rule chunk_end_bound [OF assms(2,3) e])
  then have "seg (nth sent) (fst e) (chunk_end e) = seg (nth (sent @ p)) (fst e) (chunk_end e)"
    by (intro seg_cong) (simp add: nth_append)
  then show "snd e = seg (nth (sent @ p)) (fst e) (chunk_end e)" using assms(1) e by (simp add: chunks_of_def)
qed

lemma commit_effect:
  assumes inv: "send_of sent sd" and ne: "payload \<noteq> []"
    and ok: "check_send_limits (length payload) sd = Inr (e, nb)"
  defines "sd' \<equiv> sd\<lparr>sd_next_offset := e, sd_reinjection_bytes := nb,
      sd_reinjection_cache := bt_insert (length sent) \<lparr>sc_offset = length sent, sc_payload = payload\<rparr>
        (sd_reinjection_cache sd)\<rparr>"
  shows "send_of (sent @ payload) sd'" "bt_get (length sent) (sd_reinjection_cache sd) = None"
    "cache_set (sd_reinjection_cache sd') = cache_set (sd_reinjection_cache sd) \<union> {length sent..<length sent + length payload}"
proof -
  let ?m = "sd_reinjection_cache sd" and ?n = "length sent"
  have i: "chunks_ok (plain ?m)" "chunks_of (nth sent) (plain ?m)" "cache_set ?m \<subseteq> {..<?n}" "keyed ?m"
    "sd_reinjection_bytes sd = chunks_len (plain ?m)" "sd_next_offset sd = ?n"
    using inv by (auto simp: send_of_def)
  note c = ok [unfolded check_send_limits_Inr]
  have dj: "{?n..<?n + length payload} \<inter> chunks_set (plain ?m) = {}" using i(3) by auto
  have get: "bt_get ?n (plain ?m) = None" by (rule disjoint_chunk_key [OF i(1) ne dj])
  then show g: "bt_get ?n ?m = None" by (simp add: plain_get)
  let ?new = "bt_insert ?n \<lparr>sc_offset = ?n, sc_payload = payload\<rparr> ?m"
  have pl: "plain ?new = bt_insert ?n payload (plain ?m)" by (simp add: plain_insert)
  note ins = chunks_insert [OF i(1) get, of payload]
  have of: "chunks_of (nth (sent @ payload)) (plain ?new)"
    using chunks_of_extend [OF i(2,1,3), of payload] unfolding pl chunks_of_def ins(1)
    by (simp add: seg_nth_append)
  have "length ?new = Suc (length ?m)"
    using length_bt_insert [OF _ g] chunks_ok_bt_wf [OF i(1)] bt_wf_plain by simp
  moreover have "chunks_len (plain ?new) = nb"
    unfolding pl using chunks_len_insert [OF chunks_ok_bt_wf [OF i(1)] get] i(5) c by simp
  moreover have "cache_set ?new \<subseteq> {..<?n + length payload}" unfolding pl ins(2) using i(3) by auto
  ultimately show "send_of (sent @ payload) sd'"
    using inv of chunks_ok_insert [OF i(1) ne dj] keyed_insert [OF i(4), of "\<lparr>sc_offset = ?n, sc_payload = payload\<rparr>" ?n] c i(6)
    unfolding sd'_def by (simp add: send_of_def pl)
  show "cache_set (sd_reinjection_cache sd') = cache_set ?m \<union> {?n..<?n + length payload}"
    unfolding sd'_def by (simp add: pl ins(2) Un_commute)
qed

lemma send_data_effect:
  assumes inv: "send_of sent sd"
  shows "\<exists>res sd'. send_data payload sd = (res, sd')
    \<and> (\<forall>err. res = Inl err \<longrightarrow> sd' = sd \<and> prepare_data payload sd = Inl err)
    \<and> (\<forall>fr. res = Inr fr \<longrightarrow> fr = StreamData (sd_stream_id sd) (length sent) payload
        \<and> send_of (sent @ payload) sd' \<and> sd_stream_id sd' = sd_stream_id sd
        \<and> cache_set (sd_reinjection_cache sd')
          = cache_set (sd_reinjection_cache sd) \<union> {length sent..<length sent + length payload})"
proof (cases "prepare_data payload sd")
  case (Inl err)
  then show ?thesis by (simp add: send_data_def)
next
  case (Inr fr)
  then obtain e nb where p: "payload \<noteq> []" "check_send_limits (length payload) sd = Inr (e, nb)"
    "fr = StreamData (sd_stream_id sd) (sd_next_offset sd) payload"
    by (auto simp: prepare_data_def split: if_splits sum.splits)
  have n: "sd_next_offset sd = length sent" using inv by (simp add: send_of_def)
  show ?thesis
    using commit_effect [OF inv p(1,2)] Inr p(2,3) n by (simp add: send_data_def commit_prepared_data_def)
qed

text \<open>
  Sending appends to the stream: when \<open>send_data\<close> succeeds the frame carries the payload
  at the next offset and the payload is retained in the cache; when it fails the stream is
  unchanged. A frame that was prepared is always committed.
\<close>

theorem send_data_appends:
  assumes "send_of sent sd"
  shows "\<exists>res sd'. send_data payload sd = (res, sd')
    \<and> (\<forall>err. res = Inl err \<longrightarrow> sd' = sd \<and> prepare_data payload sd = Inl err)
    \<and> (\<forall>fr. res = Inr fr \<longrightarrow> fr = StreamData (sd_stream_id sd) (length sent) payload
        \<and> send_of (sent @ payload) sd' \<and> sd_stream_id sd' = sd_stream_id sd
        \<and> cache_set (sd_reinjection_cache sd')
          = cache_set (sd_reinjection_cache sd) \<union> {length sent..<length sent + length payload})"
  by (rule send_data_effect [OF assms])

text \<open>A stream with one committed chunk, for the examples.\<close>

definition ex_send_limits :: mux_limits where
  "ex_send_limits = default_mux_limits\<lparr>ml_max_payload_bytes := 8, ml_max_repair_bytes := 16,
     ml_max_reinjection_cache_chunks := 2\<rparr>"

definition ex_send :: send_stream where
  "ex_send = \<lparr>sd_stream_id = 7, sd_next_offset = 6, sd_max_offset = 100, sd_reinjection_bytes = 6,
     sd_reinjection_cache = [(0, \<lparr>sc_offset = 0, sc_payload = [10, 11, 12, 13, 14, 15]\<rparr>)],
     sd_limits = ex_send_limits\<rparr>"

lemmas ex_send_simps = ex_send_def ex_send_limits_def default_mux_limits_def

lemma ex_send_of: "send_of [10, 11, 12, 13, 14, 15] ex_send"
  by (auto simp: ex_send_simps send_of_def chunks_ok_Cons u64_max_def seg_def upt_rec)

theorem send_data_appends_witness:
  "\<exists>sd'. send_data [20, 21] ex_send = (Inr (StreamData 7 6 [20, 21]), sd')
    \<and> send_of [10, 11, 12, 13, 14, 15, 20, 21] sd'"
proof -
  have "fst (send_data [20, 21] ex_send) = Inr (StreamData 7 6 [20, 21])" by code_simp
  then show ?thesis using send_data_appends [OF ex_send_of, of "[20, 21]"] by (auto simp: prod_eq_iff)
qed

text \<open>
  C24. Rolling back the last committed frame restores the stream exactly as it was before the
  frame was committed.
\<close>

theorem rollback_undoes_commit:
  assumes inv: "send_of sent sd" and ne: "payload \<noteq> []"
    and com: "commit_prepared_data (StreamData sid off payload) sd = (Inr (), sd')"
  shows "rollback_committed_data (StreamData sid off payload) sd' = (Inr (), sd)"
proof -
  have n: "sd_next_offset sd = length sent" "sd_reinjection_bytes sd = chunks_len (plain (sd_reinjection_cache sd))"
    using inv by (auto simp: send_of_def)
  obtain e nb where c: "sid = sd_stream_id sd" "off = length sent"
    "check_send_limits (length payload) sd = Inr (e, nb)"
    "sd' = sd\<lparr>sd_next_offset := e, sd_reinjection_bytes := nb,
      sd_reinjection_cache := bt_insert off \<lparr>sc_offset = off, sc_payload = payload\<rparr> (sd_reinjection_cache sd)\<rparr>"
    using com n by (auto simp: commit_prepared_data_def split: if_splits sum.splits)
  note l = c(3) [unfolded check_send_limits_Inr]
  have wf: "bt_wf (sd_reinjection_cache sd)" using cache_ok_bt_wf send_of_cache(1) [OF inv] by blast
  have fresh: "bt_get off (sd_reinjection_cache sd) = None"
    using commit_effect(2) [OF inv ne c(3)] c(2) by simp
  have "bt_remove off (bt_insert off v (sd_reinjection_cache sd)) = sd_reinjection_cache sd" for v
    using btree_map.remove_insert [OF wf] fresh by (metis bt_get_None bt_remove_def filter_True)
  moreover have "bt_get off (bt_insert off v (sd_reinjection_cache sd)) = Some v" for v
    using bt_get_insert [OF wf] by simp
  ultimately show ?thesis
    using c l n by (simp add: rollback_committed_data_def checked_add_def Let_def)
qed

theorem rollback_undoes_commit_witness:
  "\<exists>sd'. commit_prepared_data (StreamData 7 6 [20, 21]) ex_send = (Inr (), sd')
    \<and> rollback_committed_data (StreamData 7 6 [20, 21]) sd' = (Inr (), ex_send)"
proof -
  have "fst (commit_prepared_data (StreamData 7 6 [20, 21]) ex_send) = Inr ()" by code_simp
  then obtain sd' where "commit_prepared_data (StreamData 7 6 [20, 21]) ex_send = (Inr (), sd')"
    by (metis prod.collapse)
  with rollback_undoes_commit [OF ex_send_of _ this] show ?thesis by simp
qed

text \<open>
  A rollback of a frame whose cached chunk has another length is refused, but the chunk has
  already left the cache: the refused call loses the chunk and the byte counter no longer agrees
  with the cache.
\<close>

lemma refused_rollback_drops_chunk:
  "\<exists>sd'. send_of [10, 11, 12, 13, 14, 15] (snd (apply_ack [\<lparr>range_start = 4, range_end = 6\<rparr>] ex_send))
    \<and> rollback_committed_data (StreamData 7 0 [10, 11, 12, 13, 14, 15])
        (snd (apply_ack [\<lparr>range_start = 4, range_end = 6\<rparr>] ex_send)) = (Inl InvalidPreparedFrame, sd')
    \<and> sd_reinjection_cache sd' = [] \<and> sd_reinjection_bytes sd' = 4"
proof -
  have s: "snd (apply_ack [\<lparr>range_start = 4, range_end = 6\<rparr>] ex_send)
    = ex_send\<lparr>sd_reinjection_bytes := 4,
        sd_reinjection_cache := [(0, \<lparr>sc_offset = 0, sc_payload = [10, 11, 12, 13]\<rparr>)]\<rparr>"
    by code_simp
  have "send_of [10, 11, 12, 13, 14, 15] (ex_send\<lparr>sd_reinjection_bytes := 4,
        sd_reinjection_cache := [(0, \<lparr>sc_offset = 0, sc_payload = [10, 11, 12, 13]\<rparr>)]\<rparr>)"
    by (auto simp: ex_send_simps send_of_def chunks_ok_Cons u64_max_def seg_def upt_rec)
  then show ?thesis unfolding s
    by (simp add: ex_send_simps rollback_committed_data_def checked_add_def u64_max_def bt_get_def bt_remove_def)
qed

section \<open>Acknowledgements\<close>

lemma check_ack_ranges_None:
  "check_ack_ranges n rs = None \<longleftrightarrow> (\<forall>r \<in> set rs. range_start r < range_end r \<and> range_end r \<le> n)"
  by (induction rs) (auto simp: not_le)

lemma validate_Inr:
  assumes "validate_stream_ack scope rs n = Inr ack"
  shows "va_ranges ack = normalize_offset_ranges rs" "va_scope_start ack = scope" "va_assigned_end ack = n"
    "\<forall>r \<in> set rs. range_start r < range_end r \<and> range_end r \<le> n"
  using assms by (auto simp: validate_stream_ack_def check_ack_ranges_None Let_def split: option.splits if_splits)

lemma ranges_norm_length:
  "ranges_norm rs \<Longrightarrow> rs \<noteq> [] \<Longrightarrow> \<forall>r \<in> set rs. a \<le> range_start r \<and> range_end r \<le> m \<Longrightarrow> a + 2 * length rs \<le> m + 1"
proof (induction rs arbitrary: a)
  case (Cons r rs)
  have r: "range_start r < range_end r" "\<forall>q \<in> set rs. range_end r < range_start q" "ranges_norm rs"
    using Cons.prems(1) by (auto simp: ranges_norm_Cons)
  show ?case
  proof (cases "rs = []")
    case True
    then show ?thesis using Cons.prems r by auto
  next
    case False
    have "\<forall>q \<in> set rs. range_end r + 1 \<le> range_start q \<and> range_end q \<le> m"
      using Cons.prems(3) r(2) by auto
    from Cons.IH [OF r(3) False this] show ?thesis using Cons.prems(3) r(1) by auto
  qed
qed simp

lemma norm_range_end:
  assumes "ranges_norm rs" "ranges_set rs \<subseteq> {..<n}" "r \<in> set rs" shows "range_end r \<le> n"
proof -
  have "range_end r - 1 \<in> range_set r" using assms(1,3) by (auto simp: ranges_norm_def range_set_def)
  then have "range_end r - 1 < n" using assms(2,3) by (auto simp: ranges_set_def)
  then show ?thesis by linarith
qed

lemma cut_all_length: "length (cut_all a b m) \<le> length m + (if chunks_set m \<inter> {a..<b} = {} then 0 else 1)"
  if "chunks_ok m"
proof (cases "chunks_set m \<inter> {a..<b} = {}")
  case True
  then show ?thesis using cut_all_id [OF _ that] by simp
next
  case False
  have "length (cut_all a b m) \<le> length m + 1" using that
  proof (induction m)
    case (Cons e m)
    show ?case
    proof (cases "chunk_end e < b")
      case True
      then have "length (cut_out a b e) \<le> 1" by (auto simp: cut_out_def)
      then show ?thesis using Cons by (auto simp: cut_all_def chunks_ok_Cons)
    next
      case False
      then have "b \<le> x" if "x \<in> chunks_set m" for x
        using that Cons.prems chunks_set_lower [of m "chunk_end e" x] by (fastforce simp: chunks_ok_Cons)
      then have "chunks_set m \<inter> {a..<b} = {}" by fastforce
      then have "cut_all a b m = m" using cut_all_id Cons.prems by (auto simp: chunks_ok_Cons)
      moreover have "length (cut_out a b e) \<le> 2" by (simp add: cut_out_def)
      ultimately show ?thesis by (simp add: cut_all_def)
    qed
  qed (simp add: cut_all_def)
  then show ?thesis using False by simp
qed

lemma cut_ranges_length: "chunks_ok m \<Longrightarrow> length (cut_ranges rs m) \<le> length m + length rs"
proof (induction rs arbitrary: m)
  case (Cons r rs)
  have "length (cut_ranges rs (cut_all (range_start r) (range_end r) m))
      \<le> length (cut_all (range_start r) (range_end r) m) + length rs"
    using Cons by (simp add: cut_all_ok)
  also have "\<dots> \<le> length m + 1 + length rs"
    using cut_all_length [OF Cons.prems, of "range_start r" "range_end r"] by (simp split: if_splits)
  finally show ?case by simp
qed simp

text \<open>The effect of a normalized acknowledgement, with the exact check on the chunk count.\<close>

lemma apply_normalized_effect:
  assumes inv: "send_of sent sd" and norm: "ranges_norm rs" and bnd: "ranges_set rs \<subseteq> {..<length sent}"
  defines "m' \<equiv> cut_ranges rs (plain (sd_reinjection_cache sd))"
  defines "limit \<equiv> ml_max_reinjection_cache_chunks (sd_limits sd)"
  shows "(length m' > limit
        \<and> apply_normalized_ack rs sd = (Inl (TooManyReinjectionCacheChunks (length m') limit), sd))
    \<or> (length m' \<le> limit \<and> (\<exists>out sd'. apply_normalized_ack rs sd = (Inr out, sd') \<and> send_of sent sd'
        \<and> plain (sd_reinjection_cache sd') = m'
        \<and> ao_released_bytes out + chunks_len m' = chunks_len (plain (sd_reinjection_cache sd))
        \<and> ao_remaining_reinjection_bytes out = chunks_len m'
        \<and> sd_stream_id sd' = sd_stream_id sd \<and> sd_limits sd' = sd_limits sd
        \<and> sd_max_offset sd' = sd_max_offset sd))"
proof -
  let ?m = "sd_reinjection_cache sd"
  note cache = send_of_cache [OF inv]
  have i: "chunks_ok (plain ?m)" "chunks_of (nth sent) (plain ?m)" "cache_set ?m \<subseteq> {..<length sent}"
    "sd_reinjection_bytes sd = chunks_len (plain ?m)" "length ?m \<le> limit"
    using inv by (auto simp: send_of_def limit_def)
  show ?thesis
  proof (cases "rs = [] \<or> ?m = []")
    case True
    then have "m' = plain ?m" by (auto simp: m'_def)
    then show ?thesis using True inv i(4,5)
      by (auto simp: apply_normalized_ack_def)
  next
    case False
    have ends: "range_end r \<le> u64_max" if "r \<in> set rs" for r
      using norm_range_end [OF norm bnd that] cache(2) by simp
    then have "2 * length rs \<le> u64_max + 1" using ranges_norm_length [OF norm, of 0 u64_max] False by simp
    then have len: "length rs < u64_max" by (simp add: u64_max_def)
    obtain c' rb n where r: "release_ranges rs (?m, 0, 0) = (c', rb, n)" "cache_ok c'"
      "plain c' = m'" "rb + chunks_len m' = chunks_len (plain ?m)"
      using release_ranges_spec [OF cache(1), of rs 0 0] norm cache(3) unfolding m'_def
      by (auto simp: ranges_norm_def)
    have m': "chunks_ok m'" "chunks_of (nth sent) m'" "chunks_set m' \<subseteq> {..<length sent}"
      using i(1-3) cut_ranges_ok cut_ranges_of cut_ranges_set [of rs "plain ?m"] by (auto simp: m'_def)
    have le: "length m' \<le> u64_max"
      using length_le_chunks_len [OF m'(1)] r(4) cache(3) by linarith
    have pre: "reinjection_chunk_count_after_ack ?m rs = length m'"
      unfolding m'_def by (rule preview_count [OF cache(1) norm len le [unfolded m'_def]])
    have cons: "length m' \<le> saturating_add (length ?m) (length rs)"
      using cut_ranges_length [OF i(1), of rs] le by (auto simp: m'_def saturating_add_def)
    show ?thesis
    proof (cases "length m' > limit")
      case True
      then show ?thesis using False cons pre
        by (auto simp: apply_normalized_ack_def limit_def Let_def)
    next
      case fits: False
      let ?out = "\<lparr>ao_released_bytes = rb, ao_released_chunks = n, ao_remaining_reinjection_bytes = chunks_len m'\<rparr>"
      let ?sd = "sd\<lparr>sd_reinjection_cache := c', sd_reinjection_bytes := chunks_len m'\<rparr>"
      have rem: "sd_reinjection_bytes sd - rb = chunks_len m'" using r(4) i(4) by linarith
      have "apply_normalized_ack rs sd = (Inr ?out, ?sd)"
        using False fits pre r(1) rem by (simp add: apply_normalized_ack_def limit_def Let_def)
      moreover have "length c' = length m'" using arg_cong [OF r(3), of length] by simp
      then have "send_of sent ?sd"
        using inv m' r(2-4) i(4) fits by (simp add: send_of_def cache_ok_def limit_def)
      ultimately show ?thesis using r(3,4) fits by auto
    qed
  qed
qed

lemma card_split: "finite A \<Longrightarrow> card A = card (A \<inter> B) + card (A - B)"
  by (metis Diff_Diff_Int card_Diff_subset_Int card_mono finite_Int inf_le1 le_add_diff_inverse)

text \<open>The effect of a validated acknowledgement, whatever its scope.\<close>

lemma validated_ack_effect:
  assumes inv: "send_of sent sd" and v: "validate_stream_ack scope ranges (sd_next_offset sd) = Inr ack"
    and app: "apply_validated_ack ack sd = (res, sd')"
  shows "(\<exists>out. res = Inr out \<and> send_of sent sd'
        \<and> cache_set (sd_reinjection_cache sd') = cache_set (sd_reinjection_cache sd) - ranges_set ranges
        \<and> ao_released_bytes out = card (cache_set (sd_reinjection_cache sd) \<inter> ranges_set ranges)
        \<and> ao_remaining_reinjection_bytes out = card (cache_set (sd_reinjection_cache sd'))
        \<and> sd_stream_id sd' = sd_stream_id sd \<and> sd_limits sd' = sd_limits sd \<and> sd_max_offset sd' = sd_max_offset sd)
    \<or> (\<exists>err. res = Inl err \<and> sd' = sd \<and> ml_max_reinjection_cache_chunks (sd_limits sd)
             < length (cut_ranges (normalize_offset_ranges ranges) (plain (sd_reinjection_cache sd))))"
proof -
  let ?rs = "normalize_offset_ranges ranges" and ?m = "sd_reinjection_cache sd"
  have n: "sd_next_offset sd = length sent" and ok: "chunks_ok (plain ?m)" using inv by (simp_all add: send_of_def)
  have norm: "ranges_norm ?rs" "ranges_set ?rs = ranges_set ranges" using normalize_offset_ranges_spec by auto
  have bnd: "ranges_set ?rs \<subseteq> {..<length sent}"
    unfolding norm(2) using validate_Inr(4) [OF v] n by (fastforce simp: ranges_set_def range_set_def)
  have ap: "apply_normalized_ack ?rs sd = (res, sd')" using app validate_Inr(1) [OF v] by (simp add: apply_validated_ack_def)
  let ?m' = "cut_ranges ?rs (plain ?m)"
  have m': "chunks_set ?m' = cache_set ?m - ranges_set ranges" "chunks_ok ?m'"
    using cut_ranges_set [of ?rs "plain ?m"] cut_ranges_ok [OF ok] norm(2) by auto
  have len: "chunks_len ?m' = card (cache_set ?m - ranges_set ranges)" "chunks_len (plain ?m) = card (cache_set ?m)" "finite (cache_set ?m)"
    using card_chunks_set [OF m'(2)] card_chunks_set [OF ok] m'(1) by auto
  have rel: "bytes = card (cache_set ?m \<inter> ranges_set ranges)" if "bytes + chunks_len ?m' = chunks_len (plain ?m)" for bytes
    using that card_split [OF len(3), of "ranges_set ranges"] unfolding len(1,2) by simp
  from apply_normalized_effect [OF inv norm(1) bnd] show ?thesis
    using ap m'(1) len(1) rel by auto
qed

text \<open>
  C23. An acknowledgement releases exactly what it names: when \<open>apply_ack\<close> succeeds, the
  offsets still retained are the retained offsets outside the acknowledged ranges, with their
  bytes unchanged, and the released bytes are counted exactly; when it fails the stream is
  unchanged, and it fails only on a malformed range, on a range beyond the sent data, or when
  the remaining pieces exceed the configured number of chunks.
\<close>

theorem apply_ack_releases_exactly:
  assumes "send_of sent sd" and "apply_ack ranges sd = (res, sd')"
  shows "send_of sent sd'
    \<and> (\<forall>out. res = Inr out \<longrightarrow>
        cache_set (sd_reinjection_cache sd') = cache_set (sd_reinjection_cache sd) - ranges_set ranges
        \<and> ao_released_bytes out = card (cache_set (sd_reinjection_cache sd) \<inter> ranges_set ranges)
        \<and> ao_remaining_reinjection_bytes out = card (cache_set (sd_reinjection_cache sd')))
    \<and> (\<forall>err. res = Inl err \<longrightarrow> sd' = sd
        \<and> ((\<exists>r \<in> set ranges. range_end r \<le> range_start r \<or> length sent < range_end r)
           \<or> ml_max_reinjection_cache_chunks (sd_limits sd)
             < length (cut_ranges (normalize_offset_ranges ranges) (plain (sd_reinjection_cache sd)))))"
proof (cases "validate_stream_ack None ranges (sd_next_offset sd)")
  case (Inl err)
  then have "\<exists>r \<in> set ranges. range_end r \<le> range_start r \<or> sd_next_offset sd < range_end r"
    using check_ack_ranges_None [of "sd_next_offset sd" ranges]
    by (auto simp: validate_stream_ack_def not_le not_less split: option.splits)
  then show ?thesis using Inl assms by (auto simp: apply_ack_def send_of_def)
next
  case (Inr ack)
  then have "apply_validated_ack ack sd = (res, sd')" using assms(2) by (simp add: apply_ack_def)
  from validated_ack_effect [OF assms(1) Inr this] show ?thesis using assms(1) by auto
qed

theorem apply_ack_releases_exactly_witness:
  "\<exists>out sd'. apply_ack [\<lparr>range_start = 2, range_end = 4\<rparr>] ex_send = (Inr out, sd')
    \<and> cache_set (sd_reinjection_cache sd') = {0..<6} - {2..<4} \<and> ao_released_bytes out = 2"
proof -
  have "fst (apply_ack [\<lparr>range_start = 2, range_end = 4\<rparr>] ex_send)
      = Inr \<lparr>ao_released_bytes = 2, ao_released_chunks = 0, ao_remaining_reinjection_bytes = 4\<rparr>" by code_simp
  then obtain out sd' where a: "apply_ack [\<lparr>range_start = 2, range_end = 4\<rparr>] ex_send = (Inr out, sd')"
    "ao_released_bytes out = 2" by (metis ack_outcome.select_convs(1) prod.collapse)
  have "cache_set (sd_reinjection_cache ex_send) = {0..<6}" by (auto simp: ex_send_simps)
  then show ?thesis using apply_ack_releases_exactly [OF ex_send_of a(1)] a by (auto simp: range_set_def)
qed

text \<open>
  C25. The node-count preview is exact: for normalized ranges within the sent data,
  \<open>reinjection_chunk_count_after_ack\<close> is the number of chunks the cache holds after the
  ranges are released, so an acknowledgement is refused exactly when the result would exceed the
  ceiling.
\<close>

theorem ack_preview_exact:
  assumes inv: "send_of sent sd" and norm: "ranges_norm rs" and bnd: "ranges_set rs \<subseteq> {..<length sent}"
    and rel: "release_ranges rs (sd_reinjection_cache sd, 0, 0) = (cache', bytes, n)"
  shows "reinjection_chunk_count_after_ack (sd_reinjection_cache sd) rs = length cache'"
proof -
  let ?m = "sd_reinjection_cache sd"
  note cache = send_of_cache [OF inv]
  have len: "length rs < u64_max"
  proof (cases "rs = []")
    case True
    then show ?thesis by (simp add: u64_max_def)
  next
    case False
    have "range_end r \<le> u64_max" if "r \<in> set rs" for r
      using norm_range_end [OF norm bnd that] cache(2) by simp
    then have "2 * length rs \<le> u64_max + 1" using ranges_norm_length [OF norm False, of 0 u64_max] by simp
    then show ?thesis by (simp add: u64_max_def)
  qed
  have r: "plain cache' = cut_ranges rs (plain ?m)" "bytes + chunks_len (plain cache') = chunks_len (plain ?m)"
    "cache_ok cache'"
    using release_ranges_spec [OF cache(1), of rs 0 0] norm cache(3) rel by (auto simp: ranges_norm_def)
  have "length (cut_ranges rs (plain ?m)) \<le> u64_max"
    using length_le_chunks_len [of "plain cache'"] r cache(3) by (simp add: cache_ok_def)
  from preview_count [OF cache(1) norm len this] show ?thesis
    using arg_cong [OF r(1), of length] by simp
qed

theorem ack_preview_exact_witness:
  "reinjection_chunk_count_after_ack (sd_reinjection_cache ex_send)
     [\<lparr>range_start = 1, range_end = 2\<rparr>, \<lparr>range_start = 3, range_end = 4\<rparr>] = 3"
proof -
  let ?rs = "[\<lparr>range_start = 1, range_end = 2\<rparr>, \<lparr>range_start = 3, range_end = 4\<rparr>]"
  have rel: "release_ranges ?rs (sd_reinjection_cache ex_send, 0, 0)
      = ([(0, \<lparr>sc_offset = 0, sc_payload = [10]\<rparr>), (2, \<lparr>sc_offset = 2, sc_payload = [12]\<rparr>),
          (4, \<lparr>sc_offset = 4, sc_payload = [14, 15]\<rparr>)], 2, 0)"
    by code_simp
  have "ranges_norm ?rs" "ranges_set ?rs \<subseteq> {..<length [10 :: byte, 11, 12, 13, 14, 15]}"
    by (auto simp: ranges_norm_Cons)
  from ack_preview_exact [OF ex_send_of this rel] show ?thesis by simp
qed

end
