(* ===== verification/Send_Retransmit.thy ===== *)
theory Send_Retransmit
  imports Send_Correct
begin

text \<open>
  What the retransmission routines of the send stream emit. For the requested ranges, or for the
  gaps of an acknowledgement, there is a list of wanted pieces in ascending order
  (\<open>wanted\<close>, and \<open>gaps\<close> in the theory \<open>Send_Recover\<close>); the routines emit its first \<open>byte_limit\<close> bytes
  (\<open>take_bytes\<close>), each frame carrying bytes of the sent stream.
\<close>

section \<open>The first bytes of a list of chunks\<close>

fun take_bytes :: "nat \<Rightarrow> chunks \<Rightarrow> chunks" where
  "take_bytes n [] = []"
| "take_bytes n (e # m) =
     (if n = 0 then [] else (fst e, take n (snd e)) # take_bytes (n - length (snd e)) m)"

lemma take_bytes_0 [simp]: "take_bytes 0 m = []"
  by (cases m) auto

lemma take_bytes_append: "take_bytes n (m @ m') = take_bytes n m @ take_bytes (n - chunks_len m) m'"
  by (induction m arbitrary: n) (auto simp: diff_diff_left)

lemma chunks_len_take_bytes: "chunks_len (take_bytes n m) = min n (chunks_len m)"
  by (induction m arbitrary: n) (auto simp: min_def)

lemma take_bytes_all: "chunks_ok m \<Longrightarrow> chunks_len m \<le> n \<Longrightarrow> take_bytes n m = m"
proof (induction m arbitrary: n)
  case (Cons e m)
  then show ?case by (cases e; cases "snd e") (auto simp: chunks_ok_Cons)
qed simp

lemma take_bytes_lower: "x \<in> set (take_bytes n m) \<Longrightarrow> \<exists>e \<in> set m. fst x = fst e \<and> chunk_end x \<le> chunk_end e \<and> chunk_set x \<subseteq> chunk_set e"
  by (induction m arbitrary: n) (force simp: chunk_set_def chunk_end_def split: if_splits)+

lemma take_bytes_ok: "chunks_ok m \<Longrightarrow> chunks_ok (take_bytes n m)"
proof (induction m arbitrary: n)
  case (Cons e m)
  have "chunk_end (fst e, take n (snd e)) \<le> fst x" if x: "x \<in> set (take_bytes k m)" for x k
  proof -
    obtain y where y: "y \<in> set m" "fst x = fst y" using take_bytes_lower [OF x] by blast
    have "chunk_end e \<le> fst y" using Cons.prems y by (simp add: chunks_ok_Cons)
    then show ?thesis using y by (simp add: chunk_end_def)
  qed
  then show ?case using Cons by (simp add: chunks_ok_Cons)
qed simp

lemma take_bytes_of: "chunks_of f m \<Longrightarrow> chunks_of f (take_bytes n m)"
proof (induction m arbitrary: n)
  case (Cons e m)
  have "take n (snd e) = seg f (fst e) (min (chunk_end e) (fst e + n))"
    using Cons.prems by (metis chunks_simps(9) take_seg)
  moreover have "fst e + length (take n (snd e)) = min (chunk_end e) (fst e + n)" by (simp add: chunk_end_def)
  ultimately show ?case using Cons by simp
qed simp

text \<open>The emitted offsets come before the wanted offsets left out.\<close>

lemma take_bytes_prefix:
  assumes "chunks_ok m" "x \<in> chunks_set (take_bytes n m)" "y \<in> chunks_set m" "y \<notin> chunks_set (take_bytes n m)"
  shows "x < y"
  using assms
proof (induction m arbitrary: n)
  case (Cons e m)
  have n: "n \<noteq> 0" using Cons.prems(2) by (cases "n = 0") auto
  have high: "chunk_end e \<le> z" if "z \<in> chunks_set m" for z
  proof (rule chunks_set_lower [OF _ that])
    show "chunk_end e \<le> fst x" if "x \<in> set m" for x using Cons.prems(1) that by (simp add: chunks_ok_Cons)
  qed
  have sub: "chunks_set (take_bytes k m) \<subseteq> chunks_set m" for k
  proof -
    have "chunk_set z \<subseteq> chunks_set m" if "z \<in> set (take_bytes k m)" for z
      using take_bytes_lower [OF that] chunk_in_set [of _ m] by blast
    then show ?thesis unfolding chunks_set_def [of "take_bytes k m"] by blast
  qed
  have y: "y \<notin> {fst e..<fst e + length (take n (snd e))}" "y \<notin> chunks_set (take_bytes (n - length (snd e)) m)"
    using Cons.prems(4) n by auto
  consider (head) "x \<in> {fst e..<fst e + length (take n (snd e))}" | (tail) "x \<in> chunks_set (take_bytes (n - length (snd e)) m)"
    using Cons.prems(2) n by auto
  then show ?case
  proof cases
    case head
    show ?thesis
    proof (cases "y \<in> chunks_set m")
      case True
      then show ?thesis using high [OF True] head by (auto simp: chunk_end_def)
    next
      case False
      then have "y \<in> chunk_set e" using Cons.prems(3) by simp
      then show ?thesis using y(1) head by (auto simp: chunk_set_def)
    qed
  next
    case tail
    then have "length (snd e) < n" by (cases "length (snd e) < n") auto
    then have "y \<in> chunks_set m" using Cons.prems(3) y(1) by (auto simp: chunk_set_def chunk_end_def)
    then show ?thesis using Cons.IH [OF _ tail _ y(2)] Cons.prems(1) by (simp add: chunks_ok_Cons)
  qed
qed simp

section \<open>Emitting a slice\<close>

definition frames_of :: "stream_id \<Rightarrow> chunks \<Rightarrow> frame list" where
  "frames_of sid m = map (\<lambda>e. StreamData sid (fst e) (snd e)) m"

definition emits :: "stream_id \<Rightarrow> usize \<Rightarrow> chunks \<Rightarrow> emission \<Rightarrow> bool \<times> emission \<Rightarrow> bool" where
  "emits sid limit m em r \<longleftrightarrow>
     fst (snd r) = fst em @ frames_of sid (take_bytes (limit - snd em) m)
     \<and> snd (snd r) = snd em + min (limit - snd em) (chunks_len m)
     \<and> (fst r \<longleftrightarrow> snd (snd r) < limit)"

lemma emits_Nil: "snd em < limit \<Longrightarrow> emits sid limit [] em (True, em)"
  by (simp add: emits_def frames_of_def)

lemma emits_append:
  assumes "emits sid limit m em (True, em1)" and "emits sid limit m' em1 r"
  shows "emits sid limit (m @ m') em r"
proof -
  have 1: "fst em1 = fst em @ frames_of sid (take_bytes (limit - snd em) m)"
    "snd em1 = snd em + min (limit - snd em) (chunks_len m)" "snd em1 < limit"
    using assms(1) by (auto simp: emits_def)
  then have "snd em1 = snd em + chunks_len m" by (simp add: min_def split: if_splits)
  then show ?thesis using 1 assms(2) by (auto simp: emits_def frames_of_def take_bytes_append)
qed

lemma emits_stop:
  assumes "emits sid limit m em (False, em1)" and "snd em < limit" and "snd em1 \<le> limit"
  shows "emits sid limit (m @ m') em (False, em1)"
  using assms by (auto simp: emits_def take_bytes_append frames_of_def min_def split: if_splits)

definition slice_of :: "sent_chunk \<Rightarrow> nat \<Rightarrow> nat \<Rightarrow> chunks" where
  "slice_of c s e = (if s < e then [(s, bslice (s - sc_offset c) (e - sc_offset c) (sc_payload c))] else [])"

lemma push_emits:
  assumes c: "sc_offset c \<le> s" "s < e" "e \<le> sc_offset c + length (sc_payload c)"
    "sc_offset c + length (sc_payload c) \<le> u64_max"
    and l: "snd em < limit" "limit \<le> u64_max"
  shows "emits sid limit (slice_of c s e) em (push_retransmission_slice sid c s e limit em)"
proof -
  define n where "n = min (e - s) (limit - snd em)"
  have stop: "sent_chunk_end c = sc_offset c + length (sc_payload c)" using c(4) by (simp add: sent_chunk_end_def)
  have pos: "n \<noteq> 0" and le: "n \<le> e - s" "n \<le> limit - snd em" using c(2) l(1) by (auto simp: n_def)
  have clip: "min (max s (sc_offset c)) (sc_offset c + length (sc_payload c)) = s"
    "min (max e s) (sc_offset c + length (sc_payload c)) = e"
    using c by auto
  have fit: "s - sc_offset c + n \<le> length (sc_payload c)" using c le by linarith
  have sl: "min (saturating_add (s - sc_offset c) n) (length (sc_payload c)) = s - sc_offset c + n"
    using fit c(4) by (simp add: saturating_add_def)
  have em: "saturating_add (snd em) n = snd em + n" using l le by (simp add: saturating_add_def)
  have push: "push_retransmission_slice sid c s e limit em
      = (snd em + n < limit,
         fst em @ [StreamData sid s (bslice (s - sc_offset c) (s - sc_offset c + n) (sc_payload c))], snd em + n)"
    unfolding push_retransmission_slice_def Let_def stop clip saturating_sub_def n_def [symmetric] sl
      add_diff_cancel_left' em
    using c(2) l(1) pos by simp
  have "e - sc_offset c - (s - sc_offset c) = e - s" using c by linarith
  then have "take (limit - snd em) (bslice (s - sc_offset c) (e - sc_offset c) (sc_payload c))
      = bslice (s - sc_offset c) (s - sc_offset c + n) (sc_payload c)"
    by (simp add: bslice_def n_def min.commute)
  then have tb: "take_bytes (limit - snd em) (slice_of c s e)
      = [(s, bslice (s - sc_offset c) (s - sc_offset c + n) (sc_payload c))]"
    using c(2) l(1) by (simp add: slice_of_def)
  have len: "chunks_len (slice_of c s e) = e - s" using c by (simp add: slice_of_def)
  have mn: "min (limit - snd em) (e - s) = n" by (simp add: n_def min.commute)
  show ?thesis unfolding emits_def push len tb mn by (simp add: frames_of_def)
qed

lemma emits_le: "emits sid limit m em r \<Longrightarrow> snd em < limit \<Longrightarrow> snd (snd r) \<le> limit"
  by (auto simp: emits_def)

section \<open>Requested ranges\<close>

definition piece :: "sent_chunk \<Rightarrow> offset_range \<Rightarrow> chunks" where
  "piece c r = slice_of c (max (range_start r) (sc_offset c))
     (min (range_end r) (sc_offset c + length (sc_payload c)))"

definition inter :: "sent_chunk \<Rightarrow> offset_range list \<Rightarrow> chunks" where
  "inter c rs = concat (map (piece c) rs)"

definition chunk_ok :: "sent_chunk \<Rightarrow> bool" where
  "chunk_ok c \<longleftrightarrow> sc_payload c \<noteq> [] \<and> sc_offset c + length (sc_payload c) \<le> u64_max"

lemma inter_beyond:
  "\<forall>r \<in> set rs. sc_offset c + length (sc_payload c) \<le> range_start r \<or> range_end r \<le> sc_offset c \<Longrightarrow> inter c rs = []"
  by (induction rs) (auto simp: inter_def piece_def slice_of_def)

lemma range_slices_emits:
  assumes "chunk_ok c" and "ranges_norm rs" and "snd em < limit" and "limit \<le> u64_max"
  shows "emits sid limit (inter c rs) em (range_slices sid c limit rs em)"
  using assms(2,3)
proof (induction rs arbitrary: em)
  case Nil
  then show ?case by (simp add: inter_def emits_Nil)
next
  case (Cons r rs)
  have stop: "sent_chunk_end c = sc_offset c + length (sc_payload c)"
    using assms(1) by (simp add: sent_chunk_end_def chunk_ok_def)
  have r: "range_start r < range_end r" "ranges_norm rs" "\<forall>q \<in> set rs. range_end r < range_start q"
    using Cons.prems(1) by (auto simp: ranges_norm_Cons)
  have split: "inter c (r # rs) = piece c r @ inter c rs" by (simp add: inter_def)
  show ?case
  proof (cases "range_start r \<ge> sent_chunk_end c")
    case True
    have "inter c (r # rs) = []"
    proof (rule inter_beyond)
      show "\<forall>q \<in> set (r # rs). sc_offset c + length (sc_payload c) \<le> range_start q \<or> range_end q \<le> sc_offset c"
        using True r stop by (auto dest!: bspec)
    qed
    then show ?thesis using True Cons.prems(2) by (simp add: emits_Nil)
  next
    case False
    show ?thesis
    proof (cases "range_end r > sc_offset c")
      case True
      let ?s = "max (range_start r) (sc_offset c)" and ?e = "min (range_end r) (sent_chunk_end c)"
      obtain go em1 where p: "push_retransmission_slice sid c ?s ?e limit em = (go, em1)" by (meson surj_pair)
      have "?s < ?e" using True False r(1) assms(1) stop by (auto simp: chunk_ok_def)
      then have e: "emits sid limit (piece c r) em (go, em1)"
        using push_emits [of c ?s ?e em limit sid] assms Cons.prems(2) p stop
        by (simp add: piece_def chunk_ok_def)
      show ?thesis
      proof (cases go)
        case True': True
        then have "snd em1 < limit" using e by (simp add: emits_def)
        then show ?thesis
          using emits_append [OF e [unfolded True' [THEN eqTrueI]]] Cons.IH [OF r(2)] False True p True' split by simp
      next
        case False': False
        then show ?thesis
          using emits_stop [OF _ Cons.prems(2), of sid "piece c r" em1] emits_le [OF e Cons.prems(2)] e False True p split
          by simp
      qed
    next
      case low: False
      then have "piece c r = []" by (auto simp: piece_def slice_of_def)
      then show ?thesis using Cons.IH [OF r(2) Cons.prems(2)] False low split by simp
    qed
  qed
qed

definition wanted :: "reinjection_cache \<Rightarrow> offset_range list \<Rightarrow> chunks" where
  "wanted m rs = concat (map (\<lambda>x. inter (snd x) rs) m)"

lemma inter_dropWhile: "ranges_norm rs \<Longrightarrow> k \<le> sc_offset c \<Longrightarrow>
    inter c (dropWhile (\<lambda>r. range_end r \<le> k) rs) = inter c rs"
  by (induction rs) (auto simp: inter_def piece_def slice_of_def ranges_norm_Cons)

lemma ranges_norm_dropWhile: "ranges_norm rs \<Longrightarrow> ranges_norm (dropWhile P rs)"
  by (metis ranges_norm_append takeWhile_dropWhile_id)

lemma chunk_slices_emits:
  assumes "\<forall>x \<in> set m. chunk_ok (snd x)" and "sorted_wrt (\<lambda>x y. sc_offset (snd x) \<le> sc_offset (snd y)) m"
    and "ranges_norm rs" and "snd em < limit" and "limit \<le> u64_max"
  shows "fst (chunk_slices sid limit m rs em) = fst em @ frames_of sid (take_bytes (limit - snd em) (wanted m rs))"
  using assms
proof (induction m arbitrary: rs em)
  case Nil
  then show ?case by (simp add: wanted_def frames_of_def)
next
  case (Cons x m)
  let ?rs = "dropWhile (\<lambda>r. range_end r \<le> sc_offset (snd x)) rs"
  have norm: "ranges_norm ?rs" by (rule ranges_norm_dropWhile [OF Cons.prems(3)])
  obtain go em1 where r: "range_slices sid (snd x) limit ?rs em = (go, em1)" by (meson surj_pair)
  have e: "emits sid limit (inter (snd x) rs) em (go, em1)"
    using range_slices_emits [OF _ norm Cons.prems(4,5), of "snd x" sid] Cons.prems(1) r
      inter_dropWhile [OF Cons.prems(3), of "sc_offset (snd x)" "snd x"] by simp
  have rest: "wanted m ?rs = wanted m rs"
    unfolding wanted_def using Cons.prems(2) inter_dropWhile [OF Cons.prems(3), of "sc_offset (snd x)"]
    by (intro arg_cong [of _ _ concat] map_cong) auto
  have split: "wanted (x # m) rs = inter (snd x) rs @ wanted m rs" by (simp add: wanted_def)
  show ?case
  proof (cases go)
    case True
    then have lt: "snd em1 < limit" using e by (simp add: emits_def)
    have "fst (chunk_slices sid limit m ?rs em1) = fst em1 @ frames_of sid (take_bytes (limit - snd em1) (wanted m rs))"
      using Cons.IH [OF _ _ norm lt Cons.prems(5)] Cons.prems(1,2) rest by simp
    moreover have "snd em1 = snd em + chunks_len (inter (snd x) rs)"
      using e lt by (auto simp: emits_def min_def split: if_splits)
    ultimately show ?thesis
      using r True e split by (simp add: emits_def frames_of_def take_bytes_append)
  next
    case False
    then have "limit - snd em \<le> chunks_len (inter (snd x) rs)"
      using e by (auto simp: emits_def min_def split: if_splits)
    then show ?thesis using r False e split by (simp add: emits_def frames_of_def take_bytes_append)
  qed
qed

lemma chunks_ok_concat_sorted:
  assumes "sorted_wrt R xs" and "\<And>x. x \<in> set xs \<Longrightarrow> chunks_ok (g x)"
    and "\<And>x y a b. R x y \<Longrightarrow> a \<in> set (g x) \<Longrightarrow> b \<in> set (g y) \<Longrightarrow> chunk_end a \<le> fst b"
  shows "chunks_ok (concat (map g xs))"
  using assms
proof (induction xs)
  case (Cons x xs)
  have "chunk_end a \<le> fst b" if a: "a \<in> set (g x)" and b: "b \<in> set (concat (map g xs))" for a b
  proof -
    obtain y where y: "y \<in> set xs" "b \<in> set (g y)" using b by auto
    then have "R x y" using Cons.prems(1) by simp
    then show ?thesis using Cons.prems(3) a y(2) by blast
  qed
  moreover have "chunks_ok (concat (map g xs))"
    using Cons.IH [OF _ Cons.prems(2) Cons.prems(3)] Cons.prems(1) by simp
  moreover have "chunks_ok (g x)" using Cons.prems(2) by simp
  ultimately show ?case unfolding list.map concat.simps chunks_ok_append by blast
qed simp

lemma slice_of_chunk:
  assumes "sc_offset c \<le> s" "e \<le> sc_offset c + length (sc_payload c)"
  shows "chunks_ok (slice_of c s e)" "chunks_set (slice_of c s e) = {s..<e}"
    "a \<in> set (slice_of c s e) \<Longrightarrow> fst a = s \<and> chunk_end a = e"
    "sc_payload c = seg f (sc_offset c) (sc_offset c + length (sc_payload c)) \<Longrightarrow> chunks_of f (slice_of c s e)"
proof -
  let ?p = "sc_payload c" and ?k = "sc_offset c"
  have len: "s + length (bslice (s - ?k) (e - ?k) ?p) = e" if "s < e" using assms that by simp
  have "?p \<noteq> []" if "s < e" using assms that by auto
  then show "chunks_ok (slice_of c s e)" "chunks_set (slice_of c s e) = {s..<e}"
    "a \<in> set (slice_of c s e) \<Longrightarrow> fst a = s \<and> chunk_end a = e"
    using len assms by (auto simp: slice_of_def chunks_ok_Cons simp flip: length_greater_0_conv)
  assume p: "?p = seg f ?k (?k + length ?p)"
  have "bslice (s - ?k) (e - ?k) ?p = seg f s e" if "s < e"
    using arg_cong [OF p, of "bslice (s - ?k) (e - ?k)"]
      bslice_seg [of ?k "e - ?k" "?k + length ?p" "s - ?k" f] assms that by simp
  then show "chunks_of f (slice_of c s e)" using len assms by (auto simp: slice_of_def)
qed

lemma piece_facts:
  shows "chunks_ok (piece c r)"
    "chunks_set (piece c r) = {range_start r..<range_end r} \<inter> {sc_offset c..<sc_offset c + length (sc_payload c)}"
    "a \<in> set (piece c r) \<Longrightarrow> range_start r \<le> fst a \<and> sc_offset c \<le> fst a
      \<and> chunk_end a \<le> range_end r \<and> chunk_end a \<le> sc_offset c + length (sc_payload c)"
    "sc_payload c = seg f (sc_offset c) (sc_offset c + length (sc_payload c)) \<Longrightarrow> chunks_of f (piece c r)"
proof -
  let ?s = "max (range_start r) (sc_offset c)" and ?e = "min (range_end r) (sc_offset c + length (sc_payload c))"
  have b: "sc_offset c \<le> ?s" "?e \<le> sc_offset c + length (sc_payload c)" by simp_all
  note F = slice_of_chunk [OF b, folded piece_def]
  show "chunks_ok (piece c r)" by (rule F(1))
  show "chunks_set (piece c r) = {range_start r..<range_end r} \<inter> {sc_offset c..<sc_offset c + length (sc_payload c)}"
    unfolding F(2) by (rule set_eqI) simp
  show "range_start r \<le> fst a \<and> sc_offset c \<le> fst a
      \<and> chunk_end a \<le> range_end r \<and> chunk_end a \<le> sc_offset c + length (sc_payload c)" if "a \<in> set (piece c r)"
    using F(3) [OF that] by simp
  show "sc_payload c = seg f (sc_offset c) (sc_offset c + length (sc_payload c)) \<Longrightarrow> chunks_of f (piece c r)"
    by (rule F(4))
qed

lemma chunks_set_concat_map: "chunks_set (concat (map g xs)) = (\<Union>x \<in> set xs. chunks_set (g x))"
  by (induction xs) simp_all

lemma chunks_of_concat_map: "(\<And>x. x \<in> set xs \<Longrightarrow> chunks_of f (g x)) \<Longrightarrow> chunks_of f (concat (map g xs))"
  by (induction xs) simp_all

lemma inter_facts:
  assumes "ranges_norm rs"
  shows "chunks_ok (inter c rs)"
    "chunks_set (inter c rs) = ranges_set rs \<inter> {sc_offset c..<sc_offset c + length (sc_payload c)}"
    "a \<in> set (inter c rs) \<Longrightarrow> sc_offset c \<le> fst a \<and> chunk_end a \<le> sc_offset c + length (sc_payload c)"
    "sc_payload c = seg f (sc_offset c) (sc_offset c + length (sc_payload c)) \<Longrightarrow> chunks_of f (inter c rs)"
proof -
  have s: "sorted_wrt (\<lambda>a b. range_end a < range_start b) rs" using assms by (simp add: ranges_norm_def)
  show "chunks_ok (inter c rs)" unfolding inter_def
  proof (rule chunks_ok_concat_sorted [OF s])
    fix x y a b assume "range_end x < range_start y" "a \<in> set (piece c x)" "b \<in> set (piece c y)"
    then show "chunk_end a \<le> fst b" using piece_facts(3) [of a c x] piece_facts(3) [of b c y] by linarith
  qed (rule piece_facts(1))
  show "chunks_set (inter c rs) = ranges_set rs \<inter> {sc_offset c..<sc_offset c + length (sc_payload c)}"
    unfolding inter_def chunks_set_concat_map piece_facts(2) ranges_set_def range_set_def by blast
  show "sc_offset c \<le> fst a \<and> chunk_end a \<le> sc_offset c + length (sc_payload c)" if a: "a \<in> set (inter c rs)"
  proof -
    obtain r where "a \<in> set (piece c r)" using a unfolding inter_def by auto
    from piece_facts(3) [OF this] show ?thesis by blast
  qed
  show "sc_payload c = seg f (sc_offset c) (sc_offset c + length (sc_payload c)) \<Longrightarrow> chunks_of f (inter c rs)"
    unfolding inter_def by (rule chunks_of_concat_map) (rule piece_facts(4))
qed

lemma keyed_sorted_ends:
  assumes "keyed m" and "chunks_ok (plain m)"
  shows "sorted_wrt (\<lambda>x y. sc_offset (snd x) + length (sc_payload (snd x)) \<le> sc_offset (snd y)) m"
  using assms
proof (induction m)
  case (Cons x m)
  have "sc_offset (snd x) + length (sc_payload (snd x)) \<le> sc_offset (snd y)" if y: "y \<in> set m" for y
  proof -
    have "(fst y, sc_payload (snd y)) \<in> set (plain m)" using y unfolding plain_set by blast
    then show ?thesis using Cons.prems y by (auto simp: chunks_ok_Cons keyed_def)
  qed
  then show ?case using Cons by (simp add: chunks_ok_Cons)
qed simp

lemma keyed_payload:
  assumes "keyed m" and "chunks_of f (plain m)" and "x \<in> set m"
  shows "sc_payload (snd x) = seg f (sc_offset (snd x)) (sc_offset (snd x) + length (sc_payload (snd x)))"
proof -
  have "(fst x, sc_payload (snd x)) \<in> set (plain m)" using assms(3) unfolding plain_set by blast
  moreover have "sc_offset (snd x) = fst x" using assms(1,3) unfolding keyed_def by blast
  ultimately show ?thesis using assms(2) unfolding chunks_of_def by (auto simp: chunk_end_def)
qed

lemma wanted_facts:
  assumes "keyed m" and "chunks_ok (plain m)" and "ranges_norm rs"
  shows "chunks_ok (wanted m rs)" "chunks_set (wanted m rs) = cache_set m \<inter> ranges_set rs"
    "chunks_of f (plain m) \<Longrightarrow> chunks_of f (wanted m rs)"
proof -
  show "chunks_ok (wanted m rs)" unfolding wanted_def
  proof (rule chunks_ok_concat_sorted [OF keyed_sorted_ends [OF assms(1,2)]])
    fix x y a b
    assume "sc_offset (snd x) + length (sc_payload (snd x)) \<le> sc_offset (snd y)"
      "a \<in> set (inter (snd x) rs)" "b \<in> set (inter (snd y) rs)"
    then show "chunk_end a \<le> fst b"
      using inter_facts(3) [OF assms(3), of a "snd x"] inter_facts(3) [OF assms(3), of b "snd y"] by linarith
  qed (rule inter_facts(1) [OF assms(3)])
  show "chunks_set (wanted m rs) = cache_set m \<inter> ranges_set rs"
    using assms(1) unfolding wanted_def by (induction m) (auto simp: inter_facts(2) [OF assms(3)])
  assume "chunks_of f (plain m)"
  from keyed_payload [OF assms(1) this] show "chunks_of f (wanted m rs)" unfolding wanted_def
    using inter_facts(4) [OF assms(3)] by (blast intro: chunks_of_concat_map)
qed

end
