(* ===== verification/Send_Recover.thy ===== *)
theory Send_Recover
  imports Send_Retransmit
begin

text \<open>
  What the retransmission queries of \<open>SendStream\<close> emit. A query asks for a set of offsets (requested
  ranges, the gaps below an acknowledgement, or everything above it) under a byte budget. The frames
  it emits carry the lowest retained offsets of that set, up to the budget, in ascending order, with
  the bytes that were sent at those offsets.
\<close>

section \<open>The contract of a query\<close>

text \<open>\<open>recovers sent sd limit W frames\<close>: the frames carry the first \<open>limit\<close> offsets of \<open>W\<close>.\<close>

definition recovers :: "byte list \<Rightarrow> stream_id \<Rightarrow> nat \<Rightarrow> nat set \<Rightarrow> frame list \<Rightarrow> bool" where
  "recovers sent sid limit W frames \<longleftrightarrow>
     (\<exists>m. frames = frames_of sid m \<and> chunks_ok m \<and> chunks_of (nth sent) m \<and> chunks_set m \<subseteq> W
       \<and> card (chunks_set m) = min limit (card W) \<and> (\<forall>x \<in> chunks_set m. \<forall>y \<in> W - chunks_set m. x < y))"

lemma recovers_take_bytes:
  assumes "chunks_ok m" "chunks_of (nth sent) m" "chunks_set m = W"
  shows "recovers sent sid limit W (frames_of sid (take_bytes limit m))"
  unfolding recovers_def
proof (intro exI conjI ballI)
  show ok: "chunks_ok (take_bytes limit m)" by (rule take_bytes_ok [OF assms(1)])
  show "chunks_set (take_bytes limit m) \<subseteq> W"
    using take_bytes_lower [of _ limit m] assms(3) by (fastforce simp: chunks_set_def)
  show "card (chunks_set (take_bytes limit m)) = min limit (card W)"
    using card_chunks_set [OF ok] card_chunks_set [OF assms(1)] assms(3) by (simp add: chunks_len_take_bytes)
  show "x < y" if "x \<in> chunks_set (take_bytes limit m)" "y \<in> W - chunks_set (take_bytes limit m)" for x y
    using take_bytes_prefix [OF assms(1) that(1)] that(2) assms(3) by blast
qed (simp_all add: take_bytes_of assms)

lemma recovers_none: "limit = 0 \<or> W = {} \<Longrightarrow> recovers sent sid limit W []"
  unfolding recovers_def
  by (auto simp: frames_of_def chunks_ok_def intro!: exI [of _ "[]"])

lemma cache_chunks:
  assumes "send_of sent sd"
  shows "\<forall>x \<in> set (sd_reinjection_cache sd). chunk_ok (snd x)"
    "sorted_wrt (\<lambda>x y. sc_offset (snd x) \<le> sc_offset (snd y)) (sd_reinjection_cache sd)"
proof -
  let ?m = "sd_reinjection_cache sd"
  have ok: "cache_ok ?m" by (rule send_of_cache(1) [OF assms])
  show "\<forall>x \<in> set ?m. chunk_ok (snd x)"
  proof
    fix x assume "x \<in> set ?m"
    then have "bt_get (fst x) ?m = Some (snd x)" using cache_ok_bt_wf [OF ok] by (simp add: bt_get_of_entry)
    from cache_entry [OF ok this] show "chunk_ok (snd x)" by (simp add: chunk_ok_def)
  qed
  have "sorted_wrt (\<lambda>x y. fst x < fst y) ?m"
    using cache_ok_bt_wf [OF ok] by (simp add: bt_wf_def sorted_wrt_map)
  then show "sorted_wrt (\<lambda>x y. sc_offset (snd x) \<le> sc_offset (snd y)) ?m"
    by (rule sorted_wrt_mono_rel [rotated]) (use ok in \<open>auto simp: cache_ok_def keyed_def\<close>)
qed

section \<open>Requested ranges\<close>

lemma wanted_filter:
  "(\<And>x. x \<in> set m \<Longrightarrow> \<not> P x \<Longrightarrow> inter (snd x) rs = []) \<Longrightarrow> wanted (filter P m) rs = wanted m rs"
  by (induction m) (auto simp: wanted_def)

lemma wanted_Nil [simp]: "wanted m [] = []"
  by (induction m) (simp_all add: wanted_def inter_def)

lemma norm_between: "ranges_norm rs \<Longrightarrow> r \<in> set rs \<Longrightarrow> range_start (hd rs) \<le> range_start r \<and> range_end r \<le> range_end (last rs)"
proof (induction rs)
  case (Cons q rs)
  show ?case
  proof (cases "rs = []")
    case False
    have "range_end q < range_start (last rs)" "range_start (last rs) < range_end (last rs)" "range_start q < range_end q"
      using Cons.prems(1) last_in_set [OF False] by (auto simp: ranges_norm_def)
    moreover have "range_end q < range_start r" if "r \<in> set rs" using Cons.prems(1) that by (simp add: ranges_norm_Cons)
    moreover have "range_end r \<le> range_end (last rs)" if "r \<in> set rs"
      using Cons.IH that Cons.prems(1) by (simp add: ranges_norm_Cons)
    ultimately show ?thesis using Cons.prems(2) False by (cases "r = q") simp_all
  qed (use Cons in auto)
qed simp

lemma ranges_frames:
  assumes inv: "send_of sent sd" and l: "limit \<le> u64_max"
  shows "retransmission_frames_for_ranges rs limit sd
    = frames_of (sd_stream_id sd) (take_bytes limit (wanted (sd_reinjection_cache sd) (normalize_offset_ranges rs)))"
proof -
  let ?m = "sd_reinjection_cache sd" and ?rs = "normalize_offset_ranges rs"
  have ok: "cache_ok ?m" by (rule send_of_cache(1) [OF inv])
  have norm: "ranges_norm ?rs" by (rule normalize_offset_ranges_spec)
  consider "limit = 0" | "?rs = []" | "limit \<noteq> 0" "?rs \<noteq> []" by blast
  then show ?thesis
  proof cases
    case 1
    then show ?thesis by (simp add: retransmission_frames_for_ranges_def frames_of_def)
  next
    case 2
    then show ?thesis by (simp add: retransmission_frames_for_ranges_def frames_of_def)
  next
    case 3
    have ne: "rs \<noteq> []" using 3(2) normalize_id [OF ranges_norm_Nil] by auto
    let ?a = "range_start (hd ?rs)" and ?b = "range_end (last ?rs)"
    have "range_start (hd ?rs) < range_end (hd ?rs)" using norm hd_in_set [OF 3(2)] by (simp add: ranges_norm_def)
    then have ab: "?a < ?b" using norm_between [OF norm hd_in_set [OF 3(2)]] by linarith
    have entry: "(fst x, sc_payload (snd x)) \<in> set (plain ?m)" "sc_offset (snd x) = fst x" if "x \<in> set ?m" for x
      using that ok by (auto simp: plain_set cache_ok_def keyed_def)
    show ?thesis
    proof (cases "first_overlapping_reinjection_chunk ?m ?a ?b")
      case None
      have "inter (snd x) ?rs = []" if x: "x \<in> set ?m" for x
      proof (rule inter_beyond, rule ballI)
        fix r assume r: "r \<in> set ?rs"
        have "chunk_set (fst x, sc_payload (snd x)) \<inter> {?a..<?b} = {}"
          using first_overlapping_None [OF ok ab None] chunk_in_set [OF entry(1) [OF x]] by blast
        then have "max (fst x) (range_start r) \<notin> chunk_set (fst x, sc_payload (snd x)) \<or> max (fst x) (range_start r) \<notin> {?a..<?b}"
          by blast
        moreover have "?a \<le> range_start r" "range_end r \<le> ?b" using norm_between [OF norm r] by auto
        moreover have "range_start r < range_end r" using norm r by (simp add: ranges_norm_def)
        moreover have "sc_payload (snd x) \<noteq> []" using cache_chunks(1) [OF inv] x by (simp add: chunk_ok_def)
        ultimately show "sc_offset (snd x) + length (sc_payload (snd x)) \<le> range_start r \<or> range_end r \<le> sc_offset (snd x)"
          unfolding entry(2) [OF x] by (auto simp: max_def split: if_splits)
      qed
      then have "wanted ?m ?rs = []" by (simp add: wanted_def)
      then show ?thesis using None 3 by (simp add: retransmission_frames_for_ranges_def frames_of_def)
    next
      case (Some k)
      obtain c where "bt_get k ?m = Some c \<and> ?a < k + length (sc_payload c) \<and> k < ?b \<and> ?a < ?b
          \<and> (\<forall>e \<in> set (plain ?m). fst e < k \<longrightarrow> chunk_end e \<le> ?a)"
        using first_overlapping_Some [OF ok Some] by (rule exE)
      then have k: "k < ?b" "\<forall>e \<in> set (plain ?m). fst e < k \<longrightarrow> chunk_end e \<le> ?a" by simp_all
      have "wanted (bt_range k ?b ?m) ?rs = wanted ?m ?rs"
        unfolding bt_range_def
      proof (rule wanted_filter, rule inter_beyond, rule ballI)
        fix x r assume x: "x \<in> set ?m" "\<not> (k \<le> fst x \<and> fst x < ?b)" and r: "r \<in> set ?rs"
        show "sc_offset (snd x) + length (sc_payload (snd x)) \<le> range_start r \<or> range_end r \<le> sc_offset (snd x)"
          using k(2) [rule_format, OF entry(1) [OF x(1)]] entry(2) [OF x(1)] x(2) norm_between [OF norm r] by auto
      qed
      moreover have "fst (chunk_slices (sd_stream_id sd) limit (bt_range k ?b ?m) ?rs ([], 0))
          = frames_of (sd_stream_id sd) (take_bytes limit (wanted (bt_range k ?b ?m) ?rs))"
        using chunk_slices_emits [of "bt_range k ?b ?m" ?rs "([], 0)" limit] cache_chunks [OF inv] norm l 3
        by (simp add: bt_range_def sorted_wrt_filter)
      ultimately show ?thesis using Some 3 ne by (simp add: retransmission_frames_for_ranges_def)
    qed
  qed
qed

lemma ranges_recovers:
  assumes "send_of sent sd" and "limit \<le> u64_max"
  shows "recovers sent (sd_stream_id sd) limit (cache_set (sd_reinjection_cache sd) \<inter> ranges_set rs)
    (retransmission_frames_for_ranges rs limit sd)"
proof -
  have m: "keyed (sd_reinjection_cache sd)" "chunks_ok (plain (sd_reinjection_cache sd))"
    "chunks_of (nth sent) (plain (sd_reinjection_cache sd))"
    using assms(1) by (auto simp: send_of_def)
  note w = wanted_facts [OF m(1,2) normalize_offset_ranges_spec(1) [of rs]]
  show ?thesis unfolding ranges_frames [OF assms]
    by (rule recovers_take_bytes) (use w m(3) in \<open>simp_all add: normalize_offset_ranges_spec\<close>)
qed

section \<open>Acknowledgement gaps\<close>

text \<open>The pieces of a chunk, from \<open>cursor\<close> to \<open>stop\<close>, that no range covers.\<close>

fun gap_pieces :: "sent_chunk \<Rightarrow> nat \<Rightarrow> nat \<Rightarrow> offset_range list \<Rightarrow> chunks" where
  "gap_pieces c stop cursor [] = slice_of c cursor stop"
| "gap_pieces c stop cursor (r # rs) =
     slice_of c cursor (min (range_start r) stop) @ gap_pieces c stop (max cursor (range_end r)) rs"

lemma slice_of_empty [simp]: "e \<le> s \<Longrightarrow> slice_of c s e = []"
  by (simp add: slice_of_def)

lemma gap_pieces_empty: "stop \<le> cursor \<Longrightarrow> gap_pieces c stop cursor rs = []"
  by (induction rs arbitrary: cursor) simp_all

lemma gap_pieces_high: "\<forall>r \<in> set rs. stop \<le> range_start r \<Longrightarrow> ranges_norm rs \<Longrightarrow> gap_pieces c stop cursor rs = slice_of c cursor stop"
  by (cases rs) (auto simp: gap_pieces_empty min_absorb2 ranges_norm_Cons)

lemma gap_pieces_of:
  assumes "sc_offset c \<le> cursor" "stop \<le> sc_offset c + length (sc_payload c)"
    and c: "sc_payload c = seg f (sc_offset c) (sc_offset c + length (sc_payload c))"
  shows "chunks_of f (gap_pieces c stop cursor rs)"
  using assms(1)
proof (induction rs arbitrary: cursor)
  case Nil
  then show ?case by (simp add: slice_of_chunk(4) [OF _ assms(2) c])
next
  case (Cons r rs)
  have "min (range_start r) stop \<le> sc_offset c + length (sc_payload c)" using assms(2) by simp
  from slice_of_chunk(4) [OF Cons.prems this c] show ?case using Cons.IH [of "max cursor (range_end r)"] Cons.prems by simp
qed

lemma gap_pieces_facts:
  assumes "ranges_norm rs" "sc_offset c \<le> cursor" "stop \<le> sc_offset c + length (sc_payload c)"
  shows "chunks_ok (gap_pieces c stop cursor rs)
      \<and> chunks_set (gap_pieces c stop cursor rs) = {cursor..<stop} - ranges_set rs
      \<and> (\<forall>a \<in> set (gap_pieces c stop cursor rs). cursor \<le> fst a \<and> chunk_end a \<le> stop)"
  using assms(1,2)
proof (induction rs arbitrary: cursor)
  case Nil
  then show ?case using slice_of_chunk(1-3) [OF Nil(2) assms(3)] by (auto simp: ranges_set_def)
next
  case (Cons r rs)
  let ?n = "max cursor (range_end r)" and ?s = "slice_of c cursor (min (range_start r) stop)"
  have r: "range_start r < range_end r" "\<forall>q \<in> set rs. range_end r < range_start q" "ranges_norm rs"
    using Cons.prems(1) by (auto simp: ranges_norm_Cons)
  have le: "min (range_start r) stop \<le> sc_offset c + length (sc_payload c)" using assms(3) by simp
  note s = slice_of_chunk(1-3) [OF Cons.prems(2) le]
  have "sc_offset c \<le> ?n" using Cons.prems(2) by simp
  note ih = Cons.IH [OF r(3) this]
  have low: "x \<notin> ranges_set rs" if "x < range_end r" for x
    using r(2) that by (fastforce simp: ranges_set_def range_set_def)
  have "{cursor..<min (range_start r) stop} \<union> ({?n..<stop} - ranges_set rs) = {cursor..<stop} - ranges_set (r # rs)"
    using r(1) low by (auto simp: range_set_def)
  then have sets: "chunks_set (gap_pieces c stop cursor (r # rs)) = {cursor..<stop} - ranges_set (r # rs)"
    using s(2) ih by simp
  have bnd: "cursor \<le> fst a \<and> chunk_end a \<le> stop" if "a \<in> set (gap_pieces c stop cursor (r # rs))" for a
    using that s(3) [of a] ih by auto
  have "chunk_end a \<le> fst b" if "a \<in> set ?s" "b \<in> set (gap_pieces c stop ?n rs)" for a b
  proof -
    have "chunk_end a \<le> range_start r" using s(3) [OF that(1)] by simp
    moreover have "range_end r \<le> fst b" using ih that(2) by auto
    ultimately show ?thesis using r(1) by linarith
  qed
  then have "chunks_ok (gap_pieces c stop cursor (r # rs))" using s(1) ih by (simp add: chunks_ok_append)
  then show ?case using sets bnd by blast
qed

text \<open>One chunk: ranges below it are skipped, and the loop over the others emits the pieces.\<close>

lemma gap_slices_emits:
  assumes "chunk_ok c" "limit \<le> u64_max" "stop \<le> sc_offset c + length (sc_payload c)"
    and "ranges_norm rs" "sc_offset c \<le> cursor" "cursor < stop" "snd em < limit"
  shows "case gap_slices sid c limit stop rs cursor em of
      Inl em' \<Rightarrow> emits sid limit (gap_pieces c stop cursor rs) em (False, em')
    | Inr (cursor', em') \<Rightarrow> sc_offset c \<le> cursor' \<and> (\<exists>m. gap_pieces c stop cursor rs = m @ slice_of c cursor' stop
          \<and> emits sid limit m em (True, em'))"
  using assms(4-)
proof (induction rs arbitrary: cursor em)
  case Nil
  then show ?case by (auto intro!: exI [of _ "[]"] simp: emits_Nil)
next
  case (Cons r rs)
  have r: "range_start r < range_end r" "\<forall>q \<in> set rs. range_end r < range_start q" "ranges_norm rs"
    using Cons.prems(1) by (auto simp: ranges_norm_Cons)
  have cb: "sc_offset c + length (sc_payload c) \<le> u64_max" using assms(1) by (simp add: chunk_ok_def)
  show ?case
  proof (cases "range_start r \<ge> stop")
    case True
    then have "gap_pieces c stop cursor (r # rs) = slice_of c cursor stop"
      using r by (intro gap_pieces_high Cons.prems) (fastforce dest: bspec)
    then show ?thesis using True Cons.prems by (auto intro!: exI [of _ "[]"] simp: emits_Nil)
  next
    case False
    let ?s = "slice_of c cursor (range_start r)" and ?n = "max cursor (range_end r)"
    let ?push = "if range_start r > cursor then push_retransmission_slice sid c cursor (min (range_start r) stop) limit em else (True, em)"
    obtain go em1 where p: "?push = (go, em1)" by (meson surj_pair)
    have e: "emits sid limit ?s em (go, em1)"
    proof (cases "range_start r > cursor")
      case True
      then show ?thesis
        using push_emits [of c cursor "range_start r" em limit sid] p False assms(2,3) cb Cons.prems by simp
    next
      case False
      then show ?thesis using p Cons.prems(4) by (auto simp: emits_Nil)
    qed
    have split: "gap_pieces c stop cursor (r # rs) = ?s @ gap_pieces c stop ?n rs" using False by simp
    show ?thesis
    proof (cases go)
      case no: False
      then have "emits sid limit (?s @ gap_pieces c stop ?n rs) em (False, em1)"
        using emits_stop [of sid limit ?s em em1] e emits_le [OF e] Cons.prems(4) by simp
      then show ?thesis using no p False split by simp
    next
      case yes: True
      have lt: "snd em1 < limit" using e yes by (simp add: emits_def)
      show ?thesis
      proof (cases "stop \<le> ?n")
        case True
        then have "gap_pieces c stop ?n rs = []" "min ?n stop = stop" by (simp_all add: gap_pieces_empty)
        moreover have "sc_offset c \<le> stop" using Cons.prems by simp
        ultimately show ?thesis using yes p False split e by simp
      next
        case more: False
        then have n: "min ?n stop = ?n" by simp
        have "sc_offset c \<le> ?n" "?n < stop" using Cons.prems more by auto
        note ih = Cons.IH [OF r(3) this lt]
        have step: "gap_slices sid c limit stop (r # rs) cursor em = gap_slices sid c limit stop rs ?n em1"
          using yes p False more n by simp
        show ?thesis
        proof (cases "gap_slices sid c limit stop rs ?n em1")
          case (Inl em2)
          then show ?thesis using ih emits_append [OF e [unfolded yes [THEN eqTrueI]]] step split by simp
        next
          case (Inr q)
          obtain m where m: "gap_pieces c stop ?n rs = m @ slice_of c (fst q) stop" "emits sid limit m em1 (True, snd q)" "sc_offset c \<le> fst q"
            using ih Inr by (auto split: prod.splits)
          have "emits sid limit (?s @ m) em (True, snd q)"
            by (rule emits_append [OF e [unfolded yes [THEN eqTrueI]] m(2)])
          then show ?thesis using step split m Inr by (auto split: prod.splits)
        qed
      qed
    qed
  qed
qed

lemma gap_pieces_skip:
  assumes "ranges_norm rs"
  shows "gap_pieces c stop k (drop (partition_point (\<lambda>r. range_end r \<le> k) rs) rs) = gap_pieces c stop k rs"
  using assms
proof (induction rs)
  case (Cons r rs)
  have "range_start r < range_end r" "ranges_norm rs" using Cons.prems by (auto simp: ranges_norm_Cons)
  then show ?case using Cons.IH by (auto simp: partition_point_def max_absorb1)
qed simp

lemma gap_chunk_emits:
  assumes c: "chunk_ok c" and l: "limit \<le> u64_max" "snd em < limit" and "ranges_norm rs" and "sc_offset c < stop"
  shows "emits sid limit (gap_pieces c (min (sc_offset c + length (sc_payload c)) stop) (sc_offset c) rs) em
    (gap_chunk sid limit stop rs c em)"
proof -
  let ?top = "sc_offset c + length (sc_payload c)" and ?rs = "drop (partition_point (\<lambda>r. range_end r \<le> sc_offset c) rs) rs"
  let ?stop = "min ?top stop"
  have cb: "?top \<le> u64_max" "sc_payload c \<noteq> []" using c by (auto simp: chunk_ok_def)
  have ce: "sent_chunk_end c = ?top" using cb by (simp add: sent_chunk_end_def)
  have norm: "ranges_norm ?rs" using assms(4) by (metis append_take_drop_id ranges_norm_append)
  have lt: "sc_offset c < ?stop" using assms(5) cb by simp
  note g = gap_slices_emits [OF c l(1) _ norm order_refl lt l(2), of sid, unfolded gap_pieces_skip [OF assms(4)]]
  show ?thesis
  proof (cases "gap_slices sid c limit ?stop ?rs (sc_offset c) em")
    case (Inl em')
    then show ?thesis using g by (simp add: gap_chunk_def ce Let_def)
  next
    case (Inr q)
    obtain m where m: "gap_pieces c ?stop (sc_offset c) rs = m @ slice_of c (fst q) ?stop"
        "emits sid limit m em (True, snd q)" "sc_offset c \<le> fst q"
      using g Inr by (auto split: prod.splits)
    have lq: "snd (snd q) < limit" using m(2) by (simp add: emits_def)
    have gc: "gap_chunk sid limit stop rs c em
        = (if fst q < ?stop then push_retransmission_slice sid c (fst q) ?stop limit (snd q) else (True, snd q))"
      using Inr by (simp add: gap_chunk_def ce Let_def split: prod.splits)
    have "emits sid limit (slice_of c (fst q) ?stop) (snd q) (gap_chunk sid limit stop rs c em)"
      unfolding gc using push_emits [of c "fst q" ?stop "snd q" limit sid] m(3) cb l(1) lq by (auto simp: emits_Nil)
    from emits_append [OF m(2) this] show ?thesis unfolding m(1) .
  qed
qed

definition gaps :: "reinjection_cache \<Rightarrow> nat \<Rightarrow> offset_range list \<Rightarrow> chunks" where
  "gaps m stop rs
     = concat (map (\<lambda>x. gap_pieces (snd x) (min (sc_offset (snd x) + length (sc_payload (snd x))) stop) (sc_offset (snd x)) rs) m)"

lemma gap_chunks_emits:
  assumes "\<forall>x \<in> set m. chunk_ok (snd x)" and "sorted_wrt (\<lambda>x y. sc_offset (snd x) \<le> sc_offset (snd y)) m"
    and "ranges_norm rs" and "snd em < limit" and "limit \<le> u64_max"
  shows "fst (gap_chunks sid limit stop rs m em) = fst em @ frames_of sid (take_bytes (limit - snd em) (gaps m stop rs))"
  using assms
proof (induction m arbitrary: em)
  case Nil
  then show ?case by (simp add: gaps_def frames_of_def)
next
  case (Cons x m)
  let ?p = "gap_pieces (snd x) (min (sc_offset (snd x) + length (sc_payload (snd x))) stop) (sc_offset (snd x)) rs"
  have split: "gaps (x # m) stop rs = ?p @ gaps m stop rs" by (simp add: gaps_def)
  show ?case
  proof (cases "stop \<le> sc_offset (snd x)")
    case True
    have "\<forall>y \<in> set (x # m). stop \<le> sc_offset (snd y)" using True Cons.prems(2) by fastforce
    then have "gaps (x # m) stop rs = []" by (auto simp: gaps_def intro!: gap_pieces_empty)
    then show ?thesis using True by (simp add: frames_of_def)
  next
    case False
    obtain go em1 where r: "gap_chunk sid limit stop rs (snd x) em = (go, em1)" by (meson surj_pair)
    have e: "emits sid limit ?p em (go, em1)"
      using gap_chunk_emits [of "snd x" limit em rs stop sid] Cons.prems False r by simp
    show ?thesis
    proof (cases go)
      case True
      then have lt: "snd em1 < limit" using e by (simp add: emits_def)
      have "fst (gap_chunks sid limit stop rs m em1) = fst em1 @ frames_of sid (take_bytes (limit - snd em1) (gaps m stop rs))"
        using Cons.IH [OF _ _ Cons.prems(3) lt Cons.prems(5)] Cons.prems(1,2) by simp
      moreover have "snd em1 = snd em + chunks_len ?p"
        using e lt by (auto simp: emits_def min_def split: if_splits)
      ultimately show ?thesis
        using r True False e split by (simp add: emits_def frames_of_def take_bytes_append)
    next
      case no: False
      then have "limit - snd em \<le> chunks_len ?p"
        using e by (auto simp: emits_def min_def split: if_splits)
      then show ?thesis using r no False e split by (simp add: emits_def frames_of_def take_bytes_append)
    qed
  qed
qed

lemma gaps_facts:
  assumes "keyed m" and "chunks_ok (plain m)" and "ranges_norm rs"
  shows "chunks_ok (gaps m stop rs)" "chunks_set (gaps m stop rs) = cache_set m \<inter> {..<stop} - ranges_set rs"
    "chunks_of f (plain m) \<Longrightarrow> chunks_of f (gaps m stop rs)"
proof -
  let ?top = "\<lambda>c. min (sc_offset c + length (sc_payload c)) stop"
  note facts = gap_pieces_facts [OF assms(3) order_refl, of "?top c" c for c]
  show "chunks_ok (gaps m stop rs)" unfolding gaps_def
  proof (rule chunks_ok_concat_sorted [OF keyed_sorted_ends [OF assms(1,2)]])
    fix x y a b
    assume le: "sc_offset (snd x) + length (sc_payload (snd x)) \<le> sc_offset (snd y)"
      and a: "a \<in> set (gap_pieces (snd x) (?top (snd x)) (sc_offset (snd x)) rs)"
      and b: "b \<in> set (gap_pieces (snd y) (?top (snd y)) (sc_offset (snd y)) rs)"
    have "chunk_end a \<le> ?top (snd x)" "sc_offset (snd y) \<le> fst b"
      using facts [of "snd x"] facts [of "snd y"] a b by auto
    then show "chunk_end a \<le> fst b" using le by linarith
  qed (use facts in simp)
  show "chunks_set (gaps m stop rs) = cache_set m \<inter> {..<stop} - ranges_set rs"
    using assms(1) unfolding gaps_def
  proof (induction m)
    case (Cons x m)
    then show ?case using facts [of "snd x"] by auto
  qed simp
  assume f: "chunks_of f (plain m)"
  show "chunks_of f (gaps m stop rs)" unfolding gaps_def
    by (rule chunks_of_concat_map, rule gap_pieces_of, simp, simp, rule keyed_payload [OF assms(1) f])
qed

section \<open>Properties\<close>

lemma ex_send_cache: "cache_set (sd_reinjection_cache ex_send) = {0..<6}" "sd_stream_id ex_send = 7"
  by (auto simp: ex_send_def)

text \<open>C28. Retransmission of requested ranges: the frames carry the retained bytes of the requested
  offsets, lowest first and each once, and stop exactly at the byte budget.\<close>

theorem retransmission_for_ranges_exact:
  assumes "send_of sent sd" and "limit \<le> u64_max"
  shows "recovers sent (sd_stream_id sd) limit (cache_set (sd_reinjection_cache sd) \<inter> ranges_set rs)
    (retransmission_frames_for_ranges rs limit sd)"
  by (rule ranges_recovers [OF assms])

theorem retransmission_for_ranges_exact_witness:
  "recovers [10, 11, 12, 13, 14, 15] 7 3 ({0..<6} \<inter> ({1..<3} \<union> {4..<9})) [StreamData 7 1 [11, 12], StreamData 7 4 [14]]"
proof -
  let ?rs = "[\<lparr>range_start = 4, range_end = 9\<rparr>, \<lparr>range_start = 1, range_end = 3\<rparr>]"
  have "retransmission_frames_for_ranges ?rs 3 ex_send = [StreamData 7 1 [11, 12], StreamData 7 4 [14]]" by code_simp
  moreover note ex_send_cache
  moreover have "ranges_set ?rs = {1..<3} \<union> {4..<9}" by (auto simp: range_set_def)
  ultimately show ?thesis
    using retransmission_for_ranges_exact [OF ex_send_of, of 3 ?rs] by (simp add: u64_max_def)
qed

lemma max_range_end_Some: "rs \<noteq> [] \<Longrightarrow> ranges_norm rs \<Longrightarrow> max_range_end rs = Some (range_end (last rs))"
proof -
  have "fold (\<lambda>r m. max m (range_end r)) rs a = (if rs = [] then a else max a (range_end (last rs)))" if "ranges_norm rs" for a
    using that
  proof (induction rs arbitrary: a)
    case (Cons r rs)
    show ?case
    proof (cases "rs = []")
      case False
      have "range_end r < range_end (last rs)"
        using Cons.prems last_in_set [OF False] by (force simp: ranges_norm_def)
      then show ?thesis using Cons False by (simp add: ranges_norm_Cons max_def)
    qed simp
  qed simp
  then show "rs \<noteq> [] \<Longrightarrow> ranges_norm rs \<Longrightarrow> ?thesis" by (simp add: max_range_end_def)
qed

lemma ack_recovers:
  assumes inv: "send_of sent sd" and l: "limit \<le> u64_max" and norm: "normalize_offset_ranges rs = acked"
    and ne: "acked \<noteq> []"
  shows "recovers sent (sd_stream_id sd) limit
      (cache_set (sd_reinjection_cache sd) \<inter> {..<range_end (last acked)} - ranges_set rs)
      (retransmission_frames_for_ack_gaps rs limit sd)
    \<and> recovers sent (sd_stream_id sd) limit
      (cache_set (sd_reinjection_cache sd) \<inter> {range_end (last acked)..})
      (retransmission_frames_after_ack_frontier rs limit sd)"
proof -
  let ?m = "sd_reinjection_cache sd" and ?stop = "range_end (last acked)"
  have acked: "ranges_norm acked" "ranges_set acked = ranges_set rs" using normalize_offset_ranges_spec [of rs] norm by auto
  have m: "keyed ?m" "chunks_ok (plain ?m)" "chunks_of (nth sent) (plain ?m)" "cache_set ?m \<subseteq> {..<sd_next_offset sd}"
    using inv by (auto simp: send_of_def)
  note largest = max_range_end_Some [OF ne acked(1)]
  have gap: "retransmission_frames_for_ack_gaps rs limit sd = frames_of (sd_stream_id sd) (take_bytes limit (gaps ?m ?stop acked))"
    using gap_chunks_emits [OF cache_chunks [OF inv] acked(1), of "([], 0)" limit] l
    by (simp add: retransmission_frames_for_ack_gaps_def retransmission_frames_for_normalized_ack_gaps_def norm largest frames_of_def)
  have "recovers sent (sd_stream_id sd) limit (cache_set ?m \<inter> {..<?stop} - ranges_set rs)
      (retransmission_frames_for_ack_gaps rs limit sd)"
    unfolding gap by (rule recovers_take_bytes) (use gaps_facts [OF m(1,2) acked(1)] m(3) acked(2) in simp_all)
  moreover have "recovers sent (sd_stream_id sd) limit (cache_set ?m \<inter> {?stop..}) (retransmission_frames_after_ack_frontier rs limit sd)"
  proof (cases "limit = 0 \<or> ?m = [] \<or> ?stop \<ge> sd_next_offset sd")
    case True
    have "cache_set ?m \<inter> {?stop..} = {}" if "?stop \<ge> sd_next_offset sd" using that m(4) by fastforce
    then have "limit = 0 \<or> cache_set ?m \<inter> {?stop..} = {}" using True by auto
    then show ?thesis using True
      by (auto simp: retransmission_frames_after_ack_frontier_def retransmission_frames_after_normalized_ack_frontier_def
          norm largest intro: recovers_none)
  next
    case False
    have "cache_set ?m \<inter> ranges_set [\<lparr>range_start = ?stop, range_end = sd_next_offset sd\<rparr>] = cache_set ?m \<inter> {?stop..}"
      using m(4) by (auto simp: range_set_def)
    then show ?thesis
      using ranges_recovers [OF inv l, of "[\<lparr>range_start = ?stop, range_end = sd_next_offset sd\<rparr>]"] False
      by (simp add: retransmission_frames_after_ack_frontier_def retransmission_frames_after_normalized_ack_frontier_def norm largest)
  qed
  ultimately show ?thesis by blast
qed

text \<open>C29. Recovery from an acknowledgement: the gap frames carry the lowest retained offsets that the
  acknowledgement leaves out below its largest offset, and the frontier frames those above it. An
  acknowledgement without ranges asks for nothing.\<close>

theorem retransmission_for_ack_exact:
  assumes "send_of sent sd" and "limit \<le> u64_max" and "normalize_offset_ranges rs = acked"
    and "acked \<noteq> []"
  shows "recovers sent (sd_stream_id sd) limit
      (cache_set (sd_reinjection_cache sd) \<inter> {..<range_end (last acked)} - ranges_set rs)
      (retransmission_frames_for_ack_gaps rs limit sd)
    \<and> recovers sent (sd_stream_id sd) limit
      (cache_set (sd_reinjection_cache sd) \<inter> {range_end (last acked)..})
      (retransmission_frames_after_ack_frontier rs limit sd)"
  by (rule ack_recovers [OF assms])

theorem retransmission_for_ack_exact_witness:
  "recovers [10, 11, 12, 13, 14, 15] 7 2 ({0..<6} \<inter> {..<4} - {1..<2} - {3..<4}) [StreamData 7 0 [10], StreamData 7 2 [12]]
   \<and> recovers [10, 11, 12, 13, 14, 15] 7 2 ({0..<6} \<inter> {4..}) [StreamData 7 4 [14, 15]]"
proof -
  let ?rs = "[\<lparr>range_start = 1, range_end = 2\<rparr>, \<lparr>range_start = 3, range_end = 4\<rparr>]"
  have "retransmission_frames_for_ack_gaps ?rs 2 ex_send = [StreamData 7 0 [10], StreamData 7 2 [12]]"
    "retransmission_frames_after_ack_frontier ?rs 2 ex_send = [StreamData 7 4 [14, 15]]" by code_simp+
  moreover note ex_send_cache
  moreover have "{0..<6} \<inter> {..<4} - ranges_set ?rs = {0..<6} \<inter> {..<4} - {1..<2} - {3..<4}" by (auto simp: range_set_def)
  moreover have "normalize_offset_ranges ?rs = ?rs" by code_simp
  ultimately show ?thesis
    using retransmission_for_ack_exact [OF ex_send_of, of 2 ?rs ?rs] by (simp add: u64_max_def)
qed

lemma wanted_first:
  assumes ok: "cache_ok m" and k: "first_overlapping_reinjection_chunk m (range_start r) (range_end r) = Some k"
  shows "\<exists>c m'. bt_get k m = Some c \<and> wanted m [r] = piece c r @ m' \<and> sc_offset c = k
    \<and> max (range_start r) k < min (range_end r) (k + length (sc_payload c)) \<and> k + length (sc_payload c) \<le> u64_max"
proof -
  obtain c where c: "bt_get k m = Some c" "range_start r < k + length (sc_payload c)" "k < range_end r" "range_start r < range_end r"
    and low: "\<forall>e \<in> set (plain m). fst e < k \<longrightarrow> chunk_end e \<le> range_start r"
    using first_overlapping_Some [OF ok k] by auto
  note e = cache_entry [OF ok c(1)]
  obtain xs ys where m: "m = xs @ (k, c) # ys" using bt_get_SomeD [OF c(1)] by (auto dest: split_list)
  have "inter (snd x) [r] = []" if x: "x \<in> set xs" for x
  proof -
    have "fst x < k" using cache_ok_bt_wf [OF ok] x unfolding m by (simp add: bt_wf_def sorted_wrt_append)
    moreover have "(fst x, sc_payload (snd x)) \<in> set (plain m)" "sc_offset (snd x) = fst x"
      using x ok unfolding m cache_ok_def keyed_def plain_set by auto
    ultimately have "sc_offset (snd x) + length (sc_payload (snd x)) \<le> range_start r" using low by fastforce
    then show ?thesis by (intro inter_beyond) simp
  qed
  then have "wanted m [r] = piece c r @ wanted ys [r]" by (simp add: m wanted_def inter_def)
  moreover have "max (range_start r) k < min (range_end r) (k + length (sc_payload c))" using c e(3) by auto
  ultimately show ?thesis using c(1) e(2,4) by blast
qed

lemma bslice_take: "take n (bslice a b xs) = bslice a (min b (a + n)) xs"
proof -
  have "min b (a + n) - a = min n (b - a)" by arith
  then show ?thesis by (simp add: bslice_def)
qed

lemma slice_budget:
  fixes k s e n l m :: nat
  assumes "k \<le> s" "k + n \<le> m"
  shows "min (min e (k + n) - k) (s - k + l) = min (min e (min (s + l) m) - k) n"
  using assms by arith

lemma slice_nonempty:
  fixes k s e n l m :: nat
  assumes "k \<le> s" "s < e" "s < k + n" "k + n \<le> m" "0 < l"
  shows "s < min e (min (s + l) m)" "s - k < min (min e (min (s + l) m) - k) n"
  using assms by auto

text \<open>C30. The single-frame query agrees with the general one: it returns the first frame that
  retransmission of the one range would emit, without building the others.\<close>

theorem first_retransmission_frame_is_head:
  assumes inv: "send_of sent sd" and l: "limit \<le> u64_max"
  shows "first_retransmission_frame_for_range r limit sd
    = (case retransmission_frames_for_ranges [r] limit sd of [] \<Rightarrow> None | f # fs \<Rightarrow> Some f)"
proof (cases "limit = 0")
  case True
  then show ?thesis by (simp add: first_retransmission_frame_for_range_def retransmission_frames_for_ranges_def)
next
  case lim: False
  let ?m = "sd_reinjection_cache sd"
  have ok: "cache_ok ?m" by (rule send_of_cache(1) [OF inv])
  show ?thesis
  proof (cases "range_start r < range_end r")
    case False
    have "normalize_offset_ranges [r] = []"
      using False by (intro ranges_norm_unique) (simp_all add: normalize_offset_ranges_spec range_set_def)
    then show ?thesis using False
      by (simp add: first_retransmission_frame_for_range_def retransmission_frames_for_ranges_def first_overlapping_reinjection_chunk_def)
  next
    case True
    have norm: "normalize_offset_ranges [r] = [r]" by (rule normalize_id) (simp add: ranges_norm_Cons True)
    show ?thesis
    proof (cases "first_overlapping_reinjection_chunk ?m (range_start r) (range_end r)")
      case None
      then show ?thesis by (simp add: first_retransmission_frame_for_range_def retransmission_frames_for_ranges_def norm)
    next
      case (Some k)
      obtain c m' where c: "bt_get k ?m = Some c" "wanted ?m [r] = piece c r @ m'" "sc_offset c = k"
          "max (range_start r) k < min (range_end r) (k + length (sc_payload c))" "k + length (sc_payload c) \<le> u64_max"
        using wanted_first [OF ok Some] by blast
      let ?s = "max (range_start r) k" and ?p = "sc_payload c"
      let ?e = "min (range_end r) (k + length ?p)"
      have piece: "piece c r = [(?s, bslice (?s - k) (?e - k) ?p)]" using c(3,4) by (simp add: piece_def slice_of_def)
      have "take limit (bslice (?s - k) (?e - k) ?p) = bslice (?s - k) (min (min (range_end r) (saturating_add ?s limit) - k) (length ?p)) ?p"
        unfolding bslice_take saturating_add_def by (subst slice_budget [OF _ c(5)]) simp_all
      moreover have "sent_chunk_slice c ?s (min (range_end r) (saturating_add ?s limit))
          = Some \<lparr>sc_offset = ?s, sc_payload = bslice (?s - k) (min (min (range_end r) (saturating_add ?s limit) - k) (length ?p)) ?p\<rparr>"
      proof -
        have b: "k \<le> ?s" "?s < range_end r" "?s < k + length ?p" "0 < limit" using c(4) lim by simp_all
        note ne = slice_nonempty [OF b(1-3) c(5) b(4), folded saturating_add_def]
        show ?thesis using ne [unfolded not_le [symmetric]] by (simp only: sent_chunk_slice_def c(3) Let_def saturating_sub_def if_False)
      qed
      ultimately show ?thesis
        unfolding ranges_frames [OF inv l] norm c(2) piece
        using lim by (simp add: first_retransmission_frame_for_range_def Some c(1,3) frames_of_def Let_def)
    qed
  qed
qed

theorem first_retransmission_frame_is_head_witness:
  "first_retransmission_frame_for_range \<lparr>range_start = 2, range_end = 9\<rparr> 3 ex_send = Some (StreamData 7 2 [12, 13, 14])"
proof -
  have "retransmission_frames_for_ranges [\<lparr>range_start = 2, range_end = 9\<rparr>] 3 ex_send = [StreamData 7 2 [12, 13, 14]]" by code_simp
  then show ?thesis using first_retransmission_frame_is_head [OF ex_send_of, of 3 "\<lparr>range_start = 2, range_end = 9\<rparr>"]
    by (simp add: u64_max_def)
qed

end
