(* ===== verification/Stream_Network.thy ===== *)
theory Stream_Network
  imports Recv_Correct Send_Recover
begin

text \<open>
  One direction of a reliable stream end to end: the send half and the receive half of
  \<open>src/src/mux/stream.rs\<close> joined by a network that may lose, repeat, delay and reorder the
  frames of either direction. The network is the set of frames that were ever put on any path: a
  frame of the set may arrive at any time and any number of times, or never.

  The steps are the calls that the two owners make: sending, the three retransmission queries, data
  reception, the two forms of acknowledgement, window updates, and the reception of
  acknowledgements and window updates. A call that is refused changes nothing, so refusals need no
  step of their own. A recovery is made of retransmissions, receptions and acknowledgements only.
\<close>

record stream_net =
  nt_sent :: "byte list"
  nt_send :: send_stream
  nt_recv :: recv_stream
  nt_data :: "frame set"
  nt_control :: "frame set"
  nt_delivered :: "byte list"

definition net_start :: "stream_id \<Rightarrow> mux_limits \<Rightarrow> mux_limits \<Rightarrow> u64 \<Rightarrow> stream_net" where
  "net_start sid send_limits recv_limits initial =
     \<lparr>nt_sent = [], nt_send = send_new_with_initial_max_offset sid send_limits initial,
      nt_recv = recv_new_with_initial_max_offset sid recv_limits initial, nt_data = {}, nt_control = {}, nt_delivered = []\<rparr>"

inductive net_step :: "stream_net \<Rightarrow> stream_net \<Rightarrow> bool" where
  send: "send_data payload (nt_send s) = (Inr fr, sd')
     \<Longrightarrow> net_step s (s\<lparr>nt_sent := nt_sent s @ payload, nt_send := sd', nt_data := insert fr (nt_data s)\<rparr>)"
| resend_ranges: "limit \<le> u64_max
     \<Longrightarrow> net_step s (s\<lparr>nt_data := nt_data s \<union> set (retransmission_frames_for_ranges rs limit (nt_send s))\<rparr>)"
| resend_gaps: "limit \<le> u64_max
     \<Longrightarrow> net_step s (s\<lparr>nt_data := nt_data s \<union> set (retransmission_frames_for_ack_gaps rs limit (nt_send s))
          \<union> set (retransmission_frames_after_ack_frontier rs limit (nt_send s))\<rparr>)"
| receive: "StreamData sid off payload \<in> nt_data s \<Longrightarrow> receive_data off payload (nt_recv s) = Some (Inr out, rv')
     \<Longrightarrow> net_step s (s\<lparr>nt_recv := rv', nt_delivered := nt_delivered s @ concat (ro_delivered out)\<rparr>)"
| ack: "net_step s (s\<lparr>nt_control := insert (ack_frame (nt_recv s)) (nt_control s \<union> set (ack_frames (nt_recv s)))\<rparr>)"
| ack_update: "take_ack_update (nt_recv s) = (frames, rv')
     \<Longrightarrow> net_step s (s\<lparr>nt_recv := rv', nt_control := nt_control s \<union> set frames\<rparr>)"
| window: "net_step s (s\<lparr>nt_recv := commit_max_data (max_data_offset_with_window window_bytes (nt_recv s)) (nt_recv s),
       nt_control := insert (max_data_frame_with_window window_bytes (nt_recv s)) (nt_control s)\<rparr>)"
| acked: "StreamAck sid scope ranges \<in> nt_control s \<Longrightarrow> validate_stream_ack scope ranges (sd_next_offset (nt_send s)) = Inr va
     \<Longrightarrow> apply_validated_ack va (nt_send s) = (Inr out, sd') \<Longrightarrow> net_step s (s\<lparr>nt_send := sd'\<rparr>)"
| credit: "StreamMaxData sid off \<in> nt_control s \<Longrightarrow> net_step s (s\<lparr>nt_send := update_max_offset off (nt_send s)\<rparr>)"

section \<open>The invariant\<close>

abbreviation received :: "stream_net \<Rightarrow> nat set" where
  "received s \<equiv> rs_set (rv_received_ranges (nt_recv s))"

abbreviation retained :: "stream_net \<Rightarrow> nat set" where
  "retained s \<equiv> cache_set (sd_reinjection_cache (nt_send s))"

abbreviation published :: "stream_net \<Rightarrow> nat set" where
  "published s \<equiv> (\<Union>fr \<in> nt_control s. ack_positive fr)"

text \<open>A data frame carries bytes of the sent stream; a control frame claims nothing that is not so.\<close>

fun data_true :: "byte list \<Rightarrow> frame \<Rightarrow> bool" where
  "data_true sent (StreamData sid off payload) \<longleftrightarrow>
     off + length payload \<le> length sent \<and> payload = seg (nth sent) off (off + length payload)"
| "data_true sent _ \<longleftrightarrow> False"

fun control_true :: "nat set \<Rightarrow> u64 \<Rightarrow> frame \<Rightarrow> bool" where
  "control_true R credit_end (StreamAck sid scope ranges) \<longleftrightarrow> ranges_set ranges \<subseteq> R"
| "control_true R credit_end (StreamMaxData sid off) \<longleftrightarrow> off \<le> credit_end"
| "control_true R credit_end _ \<longleftrightarrow> False"

text \<open>The invariant is relative to the offsets \<open>P\<close> of acknowledgements that were issued and are lost for good.\<close>

definition net_ok :: "nat set \<Rightarrow> stream_net \<Rightarrow> bool" where
  "net_ok P s \<longleftrightarrow> send_of (nt_sent s) (nt_send s) \<and> recv_of (nth (nt_sent s)) (nt_recv s)
     \<and> nt_delivered s = take (rv_next_offset (nt_recv s)) (nt_sent s)
     \<and> received s \<subseteq> {..<length (nt_sent s)}
     \<and> {..<length (nt_sent s)} \<subseteq> received s \<union> retained s
     \<and> sd_max_offset (nt_send s) \<le> rv_published_max_offset (nt_recv s)
     \<and> (\<forall>fr \<in> nt_data s. data_true (nt_sent s) fr)
     \<and> (\<forall>fr \<in> nt_control s. control_true (received s) (rv_published_max_offset (nt_recv s)) fr)
     \<and> ack_inv (P \<union> published s) (nt_recv s)"

lemma net_ok_start: "initial \<le> u64_max \<Longrightarrow> net_ok {} (net_start sid sl rl initial)"
  using recv_new_inv [of initial "nth []" sid rl] send_of_new [of initial sid sl]
  by (simp add: net_ok_def net_start_def ack_inv_new) (simp add: send_new_with_initial_max_offset_def recv_new_with_initial_max_offset_def)

lemma seg_nth: "n \<le> length xs \<Longrightarrow> seg (nth xs) a n = drop a (take n xs)"
  by (rule nth_equalityI) (auto simp: seg_def)

lemma data_true_extend: "data_true sent fr \<Longrightarrow> data_true (sent @ p) fr"
proof (cases fr)
  case (StreamData sid off payload)
  assume "data_true sent fr"
  then have d: "off + length payload \<le> length sent" "payload = seg (nth sent) off (off + length payload)" by (simp_all add: StreamData)
  have "seg (nth sent) off (off + length payload) = seg (nth (sent @ p)) off (off + length payload)"
    using d(1) by (intro seg_cong) (simp add: nth_append)
  then show ?thesis using d by (simp add: StreamData)
qed simp_all

lemma control_true_mono: "control_true R n fr \<Longrightarrow> R \<subseteq> R' \<Longrightarrow> n \<le> n' \<Longrightarrow> control_true R' n' fr"
  by (cases fr) auto

lemma truthful_control: "ack_truthful R fr \<Longrightarrow> control_true R n fr"
  by (cases fr) auto

lemma recovers_data_true:
  assumes "recovers sent sid limit W frames" "W \<subseteq> {..<length sent}" "fr \<in> set frames"
  shows "data_true sent fr"
proof -
  obtain m where m: "frames = frames_of sid m" "chunks_ok m" "chunks_of (nth sent) m" "chunks_set m \<subseteq> W"
    using assms(1) by (auto simp: recovers_def)
  obtain e where e: "e \<in> set m" "fr = StreamData sid (fst e) (snd e)" using assms(3) by (auto simp: m(1) frames_of_def)
  have sub: "chunks_set m \<subseteq> {..<length sent}" using m(4) assms(2) by blast
  have "chunk_end e \<le> length sent" by (rule chunk_end_bound [OF m(2) sub e(1)])
  then show ?thesis using m(3) e by (simp add: chunks_of_def chunk_end_def)
qed

lemma resend_data_true:
  assumes "send_of sent sd" "limit \<le> u64_max"
  shows "fr \<in> set (retransmission_frames_for_ranges rs limit sd) \<Longrightarrow> data_true sent fr"
    "fr \<in> set (retransmission_frames_for_ack_gaps rs limit sd) \<Longrightarrow> data_true sent fr"
    "fr \<in> set (retransmission_frames_after_ack_frontier rs limit sd) \<Longrightarrow> data_true sent fr"
proof -
  have c: "cache_set (sd_reinjection_cache sd) \<subseteq> {..<length sent}" using assms(1) by (simp add: send_of_def)
  show "fr \<in> set (retransmission_frames_for_ranges rs limit sd) \<Longrightarrow> data_true sent fr"
    by (rule recovers_data_true [OF ranges_recovers [OF assms]]) (use c in auto)
  have "data_true sent fr" if "fr \<in> set (retransmission_frames_for_ack_gaps rs limit sd) \<union> set (retransmission_frames_after_ack_frontier rs limit sd)"
  proof (cases "normalize_offset_ranges rs = []")
    case True
    then show ?thesis using that
      by (simp add: retransmission_frames_for_ack_gaps_def retransmission_frames_for_normalized_ack_gaps_def
          retransmission_frames_after_ack_frontier_def retransmission_frames_after_normalized_ack_frontier_def max_range_end_def
          split: if_splits)
  next
    case False
    note r = ack_recovers [OF assms refl False]
    then show ?thesis using that recovers_data_true [OF conjunct1 [OF r], of fr] recovers_data_true [OF conjunct2 [OF r], of fr] c by blast
  qed
  then show "fr \<in> set (retransmission_frames_for_ack_gaps rs limit sd) \<Longrightarrow> data_true sent fr"
    "fr \<in> set (retransmission_frames_after_ack_frontier rs limit sd) \<Longrightarrow> data_true sent fr" by simp_all
qed

lemma recv_of_extend:
  assumes "recv_of (nth sent) rv" "rs_set (rv_received_ranges rv) \<subseteq> {..<length sent}"
  shows "recv_of (nth (sent @ p)) rv"
proof -
  have "chunks_set (rv_buffered rv) \<subseteq> {..<length sent}" using assms by (auto simp: recv_of_def recv_inv_def)
  then show ?thesis using assms(1) chunks_of_extend [of sent "rv_buffered rv" p] by (auto simp: recv_of_def recv_inv_def)
qed

lemma next_offset_sent:
  assumes "net_ok P s"
  shows "rv_next_offset (nt_recv s) \<le> length (nt_sent s)"
proof -
  have "{..<rv_next_offset (nt_recv s)} \<subseteq> {..<length (nt_sent s)}"
    using assms by (auto simp: net_ok_def recv_of_def recv_inv_def)
  then show ?thesis by auto
qed

lemma send_data_keeps:
  "send_data payload sd = (Inr fr, sd') \<Longrightarrow> sd_max_offset sd' = sd_max_offset sd \<and> sd_limits sd' = sd_limits sd"
  by (auto simp: send_data_def prepare_data_def commit_prepared_data_def split: sum.splits prod.splits if_splits)

lemma send_step_ok:
  assumes ok: "net_ok P s" and sd: "send_data payload (nt_send s) = (Inr fr, sd')"
  shows "net_ok P (s\<lparr>nt_sent := nt_sent s @ payload, nt_send := sd', nt_data := insert fr (nt_data s)\<rparr>)"
proof -
  let ?n = "length (nt_sent s)"
  have inv: "send_of (nt_sent s) (nt_send s)" using ok by (simp add: net_ok_def)
  have e: "fr = StreamData (sd_stream_id (nt_send s)) ?n payload" "send_of (nt_sent s @ payload) sd'"
      "cache_set (sd_reinjection_cache sd') = retained s \<union> {?n..<?n + length payload}"
    using send_data_effect [OF inv, of payload] sd by auto
  have "data_true (nt_sent s @ payload) fr" by (simp add: e(1) seg_nth_append)
  moreover have "take (rv_next_offset (nt_recv s)) (nt_sent s @ payload) = take (rv_next_offset (nt_recv s)) (nt_sent s)"
    using next_offset_sent [OF ok] by simp
  moreover have "recv_of (nth (nt_sent s @ payload)) (nt_recv s)" using ok by (intro recv_of_extend) (simp_all add: net_ok_def)
  moreover have "{..<?n + length payload} \<subseteq> {..<?n} \<union> {?n..<?n + length payload}" by auto
  ultimately show ?thesis
    using ok e send_data_keeps [OF sd] data_true_extend [of "nt_sent s" _ payload] by (auto simp: net_ok_def)
qed

lemma receive_step_ok:
  assumes ok: "net_ok P s" and fr: "StreamData sid off payload \<in> nt_data s"
    and rv: "receive_data off payload (nt_recv s) = Some (Inr out, rv')"
  shows "net_ok P (s\<lparr>nt_recv := rv', nt_delivered := nt_delivered s @ concat (ro_delivered out)\<rparr>)"
proof -
  let ?f = "nth (nt_sent s)" and ?n = "rv_next_offset (nt_recv s)"
  have inv: "recv_of ?f (nt_recv s)" and d: "data_true (nt_sent s) (StreamData sid off payload)" using ok fr by (auto simp: net_ok_def)
  have pay: "payload ! i = ?f (off + i)" if "i < length payload" for i
  proof -
    have "payload = seg ?f off (off + length payload)" using d by simp
    then have "payload ! i = seg ?f off (off + length payload) ! i" by simp
    then show ?thesis using that by (simp add: seg_def)
  qed
  then have e: "recv_of ?f rv'" "receive_effect ?f off (off + length payload) (nt_recv s) out rv'"
    using receive_data_general [OF inv, of payload off] rv by auto
  note r = receive_effectD [OF e(2)]
  have sub: "rs_set (rv_received_ranges rv') \<subseteq> {..<length (nt_sent s)}" using r(3) ok d by (auto simp: net_ok_def)
  then have "{..<rv_next_offset rv'} \<subseteq> {..<length (nt_sent s)}" using e(1) by (auto simp: recv_of_def recv_inv_def)
  then have n': "rv_next_offset rv' \<le> length (nt_sent s)" by auto
  have "take ?n (nt_sent s) @ concat (ro_delivered out) = take (rv_next_offset rv') (nt_sent s)"
    unfolding r(2) seg_nth [OF n'] using r(1) by (metis append_take_drop_id min.absorb1 take_take)
  moreover have "control_true (rs_set (rv_received_ranges rv')) (rv_published_max_offset rv') fr" if "fr \<in> nt_control s" for fr
  proof (rule control_true_mono)
    show "control_true (received s) (rv_published_max_offset (nt_recv s)) fr" using ok that by (simp add: net_ok_def)
  qed (simp_all add: r(3,6))
  moreover have "{..<length (nt_sent s)} \<subseteq> rs_set (rv_received_ranges rv') \<union> retained s" using ok r(3) by (auto simp: net_ok_def)
  moreover have "ack_inv (P \<union> published s) rv'"
    using ok inv by (intro ack_inv_receive [OF _ _ rv]) (simp_all add: net_ok_def recv_of_def)
  ultimately show ?thesis using ok e(1) sub r(6) by (simp add: net_ok_def)
qed

lemma control_step_ok:
  assumes "net_ok P s" "rs_set (rv_received_ranges rv') = received s" "recv_of (nth (nt_sent s)) rv'"
    "rv_next_offset rv' = rv_next_offset (nt_recv s)" "rv_published_max_offset (nt_recv s) \<le> rv_published_max_offset rv'"
    "\<And>fr. fr \<in> new \<Longrightarrow> control_true (received s) (rv_published_max_offset rv') fr"
    "ack_inv (P \<union> published s \<union> (\<Union>fr \<in> new. ack_positive fr)) rv'"
  shows "net_ok P (s\<lparr>nt_recv := rv', nt_control := nt_control s \<union> new\<rparr>)"
proof -
  have "control_true (received s) (rv_published_max_offset rv') fr" if "fr \<in> nt_control s" for fr
    by (rule control_true_mono [of "received s" "rv_published_max_offset (nt_recv s)"]) (use assms(1,5) that in \<open>auto simp: net_ok_def\<close>)
  moreover have "published (s\<lparr>nt_recv := rv', nt_control := nt_control s \<union> new\<rparr>) = published s \<union> (\<Union>fr \<in> new. ack_positive fr)" by auto
  ultimately show ?thesis using assms by (auto simp: net_ok_def Un_assoc)
qed

lemma ack_step_ok:
  assumes ok: "net_ok P s"
  shows "net_ok P (s\<lparr>nt_control := insert (ack_frame (nt_recv s)) (nt_control s \<union> set (ack_frames (nt_recv s)))\<rparr>)"
proof -
  let ?new = "insert (ack_frame (nt_recv s)) (set (ack_frames (nt_recv s)))"
  have rv: "recv_of (nth (nt_sent s)) (nt_recv s)" "ack_inv (P \<union> published s) (nt_recv s)" using ok by (simp_all add: net_ok_def)
  then have "ack_truthful (received s) fr" if "fr \<in> ?new" for fr
    using cumulative_acks [of "nt_recv s"] that by (auto simp: recv_of_def)
  then have "net_ok P (s\<lparr>nt_recv := nt_recv s, nt_control := nt_control s \<union> ?new\<rparr>)"
    using rv by (intro control_step_ok [OF ok]) (auto intro: truthful_control ack_inv_mono)
  then show ?thesis by simp
qed

lemma ack_update_step_ok:
  assumes ok: "net_ok P s" and upd: "take_ack_update (nt_recv s) = (frames, rv')"
  shows "net_ok P (s\<lparr>nt_recv := rv', nt_control := nt_control s \<union> set frames\<rparr>)"
proof -
  have rv: "recv_inv (nt_recv s)" "chunks_of (nth (nt_sent s)) (rv_buffered (nt_recv s))" "ack_inv (P \<union> published s) (nt_recv s)"
    using ok by (simp_all add: net_ok_def recv_of_def)
  note u = incremental_acks [OF rv(1,3) upd]
  have fields: "rv_buffered rv' = rv_buffered (nt_recv s)" "rv_next_offset rv' = rv_next_offset (nt_recv s)"
      "rv_published_max_offset rv' = rv_published_max_offset (nt_recv s)"
    using upd by (auto simp: take_ack_update_def Let_def split: prod.splits)
  show ?thesis by (rule control_step_ok [OF ok]) (use u fields rv(2) truthful_control in \<open>auto simp: recv_of_def\<close>)
qed

lemma acked_step_ok:
  assumes ok: "net_ok P s" and fr: "StreamAck sid scope ranges \<in> nt_control s"
    and va: "validate_stream_ack scope ranges (sd_next_offset (nt_send s)) = Inr va" "apply_validated_ack va (nt_send s) = (Inr out, sd')"
  shows "net_ok P (s\<lparr>nt_send := sd'\<rparr>)"
proof -
  have "control_true (received s) (rv_published_max_offset (nt_recv s)) (StreamAck sid scope ranges)"
    using ok fr unfolding net_ok_def by blast
  moreover have "send_of (nt_sent s) (nt_send s)" using ok by (simp add: net_ok_def)
  ultimately show ?thesis using ok validated_ack_effect [OF _ va] by (fastforce simp: net_ok_def)
qed

lemma credit_step_ok:
  assumes ok: "net_ok P s" and fr: "StreamMaxData sid off \<in> nt_control s"
  shows "net_ok P (s\<lparr>nt_send := update_max_offset off (nt_send s)\<rparr>)"
proof -
  have "control_true (received s) (rv_published_max_offset (nt_recv s)) (StreamMaxData sid off)"
    using ok fr unfolding net_ok_def by blast
  moreover have "rv_published_max_offset (nt_recv s) \<le> u64_max" using ok by (simp add: net_ok_def recv_of_def recv_inv_def)
  ultimately show ?thesis using ok update_max_offset_of [of off "nt_sent s" "nt_send s"] by (auto simp: net_ok_def update_max_offset_def)
qed

lemma window_step_ok:
  assumes ok: "net_ok P s"
  shows "net_ok P (s\<lparr>nt_recv := commit_max_data (max_data_offset_with_window window_bytes (nt_recv s)) (nt_recv s),
       nt_control := insert (max_data_frame_with_window window_bytes (nt_recv s)) (nt_control s)\<rparr>)"
proof -
  let ?m = "max_data_offset_with_window window_bytes (nt_recv s)"
  have "recv_of (nth (nt_sent s)) (commit_max_data ?m (nt_recv s))"
    using ok by (intro commit_max_data_inv) (simp_all add: net_ok_def max_data_offset_with_window_def)
  then have "net_ok P (s\<lparr>nt_recv := commit_max_data ?m (nt_recv s),
      nt_control := nt_control s \<union> {max_data_frame_with_window window_bytes (nt_recv s)}\<rparr>)"
    using ok ack_inv_commit [of "P \<union> published s" "nt_recv s" ?m]
    by (intro control_step_ok [OF ok]) (auto simp: net_ok_def commit_max_data_def max_data_frame_with_window_def)
  then show ?thesis by simp
qed

lemma net_step_ok: "net_step s s' \<Longrightarrow> net_ok P s \<Longrightarrow> net_ok P s'"
proof (induction rule: net_step.induct)
  case (resend_ranges limit s rs)
  then show ?case using resend_data_true(1) [of "nt_sent s" "nt_send s" limit] by (auto simp: net_ok_def)
next
  case (resend_gaps limit s rs)
  then show ?case using resend_data_true(2,3) [of "nt_sent s" "nt_send s" limit] by (auto simp: net_ok_def)
qed (blast intro: send_step_ok receive_step_ok ack_step_ok ack_update_step_ok window_step_ok acked_step_ok credit_step_ok)+

lemma net_reach_ok: "rtranclp net_step s s' \<Longrightarrow> net_ok P s \<Longrightarrow> net_ok P s'"
  by (induction rule: rtranclp_induct) (auto intro: net_step_ok)

section \<open>Progress\<close>

text \<open>The steps of a recovery: the sender retransmits ranges, the receiver takes data frames and issues
  cumulative acknowledgements, the sender takes them. Nothing new is sent.\<close>

inductive recovery_step :: "stream_net \<Rightarrow> stream_net \<Rightarrow> bool" where
  resend: "limit \<le> u64_max
     \<Longrightarrow> recovery_step s (s\<lparr>nt_data := nt_data s \<union> set (retransmission_frames_for_ranges rs limit (nt_send s))\<rparr>)"
| receive: "StreamData sid off payload \<in> nt_data s \<Longrightarrow> receive_data off payload (nt_recv s) = Some (Inr out, rv')
     \<Longrightarrow> recovery_step s (s\<lparr>nt_recv := rv', nt_delivered := nt_delivered s @ concat (ro_delivered out)\<rparr>)"
| ack: "recovery_step s (s\<lparr>nt_control := insert (ack_frame (nt_recv s)) (nt_control s \<union> set (ack_frames (nt_recv s)))\<rparr>)"
| acked: "StreamAck sid scope ranges \<in> nt_control s \<Longrightarrow> validate_stream_ack scope ranges (sd_next_offset (nt_send s)) = Inr va
     \<Longrightarrow> apply_validated_ack va (nt_send s) = (Inr out, sd') \<Longrightarrow> recovery_step s (s\<lparr>nt_send := sd'\<rparr>)"

lemma recovery_net_step: "recovery_step s s' \<Longrightarrow> net_step s s'"
  by (induction rule: recovery_step.induct) (blast intro: net_step.intros)+

lemma recovery_reach_ok: "rtranclp recovery_step s s' \<Longrightarrow> net_ok P s \<Longrightarrow> net_ok P s'"
  by (induction rule: rtranclp_induct) (auto intro: net_step_ok recovery_net_step)

text \<open>Every frame in flight, of both directions, is lost.\<close>

definition lose_all :: "stream_net \<Rightarrow> stream_net" where
  "lose_all s = s\<lparr>nt_data := {}, nt_control := {}\<rparr>"

lemma lose_all_ok: "net_ok P s \<Longrightarrow> net_ok (P \<union> published s) (lose_all s)"
  by (simp add: net_ok_def lose_all_def)

text \<open>The receiver can hold one more range, or already delivers from a range it can extend.\<close>

definition has_room :: "recv_stream \<Rightarrow> bool" where
  "has_room rv \<longleftrightarrow> 0 < ml_max_payload_bytes (rv_limits rv)
     \<and> (0 < rv_next_offset rv \<or> length (rv_received_ranges rv) < ml_max_retained_receive_ranges (rv_limits rv))"

text \<open>The first missing byte is retained, and retransmitting it gives a frame with exactly that byte.\<close>

lemma resend_missing:
  assumes ok: "net_ok P s" and n: "rv_next_offset (nt_recv s) < length (nt_sent s)"
  defines "n \<equiv> rv_next_offset (nt_recv s)"
  shows "StreamData (sd_stream_id (nt_send s)) n [nt_sent s ! n]
      \<in> set (retransmission_frames_for_ranges [\<lparr>range_start = n, range_end = Suc n\<rparr>] 1 (nt_send s))" "n \<notin> received s"
proof -
  have inv: "send_of (nt_sent s) (nt_send s)" "recv_inv (nt_recv s)" using ok by (simp_all add: net_ok_def recv_of_def)
  show miss: "n \<notin> received s"
    using inv(2) by (force simp: recv_inv_def n_def chunks_set_def chunk_set_def)
  then have "retained s \<inter> ranges_set [\<lparr>range_start = n, range_end = Suc n\<rparr>] = {n}"
    using ok n by (auto simp: net_ok_def n_def range_set_def)
  then obtain m where m: "retransmission_frames_for_ranges [\<lparr>range_start = n, range_end = Suc n\<rparr>] 1 (nt_send s)
        = frames_of (sd_stream_id (nt_send s)) m" "chunks_ok m" "chunks_of (nth (nt_sent s)) m" "chunks_set m \<subseteq> {n}"
      "card (chunks_set m) = 1"
    using ranges_recovers [OF inv(1), of 1 "[\<lparr>range_start = n, range_end = Suc n\<rparr>]"] by (auto simp: recovers_def u64_max_def)
  then have "n \<in> chunks_set m" by (metis card_1_singletonE insert_subset singletonD singletonI)
  then obtain e where e: "e \<in> set m" "fst e \<le> n" "n < chunk_end e" by (auto simp: chunks_set_def chunk_set_def)
  have sub: "{fst e..<chunk_end e} \<subseteq> {n}" using e(1) m(4) by (auto simp: chunks_set_def chunk_set_def)
  have "fst e \<in> {fst e..<chunk_end e}" "chunk_end e - 1 \<in> {fst e..<chunk_end e}" using e(2,3) by auto
  then have "fst e = n" "chunk_end e - 1 = n" using sub by blast+
  then have "fst e = n" "chunk_end e = Suc n" using e(3) by simp_all
  moreover have "snd e = seg (nth (nt_sent s)) (fst e) (chunk_end e)" using m(3) e(1) by (simp add: chunks_of_def)
  ultimately have "e = (n, [nt_sent s ! n])" by (cases e) (simp add: seg_def)
  then show "StreamData (sd_stream_id (nt_send s)) n [nt_sent s ! n]
      \<in> set (retransmission_frames_for_ranges [\<lparr>range_start = n, range_end = Suc n\<rparr>] 1 (nt_send s))"
    using e(1) unfolding m(1) by (force simp: frames_of_def)
qed

lemma net_progress:
  assumes ok: "net_ok P s" and n: "rv_next_offset (nt_recv s) < length (nt_sent s)" and room: "has_room (nt_recv s)"
  shows "\<exists>s'. rtranclp recovery_step s s' \<and> nt_sent s' = nt_sent s \<and> nt_send s' = nt_send s
    \<and> rv_next_offset (nt_recv s) < rv_next_offset (nt_recv s') \<and> has_room (nt_recv s')"
proof -
  let ?n = "rv_next_offset (nt_recv s)" and ?p = "[nt_sent s ! rv_next_offset (nt_recv s)]"
  let ?s1 = "s\<lparr>nt_data := nt_data s \<union> set (retransmission_frames_for_ranges [\<lparr>range_start = ?n, range_end = Suc ?n\<rparr>] 1 (nt_send s))\<rparr>"
  note r = resend_missing [OF ok n]
  have s1: "recovery_step s ?s1" by (rule recovery_step.resend) (simp add: u64_max_def)
  have f: "recv_of (nth (nt_sent s)) (nt_recv s)" using ok by (simp add: net_ok_def)
  have "length (nt_sent s) \<le> rv_published_max_offset (nt_recv s)" using ok by (auto simp: net_ok_def send_of_def)
  then obtain out rv' where a: "receive_data ?n ?p (nt_recv s) = Some (Inr out, rv')" "?n + length ?p \<le> rv_next_offset rv'"
    using in_order_progress [of "nt_recv s" ?p] f n room r(2) by (auto simp: recv_of_def has_room_def)
  have "recv_of (nth (nt_sent s)) rv' \<and> rv_limits rv' = rv_limits (nt_recv s)"
    using receive_data_general [OF f, of ?p ?n] a(1) receive_effectD(5) by auto
  then have "has_room rv'" using room a(2) by (simp add: has_room_def)
  moreover have "recovery_step ?s1 (?s1\<lparr>nt_recv := rv', nt_delivered := nt_delivered s @ concat (ro_delivered out)\<rparr>)"
    using recovery_step.receive [of "sd_stream_id (nt_send s)" ?n ?p ?s1 out rv'] r(1) a(1) by simp
  ultimately show ?thesis
    using s1 a(2) by (intro exI [of _ "?s1\<lparr>nt_recv := rv', nt_delivered := nt_delivered s @ concat (ro_delivered out)\<rparr>"])
      (auto intro: rtranclp.rtrancl_into_rtrancl)
qed

lemma net_delivers_all:
  assumes "net_ok P s" "has_room (nt_recv s)"
  shows "\<exists>s'. rtranclp recovery_step s s' \<and> nt_sent s' = nt_sent s \<and> nt_send s' = nt_send s
    \<and> rv_next_offset (nt_recv s') = length (nt_sent s)"
  using assms
proof (induction "length (nt_sent s) - rv_next_offset (nt_recv s)" arbitrary: s rule: less_induct)
  case less
  show ?case
  proof (cases "rv_next_offset (nt_recv s) < length (nt_sent s)")
    case False
    then show ?thesis using next_offset_sent [OF less.prems(1)] by (intro exI [of _ s]) simp
  next
    case True
    obtain s1 where s1: "rtranclp recovery_step s s1" "nt_sent s1 = nt_sent s" "nt_send s1 = nt_send s"
        "rv_next_offset (nt_recv s) < rv_next_offset (nt_recv s1)" "has_room (nt_recv s1)"
      using net_progress [OF less.prems(1) True less.prems(2)] by blast
    have "net_ok P s1" using recovery_reach_ok [OF s1(1) less.prems(1)] .
    moreover have "length (nt_sent s1) - rv_next_offset (nt_recv s1) < length (nt_sent s) - rv_next_offset (nt_recv s)"
      using s1(2,4) True by simp
    ultimately obtain s2 where "rtranclp recovery_step s1 s2" "nt_sent s2 = nt_sent s1" "nt_send s2 = nt_send s1"
        "rv_next_offset (nt_recv s2) = length (nt_sent s1)"
      using less.hyps [of s1] s1(5) by blast
    then show ?thesis using s1(1-3) by (metis rtranclp_trans)
  qed
qed

text \<open>When everything is received, one acknowledgement releases the whole cache.\<close>

lemma final_ack:
  assumes ok: "net_ok P s" and n: "rv_next_offset (nt_recv s) = length (nt_sent s)" "nt_sent s \<noteq> []"
  shows "ack_frames (nt_recv s) = [StreamAck (rv_stream_id (nt_recv s)) None [\<lparr>range_start = 0, range_end = length (nt_sent s)\<rparr>]]"
proof -
  let ?r = "\<lparr>range_start = 0, range_end = length (nt_sent s)\<rparr>"
  have inv: "recv_inv (nt_recv s)" using ok by (simp add: net_ok_def recv_of_def)
  have "received s = {..<length (nt_sent s)}" using ok inv n(1) by (auto simp: net_ok_def recv_inv_def)
  then have "ack_ranges (nt_recv s) = [?r]"
    using rs_ranges_correct [of "rv_received_ranges (nt_recv s)"] recv_inv_bounds(2) [OF inv] inv n(2) unfolding ack_ranges_def
    by (intro ranges_norm_unique) (auto simp: recv_inv_def ranges_norm_Cons range_set_def)
  then show ?thesis by (simp add: ack_frames_def scoped_ack_frames_def slice_chunks.simps)
qed

lemma net_releases_all:
  assumes ok: "net_ok P s" and n: "rv_next_offset (nt_recv s) = length (nt_sent s)"
  shows "\<exists>s'. rtranclp recovery_step s s' \<and> nt_sent s' = nt_sent s \<and> nt_recv s' = nt_recv s \<and> retained s' = {}"
proof (cases "nt_sent s = []")
  case True
  then show ?thesis using ok by (intro exI [of _ s]) (auto simp: net_ok_def send_of_def)
next
  case False
  let ?r = "\<lparr>range_start = 0, range_end = length (nt_sent s)\<rparr>"
  let ?s1 = "s\<lparr>nt_control := insert (ack_frame (nt_recv s)) (nt_control s \<union> set (ack_frames (nt_recv s)))\<rparr>"
  have inv: "send_of (nt_sent s) (nt_send s)" using ok by (simp add: net_ok_def)
  have c: "sd_next_offset (nt_send s) = length (nt_sent s)" "retained s \<subseteq> {..<length (nt_sent s)}" using inv by (simp_all add: send_of_def)
  obtain va where va: "validate_stream_ack None [?r] (sd_next_offset (nt_send s)) = Inr va"
    using False c by (simp add: validate_stream_ack_def)
  obtain res sd' where ap: "apply_validated_ack va (nt_send s) = (res, sd')" by fastforce
  have norm: "normalize_offset_ranges [?r] = [?r]"
    using normalize_offset_ranges_spec [of "[?r]"] False by (intro ranges_norm_unique) (auto simp: ranges_norm_Cons)
  have "chunks_set (cut_ranges [?r] (plain (sd_reinjection_cache (nt_send s)))) = {}"
    using c(2) cut_ranges_set [of "[?r]" "plain (sd_reinjection_cache (nt_send s))"] inv by (auto simp: send_of_def range_set_def)
  moreover have "chunks_ok (cut_ranges [?r] (plain (sd_reinjection_cache (nt_send s))))"
    using inv by (intro cut_ranges_ok) (simp add: send_of_def)
  ultimately have "length (cut_ranges [?r] (plain (sd_reinjection_cache (nt_send s)))) = 0"
    using length_le_chunks_len card_chunks_set by (metis card.empty le_zero_eq)
  then obtain out where "res = Inr out" "cache_set (sd_reinjection_cache sd') = retained s - ranges_set [?r]"
    using validated_ack_effect [OF inv va ap] norm by auto
  moreover from this have "recovery_step ?s1 (?s1\<lparr>nt_send := sd'\<rparr>)"
    using recovery_step.acked [of "rv_stream_id (nt_recv s)" None "[?r]" ?s1 va out sd'] final_ack [OF ok n False] va ap by simp
  ultimately show ?thesis
    using recovery_step.ack [of s] c(2) by (intro exI [of _ "?s1\<lparr>nt_send := sd'\<rparr>"]) (auto simp: range_set_def intro: rtranclp.rtrancl_into_rtrancl)
qed

section \<open>Properties\<close>

text \<open>C1. The stream is reliable end to end. However the network loses, repeats, delays and reorders
  frames of either direction, and in whatever order the two ends make their calls: the bytes delivered
  to the application are a prefix of the bytes sent, up to exactly the first byte not received; no
  byte is acknowledged that was not received; every byte not yet received is still retained by the
  sender; and the sender never exceeds the window that the receiver granted.\<close>

theorem stream_network_reliable:
  assumes "initial \<le> u64_max" and "rtranclp net_step (net_start sid send_limits recv_limits initial) s"
  shows "nt_delivered s = take (rv_next_offset (nt_recv s)) (nt_sent s)
    \<and> rv_next_offset (nt_recv s) = (LEAST x. x \<notin> received s)
    \<and> (\<forall>fr \<in> nt_control s. ack_positive fr \<subseteq> received s)
    \<and> {..<length (nt_sent s)} - received s \<subseteq> retained s
    \<and> length (nt_sent s) \<le> rv_published_max_offset (nt_recv s)"
proof -
  have ok: "net_ok {} s" by (rule net_reach_ok [OF assms(2) net_ok_start [OF assms(1)]])
  have "ack_positive fr \<subseteq> received s" if "fr \<in> nt_control s" for fr
  proof -
    have "control_true (received s) (rv_published_max_offset (nt_recv s)) fr" using ok that unfolding net_ok_def by blast
    then show ?thesis by (cases fr) auto
  qed
  moreover have "(LEAST x. x \<notin> received s) = rv_next_offset (nt_recv s)"
    using ok by (intro first_gap_Least) (force simp: net_ok_def recv_of_def recv_inv_def first_gap_def chunks_set_def chunk_set_def)
  ultimately show ?thesis using ok by (auto simp: net_ok_def send_of_def)
qed

text \<open>C2. Nothing blocks a stream for good. Take any state that the two ends and the network can reach,
  with room for a range at the receiver, and lose every frame in flight, of both directions. Then
  retransmissions of ranges, the reception of what they sent, acknowledgements and their reception,
  and no other steps, can lead to a state in which exactly the bytes sent so far are delivered and
  the sender retains nothing. Every byte that is still missing can come from a retransmission only,
  and every byte that is released from an acknowledgement that was issued after the loss.\<close>

theorem stream_network_completes:
  assumes "initial \<le> u64_max" and "rtranclp net_step (net_start sid send_limits recv_limits initial) s" and "has_room (nt_recv s)"
  shows "\<exists>s'. rtranclp recovery_step (lose_all s) s' \<and> nt_sent s' = nt_sent s \<and> nt_delivered s' = nt_sent s \<and> retained s' = {}"
proof -
  have ok: "net_ok (published s) (lose_all s)"
    using lose_all_ok [OF net_reach_ok [OF assms(2) net_ok_start [OF assms(1)]]] by simp
  have keep: "nt_sent (lose_all s) = nt_sent s" "nt_recv (lose_all s) = nt_recv s" by (simp_all add: lose_all_def)
  obtain s1 where s1: "rtranclp recovery_step (lose_all s) s1" "nt_sent s1 = nt_sent s" "rv_next_offset (nt_recv s1) = length (nt_sent s1)"
    using net_delivers_all [OF ok] assms(3) by (auto simp: keep)
  have ok1: "net_ok (published s) s1" by (rule recovery_reach_ok [OF s1(1) ok])
  obtain s2 where s2: "rtranclp recovery_step s1 s2" "nt_sent s2 = nt_sent s1" "nt_recv s2 = nt_recv s1" "retained s2 = {}"
    using net_releases_all [OF ok1 s1(3)] by blast
  have "net_ok (published s) s2" by (rule recovery_reach_ok [OF s2(1) ok1])
  then have "nt_delivered s2 = nt_sent s" using s1(2,3) s2(2,3) by (simp add: net_ok_def)
  then show ?thesis using rtranclp_trans [OF s1(1) s2(1)] s1(2) s2(2,4) by auto
qed

text \<open>A stream of three bytes whose only frame is lost.\<close>

definition ex_lost :: stream_net where
  "ex_lost = (let s = net_start 7 default_mux_limits default_mux_limits 100; r = send_data [1, 2, 3] (nt_send s)
     in s\<lparr>nt_sent := [1, 2, 3], nt_send := snd r, nt_data := {projr (fst r)}\<rparr>)"

lemma ex_lost_reach: "rtranclp net_step (net_start 7 default_mux_limits default_mux_limits 100) ex_lost"
proof -
  let ?s = "net_start 7 default_mux_limits default_mux_limits 100"
  have "\<not> isl (fst (send_data [1, 2, 3] (nt_send ?s)))" by code_simp
  then have "send_data [1, 2, 3] (nt_send ?s) = (Inr (projr (fst (send_data [1, 2, 3] (nt_send ?s)))), snd (send_data [1, 2, 3] (nt_send ?s)))"
    by (metis prod.collapse sum.collapse(2))
  from net_step.send [OF this] have "net_step ?s ex_lost" by (simp add: ex_lost_def net_start_def Let_def)
  then show ?thesis by blast
qed

theorem stream_network_reliable_witness:
  "nt_sent ex_lost = [1, 2, 3] \<and> {..<3} \<subseteq> retained ex_lost \<and> nt_delivered ex_lost = []"
proof -
  have e: "nt_sent ex_lost = [1, 2, 3]" "received ex_lost = {}" "rv_next_offset (nt_recv ex_lost) = 0"
    by (simp_all add: ex_lost_def net_start_def recv_new_with_initial_max_offset_def Let_def)
  have "(100 :: nat) \<le> u64_max" by (simp add: u64_max_def)
  from stream_network_reliable [OF this ex_lost_reach] show ?thesis using e by (simp add: numeral_3_eq_3)
qed

theorem stream_network_completes_witness:
  "\<exists>s'. rtranclp recovery_step (lose_all ex_lost) s' \<and> nt_delivered s' = [1, 2, 3] \<and> retained s' = {}"
proof -
  have "has_room (nt_recv ex_lost)" "nt_sent ex_lost = [1, 2, 3]"
    by (simp_all add: has_room_def ex_lost_def net_start_def recv_new_with_initial_max_offset_def default_mux_limits_def Let_def
        DEFAULT_MAX_RETAINED_RECEIVE_RANGES_def)
  moreover have "(100 :: nat) \<le> u64_max" by (simp add: u64_max_def)
  ultimately show ?thesis using stream_network_completes [OF _ ex_lost_reach] by metis
qed

end
