(* ===== verification/Codec_Reader.thy ===== *)
theory Codec_Reader
  imports Wire_Types
begin

text \<open>
  The reader and the writers of \<open>src/src/protocol/codec.rs\<close>: \<open>CodecError\<close>, \<open>Reader\<close> with its
  \<open>get_*\<close> methods, the \<open>put_*\<close> functions and the variable-length integers of acknowledgements.

  A decoding function takes the reader and returns an error or a value with the moved reader;
  \<open>read_bind\<close> is the \<open>?\<close> operator of the source, \<open>require\<close> an early \<open>return Err(..)\<close>. A writer
  is the list of bytes it appends. The locale \<open>byte_codec\<close> is the contract of a writer and a
  reader of the same field: what was written is read back, and what is read is what would have
  been written.
\<close>

section \<open>Errors and the reader\<close>

datatype codec_error =
    InvalidMagic
  | UnsupportedVersion u8
  | UnknownKind u8
  | UnexpectedEof
  | TrailingBytes
  | FrameTooLarge usize usize
  | CodecPayloadTooLarge usize usize
  | HostTooLong usize usize
  | TooManyAckRanges usize usize
  | TooManyPaths usize usize
  | InvalidUtf8
  | InvalidCredentialId
  | InvalidPeerStatus
  | InvalidIpTunnel
  | InvalidIpPacket
  | InvalidPathMetrics
  | InvalidEnum
  | InvalidRange
  | InvalidPort
  | LengthOverflow

record reader =
  rd_bytes :: bytes
  rd_pos :: usize
  rd_source :: bytes
  rd_absolute_start :: usize

type_synonym 'a get = "reader \<Rightarrow> codec_error + 'a \<times> reader"

definition with_source :: "bytes \<Rightarrow> usize \<Rightarrow> usize \<Rightarrow> reader" where
  "with_source source start e =
     \<lparr>rd_bytes = bslice start e source, rd_pos = 0, rd_source = source, rd_absolute_start = start\<rparr>"

definition finish :: "reader \<Rightarrow> codec_error + unit" where
  "finish r = (if rd_pos r = length (rd_bytes r) then Inr () else Inl TrailingBytes)"

definition remaining :: "reader \<Rightarrow> usize" where
  "remaining r = length (rd_bytes r) - rd_pos r"

definition read_return :: "'a \<Rightarrow> 'a get" where
  "read_return x r = Inr (x, r)"

definition read_bind :: "'a get \<Rightarrow> ('a \<Rightarrow> 'b get) \<Rightarrow> 'b get" where
  "read_bind p q r = (case p r of Inl e \<Rightarrow> Inl e | Inr (x, r') \<Rightarrow> q x r')"

definition require :: "bool \<Rightarrow> codec_error \<Rightarrow> 'a get \<Rightarrow> 'a get" where
  "require c e p r = (if c then p r else Inl e)"

definition convert :: "('a \<Rightarrow> codec_error + 'b) \<Rightarrow> 'a get \<Rightarrow> 'b get" where
  "convert f p r =
     (case p r of Inl e \<Rightarrow> Inl e
      | Inr (x, r') \<Rightarrow> (case f x of Inl e \<Rightarrow> Inl e | Inr y \<Rightarrow> Inr (y, r')))"

definition get_exact :: "usize \<Rightarrow> bytes get" where
  "get_exact len r =
     (case checked_add (rd_pos r) len of
        None \<Rightarrow> Inl LengthOverflow
      | Some e \<Rightarrow>
          if e > length (rd_bytes r) then Inl UnexpectedEof
          else Inr (bslice (rd_pos r) e (rd_bytes r), r\<lparr>rd_pos := e\<rparr>))"

definition get_u8 :: "u8 get" where
  "get_u8 = read_bind (get_exact 1) (\<lambda>b. read_return (b ! 0))"

definition get_u16 :: "u16 get" where
  "get_u16 = read_bind (get_exact 2) (\<lambda>b. read_return (be_nat b))"

definition get_u32 :: "u32 get" where
  "get_u32 = read_bind (get_exact 4) (\<lambda>b. read_return (be_nat b))"

definition get_u64 :: "u64 get" where
  "get_u64 = read_bind (get_exact 8) (\<lambda>b. read_return (be_nat b))"

definition get_array :: "nat \<Rightarrow> bytes get" where
  "get_array n = get_exact n"

definition get_bytes_u32 :: "usize \<Rightarrow> bytes get" where
  "get_bytes_u32 limit =
     read_bind get_u32 (\<lambda>len. require (len \<le> limit) (CodecPayloadTooLarge len limit)
       (\<lambda>r. let start = rd_pos r
            in read_bind (get_exact len)
                 (\<lambda>_ r'. case checked_add (rd_absolute_start r') start of
                    None \<Rightarrow> Inl LengthOverflow
                  | Some absolute_start \<Rightarrow>
                      (case checked_add absolute_start len of
                         None \<Rightarrow> Inl LengthOverflow
                       | Some absolute_end \<Rightarrow> Inr (bslice absolute_start absolute_end (rd_source r'), r'))) r))"

section \<open>Writers\<close>

definition put_u8 :: "u8 \<Rightarrow> bytes" where
  "put_u8 v = [v]"

definition put_u16 :: "u16 \<Rightarrow> bytes" where
  "put_u16 v = be_bytes 2 v"

definition put_u32 :: "u32 \<Rightarrow> bytes" where
  "put_u32 v = be_bytes 4 v"

definition put_u64 :: "u64 \<Rightarrow> bytes" where
  "put_u64 v = be_bytes 8 v"

function put_ack_varint :: "u64 \<Rightarrow> bytes" where
  "put_ack_varint v = (if v \<ge> 128 then or (of_nat v) 128 # put_ack_varint (v div 128) else [of_nat v])"
  by pat_completeness auto
termination by (relation "measure id") auto

declare put_ack_varint.simps [simp del]

text \<open>\<open>64 - leading_zeros\<close> is the number of significant bits.\<close>

definition bit_length :: "nat \<Rightarrow> nat" where
  "bit_length v = length (dropWhile Not (rev (map (bit v) [0..<64])))"

definition ack_varint_len :: "u64 \<Rightarrow> usize" where
  "ack_varint_len v = (max (bit_length v) 1 + 6) div 7"

text \<open>The \<open>for shift in (0..=63).step_by(7)\<close> loop of \<open>get_ack_varint\<close>.\<close>

function get_ack_varint_from :: "nat \<Rightarrow> u64 \<Rightarrow> u64 get" where
  "get_ack_varint_from shift v =
     (if shift > 63 then (\<lambda>r. Inl InvalidRange)
      else read_bind get_u8 (\<lambda>byte.
        require (\<not> (shift = 63 \<and> byte > 1)) InvalidRange
          (let v' = or v (push_bit shift (unat (and byte 127)) mod 2 ^ 64)
           in if and byte 128 = 0
              then require (\<not> (shift > 0 \<and> byte = 0)) InvalidRange (read_return v')
              else get_ack_varint_from (shift + 7) v')))"
  by pat_completeness auto
termination by (relation "measure (\<lambda>(shift, v). 70 - shift)") auto

declare get_ack_varint_from.simps [simp del]

definition get_ack_varint :: "u64 get" where
  "get_ack_varint = get_ack_varint_from 0 0"

section \<open>Well-formed strings\<close>

text \<open>\<open>str::from_utf8\<close>: the well-formed byte sequences of the Unicode standard.\<close>

definition cont_byte :: "byte \<Rightarrow> bool" where
  "cont_byte b \<longleftrightarrow> 0x80 \<le> b \<and> b \<le> 0xBF"

fun utf8_valid :: "bytes \<Rightarrow> bool" where
  "utf8_valid [] = True"
| "utf8_valid (a # rest) =
     (if a < 0x80 then utf8_valid rest
      else
        (case rest of
           [] \<Rightarrow> False
         | b # rest2 \<Rightarrow>
             if 0xC2 \<le> a \<and> a \<le> 0xDF then cont_byte b \<and> utf8_valid rest2
             else
               (case rest2 of
                  [] \<Rightarrow> False
                | c # rest3 \<Rightarrow>
                    if a = 0xE0 \<and> 0xA0 \<le> b \<and> b \<le> 0xBF
                       \<or> 0xE1 \<le> a \<and> a \<le> 0xEC \<and> cont_byte b
                       \<or> a = 0xED \<and> 0x80 \<le> b \<and> b \<le> 0x9F
                       \<or> 0xEE \<le> a \<and> a \<le> 0xEF \<and> cont_byte b
                    then cont_byte c \<and> utf8_valid rest3
                    else
                      (case rest3 of
                         [] \<Rightarrow> False
                       | d # rest4 \<Rightarrow>
                           (a = 0xF0 \<and> 0x90 \<le> b \<and> b \<le> 0xBF
                            \<or> 0xF1 \<le> a \<and> a \<le> 0xF3 \<and> cont_byte b
                            \<or> a = 0xF4 \<and> 0x80 \<le> b \<and> b \<le> 0x8F)
                           \<and> cont_byte c \<and> cont_byte d \<and> utf8_valid rest4))))"

definition get_string_u16 :: "usize \<Rightarrow> rust_string get" where
  "get_string_u16 limit =
     read_bind get_u16 (\<lambda>len. require (len \<le> limit) (HostTooLong len limit)
       (convert (\<lambda>b. if utf8_valid b then Inr b else Inl InvalidUtf8) (get_exact len)))"

end
