(* ===== verification/Codec_Contract.thy ===== *)
theory Codec_Contract
  imports Codec_Reader
begin

text \<open>
  The contract between the writers and the readers of the codec. \<open>yields p bs x\<close>: on every
  reader whose next bytes are \<open>bs\<close>, \<open>p\<close> returns \<open>x\<close> and moves by exactly these bytes.
  \<open>accepts p Q\<close>: whatever \<open>p\<close> returns, it has read some bytes \<open>bs\<close> with \<open>Q x bs\<close> and moved by
  exactly these. The locale \<open>byte_codec\<close> asks both of a field, with \<open>bs = put x\<close>; it is
  interpreted for every field type of the wire format.
\<close>

section \<open>Reading\<close>

definition reader_ok :: "reader \<Rightarrow> bool" where
  "reader_ok r \<longleftrightarrow>
     rd_pos r \<le> length (rd_bytes r)
     \<and> rd_absolute_start r + length (rd_bytes r) \<le> u64_max
     \<and> rd_bytes r = bslice (rd_absolute_start r) (rd_absolute_start r + length (rd_bytes r)) (rd_source r)"

definition rest :: "reader \<Rightarrow> bytes" where
  "rest r = drop (rd_pos r) (rd_bytes r)"

definition advance :: "nat \<Rightarrow> reader \<Rightarrow> reader" where
  "advance n r = r\<lparr>rd_pos := rd_pos r + n\<rparr>"

definition yields :: "'a get \<Rightarrow> bytes \<Rightarrow> 'a \<Rightarrow> bool" where
  "yields p bs x \<longleftrightarrow>
     (\<forall>r suf. reader_ok r \<longrightarrow> rest r = bs @ suf \<longrightarrow> p r = Inr (x, advance (length bs) r))"

definition accepts :: "'a get \<Rightarrow> ('a \<Rightarrow> bytes \<Rightarrow> bool) \<Rightarrow> bool" where
  "accepts p Q \<longleftrightarrow>
     (\<forall>r x r'. reader_ok r \<longrightarrow> p r = Inr (x, r')
        \<longrightarrow> (\<exists>bs suf. rest r = bs @ suf \<and> r' = advance (length bs) r \<and> Q x bs))"

lemma advance_simps [simp]:
  "advance 0 r = r" "advance m (advance n r) = advance (n + m) r"
  "rd_pos (advance n r) = rd_pos r + n" "rd_bytes (advance n r) = rd_bytes r"
  "rd_source (advance n r) = rd_source r" "rd_absolute_start (advance n r) = rd_absolute_start r"
  by (simp_all add: advance_def)

lemma rest_length: "reader_ok r \<Longrightarrow> length (rest r) = length (rd_bytes r) - rd_pos r"
  by (simp add: rest_def)

lemma rest_advance: "rest r = bs @ suf \<Longrightarrow> rest (advance (length bs) r) = suf"
  by (metis add.commute append_eq_conv_conj drop_drop rest_def advance_simps(3,4))

lemma reader_ok_advance: "reader_ok r \<Longrightarrow> rest r = bs @ suf \<Longrightarrow> reader_ok (advance (length bs) r)"
  using rest_length [of r] unfolding reader_ok_def by fastforce

section \<open>Composition\<close>

lemma yields_return [intro]: "yields (read_return x) [] x"
  by (simp add: yields_def read_return_def)

lemma yields_bind:
  assumes "yields p b1 x" and "yields (q x) b2 y"
  shows "yields (read_bind p q) (b1 @ b2) y"
  unfolding yields_def
proof (intro allI impI)
  fix r suf assume r: "reader_ok r" "rest r = (b1 @ b2) @ suf"
  then have "p r = Inr (x, advance (length b1) r)" using assms(1) by (simp add: yields_def)
  moreover have "q x (advance (length b1) r) = Inr (y, advance (length b2) (advance (length b1) r))"
    using assms(2) r rest_advance [of r b1 "b2 @ suf"] reader_ok_advance [of r b1 "b2 @ suf"]
    unfolding yields_def by simp
  ultimately show "read_bind p q r = Inr (y, advance (length (b1 @ b2)) r)"
    by (simp add: read_bind_def)
qed

lemma yields_last:
  assumes "yields p bs x"
  shows "yields (read_bind p (\<lambda>x. read_return (F x))) bs (F x)"
  using yields_bind [OF assms, of "\<lambda>x. read_return (F x)" "[]" "F x", OF yields_return] by simp

lemma yields_last_require:
  assumes "yields p bs x" and "c x"
  shows "yields (read_bind p (\<lambda>x. require (c x) (e x) (read_return (F x)))) bs (F x)"
  using yields_bind [OF assms(1), of "\<lambda>x. require (c x) (e x) (read_return (F x))" "[]" "F x"] assms(2)
  by (simp add: yields_def require_def read_return_def)

lemma yields_require: "c \<Longrightarrow> yields p bs x \<Longrightarrow> yields (require c e p) bs x"
  by (simp add: yields_def require_def)

lemma yields_convert: "yields p bs x \<Longrightarrow> f x = Inr y \<Longrightarrow> yields (convert f p) bs y"
  by (simp add: yields_def convert_def)

lemmas yields_intros = yields_bind yields_last yields_last_require yields_require

lemma accepts_return: "Q x [] \<Longrightarrow> accepts (read_return x) Q"
  unfolding accepts_def read_return_def
  by (metis (no_types, lifting) Inr_inject Pair_inject advance_simps(1) append_Nil list.size(3))

lemma accepts_bind:
  assumes p: "accepts p R" and q: "\<And>x b. R x b \<Longrightarrow> accepts (q x) (\<lambda>y bs. Q y (b @ bs))"
  shows "accepts (read_bind p q) Q"
  unfolding accepts_def
proof (intro allI impI)
  fix r y r' assume r: "reader_ok r" and run: "read_bind p q r = Inr (y, r')"
  obtain x r1 where 1: "p r = Inr (x, r1)" "q x r1 = Inr (y, r')"
    using run by (auto simp: read_bind_def split: sum.splits)
  obtain b suf where b: "rest r = b @ suf" "r1 = advance (length b) r" "R x b"
    using p r 1(1) unfolding accepts_def by blast
  have "reader_ok r1" "rest r1 = suf"
    using reader_ok_advance [OF r b(1)] rest_advance [OF b(1)] b(2) by simp_all
  then obtain bs suf' where "suf = bs @ suf'" "r' = advance (length bs) r1" "Q y (b @ bs)"
    using q [OF b(3)] 1(2) unfolding accepts_def by blast
  then have "rest r = (b @ bs) @ suf' \<and> r' = advance (length (b @ bs)) r \<and> Q y (b @ bs)"
    using b by simp
  then show "\<exists>bs suf. rest r = bs @ suf \<and> r' = advance (length bs) r \<and> Q y bs" by blast
qed

lemma accepts_require: "(c \<Longrightarrow> accepts p Q) \<Longrightarrow> accepts (require c e p) Q"
  by (auto simp: accepts_def require_def split: if_splits)

lemma accepts_convert:
  assumes "accepts p (\<lambda>x b. \<forall>y. f x = Inr y \<longrightarrow> Q y b)"
  shows "accepts (convert f p) Q"
  unfolding accepts_def
proof (intro allI impI)
  fix r y r' assume r: "reader_ok r" and run: "convert f p r = Inr (y, r')"
  then obtain x where "p r = Inr (x, r')" "f x = Inr y"
    by (auto simp: convert_def split: sum.splits)
  then show "\<exists>bs suf. rest r = bs @ suf \<and> r' = advance (length bs) r \<and> Q y bs"
    using assms r unfolding accepts_def by blast
qed

lemma accepts_weaken: "accepts p R \<Longrightarrow> (\<And>x b. R x b \<Longrightarrow> Q x b) \<Longrightarrow> accepts p Q"
  unfolding accepts_def by blast

lemma accepts_fail: "(\<And>r. p r = Inl e) \<Longrightarrow> accepts p Q"
  by (simp add: accepts_def)

section \<open>The contract of a field\<close>

fun get_times :: "nat \<Rightarrow> 'a get \<Rightarrow> 'a list get" where
  "get_times 0 p = read_return []"
| "get_times (Suc n) p = read_bind p (\<lambda>x. read_bind (get_times n p) (\<lambda>xs. read_return (x # xs)))"

locale byte_codec =
  fixes put :: "'a \<Rightarrow> bytes" and get :: "'a get" and good :: "'a \<Rightarrow> bool"
  assumes get_put: "good x \<Longrightarrow> yields get (put x) x"
    and put_get: "accepts get (\<lambda>x bs. good x \<and> bs = put x)"
begin

lemma get_times_put: "list_all good xs \<Longrightarrow> yields (get_times (length xs) get) (concat (map put xs)) xs"
  by (induction xs) (auto intro!: yields_intros yields_return get_put)

lemma put_get_times: "accepts (get_times n get) (\<lambda>xs bs. length xs = n \<and> list_all good xs \<and> bs = concat (map put xs))"
proof (induction n)
  case 0
  show ?case unfolding get_times.simps by (rule accepts_return) simp
next
  case (Suc n)
  show ?case
    unfolding get_times.simps
    by (rule accepts_bind [OF put_get], rule accepts_bind [OF Suc.IH], rule accepts_return) simp
qed

text \<open>A written field determines its value, also in front of other bytes.\<close>

lemma put_prefix_free:
  assumes "good x" "good y" "put x @ a = put y @ b" "length (put x @ a) \<le> u64_max"
  shows "x = y \<and> a = b"
proof -
  define r where "r = \<lparr>rd_bytes = put x @ a, rd_pos = 0, rd_source = put x @ a, rd_absolute_start = 0\<rparr>"
  have r: "reader_ok r" "rest r = put x @ a" "rest r = put y @ b"
    using assms(3,4) bslice_all [of "put x @ a"] by (simp_all add: r_def reader_ok_def rest_def)
  then have "get r = Inr (x, advance (length (put x)) r)" "get r = Inr (y, advance (length (put y)) r)"
    using get_put [OF assms(1)] get_put [OF assms(2)] unfolding yields_def by blast+
  then have "x = y" by simp
  then show ?thesis using assms(3) by simp
qed

end

section \<open>The fields of fixed width\<close>

lemma get_exact_yields: "length bs = n \<Longrightarrow> yields (get_exact n) bs bs"
  unfolding yields_def
proof (intro allI impI)
  fix r suf assume n: "length bs = n" and r: "reader_ok r" "rest r = bs @ suf"
  have len: "rd_pos r + n \<le> length (rd_bytes r)"
    using rest_length [OF r(1)] r n unfolding reader_ok_def by fastforce
  then have "rd_pos r + n \<le> u64_max" using r(1) by (simp add: reader_ok_def)
  moreover have "bslice (rd_pos r) (rd_pos r + n) (rd_bytes r) = bs"
    using r(2) n by (simp add: bslice_def rest_def)
  ultimately show "get_exact n r = Inr (bs, advance (length bs) r)"
    using len n by (simp add: get_exact_def checked_add_def advance_def)
qed

lemma get_exact_accepts: "accepts (get_exact n) (\<lambda>x bs. length x = n \<and> bs = x)"
  unfolding accepts_def
proof (intro allI impI)
  fix r x r' assume r: "reader_ok r" and run: "get_exact n r = Inr (x, r')"
  then have len: "rd_pos r + n \<le> length (rd_bytes r)"
    and x: "x = bslice (rd_pos r) (rd_pos r + n) (rd_bytes r)" and r': "r' = advance n r"
    by (auto simp: get_exact_def checked_add_def advance_def split: option.splits if_splits)
  have lx: "length x = n" using x len by simp
  have "rest r = x @ drop n (rest r)" using x by (simp add: bslice_def rest_def del: drop_drop)
  then show "\<exists>bs suf. rest r = bs @ suf \<and> r' = advance (length bs) r \<and> length x = n \<and> bs = x"
    using lx r' by blast
qed

lemma get_be_yields: "n < 256 ^ k \<Longrightarrow> yields (read_bind (get_exact k) (\<lambda>b. read_return (be_nat b))) (be_bytes k n) n"
  using yields_last [OF get_exact_yields [of "be_bytes k n" k], of be_nat] by (simp add: be_nat_be_bytes)

lemma get_be_accepts:
  "accepts (read_bind (get_exact k) (\<lambda>b. read_return (be_nat b))) (\<lambda>n bs. n < 256 ^ k \<and> bs = be_bytes k n)"
  by (rule accepts_bind [OF get_exact_accepts], rule accepts_return) (auto simp: be_nat_less be_bytes_be_nat)

lemma get_u8_yields: "yields get_u8 [b] b"
  unfolding get_u8_def using yields_last [OF get_exact_yields [of "[b]" 1], of "\<lambda>b. b ! 0"] by simp

lemma get_u8_accepts: "accepts get_u8 (\<lambda>b bs. bs = [b])"
  unfolding get_u8_def
  by (rule accepts_bind [OF get_exact_accepts], rule accepts_return) (auto simp: length_Suc_conv)

interpretation u8: byte_codec put_u8 get_u8 "\<lambda>_. True"
  by unfold_locales (auto simp: put_u8_def get_u8_yields intro: accepts_weaken [OF get_u8_accepts])

interpretation u16: byte_codec put_u16 get_u16 "fits 16"
  using get_be_yields [of _ 2] get_be_accepts [of 2]
  by unfold_locales (simp_all add: put_u16_def get_u16_def fits_def)

interpretation u32: byte_codec put_u32 get_u32 "fits 32"
  using get_be_yields [of _ 4] get_be_accepts [of 4]
  by unfold_locales (simp_all add: put_u32_def get_u32_def fits_def)

interpretation u64: byte_codec put_u64 get_u64 "fits 64"
  using get_be_yields [of _ 8] get_be_accepts [of 8]
  by unfold_locales (simp_all add: put_u64_def get_u64_def fits_def)

interpretation array: byte_codec id "get_array n" "\<lambda>bs. length bs = n" for n
  by unfold_locales (auto simp: get_array_def intro: get_exact_yields accepts_weaken [OF get_exact_accepts])

section \<open>Byte strings with a length\<close>

definition put_bytes :: "bytes \<Rightarrow> bytes" where
  "put_bytes bs = put_u32 (length bs) @ bs"

lemma source_slice:
  assumes "reader_ok r" "rd_pos r + n \<le> length (rd_bytes r)"
  shows "bslice (rd_absolute_start r + rd_pos r) (rd_absolute_start r + rd_pos r + n) (rd_source r)
       = bslice (rd_pos r) (rd_pos r + n) (rd_bytes r)"
proof -
  have "rd_bytes r = take (length (rd_bytes r)) (drop (rd_absolute_start r) (rd_source r))"
    using assms(1) by (simp add: reader_ok_def bslice_def)
  then have "take n (drop (rd_pos r) (rd_bytes r))
      = take n (drop (rd_pos r) (take (length (rd_bytes r)) (drop (rd_absolute_start r) (rd_source r))))" by simp
  also have "\<dots> = take n (drop (rd_absolute_start r + rd_pos r) (rd_source r))"
    using assms(2) by (simp add: drop_take add.commute min_def)
  finally show ?thesis by (simp add: bslice_def)
qed

definition take_source :: "usize \<Rightarrow> bytes get" where
  "take_source len r =
     (let start = rd_pos r
      in read_bind (get_exact len)
           (\<lambda>_ r'. case checked_add (rd_absolute_start r') start of
              None \<Rightarrow> Inl LengthOverflow
            | Some absolute_start \<Rightarrow>
                (case checked_add absolute_start len of
                   None \<Rightarrow> Inl LengthOverflow
                 | Some absolute_end \<Rightarrow> Inr (bslice absolute_start absolute_end (rd_source r'), r'))) r)"

lemma take_source_run: "reader_ok r \<Longrightarrow> take_source n r = get_exact n r"
proof -
  assume r: "reader_ok r"
  show ?thesis
  proof (cases "get_exact n r")
    case (Inl e)
    then show ?thesis by (simp add: take_source_def read_bind_def)
  next
    case (Inr xr)
    then have len: "rd_pos r + n \<le> length (rd_bytes r)"
      and xr: "xr = (bslice (rd_pos r) (rd_pos r + n) (rd_bytes r), advance n r)"
      by (auto simp: get_exact_def checked_add_def advance_def split: option.splits if_splits)
    have "rd_absolute_start r + rd_pos r + n \<le> u64_max" using r len by (simp add: reader_ok_def)
    then show ?thesis
      using Inr xr source_slice [OF r len]
      by (simp add: take_source_def read_bind_def checked_add_def Let_def)
  qed
qed

lemma get_bytes_u32_alt:
  "get_bytes_u32 limit = read_bind get_u32 (\<lambda>len. require (len \<le> limit) (CodecPayloadTooLarge len limit) (take_source len))"
  by (simp add: get_bytes_u32_def take_source_def [abs_def] fun_eq_iff)

lemma take_source_yields: "length bs = n \<Longrightarrow> yields (take_source n) bs bs"
  using get_exact_yields [of bs n] by (simp add: yields_def take_source_run)

lemma take_source_accepts: "accepts (take_source n) (\<lambda>x bs. length x = n \<and> bs = x)"
  using get_exact_accepts [of n] unfolding accepts_def using take_source_run by metis

interpretation byte_string: byte_codec put_bytes "get_bytes_u32 limit" "\<lambda>bs. fits 32 (length bs) \<and> length bs \<le> limit"
  for limit
proof unfold_locales
  fix bs :: bytes
  show "yields (get_bytes_u32 limit) (put_bytes bs) bs" if "fits 32 (length bs) \<and> length bs \<le> limit"
    unfolding get_bytes_u32_alt put_bytes_def using that
    by (intro yields_bind [OF u32.get_put] yields_require take_source_yields) auto
next
  show "accepts (get_bytes_u32 limit) (\<lambda>x bs. (fits 32 (length x) \<and> length x \<le> limit) \<and> bs = put_bytes x)"
    unfolding get_bytes_u32_alt
    by (rule accepts_bind [OF u32.put_get], rule accepts_require, rule accepts_weaken [OF take_source_accepts])
      (auto simp: put_bytes_def)
qed

definition put_string :: "rust_string \<Rightarrow> bytes" where
  "put_string s = put_u16 (length s) @ s"

interpretation utf8_string: byte_codec put_string "get_string_u16 limit"
  "\<lambda>s. fits 16 (length s) \<and> length s \<le> limit \<and> utf8_valid s" for limit
proof unfold_locales
  fix s :: rust_string
  show "yields (get_string_u16 limit) (put_string s) s" if "fits 16 (length s) \<and> length s \<le> limit \<and> utf8_valid s"
    unfolding get_string_u16_def put_string_def using that
    by (intro yields_bind [OF u16.get_put] yields_require yields_convert [OF get_exact_yields]) auto
next
  show "accepts (get_string_u16 limit)
          (\<lambda>x bs. (fits 16 (length x) \<and> length x \<le> limit \<and> utf8_valid x) \<and> bs = put_string x)"
    unfolding get_string_u16_def
    by (rule accepts_bind [OF u16.put_get], rule accepts_require, rule accepts_convert,
        rule accepts_weaken [OF get_exact_accepts]) (auto simp: put_string_def split: if_splits)
qed

section \<open>Variable-length integers\<close>

lemma byte_low7: "unat (and (b :: byte) 127) = unat b mod 128"
proof -
  have "(127 :: byte) = mask 7" by (simp add: mask_eq_exp_minus_1)
  then have "and b 127 = take_bit 7 b" by (simp only: take_bit_eq_mask)
  then have "unat (and b 127) = take_bit 7 (unat b)" by (simp only: unsigned_take_bit_eq)
  then show ?thesis by (simp add: take_bit_eq_mod)
qed

lemma byte_high: "and (b :: byte) 128 = 0 \<longleftrightarrow> unat b < 128"
proof -
  have "and b (2 ^ 7) = 0 \<longleftrightarrow> \<not> bit b 7" by (rule and_exp_eq_0_iff_not_bit)
  moreover have "bit b 7 \<longleftrightarrow> bit (unat b) 7" by (simp add: bit_unsigned_iff)
  moreover have "bit (unat b) 7 \<longleftrightarrow> odd (unat b div 128)" by (simp add: bit_iff_odd)
  moreover have "unat b div 128 = 0 \<or> unat b div 128 = 1" using unat_byte_less [of b] by linarith
  moreover have "unat b < 128 \<longleftrightarrow> unat b div 128 = 0" by linarith
  ultimately show ?thesis by auto
qed

lemma mod_128_high: "128 \<le> x \<Longrightarrow> x < 256 \<Longrightarrow> x mod 128 + 128 = x" for x :: nat
  by (simp add: le_mod_geq)

lemma or_high: "unat (or (of_nat n) 128 :: byte) = n mod 128 + 128"
proof -
  let ?b = "of_nat n :: byte" and ?c = "or (of_nat n) 128 :: byte"
  have "and ?c 127 = and ?b 127" by (simp add: bit.conj_disj_distrib2)
  then have low: "unat ?c mod 128 = n mod 128"
    using byte_low7 [of ?c] byte_low7 [of ?b] by (simp add: unat_of_nat_byte mod_mod_cancel)
  have "and ?c 128 = or (and ?b 128) 128" by (simp add: bit.conj_disj_distrib2)
  then have "and ?c 128 \<noteq> 0" by (simp add: or_eq_0_iff)
  then have "128 \<le> unat ?c" unfolding byte_high by linarith
  moreover have "unat ?c < 256" by simp
  ultimately show ?thesis using low mod_128_high by metis
qed

lemma or_shifted: "v < 2 ^ s \<Longrightarrow> or v (push_bit s m) = v + m * 2 ^ s" for v m :: nat
proof -
  assume v: "v < 2 ^ s"
  then have v': "take_bit s v = v" by (simp add: take_bit_nat_eq_self_iff)
  have "\<not> bit v n \<or> \<not> bit (push_bit s m) n" for n
    by (subst v' [symmetric]) (auto simp: bit_take_bit_iff bit_push_bit_iff)
  then show ?thesis using disjunctive_add [of v "push_bit s m"] by (simp add: push_bit_eq_mult)
qed

text \<open>The state of the loop after \<open>shift\<close> bits: the low bits read so far.\<close>

definition varint_state :: "nat \<Rightarrow> u64 \<Rightarrow> bool" where
  "varint_state shift v \<longleftrightarrow> 7 dvd shift \<and> v < 2 ^ shift"

lemma varint_step:
  assumes "varint_state shift v" "m < 128" "m * 2 ^ shift < 2 ^ 64"
  shows "or v (push_bit shift m mod 2 ^ 64) = v + m * 2 ^ shift" "varint_state (shift + 7) (v + m * 2 ^ shift)"
proof -
  have v: "v < 2 ^ shift" using assms(1) by (simp add: varint_state_def)
  have "push_bit shift m mod 2 ^ 64 = push_bit shift m"
    using assms(3) by (simp add: push_bit_eq_mult)
  then show "or v (push_bit shift m mod 2 ^ 64) = v + m * 2 ^ shift" using or_shifted [OF v] by simp
  have "m * 2 ^ shift \<le> 127 * 2 ^ shift" using assms(2) by (intro mult_right_mono) auto
  moreover have "(2 :: nat) ^ (shift + 7) = 2 ^ shift + 127 * 2 ^ shift" by (simp add: power_add)
  ultimately have "v + m * 2 ^ shift < 2 ^ (shift + 7)" using v by linarith
  then show "varint_state (shift + 7) (v + m * 2 ^ shift)" using assms(1) by (simp add: varint_state_def)
qed

lemma get_varint_from_yields:
  assumes "varint_state shift v" "w * 2 ^ shift < 2 ^ 64" "shift = 0 \<or> w \<noteq> 0" "shift \<le> 63"
  shows "yields (get_ack_varint_from shift v) (put_ack_varint w) (v + w * 2 ^ shift)"
  using assms
proof (induction w arbitrary: shift v rule: put_ack_varint.induct)
  case (1 w)
  show ?case
  proof (cases "w \<ge> 128")
    case True
    define m where "m = w mod 128"
    have "2 ^ (7 + shift) \<le> w * 2 ^ shift" using True by (simp add: power_add)
    then have "(2 :: nat) ^ (7 + shift) < 2 ^ 64" using "1.prems"(2) by linarith
    then have "7 + shift < 64" by (rule power_less_imp_less_exp [rotated]) simp
    moreover have "7 dvd shift" using "1.prems"(1) by (simp add: varint_state_def)
    ultimately have shift: "shift \<le> 56" "shift \<noteq> 63" by auto
    have mw: "m * 2 ^ shift \<le> w * 2 ^ shift" by (simp add: m_def)
    have m: "m < 128" by (simp add: m_def)
    have m': "m * 2 ^ shift < 2 ^ 64" using mw "1.prems"(2) by linarith
    note step = varint_step [OF "1.prems"(1) m m']
    have eq: "w div 128 * 2 ^ (shift + 7) + m * 2 ^ shift = w * 2 ^ shift"
    proof -
      have "w div 128 * 2 ^ (shift + 7) + m * 2 ^ shift = (w div 128 * 128 + m) * 2 ^ shift"
        by (simp add: power_add algebra_simps)
      then show ?thesis by (simp add: m_def)
    qed
    have "yields (get_ack_varint_from (shift + 7) (v + m * 2 ^ shift)) (put_ack_varint (w div 128))
        (v + m * 2 ^ shift + w div 128 * 2 ^ (shift + 7))"
      using "1.IH" [OF True step(2)] eq "1.prems"(2) True shift by simp
    then have rec: "yields (get_ack_varint_from (shift + 7) (v + m * 2 ^ shift)) (put_ack_varint (w div 128)) (v + w * 2 ^ shift)"
      using eq by (simp add: ac_simps)
    let ?b = "or (of_nat w) 128 :: byte"
    have b: "unat (and ?b 127) = m" "and ?b 128 \<noteq> 0"
      unfolding byte_low7 byte_high or_high by (simp_all add: m_def)
    have "yields (read_bind get_u8 (\<lambda>byte.
        require (\<not> (shift = 63 \<and> byte > 1)) InvalidRange
          (let v' = or v (push_bit shift (unat (and byte 127)) mod 2 ^ 64)
           in if and byte 128 = 0
              then require (\<not> (shift > 0 \<and> byte = 0)) InvalidRange (read_return v')
              else get_ack_varint_from (shift + 7) v'))) ([?b] @ put_ack_varint (w div 128)) (v + w * 2 ^ shift)"
      using shift(2) b step(1) rec
      by (intro yields_bind [OF get_u8_yields] yields_require) (simp_all add: Let_def)
    then show ?thesis
      using True shift by (simp add: put_ack_varint.simps [of w] get_ack_varint_from.simps [of shift])
  next
    case False
    then have w: "w < 128" by simp
    let ?b = "of_nat w :: byte"
    have u: "unat ?b = w" using w by (simp add: unat_of_nat_byte)
    have b: "unat (and ?b 127) = w" "and ?b 128 = 0"
      unfolding byte_low7 byte_high u using w by simp_all
    have one: "\<not> (shift = 63 \<and> ?b > 1)"
    proof
      assume "shift = 63 \<and> ?b > 1"
      then have "1 < w" "w * 2 ^ 63 < 2 ^ 64" using "1.prems"(2) u by (auto simp: word_less_nat_alt)
      then show False by simp
    qed
    have zero: "\<not> (shift > 0 \<and> ?b = 0)" using "1.prems"(3) u by auto
    note step = varint_step [OF "1.prems"(1) w "1.prems"(2)]
    have "yields (read_bind get_u8 (\<lambda>byte.
        require (\<not> (shift = 63 \<and> byte > 1)) InvalidRange
          (let v' = or v (push_bit shift (unat (and byte 127)) mod 2 ^ 64)
           in if and byte 128 = 0
              then require (\<not> (shift > 0 \<and> byte = 0)) InvalidRange (read_return v')
              else get_ack_varint_from (shift + 7) v'))) ([?b] @ []) (v + w * 2 ^ shift)"
      using one zero b step(1)
      by (intro yields_bind [OF get_u8_yields] yields_require) (simp_all add: Let_def yields_require yields_return)
    then show ?thesis
      using False "1.prems"(4) by (simp add: put_ack_varint.simps [of w] get_ack_varint_from.simps [of shift])
  qed
qed

definition varint_read :: "nat \<Rightarrow> u64 \<Rightarrow> u64 \<Rightarrow> bytes \<Rightarrow> bool" where
  "varint_read shift v x bs \<longleftrightarrow>
     (\<exists>w. bs = put_ack_varint w \<and> x = v + w * 2 ^ shift \<and> w * 2 ^ shift < 2 ^ 64 \<and> (shift = 0 \<or> w \<noteq> 0))"

lemma varint_read_last:
  assumes "unat byte < 128" "\<not> (shift > 0 \<and> byte = 0)" "unat byte * 2 ^ shift < 2 ^ 64"
  shows "varint_read shift v (v + unat byte * 2 ^ shift) [byte]"
proof -
  have "put_ack_varint (unat byte) = [byte]" using assms(1) by (simp add: put_ack_varint.simps)
  moreover have "shift = 0 \<or> unat byte \<noteq> 0" using assms(2) by (simp add: unat_eq_0)
  ultimately show ?thesis using assms(3) unfolding varint_read_def by metis
qed

lemma varint_read_more:
  assumes b: "128 \<le> unat byte" and m: "m = unat byte mod 128" and s: "shift \<le> 56"
    and rec: "varint_read (shift + 7) (v + m * 2 ^ shift) x bs"
  shows "varint_read shift v x (byte # bs)"
proof -
  obtain w where w: "bs = put_ack_varint w" "x = v + m * 2 ^ shift + w * 2 ^ (shift + 7)"
      "w * 2 ^ (shift + 7) < 2 ^ 64" "w \<noteq> 0"
    using rec unfolding varint_read_def by auto
  define n where "n = m + 128 * w"
  have mb: "m < 128" using m by simp
  have n: "n div 128 = w" "n mod 128 = m" "128 \<le> n" using mb w(4) by (auto simp: n_def)
  have "m + 128 = unat byte" unfolding m by (rule mod_128_high [OF b unat_byte_less])
  then have "or (of_nat n) 128 = byte" using or_high [of n] n(2) by (simp add: word_unat_eq_iff)
  then have put: "put_ack_varint n = byte # bs" using n w(1) by (simp add: put_ack_varint.simps [of n])
  have val: "n * 2 ^ shift = m * 2 ^ shift + w * 2 ^ (shift + 7)" by (simp add: n_def power_add algebra_simps)
  have "w * 2 ^ (shift + 7) < 2 ^ (64 - (shift + 7)) * 2 ^ (shift + 7)"
    using w(3) s by (simp flip: power_add)
  then have "w + 1 \<le> 2 ^ (64 - (shift + 7))" by simp
  then have "(w + 1) * 2 ^ (shift + 7) \<le> 2 ^ (64 - (shift + 7)) * 2 ^ (shift + 7)" by (rule mult_right_mono) simp
  moreover have "(2 :: nat) ^ (64 - (shift + 7)) * 2 ^ (shift + 7) = 2 ^ 64" using s by (simp flip: power_add)
  ultimately have "w * 2 ^ (shift + 7) + 2 ^ (shift + 7) \<le> 2 ^ 64" by simp
  moreover have "m * 2 ^ shift < 128 * 2 ^ shift" using mb by simp
  moreover have "(2 :: nat) ^ (shift + 7) = 128 * 2 ^ shift" by (simp add: power_add)
  ultimately have "n * 2 ^ shift < 2 ^ 64" unfolding val by linarith
  then show ?thesis unfolding varint_read_def using put val w(2) n(3)
    by (intro exI [of _ n]) auto
qed

lemma get_varint_from_accepts: "varint_state shift v \<Longrightarrow> accepts (get_ack_varint_from shift v) (varint_read shift v)"
proof (induction shift v rule: get_ack_varint_from.induct)
  case (1 shift v)
  show ?case
  proof (cases "shift > 63")
    case True
    then show ?thesis by (intro accepts_fail) (simp add: get_ack_varint_from.simps)
  next
    case False
    have step: "accepts (require (\<not> (shift = 63 \<and> byte > 1)) InvalidRange
          (let v' = or v (push_bit shift (unat (and byte 127)) mod 2 ^ 64)
           in if and byte 128 = 0
              then require (\<not> (shift > 0 \<and> byte = 0)) InvalidRange (read_return v')
              else get_ack_varint_from (shift + 7) v')) (\<lambda>x bs. varint_read shift v x ([byte] @ bs))" for byte
    proof (rule accepts_require)
      assume c: "\<not> (shift = 63 \<and> byte > 1)"
      define m where "m = unat (and byte 127)"
      have m: "m = unat byte mod 128" "m < 128" by (simp_all add: m_def byte_low7)
      have small: "shift \<le> 56 \<or> shift = 63 \<and> unat byte \<le> 1"
      proof -
        obtain k where "shift = 7 * k" using "1.prems" by (auto simp: varint_state_def)
        then show ?thesis using False c by (auto simp: word_less_nat_alt)
      qed
      have fit: "m * 2 ^ shift < 2 ^ 64"
      proof (cases "shift \<le> 56")
        case True
        then have "m * 2 ^ shift \<le> 127 * 2 ^ 56" using m(2) by (intro mult_mono power_increasing) auto
        then show ?thesis by simp
      next
        case shift: False
        then have "m \<le> 1" "shift = 63" using small m(1) by auto
        then show ?thesis by simp
      qed
      note st = varint_step [OF "1.prems" m(2) fit]
      show "accepts (let v' = or v (push_bit shift (unat (and byte 127)) mod 2 ^ 64)
           in if and byte 128 = 0
              then require (\<not> (shift > 0 \<and> byte = 0)) InvalidRange (read_return v')
              else get_ack_varint_from (shift + 7) v') (\<lambda>x bs. varint_read shift v x ([byte] @ bs))"
      proof (cases "unat byte < 128")
        case True
        then have "m = unat byte" using m(1) by simp
        then show ?thesis
          using True fit varint_read_last [OF True, of shift v] st(1)
          by (auto simp: Let_def m_def [symmetric] byte_high intro!: accepts_require accepts_return)
      next
        case b: False
        then have s: "shift \<le> 56" using small by auto
        have "and byte 128 \<noteq> 0" using b by (simp add: byte_high)
        then have "accepts (get_ack_varint_from (shift + 7) (v + m * 2 ^ shift)) (varint_read (shift + 7) (v + m * 2 ^ shift))"
          using "1.IH" [OF False _ _ st(2), of byte] st by (simp add: m_def)
        then have "accepts (get_ack_varint_from (shift + 7) (v + m * 2 ^ shift)) (\<lambda>x bs. varint_read shift v x ([byte] @ bs))"
          by (rule accepts_weaken) (use b m(1) s varint_read_more in auto)
        then show ?thesis using \<open>and byte 128 \<noteq> 0\<close> st(1) by (simp add: Let_def m_def)
      qed
    qed
    have "accepts (read_bind get_u8 (\<lambda>byte. require (\<not> (shift = 63 \<and> byte > 1)) InvalidRange
          (let v' = or v (push_bit shift (unat (and byte 127)) mod 2 ^ 64)
           in if and byte 128 = 0
              then require (\<not> (shift > 0 \<and> byte = 0)) InvalidRange (read_return v')
              else get_ack_varint_from (shift + 7) v'))) (varint_read shift v)"
      using step by (intro accepts_bind [OF get_u8_accepts]) simp
    then show ?thesis using False by (simp add: get_ack_varint_from.simps [of shift])
  qed
qed

interpretation varint: byte_codec put_ack_varint get_ack_varint "fits 64"
proof unfold_locales
  fix x :: u64
  show "yields get_ack_varint (put_ack_varint x) x" if "fits 64 x"
    using get_varint_from_yields [of 0 0 x] that by (simp add: get_ack_varint_def varint_state_def fits_def)
next
  show "accepts get_ack_varint (\<lambda>x bs. fits 64 x \<and> bs = put_ack_varint x)"
    unfolding get_ack_varint_def
    by (rule accepts_weaken [OF get_varint_from_accepts]) (auto simp: varint_state_def varint_read_def fits_def)
qed

lemma put_lengths [simp]:
  "length (put_u8 b) = 1" "length (put_u16 n) = 2" "length (put_u32 n) = 4" "length (put_u64 n) = 8"
  by (simp_all add: put_u8_def put_u16_def put_u32_def put_u64_def)

text \<open>\<open>ack_varint_len\<close> is the length of the encoding.\<close>

lemma bit_length_le: "v < 2 ^ n \<Longrightarrow> length (dropWhile Not (rev (map (bit v) [0..<n]))) \<le> m \<longleftrightarrow> v < 2 ^ m" for v :: nat
proof (induction n)
  case 0
  then show ?case by simp
next
  case (Suc n)
  show ?case
  proof (cases "bit v n")
    case True
    then have "2 ^ n \<le> v" by (metis bit_iff_odd div_less not_le even_zero)
    moreover have "v < 2 ^ m" if "Suc n \<le> m"
      using Suc.prems power_increasing [OF that, of "2 :: nat"] by linarith
    moreover have "Suc n \<le> m" if "v < 2 ^ m"
    proof -
      have "(2 :: nat) ^ n < 2 ^ m" using \<open>2 ^ n \<le> v\<close> that by linarith
      then show ?thesis by simp
    qed
    ultimately show ?thesis using True by auto
  next
    case False
    then have "v < 2 ^ n"
    proof -
      have "v div 2 ^ n < 2" using Suc.prems by (simp add: less_mult_imp_div_less)
      moreover have "even (v div 2 ^ n)" using False by (simp add: bit_iff_odd)
      ultimately have "v div 2 ^ n = 0" by (cases "v div 2 ^ n = 1") auto
      then show ?thesis by (simp add: div_eq_0_iff)
    qed
    then show ?thesis using Suc.IH False by simp
  qed
qed

lemma put_ack_varint_le: "0 < k \<Longrightarrow> length (put_ack_varint v) \<le> k \<longleftrightarrow> v < 2 ^ (7 * k)"
proof (induction v arbitrary: k rule: put_ack_varint.induct)
  case (1 v)
  show ?case
  proof (cases "v \<ge> 128")
    case True
    obtain j where k: "k = Suc j" using "1.prems" by (cases k) auto
    show ?thesis
    proof (cases j)
      case 0
      then show ?thesis using True k by (simp add: put_ack_varint.simps [of v] put_ack_varint.simps [of "v div 128"])
    next
      case (Suc i)
      have "v div 128 < 2 ^ (7 * j) \<longleftrightarrow> v < 2 ^ (7 * k)"
        using k by (simp add: div_less_iff_less_mult power_add mult.commute)
      then show ?thesis using "1.IH" [OF True, of j] True k Suc by (simp add: put_ack_varint.simps [of v])
    qed
  next
    case False
    have "(2 :: nat) ^ 7 \<le> 2 ^ (7 * k)" using "1.prems" by (intro power_increasing) auto
    then have "v < 2 ^ (7 * k)" using False by simp
    then show ?thesis using False "1.prems" by (simp add: put_ack_varint.simps [of v])
  qed
qed

lemma ack_varint_len_exact:
  assumes "fits 64 v"
  shows "ack_varint_len v = length (put_ack_varint v)"
proof -
  have le: "ack_varint_len v \<le> k \<longleftrightarrow> length (put_ack_varint v) \<le> k" if "0 < k" for k
  proof -
    have "ack_varint_len v \<le> k \<longleftrightarrow> max (bit_length v) 1 \<le> 7 * k"
      unfolding ack_varint_len_def by linarith
    also have "\<dots> \<longleftrightarrow> bit_length v \<le> 7 * k" using that by simp
    also have "\<dots> \<longleftrightarrow> v < 2 ^ (7 * k)"
      unfolding bit_length_def using bit_length_le [of v 64] assms by (simp add: fits_def)
    also have "\<dots> \<longleftrightarrow> length (put_ack_varint v) \<le> k" using put_ack_varint_le [OF that] by simp
    finally show ?thesis .
  qed
  have "0 < ack_varint_len v" by (simp add: ack_varint_len_def)
  moreover have "0 < length (put_ack_varint v)" by (simp add: put_ack_varint.simps [of v])
  ultimately show ?thesis using le [of "ack_varint_len v"] le [of "length (put_ack_varint v)"] by simp
qed

end
