(* ===== verification/Codec_Fields.thy ===== *)
theory Codec_Fields
  imports Codec_Contract Resource_Limits
begin

text \<open>
  The fields of frames in \<open>src/src/protocol/codec.rs\<close>: enumerations, credential identifiers, targets,
  path metrics, delivery samples, offset ranges and acknowledgements, each with its encoder and
  its decoder. An encoder that can refuse returns an error or the bytes it appends.
\<close>

section \<open>Enumerations\<close>

fun underlay_to_u8 :: "underlay_protocol \<Rightarrow> u8" where
  "underlay_to_u8 Tcp = 1" | "underlay_to_u8 Udp = 2"

definition underlay_from_u8 :: "u8 \<Rightarrow> codec_error + underlay_protocol" where
  "underlay_from_u8 b = (if b = 1 then Inr Tcp else if b = 2 then Inr Udp else Inl InvalidEnum)"

fun path_metric_direction_to_u8 :: "path_metric_direction \<Rightarrow> u8" where
  "path_metric_direction_to_u8 ClientToServer = 1" | "path_metric_direction_to_u8 ServerToClient = 2"

definition path_metric_direction_from_u8 :: "u8 \<Rightarrow> codec_error + path_metric_direction" where
  "path_metric_direction_from_u8 b =
     (if b = 1 then Inr ClientToServer else if b = 2 then Inr ServerToClient else Inl InvalidEnum)"

definition bool_to_u8 :: "bool \<Rightarrow> u8" where
  "bool_to_u8 b = (if b then 1 else 0)"

definition decode_bool :: "u8 \<Rightarrow> codec_error + bool" where
  "decode_bool b = (if b = 0 then Inr False else if b = 1 then Inr True else Inl InvalidEnum)"

fun path_usage_to_u8 :: "path_usage \<Rightarrow> u8" where
  "path_usage_to_u8 Available = 0" | "path_usage_to_u8 Backup = 1"

definition path_usage_from_u8 :: "u8 \<Rightarrow> codec_error + path_usage" where
  "path_usage_from_u8 b = (if b = 0 then Inr Available else if b = 1 then Inr Backup else Inl InvalidEnum)"

fun stream_attachment_phase_to_u8 :: "stream_attachment_phase \<Rightarrow> u8" where
  "stream_attachment_phase_to_u8 PhaseStartup = 0"
| "stream_attachment_phase_to_u8 PhaseOrdinary = 1"
| "stream_attachment_phase_to_u8 PhaseCreate = 2"

definition stream_attachment_phase_from_u8 :: "u8 \<Rightarrow> codec_error + stream_attachment_phase" where
  "stream_attachment_phase_from_u8 b =
     (if b = 0 then Inr PhaseStartup else if b = 1 then Inr PhaseOrdinary
      else if b = 2 then Inr PhaseCreate else Inl InvalidEnum)"

fun peer_status_code_to_u8 :: "peer_status_code \<Rightarrow> u8" where
  "peer_status_code_to_u8 PeerOk = 0"
| "peer_status_code_to_u8 PeerDisabled = 1"
| "peer_status_code_to_u8 PeerUnavailable = 2"

definition peer_status_code_from_u8 :: "u8 \<Rightarrow> codec_error + peer_status_code" where
  "peer_status_code_from_u8 b =
     (if b = 0 then Inr PeerOk else if b = 1 then Inr PeerDisabled
      else if b = 2 then Inr PeerUnavailable else Inl InvalidEnum)"

fun peer_path_state_to_u8 :: "peer_path_state \<Rightarrow> u8" where
  "peer_path_state_to_u8 PeerActive = 0"
| "peer_path_state_to_u8 PeerSuspect = 1"
| "peer_path_state_to_u8 PeerDraining = 2"
| "peer_path_state_to_u8 PeerFailed = 3"

definition peer_path_state_from_u8 :: "u8 \<Rightarrow> codec_error + peer_path_state" where
  "peer_path_state_from_u8 b =
     (if b = 0 then Inr PeerActive else if b = 1 then Inr PeerSuspect
      else if b = 2 then Inr PeerDraining else if b = 3 then Inr PeerFailed else Inl InvalidEnum)"

fun close_reason_to_u8 :: "close_reason \<Rightarrow> u8" where
  "close_reason_to_u8 CloseNormal = 0"
| "close_reason_to_u8 CloseProtocolError = 1"
| "close_reason_to_u8 CloseAuthenticationFailed = 2"
| "close_reason_to_u8 ClosePolicyRejected = 3"

definition close_reason_from_u8 :: "u8 \<Rightarrow> codec_error + close_reason" where
  "close_reason_from_u8 b =
     (if b = 0 then Inr CloseNormal else if b = 1 then Inr CloseProtocolError
      else if b = 2 then Inr CloseAuthenticationFailed else if b = 3 then Inr ClosePolicyRejected
      else Inl InvalidEnum)"

fun reset_reason_to_u8 :: "reset_reason \<Rightarrow> u8" where
  "reset_reason_to_u8 ResetRefused = 1"
| "reset_reason_to_u8 ResetTimedOut = 2"
| "reset_reason_to_u8 ResetRemoteClosed = 3"
| "reset_reason_to_u8 ResetPolicyRejected = 4"

definition reset_reason_from_u8 :: "u8 \<Rightarrow> codec_error + reset_reason" where
  "reset_reason_from_u8 b =
     (if b = 1 then Inr ResetRefused else if b = 2 then Inr ResetTimedOut
      else if b = 3 then Inr ResetRemoteClosed else if b = 4 then Inr ResetPolicyRejected
      else Inl InvalidEnum)"

definition encode_stream_demand_hint :: "stream_demand_hint \<Rightarrow> bytes" where
  "encode_stream_demand_hint d =
     put_u8 (case d of DemandLatency \<Rightarrow> 1 | DemandThroughput \<Rightarrow> 2 | DemandRealtime \<Rightarrow> 3)"

definition decode_stream_demand_hint :: "stream_demand_hint get" where
  "decode_stream_demand_hint =
     convert (\<lambda>b. if b = 1 then Inr DemandLatency else if b = 2 then Inr DemandThroughput
                  else if b = 3 then Inr DemandRealtime else Inl InvalidEnum) get_u8"

section \<open>Credential identifiers, nonces and tags\<close>

definition and_then :: "'e + 'a \<Rightarrow> ('a \<Rightarrow> 'e + 'b) \<Rightarrow> 'e + 'b" where
  "and_then x f = (case x of Inl e \<Rightarrow> Inl e | Inr a \<Rightarrow> f a)"

lemma and_then_simps [simp]: "and_then (Inl e) f = Inl e" "and_then (Inr a) f = f a"
  by (simp_all add: and_then_def)

lemma and_then_Inr_iff: "and_then x f = Inr b \<longleftrightarrow> (\<exists>a. x = Inr a \<and> f a = Inr b)"
  by (cases x) auto

definition MAX_CREDENTIAL_ID_BYTES :: usize where
  "MAX_CREDENTIAL_ID_BYTES = 64"

definition is_ascii_lowercase :: "byte \<Rightarrow> bool" where
  "is_ascii_lowercase b \<longleftrightarrow> 0x61 \<le> b \<and> b \<le> 0x7A"

definition is_ascii_digit :: "byte \<Rightarrow> bool" where
  "is_ascii_digit b \<longleftrightarrow> 0x30 \<le> b \<and> b \<le> 0x39"

definition credential_id_is_canonical :: "rust_string \<Rightarrow> bool" where
  "credential_id_is_canonical s \<longleftrightarrow>
     (if s = [] \<or> length s > MAX_CREDENTIAL_ID_BYTES then False
      else
        (case s of
           [] \<Rightarrow> False
         | first # bs \<Rightarrow>
             (is_ascii_lowercase first \<or> is_ascii_digit first)
             \<and> list_all (\<lambda>b. is_ascii_lowercase b \<or> is_ascii_digit b \<or> b \<in> {0x2E, 0x5F, 0x2D}) bs))"

definition encode_credential_id :: "rust_string \<Rightarrow> codec_error + bytes" where
  "encode_credential_id s =
     (if \<not> credential_id_is_canonical s then Inl InvalidCredentialId
      else if length s > 255 then Inl LengthOverflow
      else Inr (put_u8 (of_nat (length s)) @ s))"

definition decode_credential_id :: "rust_string get" where
  "decode_credential_id =
     read_bind get_u8 (\<lambda>b. let len = unat b in
       require (len \<le> MAX_CREDENTIAL_ID_BYTES) InvalidCredentialId
         (read_bind (convert (\<lambda>s. if utf8_valid s then Inr s else Inl InvalidUtf8) (get_exact len))
            (\<lambda>s. require (credential_id_is_canonical s) InvalidCredentialId (read_return s))))"

definition encode_nonce :: "auth_nonce \<Rightarrow> bytes" where
  "encode_nonce nonce = nonce"

definition decode_nonce :: "auth_nonce get" where
  "decode_nonce = get_array 16"

definition encode_auth_tag :: "auth_tag \<Rightarrow> bytes" where
  "encode_auth_tag tag = tag"

definition decode_auth_tag :: "auth_tag get" where
  "decode_auth_tag = get_array 32"

section \<open>Targets\<close>

definition encode_host :: "u8 \<Rightarrow> rust_string \<Rightarrow> u16 \<Rightarrow> codec_limits \<Rightarrow> codec_error + bytes" where
  "encode_host kind host port limits =
     (if length host > cl_max_host_bytes limits
      then Inl (HostTooLong (length host) (cl_max_host_bytes limits))
      else if length host > 65535 then Inl LengthOverflow
      else if port = 0 then Inl InvalidPort
      else Inr (put_u8 kind @ put_u16 (length host) @ host @ put_u16 port))"

fun encode_socket_addr :: "socket_addr \<Rightarrow> codec_error + bytes" where
  "encode_socket_addr (SockV4 ip port) =
     (if port = 0 then Inl InvalidPort else Inr (put_u8 2 @ ip @ put_u16 port))"
| "encode_socket_addr (SockV6 ip port flowinfo scope_id) =
     (if port = 0 then Inl InvalidPort else Inr (put_u8 3 @ ip @ put_u16 port))"

fun encode_target :: "target_addr \<Rightarrow> codec_limits \<Rightarrow> codec_error + bytes" where
  "encode_target (Domain host port) limits = encode_host 1 host port limits"
| "encode_target (Ip addr) limits = encode_socket_addr addr"

definition decode_target :: "codec_limits \<Rightarrow> target_addr get" where
  "decode_target limits =
     read_bind get_u8 (\<lambda>kind.
       if kind = 1 then
         read_bind (get_string_u16 (cl_max_host_bytes limits)) (\<lambda>host.
         read_bind get_u16 (\<lambda>port. require (port \<noteq> 0) InvalidPort (read_return (Domain host port))))
       else if kind = 2 then
         read_bind (get_array 4) (\<lambda>octets.
         read_bind get_u16 (\<lambda>port. require (port \<noteq> 0) InvalidPort (read_return (Ip (SockV4 octets port)))))
       else if kind = 3 then
         read_bind (get_array 16) (\<lambda>octets.
         read_bind get_u16 (\<lambda>port. require (port \<noteq> 0) InvalidPort (read_return (Ip (SockV6 octets port 0 0)))))
       else (\<lambda>r. Inl InvalidEnum))"

section \<open>Path metrics and delivery samples\<close>

definition encode_path_metrics :: "path_metrics \<Rightarrow> bytes" where
  "encode_path_metrics m =
     put_u16 (pm_path_id m)
     @ put_u8 (underlay_to_u8 (pm_underlay m))
     @ put_u8 (path_metric_direction_to_u8 (pm_direction m))
     @ put_u64 (pm_metric_epoch m)
     @ put_u32 (pm_metric_age_us m)
     @ put_u64 (min (pm_rate_valid_for_us m) PATH_METRICS_MAX_RATE_VALID_FOR_US)
     @ put_u8 (bool_to_u8 (pm_rate_observed m))
     @ put_u32 (pm_srtt_us m)
     @ put_u32 (pm_rttvar_us m)
     @ put_u32 (pm_jitter_us m)
     @ put_u64 (pm_delivery_rate_bps m)
     @ put_u64 (pm_pacing_rate_bps m)
     @ put_u8 (bool_to_u8 (pm_pacing_rate_observed m))
     @ put_u32 (pm_loss_ppm m)
     @ put_u32 (pm_ecn_ppm m)
     @ put_u8 (bool_to_u8 (pm_loss_observed m))
     @ put_u8 (bool_to_u8 (pm_ecn_observed m))
     @ put_u8 (bool_to_u8 (pm_bytes_in_flight_observed m))
     @ put_u8 (bool_to_u8 (pm_queue_observed m))
     @ put_u64 (pm_bytes_in_flight m)
     @ put_u64 (pm_queue_bytes m)
     @ put_u64 (pm_inflight_limit_bytes m)
     @ put_u64 (pm_inflight_hi_bytes m)
     @ put_u32 (pm_confidence_ppm m)
     @ put_u8 (bool_to_u8 (pm_app_limited m))
     @ put_u8 (bool_to_u8 (pm_has_ack_derived_data_sample m))
     @ put_u32 (pm_data_sample_count m)
     @ put_u64 (pm_data_sample_bytes m)
     @ put_u8 (pm_approximate_metrics m)"

text \<open>The condition under which \<open>decode_path_metrics\<close> returns the values it has read.\<close>

definition metrics_consistent :: "path_metrics \<Rightarrow> bool" where
  "metrics_consistent m \<longleftrightarrow>
     \<not> (pm_rate_valid_for_us m > PATH_METRICS_MAX_RATE_VALID_FOR_US
        \<or> (\<not> pm_rate_observed m \<and> pm_rate_valid_for_us m \<noteq> 0)
        \<or> (pm_pacing_rate_observed m \<and> \<not> pm_rate_observed m)
        \<or> and (pm_approximate_metrics m) (not PATH_METRIC_APPROXIMATE_MASK) \<noteq> 0)"

definition get_bool :: "bool get" where
  "get_bool = convert decode_bool get_u8"

definition decode_path_metrics :: "path_metrics get" where
  "decode_path_metrics =
     read_bind get_u16 (\<lambda>path_id.
     read_bind (convert underlay_from_u8 get_u8) (\<lambda>underlay.
     read_bind (convert path_metric_direction_from_u8 get_u8) (\<lambda>direction.
     read_bind get_u64 (\<lambda>metric_epoch.
     read_bind get_u32 (\<lambda>metric_age_us.
     read_bind get_u64 (\<lambda>rate_valid_for_us.
     read_bind get_bool (\<lambda>rate_observed.
     read_bind get_u32 (\<lambda>srtt_us.
     read_bind get_u32 (\<lambda>rttvar_us.
     read_bind get_u32 (\<lambda>jitter_us.
     read_bind get_u64 (\<lambda>delivery_rate_bps.
     read_bind get_u64 (\<lambda>pacing_rate_bps.
     read_bind get_bool (\<lambda>pacing_rate_observed.
     read_bind get_u32 (\<lambda>loss_ppm.
     read_bind get_u32 (\<lambda>ecn_ppm.
     read_bind get_bool (\<lambda>loss_observed.
     read_bind get_bool (\<lambda>ecn_observed.
     read_bind get_bool (\<lambda>bytes_in_flight_observed.
     read_bind get_bool (\<lambda>queue_observed.
     read_bind get_u64 (\<lambda>bytes_in_flight.
     read_bind get_u64 (\<lambda>queue_bytes.
     read_bind get_u64 (\<lambda>inflight_limit_bytes.
     read_bind get_u64 (\<lambda>inflight_hi_bytes.
     read_bind get_u32 (\<lambda>confidence_ppm.
     read_bind get_bool (\<lambda>app_limited.
     read_bind get_bool (\<lambda>has_ack_derived_data_sample.
     read_bind get_u32 (\<lambda>data_sample_count.
     read_bind get_u64 (\<lambda>data_sample_bytes.
     read_bind get_u8 (\<lambda>approximate_metrics.
       let m = \<lparr>pm_path_id = path_id, pm_underlay = underlay, pm_direction = direction,
            pm_metric_epoch = metric_epoch, pm_metric_age_us = metric_age_us,
            pm_rate_valid_for_us = rate_valid_for_us, pm_rate_observed = rate_observed,
            pm_srtt_us = srtt_us, pm_rttvar_us = rttvar_us, pm_jitter_us = jitter_us,
            pm_delivery_rate_bps = delivery_rate_bps, pm_pacing_rate_bps = pacing_rate_bps,
            pm_pacing_rate_observed = pacing_rate_observed, pm_loss_ppm = loss_ppm, pm_ecn_ppm = ecn_ppm,
            pm_loss_observed = loss_observed, pm_ecn_observed = ecn_observed,
            pm_bytes_in_flight_observed = bytes_in_flight_observed, pm_queue_observed = queue_observed,
            pm_bytes_in_flight = bytes_in_flight, pm_queue_bytes = queue_bytes,
            pm_inflight_limit_bytes = inflight_limit_bytes, pm_inflight_hi_bytes = inflight_hi_bytes,
            pm_confidence_ppm = confidence_ppm, pm_app_limited = app_limited,
            pm_has_ack_derived_data_sample = has_ack_derived_data_sample,
            pm_data_sample_count = data_sample_count, pm_data_sample_bytes = data_sample_bytes,
            pm_approximate_metrics = approximate_metrics\<rparr>
       in require (metrics_consistent m) InvalidPathMetrics (read_return m))))))))))))))))))))))))))))))"

definition encode_native_delivery :: "native_delivery_snapshot option \<Rightarrow> bytes" where
  "encode_native_delivery sample =
     put_u8 (case sample of None \<Rightarrow> 0 | Some s \<Rightarrow> path_metric_direction_to_u8 (nd_direction s))
     @ put_u64 (case sample of None \<Rightarrow> 0 | Some s \<Rightarrow> nd_epoch s)
     @ put_u64 (case sample of None \<Rightarrow> 0 | Some s \<Rightarrow> nd_sampled_at_us s)
     @ put_u64 (case sample of None \<Rightarrow> 0 | Some s \<Rightarrow> nd_acked_bytes s)"

definition decode_native_delivery :: "native_delivery_snapshot option get" where
  "decode_native_delivery =
     read_bind get_u8 (\<lambda>direction.
     read_bind get_u64 (\<lambda>epoch.
     read_bind get_u64 (\<lambda>sampled_at_us.
     read_bind get_u64 (\<lambda>acked_bytes.
       if direction = 0 then
         require (epoch = 0 \<and> sampled_at_us = 0 \<and> acked_bytes = 0) InvalidPathMetrics (read_return None)
       else
         (case path_metric_direction_from_u8 direction of
            Inl e \<Rightarrow> (\<lambda>r. Inl e)
          | Inr d \<Rightarrow> read_return (Some \<lparr>nd_epoch = epoch, nd_sampled_at_us = sampled_at_us,
                        nd_acked_bytes = acked_bytes, nd_direction = d\<rparr>))))))"

definition encode_peer_path :: "peer_path_status \<Rightarrow> bytes" where
  "encode_peer_path p =
     put_u8 (peer_path_state_to_u8 (pp_state p)) @ put_u8 (path_usage_to_u8 (pp_usage p))
     @ encode_path_metrics (pp_metrics p) @ encode_native_delivery (pp_native_delivery p)"

definition decode_peer_path :: "peer_path_status get" where
  "decode_peer_path =
     read_bind (convert peer_path_state_from_u8 get_u8) (\<lambda>state.
     read_bind (convert path_usage_from_u8 get_u8) (\<lambda>usage.
     read_bind decode_path_metrics (\<lambda>metrics.
     read_bind decode_native_delivery (\<lambda>native_delivery.
       read_return \<lparr>pp_state = state, pp_usage = usage, pp_metrics = metrics,
                    pp_native_delivery = native_delivery\<rparr>))))"

section \<open>Ranges and acknowledgements\<close>

definition validate_stream_data_extent :: "u64 \<Rightarrow> usize \<Rightarrow> codec_error + unit" where
  "validate_stream_data_extent offset payload_len =
     (case checked_add offset payload_len of None \<Rightarrow> Inl LengthOverflow | Some _ \<Rightarrow> Inr ())"

definition validate_path_count :: "usize \<Rightarrow> codec_limits \<Rightarrow> codec_error + unit" where
  "validate_path_count count limits =
     (if count > cl_max_paths limits then Inl (TooManyPaths count (cl_max_paths limits))
      else if count > 65535 then Inl LengthOverflow
      else Inr ())"

definition validate_peer_status_path_count :: "peer_status_code \<Rightarrow> usize \<Rightarrow> codec_error + unit" where
  "validate_peer_status_path_count code path_count =
     (if code \<noteq> PeerOk \<and> path_count \<noteq> 0 then Inl InvalidPeerStatus else Inr ())"

definition encode_payload_bytes_len :: "usize \<Rightarrow> codec_limits \<Rightarrow> codec_error + unit" where
  "encode_payload_bytes_len len limits =
     (if len > cl_max_payload_bytes limits then Inl (CodecPayloadTooLarge len (cl_max_payload_bytes limits))
      else if len > 4294967295 then Inl LengthOverflow
      else Inr ())"

definition validate_ack_scope :: "u64 option \<Rightarrow> offset_range list \<Rightarrow> codec_error + unit" where
  "validate_ack_scope scope_start ranges =
     (case scope_start of
        None \<Rightarrow> Inr ()
      | Some start \<Rightarrow> if \<not> list_ex (\<lambda>r. start < range_end r) ranges then Inl InvalidRange else Inr ())"

definition check_range_count :: "usize \<Rightarrow> codec_limits \<Rightarrow> codec_error + unit" where
  "check_range_count n limits =
     (if n > cl_max_ack_ranges limits then Inl (TooManyAckRanges n (cl_max_ack_ranges limits))
      else if n > 65535 then Inl LengthOverflow
      else Inr ())"

fun put_offset_ranges :: "offset_range list \<Rightarrow> codec_error + bytes" where
  "put_offset_ranges [] = Inr []"
| "put_offset_ranges (r # rs) =
     (if range_is_empty r then Inl InvalidRange
      else and_then (put_offset_ranges rs) (\<lambda>bs. Inr (put_u64 (range_start r) @ put_u64 (range_end r) @ bs)))"

definition encode_offset_ranges :: "offset_range list \<Rightarrow> codec_limits \<Rightarrow> codec_error + bytes" where
  "encode_offset_ranges ranges limits =
     and_then (check_range_count (length ranges) limits) (\<lambda>_.
     and_then (put_offset_ranges ranges) (\<lambda>bs. Inr (put_u16 (length ranges) @ bs)))"

definition read_range :: "u64 \<Rightarrow> u64 \<Rightarrow> offset_range get" where
  "read_range start e = (case OffsetRange_new start e of None \<Rightarrow> (\<lambda>r. Inl InvalidRange) | Some rng \<Rightarrow> read_return rng)"

definition get_offset_range :: "offset_range get" where
  "get_offset_range = read_bind get_u64 (\<lambda>start. read_bind get_u64 (\<lambda>e. read_range start e))"

definition decode_offset_ranges :: "codec_limits \<Rightarrow> offset_range list get" where
  "decode_offset_ranges limits =
     read_bind get_u16 (\<lambda>range_count.
       require (range_count \<le> cl_max_ack_ranges limits) (TooManyAckRanges range_count (cl_max_ack_ranges limits))
         (get_times range_count get_offset_range))"

fun packed_len_from :: "u64 \<Rightarrow> usize \<Rightarrow> offset_range list \<Rightarrow> usize option" where
  "packed_len_from previous_end len [] = Some len"
| "packed_len_from previous_end len (r # rs) =
     (if range_is_empty r then None
      else if range_start r < previous_end then None
      else packed_len_from (range_end r)
             (len + (ack_varint_len (range_start r - previous_end) + ack_varint_len (range_end r - range_start r))) rs)"

definition packed_ack_ranges_len :: "offset_range list \<Rightarrow> usize option" where
  "packed_ack_ranges_len ranges = packed_len_from 0 0 ranges"

fun put_ack_ranges :: "bool \<Rightarrow> u64 \<Rightarrow> offset_range list \<Rightarrow> codec_error + bytes" where
  "put_ack_ranges packed previous_end [] = Inr []"
| "put_ack_ranges packed previous_end (r # rs) =
     (if range_is_empty r then Inl InvalidRange
      else if packed
      then and_then (put_ack_ranges packed (range_end r) rs)
             (\<lambda>bs. Inr (put_ack_varint (range_start r - previous_end)
                        @ put_ack_varint (range_end r - range_start r) @ bs))
      else and_then (put_ack_ranges packed previous_end rs)
             (\<lambda>bs. Inr (put_u64 (range_start r) @ put_u64 (range_end r) @ bs)))"

definition ack_flags :: "u64 option \<Rightarrow> bool \<Rightarrow> u8" where
  "ack_flags scope_start packed = or (bool_to_u8 (scope_start \<noteq> None)) (push_bit 1 (bool_to_u8 packed))"

definition encode_ack_payload ::
  "stream_id \<Rightarrow> u64 option \<Rightarrow> offset_range list \<Rightarrow> codec_limits \<Rightarrow> codec_error + bytes" where
  "encode_ack_payload stream scope_start ranges limits =
     and_then (check_range_count (length ranges) limits) (\<lambda>_.
     and_then (validate_ack_scope scope_start ranges) (\<lambda>_.
       let packed = (case packed_ack_ranges_len ranges of None \<Rightarrow> False | Some len \<Rightarrow> len < length ranges * 16)
       in and_then (put_ack_ranges packed 0 ranges) (\<lambda>bs.
            Inr (put_u64 stream @ put_u8 (ack_flags scope_start packed) @ put_u16 (length ranges)
                 @ (case scope_start of None \<Rightarrow> [] | Some start \<Rightarrow> put_ack_varint start) @ bs))))"

definition get_packed_bounds :: "u64 \<Rightarrow> (u64 \<times> u64) get" where
  "get_packed_bounds previous_end =
     read_bind get_ack_varint (\<lambda>gap.
       case checked_add previous_end gap of
         None \<Rightarrow> (\<lambda>r. Inl InvalidRange)
       | Some start \<Rightarrow>
           read_bind get_ack_varint (\<lambda>len.
             case checked_add start len of
               None \<Rightarrow> (\<lambda>r. Inl InvalidRange)
             | Some e \<Rightarrow> read_return (start, e)))"

definition get_plain_bounds :: "(u64 \<times> u64) get" where
  "get_plain_bounds = read_bind get_u64 (\<lambda>start. read_bind get_u64 (\<lambda>e. read_return (start, e)))"

fun decode_ack_ranges :: "nat \<Rightarrow> bool \<Rightarrow> u64 \<Rightarrow> offset_range list get" where
  "decode_ack_ranges 0 packed previous_end = read_return []"
| "decode_ack_ranges (Suc n) packed previous_end =
     read_bind (if packed then get_packed_bounds previous_end else get_plain_bounds) (\<lambda>(start, e).
     read_bind (read_range start e) (\<lambda>range.
     read_bind (decode_ack_ranges n packed e) (\<lambda>ranges. read_return (range # ranges))))"

definition decode_scope_start :: "bool \<Rightarrow> u64 option get" where
  "decode_scope_start scoped =
     (if scoped then read_bind get_ack_varint (\<lambda>start. read_return (Some start)) else read_return None)"

definition decode_ack_payload :: "codec_limits \<Rightarrow> frame get" where
  "decode_ack_payload limits =
     read_bind get_u64 (\<lambda>stream.
     read_bind get_u8 (\<lambda>flags.
       let scoped = and flags 1 \<noteq> 0
       in require (and flags (not 3) = 0) InvalidEnum
            (let packed = and flags 2 \<noteq> 0
             in read_bind get_u16 (\<lambda>range_count.
                  require (range_count \<le> cl_max_ack_ranges limits)
                    (TooManyAckRanges range_count (cl_max_ack_ranges limits))
                    (read_bind (decode_scope_start scoped) (\<lambda>scope_start.
                     read_bind (decode_ack_ranges range_count packed 0) (\<lambda>ranges.
                       case validate_ack_scope scope_start ranges of
                         Inl e \<Rightarrow> (\<lambda>r. Inl e)
                       | Inr _ \<Rightarrow> read_return (StreamAck stream scope_start ranges))))))))"

end
