(* ===== verification/Codec_Frame.thy ===== *)
theory Codec_Frame
  imports Codec_Fields
begin

text \<open>
  Frames on the wire, \<open>src/src/protocol/codec.rs\<close>: the frame kinds, the header, the payload of
  every frame, and the encoding and decoding of one frame and of a sequence of frames. The
  functions that write into a buffer return its new contents; what a refused call leaves in the
  buffer is not modelled (every caller in the file drops it).
\<close>

section \<open>Kinds and constants\<close>

definition MAGIC :: bytes where
  "MAGIC = [0x4D, 0x50, 0x54, 0x46]"

definition VERSION :: u8 where
  "VERSION = 16"

definition FRAME_HEADER_LEN :: usize where
  "FRAME_HEADER_LEN = 10"

definition STREAM_DATA_FIXED_PAYLOAD_LEN :: usize where
  "STREAM_DATA_FIXED_PAYLOAD_LEN = 8 + 8 + 4"

definition PATH_METRICS_ENCODED_LEN :: usize where
  "PATH_METRICS_ENCODED_LEN = 117"

definition PEER_PATH_STATUS_ENCODED_LEN :: usize where
  "PEER_PATH_STATUS_ENCODED_LEN = 2 + PATH_METRICS_ENCODED_LEN + 25"

definition PEER_STATUS_RESPONSE_FIXED_PAYLOAD_LEN :: usize where
  "PEER_STATUS_RESPONSE_FIXED_PAYLOAD_LEN = 11"

datatype frame_kind =
    KSessionHello | KSessionReady | KSessionClose | KPathJoin | KOpenStream | KStreamData
  | KStreamAck | KStreamMaxData | KStreamReset | KOpenDatagramFlow | KDatagramData
  | KDatagramClose | KPing | KPong | KSessionAuth | KPathStatus | KPathDrain | KPathClose
  | KDatagramFeedback | KPathMetrics | KStreamFin | KStreamDetach | KPathProofData
  | KPathProofAck | KPathCapacityData | KPathCapacityFinish | KPathCapacityReceipt
  | KPeerStatusRequest | KPeerStatusResponse | KOpenIpTunnel | KIpTunnelReady | KIpPacket
  | KIpTunnelClose | KStreamRequalifyData | KStreamRequalifyAck | KStreamReturnPlanFinal
  | KOpenStreamRepair | KStreamFeedbackProbe | KStreamFeedbackReceipt

fun kind_to_u8 :: "frame_kind \<Rightarrow> u8" where
  "kind_to_u8 KSessionHello = 1" | "kind_to_u8 KSessionReady = 2" | "kind_to_u8 KSessionClose = 3"
| "kind_to_u8 KPathJoin = 4" | "kind_to_u8 KOpenStream = 7" | "kind_to_u8 KStreamData = 8"
| "kind_to_u8 KStreamAck = 9" | "kind_to_u8 KStreamMaxData = 10" | "kind_to_u8 KStreamReset = 11"
| "kind_to_u8 KOpenDatagramFlow = 12" | "kind_to_u8 KDatagramData = 13"
| "kind_to_u8 KDatagramClose = 14" | "kind_to_u8 KPing = 16" | "kind_to_u8 KPong = 17"
| "kind_to_u8 KSessionAuth = 18" | "kind_to_u8 KPathStatus = 20" | "kind_to_u8 KPathDrain = 21"
| "kind_to_u8 KPathClose = 22" | "kind_to_u8 KDatagramFeedback = 23"
| "kind_to_u8 KPathMetrics = 24" | "kind_to_u8 KStreamFin = 27" | "kind_to_u8 KStreamDetach = 30"
| "kind_to_u8 KPathProofData = 31" | "kind_to_u8 KPathProofAck = 32"
| "kind_to_u8 KPathCapacityData = 33" | "kind_to_u8 KPathCapacityFinish = 34"
| "kind_to_u8 KPathCapacityReceipt = 35" | "kind_to_u8 KPeerStatusRequest = 36"
| "kind_to_u8 KPeerStatusResponse = 37" | "kind_to_u8 KOpenIpTunnel = 38"
| "kind_to_u8 KIpTunnelReady = 39" | "kind_to_u8 KIpPacket = 40" | "kind_to_u8 KIpTunnelClose = 41"
| "kind_to_u8 KStreamRequalifyData = 42" | "kind_to_u8 KStreamRequalifyAck = 43"
| "kind_to_u8 KStreamReturnPlanFinal = 49" | "kind_to_u8 KOpenStreamRepair = 50"
| "kind_to_u8 KStreamFeedbackProbe = 51" | "kind_to_u8 KStreamFeedbackReceipt = 52"

text \<open>The match of \<open>FrameKind::from_u8\<close>, as the table of its arms.\<close>

definition kind_table :: "(u8 \<times> frame_kind) list" where
  "kind_table =
     [(1, KSessionHello), (2, KSessionReady), (3, KSessionClose), (4, KPathJoin), (7, KOpenStream),
      (8, KStreamData), (9, KStreamAck), (10, KStreamMaxData), (11, KStreamReset),
      (12, KOpenDatagramFlow), (13, KDatagramData), (14, KDatagramClose), (16, KPing), (17, KPong),
      (18, KSessionAuth), (20, KPathStatus), (21, KPathDrain), (22, KPathClose),
      (23, KDatagramFeedback), (24, KPathMetrics), (27, KStreamFin), (30, KStreamDetach),
      (31, KPathProofData), (32, KPathProofAck), (33, KPathCapacityData), (34, KPathCapacityFinish),
      (35, KPathCapacityReceipt), (36, KPeerStatusRequest), (37, KPeerStatusResponse),
      (38, KOpenIpTunnel), (39, KIpTunnelReady), (40, KIpPacket), (41, KIpTunnelClose),
      (42, KStreamRequalifyData), (43, KStreamRequalifyAck), (49, KStreamReturnPlanFinal),
      (50, KOpenStreamRepair), (51, KStreamFeedbackProbe), (52, KStreamFeedbackReceipt)]"

definition kind_from_u8 :: "u8 \<Rightarrow> codec_error + frame_kind" where
  "kind_from_u8 b = (case map_of kind_table b of None \<Rightarrow> Inl (UnknownKind b) | Some k \<Rightarrow> Inr k)"

section \<open>Payloads\<close>

definition encode_stream_data_prefix ::
  "stream_id \<Rightarrow> u64 \<Rightarrow> usize \<Rightarrow> codec_limits \<Rightarrow> codec_error + bytes" where
  "encode_stream_data_prefix stream offset payload_len limits =
     and_then (encode_payload_bytes_len payload_len limits) (\<lambda>_.
     and_then (validate_stream_data_extent offset payload_len) (\<lambda>_.
       if payload_len > 4294967295 then Inl LengthOverflow
       else
         (case checked_add STREAM_DATA_FIXED_PAYLOAD_LEN payload_len of
            None \<Rightarrow> Inl LengthOverflow
          | Some encoded_payload_len \<Rightarrow>
              if encoded_payload_len > 4294967295 then Inl LengthOverflow
              else
                (case checked_add FRAME_HEADER_LEN encoded_payload_len of
                   None \<Rightarrow> Inl LengthOverflow
                 | Some encoded_frame_len \<Rightarrow>
                     if encoded_frame_len > cl_max_frame_bytes limits
                     then Inl (FrameTooLarge encoded_frame_len (cl_max_frame_bytes limits))
                     else Inr (MAGIC @ [VERSION] @ [kind_to_u8 KStreamData] @ be_bytes 4 encoded_payload_len
                               @ be_bytes 8 stream @ be_bytes 8 offset @ be_bytes 4 payload_len)))))"

definition put_counted :: "bytes \<Rightarrow> codec_limits \<Rightarrow> codec_error + bytes" where
  "put_counted payload limits =
     and_then (encode_payload_bytes_len (length payload) limits) (\<lambda>_. Inr (put_u32 (length payload) @ payload))"

fun put_tunnel_addresses :: "bool \<Rightarrow> bool \<Rightarrow> ip_addr list \<Rightarrow> codec_error + bytes \<times> bool" where
  "put_tunnel_addresses seen_v4 seen_v6 [] = Inr ([], seen_v6)"
| "put_tunnel_addresses seen_v4 seen_v6 (IpV4 octets # addrs) =
     (if \<not> seen_v4
      then and_then (put_tunnel_addresses True seen_v6 addrs) (\<lambda>(bs, v6). Inr (put_u8 4 @ octets @ bs, v6))
      else Inl InvalidIpTunnel)"
| "put_tunnel_addresses seen_v4 seen_v6 (IpV6 octets # addrs) =
     (if \<not> seen_v6
      then and_then (put_tunnel_addresses seen_v4 True addrs) (\<lambda>(bs, v6). Inr (put_u8 6 @ octets @ bs, v6))
      else Inl InvalidIpTunnel)"

definition encode_ip_tunnel_ready :: "ip_tunnel_id \<Rightarrow> u16 \<Rightarrow> ip_addr list \<Rightarrow> codec_error + bytes" where
  "encode_ip_tunnel_ready tunnel mtu addresses =
     (if mtu < 576 \<or> addresses = [] \<or> length addresses > 2 then Inl InvalidIpTunnel
      else
        and_then (put_tunnel_addresses False False addresses) (\<lambda>(bs, seen_v6).
          if seen_v6 \<and> mtu < 1280 then Inl InvalidIpTunnel
          else Inr (put_u64 tunnel @ put_u16 mtu @ put_u8 (of_nat (length addresses)) @ bs)))"

definition encode_peer_status_response ::
  "u64 \<Rightarrow> peer_status_code \<Rightarrow> peer_path_status list \<Rightarrow> codec_limits \<Rightarrow> codec_error + bytes" where
  "encode_peer_status_response request code paths limits =
     and_then (validate_path_count (length paths) limits) (\<lambda>_.
       if length paths > 65535 then Inl LengthOverflow
       else
         and_then (validate_peer_status_path_count code (length paths)) (\<lambda>_.
           Inr (put_u64 request @ put_u8 (peer_status_code_to_u8 code) @ put_u16 (length paths)
                @ concat (map encode_peer_path paths))))"

definition encode_return_plan_final :: "stream_id \<Rightarrow> u8 list \<Rightarrow> codec_limits \<Rightarrow> codec_error + bytes" where
  "encode_return_plan_final stream retained_ordinals limits =
     and_then (validate_path_count (length retained_ordinals) limits) (\<lambda>_.
       if length retained_ordinals > 255 then Inl LengthOverflow
       else Inr (put_u64 stream @ put_u8 (of_nat (length retained_ordinals)) @ retained_ordinals))"

definition encode_stream_data :: "stream_id \<Rightarrow> u64 \<Rightarrow> bytes \<Rightarrow> codec_limits \<Rightarrow> codec_error + bytes" where
  "encode_stream_data stream offset payload limits =
     and_then (encode_stream_data_prefix stream offset (length payload) limits) (\<lambda>prefix.
       Inr (drop FRAME_HEADER_LEN prefix @ payload))"

definition encode_requalify_data ::
  "stream_id \<Rightarrow> u64 \<Rightarrow> u64 \<Rightarrow> bytes \<Rightarrow> codec_limits \<Rightarrow> codec_error + bytes" where
  "encode_requalify_data stream probe offset payload limits =
     and_then (encode_payload_bytes_len (length payload) limits) (\<lambda>_.
       if probe = 0 \<or> payload = [] then Inl InvalidRange
       else
         and_then (validate_stream_data_extent offset (length payload)) (\<lambda>_.
           Inr (put_u64 stream @ put_u64 probe @ put_u64 offset @ put_u32 (length payload) @ payload)))"

definition encode_requalify_ack :: "stream_id \<Rightarrow> u64 \<Rightarrow> u64 \<Rightarrow> u32 \<Rightarrow> codec_error + bytes" where
  "encode_requalify_ack stream probe offset payload_bytes =
     (if probe = 0 \<or> payload_bytes = 0 then Inl InvalidRange
      else
        and_then (validate_stream_data_extent offset payload_bytes) (\<lambda>_.
          Inr (put_u64 stream @ put_u64 probe @ put_u64 offset @ put_u32 payload_bytes)))"

definition encode_open_stream ::
  "stream_id \<Rightarrow> target_addr \<Rightarrow> stream_demand_hint \<Rightarrow> stream_return_plan \<Rightarrow> codec_limits \<Rightarrow> codec_error + bytes" where
  "encode_open_stream stream target demand plan limits =
     and_then (encode_target target limits) (\<lambda>target_bytes.
       Inr (put_u64 stream @ target_bytes @ encode_stream_demand_hint demand
            @ put_u64 (trigger_bytes plan) @ put_u8 (candidate_total plan)
            @ put_u8 (path_usage_to_u8 (candidate_tier plan))
            @ put_u8 (stream_attachment_phase_to_u8 (phase plan)) @ put_u8 (candidate_ordinal plan)))"

definition kinded :: "frame_kind \<Rightarrow> codec_error + bytes \<Rightarrow> codec_error + frame_kind \<times> bytes" where
  "kinded k r = and_then r (\<lambda>bs. Inr (k, bs))"

fun encode_payload :: "frame \<Rightarrow> codec_limits \<Rightarrow> codec_error + frame_kind \<times> bytes" where
  "encode_payload (SessionHello session) limits = kinded KSessionHello (Inr (put_u64 session))"
| "encode_payload (SessionAuth session credential nonce issued_at tag) limits =
     kinded KSessionAuth (and_then (encode_credential_id credential) (\<lambda>credential_bytes.
       Inr (put_u64 session @ credential_bytes @ encode_nonce nonce @ put_u64 issued_at @ encode_auth_tag tag)))"
| "encode_payload SessionReady limits = kinded KSessionReady (Inr [])"
| "encode_payload (SessionClose reason) limits = kinded KSessionClose (Inr (put_u8 (close_reason_to_u8 reason)))"
| "encode_payload (PathJoin session credential path slot underlay nonce issued_at tag) limits =
     kinded KPathJoin (and_then (encode_credential_id credential) (\<lambda>credential_bytes.
       Inr (put_u64 session @ credential_bytes @ put_u16 path @ put_u16 slot
            @ put_u8 (underlay_to_u8 underlay) @ encode_nonce nonce @ put_u64 issued_at @ encode_auth_tag tag)))"
| "encode_payload (PathStatus path sequence usage) limits =
     kinded KPathStatus (Inr (put_u16 path @ put_u64 sequence @ put_u8 (path_usage_to_u8 usage)))"
| "encode_payload (PathDrain path) limits = kinded KPathDrain (Inr (put_u16 path))"
| "encode_payload (PathClose path reason) limits =
     kinded KPathClose (Inr (put_u16 path @ put_u8 (close_reason_to_u8 reason)))"
| "encode_payload (PathProofData path proof payload) limits =
     kinded KPathProofData (and_then (put_counted payload limits) (\<lambda>bs. Inr (put_u16 path @ put_u64 proof @ bs)))"
| "encode_payload (PathProofAck path proof payload_bytes) limits =
     kinded KPathProofAck (Inr (put_u16 path @ put_u64 proof @ put_u32 payload_bytes))"
| "encode_payload (PathCapacityData path measurement payload) limits =
     kinded KPathCapacityData (and_then (put_counted payload limits) (\<lambda>bs. Inr (put_u16 path @ put_u64 measurement @ bs)))"
| "encode_payload (PathCapacityFinish path measurement payload_bytes) limits =
     kinded KPathCapacityFinish (Inr (put_u16 path @ put_u64 measurement @ put_u64 payload_bytes))"
| "encode_payload (PathCapacityReceipt path measurement received) limits =
     kinded KPathCapacityReceipt (Inr (put_u16 path @ put_u64 measurement @ put_u64 received))"
| "encode_payload (OpenStream stream target demand plan) limits =
     kinded KOpenStream (encode_open_stream stream target demand plan limits)"
| "encode_payload (OpenStreamRepair stream parent) limits =
     kinded KOpenStreamRepair (Inr (put_u64 stream @ put_u64 parent))"
| "encode_payload (StreamReturnPlanFinal stream retained_ordinals) limits =
     kinded KStreamReturnPlanFinal (encode_return_plan_final stream retained_ordinals limits)"
| "encode_payload (StreamData stream offset payload) limits =
     kinded KStreamData (encode_stream_data stream offset payload limits)"
| "encode_payload (StreamAck stream scope_start ranges) limits =
     kinded KStreamAck (encode_ack_payload stream scope_start ranges limits)"
| "encode_payload (StreamRequalifyData stream probe offset payload) limits =
     kinded KStreamRequalifyData (encode_requalify_data stream probe offset payload limits)"
| "encode_payload (StreamRequalifyAck stream probe offset payload_bytes) limits =
     kinded KStreamRequalifyAck (encode_requalify_ack stream probe offset payload_bytes)"
| "encode_payload (StreamMaxData stream max_offset) limits =
     kinded KStreamMaxData (Inr (put_u64 stream @ put_u64 max_offset))"
| "encode_payload (StreamFeedbackProbe stream token max_offset) limits =
     kinded KStreamFeedbackProbe (Inr (put_u64 stream @ put_u64 token @ put_u64 max_offset))"
| "encode_payload (StreamFeedbackReceipt stream token) limits =
     kinded KStreamFeedbackReceipt (Inr (put_u64 stream @ put_u64 token))"
| "encode_payload (StreamFin stream final_offset) limits =
     kinded KStreamFin (Inr (put_u64 stream @ put_u64 final_offset))"
| "encode_payload (StreamDetach stream) limits = kinded KStreamDetach (Inr (put_u64 stream))"
| "encode_payload (StreamReset stream reason) limits =
     kinded KStreamReset (Inr (put_u64 stream @ put_u8 (reset_reason_to_u8 reason)))"
| "encode_payload (OpenDatagramFlow flow target) limits =
     kinded KOpenDatagramFlow (and_then (encode_target target limits) (\<lambda>bs. Inr (put_u64 flow @ bs)))"
| "encode_payload (DatagramData flow datagram ttl_ms payload) limits =
     kinded KDatagramData (and_then (put_counted payload limits) (\<lambda>bs.
       Inr (put_u64 flow @ put_u64 datagram @ put_u32 ttl_ms @ bs)))"
| "encode_payload (DatagramClose flow) limits = kinded KDatagramClose (Inr (put_u64 flow))"
| "encode_payload (DatagramFeedback flow received) limits =
     kinded KDatagramFeedback (and_then (encode_offset_ranges received limits) (\<lambda>bs. Inr (put_u64 flow @ bs)))"
| "encode_payload (PathMetrics metrics) limits = kinded KPathMetrics (Inr (encode_path_metrics metrics))"
| "encode_payload (PeerStatusRequest request) limits = kinded KPeerStatusRequest (Inr (put_u64 request))"
| "encode_payload (PeerStatusResponse request code paths) limits =
     kinded KPeerStatusResponse (encode_peer_status_response request code paths limits)"
| "encode_payload (OpenIpTunnel tunnel) limits = kinded KOpenIpTunnel (Inr (put_u64 tunnel))"
| "encode_payload (IpTunnelReady tunnel mtu addresses) limits =
     kinded KIpTunnelReady (encode_ip_tunnel_ready tunnel mtu addresses)"
| "encode_payload (IpPacket tunnel packet payload) limits =
     kinded KIpPacket (and_then (put_counted payload limits) (\<lambda>bs.
       if payload = [] then Inl InvalidIpPacket else Inr (put_u64 tunnel @ put_u64 packet @ bs)))"
| "encode_payload (IpTunnelClose tunnel reason) limits =
     kinded KIpTunnelClose (Inr (put_u64 tunnel @ put_u8 (close_reason_to_u8 reason)))"
| "encode_payload (Ping nonce) limits = kinded KPing (Inr (put_u64 nonce))"
| "encode_payload (Pong nonce) limits = kinded KPong (Inr (put_u64 nonce))"

fun get_tunnel_addresses :: "nat \<Rightarrow> bool \<Rightarrow> bool \<Rightarrow> (ip_addr list \<times> bool) get" where
  "get_tunnel_addresses 0 seen_v4 seen_v6 = read_return ([], seen_v6)"
| "get_tunnel_addresses (Suc n) seen_v4 seen_v6 =
     read_bind get_u8 (\<lambda>family.
       if family = 4 \<and> \<not> seen_v4 then
         read_bind (get_array 4) (\<lambda>octets.
         read_bind (get_tunnel_addresses n True seen_v6) (\<lambda>(addresses, v6). read_return (IpV4 octets # addresses, v6)))
       else if family = 6 \<and> \<not> seen_v6 then
         read_bind (get_array 16) (\<lambda>octets.
         read_bind (get_tunnel_addresses n seen_v4 True) (\<lambda>(addresses, v6). read_return (IpV6 octets # addresses, v6)))
       else (\<lambda>r. Inl InvalidIpTunnel))"

definition decode_ip_tunnel_ready :: "frame get" where
  "decode_ip_tunnel_ready =
     read_bind get_u64 (\<lambda>tunnel.
     read_bind get_u16 (\<lambda>mtu. require (mtu \<ge> 576) InvalidIpTunnel (
     read_bind get_u8 (\<lambda>count. require (unat count \<le> 2) InvalidIpTunnel (
     read_bind (get_tunnel_addresses (unat count) False False) (\<lambda>(addresses, seen_v6).
       require (\<not> (addresses = [] \<or> seen_v6 \<and> mtu < 1280)) InvalidIpTunnel
         (read_return (IpTunnelReady tunnel mtu addresses))))))))"

definition lift :: "codec_error + unit \<Rightarrow> 'a get \<Rightarrow> 'a get" where
  "lift v p r = (case v of Inl e \<Rightarrow> Inl e | Inr _ \<Rightarrow> p r)"

definition decode_peer_status_response :: "codec_limits \<Rightarrow> frame get" where
  "decode_peer_status_response limits =
     read_bind get_u64 (\<lambda>request.
     read_bind (convert peer_status_code_from_u8 get_u8) (\<lambda>code.
     read_bind get_u16 (\<lambda>path_count.
       lift (validate_path_count path_count limits)
       (lift (validate_peer_status_path_count code path_count)
       (require (path_count * PEER_PATH_STATUS_ENCODED_LEN \<le> u64_max) LengthOverflow
       (\<lambda>r. require (path_count * PEER_PATH_STATUS_ENCODED_LEN \<le> remaining r) UnexpectedEof
         (read_bind (get_times path_count decode_peer_path) (\<lambda>paths.
            read_return (PeerStatusResponse request code paths))) r))))))"

definition decode_return_plan_final :: "codec_limits \<Rightarrow> frame get" where
  "decode_return_plan_final limits =
     read_bind get_u64 (\<lambda>stream.
     read_bind get_u8 (\<lambda>count.
       lift (validate_path_count (unat count) limits)
         (read_bind (get_exact (unat count)) (\<lambda>retained_ordinals.
            read_return (StreamReturnPlanFinal stream retained_ordinals)))))"

definition decode_stream_data :: "codec_limits \<Rightarrow> frame get" where
  "decode_stream_data limits =
     read_bind get_u64 (\<lambda>stream.
     read_bind get_u64 (\<lambda>offset.
     read_bind (get_bytes_u32 (cl_max_payload_bytes limits)) (\<lambda>payload.
       lift (validate_stream_data_extent offset (length payload))
         (read_return (StreamData stream offset payload)))))"

definition decode_requalify_data :: "codec_limits \<Rightarrow> frame get" where
  "decode_requalify_data limits =
     read_bind get_u64 (\<lambda>stream.
     read_bind get_u64 (\<lambda>probe.
     read_bind get_u64 (\<lambda>offset.
     read_bind (get_bytes_u32 (cl_max_payload_bytes limits)) (\<lambda>payload.
       require (\<not> (probe = 0 \<or> payload = [])) InvalidRange
         (lift (validate_stream_data_extent offset (length payload))
           (read_return (StreamRequalifyData stream probe offset payload)))))))"

definition decode_requalify_ack :: "frame get" where
  "decode_requalify_ack =
     read_bind get_u64 (\<lambda>stream.
     read_bind get_u64 (\<lambda>probe.
     read_bind get_u64 (\<lambda>offset.
     read_bind get_u32 (\<lambda>payload_bytes.
       require (\<not> (probe = 0 \<or> payload_bytes = 0)) InvalidRange
         (lift (validate_stream_data_extent offset payload_bytes)
           (read_return (StreamRequalifyAck stream probe offset payload_bytes)))))))"

definition decode_open_stream :: "codec_limits \<Rightarrow> frame get" where
  "decode_open_stream limits =
     read_bind get_u64 (\<lambda>stream.
     read_bind (decode_target limits) (\<lambda>target.
     read_bind decode_stream_demand_hint (\<lambda>demand.
     read_bind get_u64 (\<lambda>trigger.
     read_bind get_u8 (\<lambda>total_count.
     read_bind (convert path_usage_from_u8 get_u8) (\<lambda>tier.
     read_bind (convert stream_attachment_phase_from_u8 get_u8) (\<lambda>ph.
     read_bind get_u8 (\<lambda>ordinal.
       read_return (OpenStream stream target demand
         \<lparr>trigger_bytes = trigger, candidate_total = total_count, candidate_tier = tier, phase = ph,
          candidate_ordinal = ordinal\<rparr>)))))))))"

definition decode_session_auth :: "frame get" where
  "decode_session_auth =
     read_bind get_u64 (\<lambda>session.
     read_bind decode_credential_id (\<lambda>credential.
     read_bind decode_nonce (\<lambda>nonce.
     read_bind get_u64 (\<lambda>issued_at.
     read_bind decode_auth_tag (\<lambda>tag.
       read_return (SessionAuth session credential nonce issued_at tag))))))"

definition decode_path_join :: "frame get" where
  "decode_path_join =
     read_bind get_u64 (\<lambda>session.
     read_bind decode_credential_id (\<lambda>credential.
     read_bind get_u16 (\<lambda>path.
     read_bind get_u16 (\<lambda>slot.
     read_bind (convert underlay_from_u8 get_u8) (\<lambda>underlay.
     read_bind decode_nonce (\<lambda>nonce.
     read_bind get_u64 (\<lambda>issued_at.
     read_bind decode_auth_tag (\<lambda>tag.
       read_return (PathJoin session credential path slot underlay nonce issued_at tag)))))))))"

definition decode_datagram_data :: "codec_limits \<Rightarrow> frame get" where
  "decode_datagram_data limits =
     read_bind get_u64 (\<lambda>flow.
     read_bind get_u64 (\<lambda>datagram.
     read_bind get_u32 (\<lambda>ttl_ms.
     read_bind (get_bytes_u32 (cl_max_payload_bytes limits)) (\<lambda>payload.
       read_return (DatagramData flow datagram ttl_ms payload)))))"

definition decode_ip_packet :: "codec_limits \<Rightarrow> frame get" where
  "decode_ip_packet limits =
     read_bind get_u64 (\<lambda>tunnel.
     read_bind get_u64 (\<lambda>packet.
     read_bind (get_bytes_u32 (cl_max_payload_bytes limits)) (\<lambda>payload.
       require (payload \<noteq> []) InvalidIpPacket (read_return (IpPacket tunnel packet payload)))))"

fun decode_payload :: "frame_kind \<Rightarrow> codec_limits \<Rightarrow> frame get" where
  "decode_payload KSessionHello limits = read_bind get_u64 (\<lambda>session. read_return (SessionHello session))"
| "decode_payload KSessionAuth limits = decode_session_auth"
| "decode_payload KSessionReady limits = read_return SessionReady"
| "decode_payload KSessionClose limits =
     read_bind (convert close_reason_from_u8 get_u8) (\<lambda>reason. read_return (SessionClose reason))"
| "decode_payload KPathJoin limits = decode_path_join"
| "decode_payload KPathStatus limits =
     read_bind get_u16 (\<lambda>path. read_bind get_u64 (\<lambda>sequence.
     read_bind (convert path_usage_from_u8 get_u8) (\<lambda>usage. read_return (PathStatus path sequence usage))))"
| "decode_payload KPathDrain limits = read_bind get_u16 (\<lambda>path. read_return (PathDrain path))"
| "decode_payload KPathClose limits =
     read_bind get_u16 (\<lambda>path.
     read_bind (convert close_reason_from_u8 get_u8) (\<lambda>reason. read_return (PathClose path reason)))"
| "decode_payload KPathProofData limits =
     read_bind get_u16 (\<lambda>path. read_bind get_u64 (\<lambda>proof.
     read_bind (get_bytes_u32 (cl_max_payload_bytes limits)) (\<lambda>payload. read_return (PathProofData path proof payload))))"
| "decode_payload KPathProofAck limits =
     read_bind get_u16 (\<lambda>path. read_bind get_u64 (\<lambda>proof. read_bind get_u32 (\<lambda>payload_bytes.
       read_return (PathProofAck path proof payload_bytes))))"
| "decode_payload KPathCapacityData limits =
     read_bind get_u16 (\<lambda>path. read_bind get_u64 (\<lambda>measurement.
     read_bind (get_bytes_u32 (cl_max_payload_bytes limits)) (\<lambda>payload.
       read_return (PathCapacityData path measurement payload))))"
| "decode_payload KPathCapacityFinish limits =
     read_bind get_u16 (\<lambda>path. read_bind get_u64 (\<lambda>measurement. read_bind get_u64 (\<lambda>payload_bytes.
       read_return (PathCapacityFinish path measurement payload_bytes))))"
| "decode_payload KPathCapacityReceipt limits =
     read_bind get_u16 (\<lambda>path. read_bind get_u64 (\<lambda>measurement. read_bind get_u64 (\<lambda>received.
       read_return (PathCapacityReceipt path measurement received))))"
| "decode_payload KOpenStream limits = decode_open_stream limits"
| "decode_payload KOpenStreamRepair limits =
     read_bind get_u64 (\<lambda>stream. read_bind get_u64 (\<lambda>parent. read_return (OpenStreamRepair stream parent)))"
| "decode_payload KStreamReturnPlanFinal limits = decode_return_plan_final limits"
| "decode_payload KStreamData limits = decode_stream_data limits"
| "decode_payload KStreamAck limits = decode_ack_payload limits"
| "decode_payload KStreamRequalifyData limits = decode_requalify_data limits"
| "decode_payload KStreamRequalifyAck limits = decode_requalify_ack"
| "decode_payload KStreamMaxData limits =
     read_bind get_u64 (\<lambda>stream. read_bind get_u64 (\<lambda>max_offset. read_return (StreamMaxData stream max_offset)))"
| "decode_payload KStreamFeedbackProbe limits =
     read_bind get_u64 (\<lambda>stream. read_bind get_u64 (\<lambda>token. read_bind get_u64 (\<lambda>max_offset.
       read_return (StreamFeedbackProbe stream token max_offset))))"
| "decode_payload KStreamFeedbackReceipt limits =
     read_bind get_u64 (\<lambda>stream. read_bind get_u64 (\<lambda>token. read_return (StreamFeedbackReceipt stream token)))"
| "decode_payload KStreamFin limits =
     read_bind get_u64 (\<lambda>stream. read_bind get_u64 (\<lambda>final_offset. read_return (StreamFin stream final_offset)))"
| "decode_payload KStreamDetach limits = read_bind get_u64 (\<lambda>stream. read_return (StreamDetach stream))"
| "decode_payload KStreamReset limits =
     read_bind get_u64 (\<lambda>stream.
     read_bind (convert reset_reason_from_u8 get_u8) (\<lambda>reason. read_return (StreamReset stream reason)))"
| "decode_payload KOpenDatagramFlow limits =
     read_bind get_u64 (\<lambda>flow. read_bind (decode_target limits) (\<lambda>target. read_return (OpenDatagramFlow flow target)))"
| "decode_payload KDatagramData limits = decode_datagram_data limits"
| "decode_payload KDatagramClose limits = read_bind get_u64 (\<lambda>flow. read_return (DatagramClose flow))"
| "decode_payload KDatagramFeedback limits =
     read_bind get_u64 (\<lambda>flow.
     read_bind (decode_offset_ranges limits) (\<lambda>received. read_return (DatagramFeedback flow received)))"
| "decode_payload KPathMetrics limits = read_bind decode_path_metrics (\<lambda>metrics. read_return (PathMetrics metrics))"
| "decode_payload KPeerStatusRequest limits = read_bind get_u64 (\<lambda>request. read_return (PeerStatusRequest request))"
| "decode_payload KPeerStatusResponse limits = decode_peer_status_response limits"
| "decode_payload KOpenIpTunnel limits = read_bind get_u64 (\<lambda>tunnel. read_return (OpenIpTunnel tunnel))"
| "decode_payload KIpTunnelReady limits = decode_ip_tunnel_ready"
| "decode_payload KIpPacket limits = decode_ip_packet limits"
| "decode_payload KIpTunnelClose limits =
     read_bind get_u64 (\<lambda>tunnel.
     read_bind (convert close_reason_from_u8 get_u8) (\<lambda>reason. read_return (IpTunnelClose tunnel reason)))"
| "decode_payload KPing limits = read_bind get_u64 (\<lambda>nonce. read_return (Ping nonce))"
| "decode_payload KPong limits = read_bind get_u64 (\<lambda>nonce. read_return (Pong nonce))"

section \<open>Frames\<close>

text \<open>The header is written over the space reserved at the end of the buffer.\<close>

definition encode_frame_into :: "frame \<Rightarrow> codec_limits \<Rightarrow> bytes \<Rightarrow> codec_error + bytes" where
  "encode_frame_into f limits out =
     and_then (encode_payload f limits) (\<lambda>(kind, payload).
       if length payload > 4294967295 then Inl LengthOverflow
       else
         (case checked_add FRAME_HEADER_LEN (length payload) of
            None \<Rightarrow> Inl LengthOverflow
          | Some frame_len \<Rightarrow>
              if frame_len > cl_max_frame_bytes limits
              then Inl (FrameTooLarge frame_len (cl_max_frame_bytes limits))
              else Inr (out @ MAGIC @ [VERSION] @ [kind_to_u8 kind] @ be_bytes 4 (length payload) @ payload)))"

definition encode_frame :: "frame \<Rightarrow> codec_limits \<Rightarrow> codec_error + bytes" where
  "encode_frame f limits = encode_frame_into f limits []"

fun encode_frames_loop :: "frame list \<Rightarrow> codec_limits \<Rightarrow> bytes \<Rightarrow> codec_error + bytes" where
  "encode_frames_loop [] limits out = Inr out"
| "encode_frames_loop (f # fs) limits out =
     (case encode_frame_into f limits out of
        Inl e \<Rightarrow> Inl e
      | Inr out' \<Rightarrow>
          if length out' > cl_max_frame_bytes limits
          then Inl (FrameTooLarge (length out') (cl_max_frame_bytes limits))
          else encode_frames_loop fs limits out')"

definition encode_frames_into :: "frame list \<Rightarrow> codec_limits \<Rightarrow> bytes \<Rightarrow> codec_error + bytes" where
  "encode_frames_into frames limits out = encode_frames_loop frames limits []"

definition encode_frames :: "frame list \<Rightarrow> codec_limits \<Rightarrow> codec_error + bytes" where
  "encode_frames frames limits = encode_frames_into frames limits []"

definition decode_payload_len_from_header :: "bytes \<Rightarrow> codec_limits \<Rightarrow> codec_error + usize" where
  "decode_payload_len_from_header header limits =
     (if length header \<noteq> FRAME_HEADER_LEN then Inl UnexpectedEof
      else if bslice 0 4 header \<noteq> MAGIC then Inl InvalidMagic
      else if header ! 4 \<noteq> VERSION then Inl (UnsupportedVersion (header ! 4))
      else
        and_then (kind_from_u8 (header ! 5)) (\<lambda>_.
          let payload_len = be_nat (bslice 6 10 header)
          in case checked_add FRAME_HEADER_LEN payload_len of
               None \<Rightarrow> Inl LengthOverflow
             | Some frame_len \<Rightarrow>
                 if frame_len > cl_max_frame_bytes limits
                 then Inl (FrameTooLarge frame_len (cl_max_frame_bytes limits))
                 else Inr payload_len))"

definition decode_frame_bytes :: "bytes \<Rightarrow> codec_limits \<Rightarrow> codec_error + frame" where
  "decode_frame_bytes bs limits =
     (if length bs < FRAME_HEADER_LEN then Inl UnexpectedEof
      else if length bs > cl_max_frame_bytes limits then Inl (FrameTooLarge (length bs) (cl_max_frame_bytes limits))
      else
        and_then (decode_payload_len_from_header (bslice 0 FRAME_HEADER_LEN bs) limits) (\<lambda>payload_len.
          case checked_add FRAME_HEADER_LEN payload_len of
            None \<Rightarrow> Inl LengthOverflow
          | Some expected_len \<Rightarrow>
              if length bs < expected_len then Inl UnexpectedEof
              else if length bs > expected_len then Inl TrailingBytes
              else
                and_then (kind_from_u8 (bs ! 5)) (\<lambda>kind.
                and_then (decode_payload kind limits (with_source bs FRAME_HEADER_LEN (length bs))) (\<lambda>(f, r).
                and_then (finish r) (\<lambda>_. Inr f)))))"

text \<open>The body of the loop of \<open>decode_frames_bytes\<close>: the frame at \<open>pos\<close> and where it ends.\<close>

definition decode_frame_at :: "bytes \<Rightarrow> codec_limits \<Rightarrow> usize \<Rightarrow> codec_error + frame \<times> usize" where
  "decode_frame_at bs limits pos =
     (case checked_add pos FRAME_HEADER_LEN of
        None \<Rightarrow> Inl LengthOverflow
      | Some header_end \<Rightarrow>
          if header_end > length bs then Inl UnexpectedEof
          else
            and_then (decode_payload_len_from_header (bslice pos header_end bs) limits) (\<lambda>payload_len.
              case checked_add header_end payload_len of
                None \<Rightarrow> Inl LengthOverflow
              | Some frame_end \<Rightarrow>
                  if frame_end > length bs then Inl UnexpectedEof
                  else
                    and_then (kind_from_u8 (bs ! (pos + 5))) (\<lambda>kind.
                    and_then (decode_payload kind limits (with_source bs header_end frame_end)) (\<lambda>(f, r).
                    and_then (finish r) (\<lambda>_. Inr (f, frame_end))))))"

lemma decode_frame_at_moves: "decode_frame_at bs limits pos = Inr (f, e) \<Longrightarrow> pos < e \<and> e \<le> length bs"
  by (auto simp: decode_frame_at_def and_then_Inr_iff checked_add_def FRAME_HEADER_LEN_def
      split: option.splits if_splits prod.splits)

function decode_frames_from :: "bytes \<Rightarrow> codec_limits \<Rightarrow> usize \<Rightarrow> codec_error + frame list" where
  "decode_frames_from bs limits pos =
     (if pos < length bs then
        (case decode_frame_at bs limits pos of
           Inl e \<Rightarrow> Inl e
         | Inr fe \<Rightarrow>
             (case decode_frames_from bs limits (snd fe) of
                Inl e \<Rightarrow> Inl e
              | Inr fs \<Rightarrow> Inr (fst fe # fs)))
      else Inr [])"
  by pat_completeness auto
termination
proof (relation "measure (\<lambda>(bs, limits, pos). length bs - pos)")
  fix bs :: bytes and limits pos fe
  assume "pos < length bs" "decode_frame_at bs limits pos = Inr fe"
  then show "((bs, limits, snd fe), bs, limits, pos) \<in> measure (\<lambda>(bs, limits, pos). length bs - pos)"
    using decode_frame_at_moves [of bs limits pos "fst fe" "snd fe"] by (simp add: diff_less_mono2)
qed simp

declare decode_frames_from.simps [simp del]

definition decode_frames_bytes :: "bytes \<Rightarrow> codec_limits \<Rightarrow> codec_error + frame list" where
  "decode_frames_bytes bs limits = (if bs = [] then Inl UnexpectedEof else decode_frames_from bs limits 0)"

definition peer_status_response_path_limit :: "codec_limits \<Rightarrow> usize" where
  "peer_status_response_path_limit limits =
     (let frame_limit = saturating_sub (cl_max_frame_bytes limits)
            (FRAME_HEADER_LEN + PEER_STATUS_RESPONSE_FIXED_PAYLOAD_LEN) div PEER_PATH_STATUS_ENCODED_LEN
      in min (min frame_limit (cl_max_paths limits)) 65535)"

end
