(* ===== verification/Codec_Field_Laws.thy ===== *)
theory Codec_Field_Laws
  imports Codec_Fields
begin

text \<open>
  The fields of \<open>Codec_Fields\<close> keep the contract \<open>byte_codec\<close>: each interpretation gives the two
  directions that the frame level composes.
\<close>

lemma accepts_error: "accepts (\<lambda>r. Inl e) Q"
  by (simp add: accepts_def)

lemma yields_eq: "yields p bs y \<Longrightarrow> y = x \<Longrightarrow> yields p bs x"
  by simp

lemma yields_bind_nil: "yields p bs x \<Longrightarrow> yields (q x) [] y \<Longrightarrow> yields (read_bind p q) bs y"
  using yields_bind [of p bs x q "[]" y] by simp

section \<open>Enumerations\<close>

lemma enum_codec:
  assumes "\<And>x. from_u8 (to_u8 x) = Inr x" and "\<And>b x. from_u8 b = Inr x \<Longrightarrow> to_u8 x = b"
  shows "byte_codec (\<lambda>x. put_u8 (to_u8 x)) (convert from_u8 get_u8) (\<lambda>_. True)"
proof
  show "yields (convert from_u8 get_u8) (put_u8 (to_u8 x)) x" for x
    by (rule yields_convert [OF u8.get_put]) (simp_all add: assms(1))
  show "accepts (convert from_u8 get_u8) (\<lambda>x bs. True \<and> bs = put_u8 (to_u8 x))"
    by (rule accepts_convert, rule accepts_weaken [OF u8.put_get]) (simp add: assms(2))
qed

interpretation underlay: byte_codec "\<lambda>x. put_u8 (underlay_to_u8 x)" "convert underlay_from_u8 get_u8" "\<lambda>_. True"
proof (rule enum_codec)
  show "underlay_from_u8 (underlay_to_u8 x) = Inr x" for x by (cases x) (simp_all add: underlay_from_u8_def)
qed (auto simp: underlay_from_u8_def split: if_splits)

interpretation direction: byte_codec "\<lambda>x. put_u8 (path_metric_direction_to_u8 x)"
  "convert path_metric_direction_from_u8 get_u8" "\<lambda>_. True"
proof (rule enum_codec)
  show "path_metric_direction_from_u8 (path_metric_direction_to_u8 x) = Inr x" for x
    by (cases x) (simp_all add: path_metric_direction_from_u8_def)
qed (auto simp: path_metric_direction_from_u8_def split: if_splits)

interpretation flag: byte_codec "\<lambda>x. put_u8 (bool_to_u8 x)" get_bool "\<lambda>_. True"
  unfolding get_bool_def
  by (rule enum_codec) (auto simp: decode_bool_def bool_to_u8_def split: if_splits)

interpretation usage: byte_codec "\<lambda>x. put_u8 (path_usage_to_u8 x)" "convert path_usage_from_u8 get_u8" "\<lambda>_. True"
proof (rule enum_codec)
  show "path_usage_from_u8 (path_usage_to_u8 x) = Inr x" for x by (cases x) (simp_all add: path_usage_from_u8_def)
qed (auto simp: path_usage_from_u8_def split: if_splits)

interpretation attach_phase: byte_codec "\<lambda>x. put_u8 (stream_attachment_phase_to_u8 x)"
  "convert stream_attachment_phase_from_u8 get_u8" "\<lambda>_. True"
proof (rule enum_codec)
  show "stream_attachment_phase_from_u8 (stream_attachment_phase_to_u8 x) = Inr x" for x
    by (cases x) (simp_all add: stream_attachment_phase_from_u8_def)
qed (auto simp: stream_attachment_phase_from_u8_def split: if_splits)

interpretation status_code: byte_codec "\<lambda>x. put_u8 (peer_status_code_to_u8 x)"
  "convert peer_status_code_from_u8 get_u8" "\<lambda>_. True"
proof (rule enum_codec)
  show "peer_status_code_from_u8 (peer_status_code_to_u8 x) = Inr x" for x
    by (cases x) (simp_all add: peer_status_code_from_u8_def)
qed (auto simp: peer_status_code_from_u8_def split: if_splits)

interpretation path_state: byte_codec "\<lambda>x. put_u8 (peer_path_state_to_u8 x)"
  "convert peer_path_state_from_u8 get_u8" "\<lambda>_. True"
proof (rule enum_codec)
  show "peer_path_state_from_u8 (peer_path_state_to_u8 x) = Inr x" for x
    by (cases x) (simp_all add: peer_path_state_from_u8_def)
qed (auto simp: peer_path_state_from_u8_def split: if_splits)

interpretation close_code: byte_codec "\<lambda>x. put_u8 (close_reason_to_u8 x)"
  "convert close_reason_from_u8 get_u8" "\<lambda>_. True"
proof (rule enum_codec)
  show "close_reason_from_u8 (close_reason_to_u8 x) = Inr x" for x
    by (cases x) (simp_all add: close_reason_from_u8_def)
qed (auto simp: close_reason_from_u8_def split: if_splits)

interpretation reset_code: byte_codec "\<lambda>x. put_u8 (reset_reason_to_u8 x)"
  "convert reset_reason_from_u8 get_u8" "\<lambda>_. True"
proof (rule enum_codec)
  show "reset_reason_from_u8 (reset_reason_to_u8 x) = Inr x" for x
    by (cases x) (simp_all add: reset_reason_from_u8_def)
qed (auto simp: reset_reason_from_u8_def split: if_splits)

interpretation demand: byte_codec encode_stream_demand_hint decode_stream_demand_hint "\<lambda>_. True"
  unfolding encode_stream_demand_hint_def decode_stream_demand_hint_def
  by (rule enum_codec) (auto split: if_splits stream_demand_hint.splits)

section \<open>Credential identifiers and byte arrays\<close>

definition put_credential :: "rust_string \<Rightarrow> bytes" where
  "put_credential s = put_u8 (of_nat (length s)) @ s"

lemma utf8_valid_ascii: "list_all (\<lambda>b. b < 0x80) s \<Longrightarrow> utf8_valid s"
  by (induction s) auto

lemma canonical_facts:
  assumes "credential_id_is_canonical s"
  shows "length s \<le> 64" "utf8_valid s"
proof -
  show "length s \<le> 64" using assms by (auto simp: credential_id_is_canonical_def MAX_CREDENTIAL_ID_BYTES_def split: if_splits)
  have low: "b < 0x80" if "is_ascii_lowercase b \<or> is_ascii_digit b \<or> b \<in> {0x2E, 0x5F, 0x2D}" for b :: byte
    using that by (auto simp: is_ascii_lowercase_def is_ascii_digit_def word_le_nat_alt word_less_nat_alt)
  have "list_all (\<lambda>b. is_ascii_lowercase b \<or> is_ascii_digit b \<or> b \<in> {0x2E, 0x5F, 0x2D}) s"
    using assms by (cases s) (auto simp: credential_id_is_canonical_def split: if_splits)
  then have "list_all (\<lambda>b. b < 0x80) s" using low by (auto simp: list_all_iff)
  then show "utf8_valid s" by (rule utf8_valid_ascii)
qed

lemma encode_credential_id_eq:
  "encode_credential_id s = (if credential_id_is_canonical s then Inr (put_credential s) else Inl InvalidCredentialId)"
  using canonical_facts(1) [of s] by (auto simp: encode_credential_id_def put_credential_def)

lemma utf8_exact_accepts:
  "accepts (convert (\<lambda>s. if utf8_valid s then Inr s else Inl InvalidUtf8) (get_exact n)) (\<lambda>x bs. length x = n \<and> bs = x)"
  by (rule accepts_convert, rule accepts_weaken [OF get_exact_accepts]) (simp split: if_splits)

lemma utf8_exact_yields:
  "length s = n \<Longrightarrow> utf8_valid s \<Longrightarrow>
    yields (convert (\<lambda>s. if utf8_valid s then Inr s else Inl InvalidUtf8) (get_exact n)) s s"
  by (rule yields_convert [OF get_exact_yields]) simp_all

interpretation credential: byte_codec put_credential decode_credential_id credential_id_is_canonical
proof unfold_locales
  fix s assume s: "credential_id_is_canonical s"
  have len: "unat (of_nat (length s) :: byte) = length s"
    using canonical_facts(1) [OF s] by (simp add: unat_of_nat_byte)
  have "yields (require (length s \<le> MAX_CREDENTIAL_ID_BYTES) InvalidCredentialId
         (read_bind (convert (\<lambda>s. if utf8_valid s then Inr s else Inl InvalidUtf8) (get_exact (length s)))
            (\<lambda>s. require (credential_id_is_canonical s) InvalidCredentialId (read_return s)))) s s"
    using canonical_facts [OF s] s
    by (intro yields_require yields_last_require utf8_exact_yields) (simp_all add: MAX_CREDENTIAL_ID_BYTES_def)
  then show "yields decode_credential_id (put_credential s) s"
    unfolding decode_credential_id_def put_credential_def Let_def
    by (intro yields_bind [OF u8.get_put]) (simp_all add: len)
next
  show "accepts decode_credential_id (\<lambda>x bs. credential_id_is_canonical x \<and> bs = put_credential x)"
    unfolding decode_credential_id_def Let_def
    by (rule accepts_bind [OF u8.put_get], rule accepts_require, rule accepts_bind [OF utf8_exact_accepts],
        rule accepts_require, rule accepts_return) (auto simp: put_credential_def)
qed

interpretation nonce: byte_codec encode_nonce decode_nonce "\<lambda>bs. length bs = 16"
  using array.get_put [of _ 16] array.put_get [of 16]
  by unfold_locales (simp_all add: encode_nonce_def decode_nonce_def)

interpretation tag: byte_codec encode_auth_tag decode_auth_tag "\<lambda>bs. length bs = 32"
  using array.get_put [of _ 32] array.put_get [of 32]
  by unfold_locales (simp_all add: encode_auth_tag_def decode_auth_tag_def)

section \<open>Targets\<close>

fun put_target :: "target_addr \<Rightarrow> bytes" where
  "put_target (Domain host port) = put_u8 1 @ put_string host @ put_u16 port"
| "put_target (Ip (SockV4 ip port)) = put_u8 2 @ ip @ put_u16 port"
| "put_target (Ip (SockV6 ip port flowinfo scope_id)) = put_u8 3 @ ip @ put_u16 port"

text \<open>The ranges of the Rust types: string contents, array lengths, integer widths.\<close>

fun target_typed :: "target_addr \<Rightarrow> bool" where
  "target_typed (Domain host port) \<longleftrightarrow> utf8_valid host \<and> fits 16 port"
| "target_typed (Ip (SockV4 ip port)) \<longleftrightarrow> length ip = 4 \<and> fits 16 port"
| "target_typed (Ip (SockV6 ip port flowinfo scope_id)) \<longleftrightarrow>
     length ip = 16 \<and> fits 16 port \<and> fits 32 flowinfo \<and> fits 32 scope_id"

fun target_sendable :: "codec_limits \<Rightarrow> target_addr \<Rightarrow> bool" where
  "target_sendable limits (Domain host port) \<longleftrightarrow>
     length host \<le> cl_max_host_bytes limits \<and> length host \<le> 65535 \<and> port \<noteq> 0"
| "target_sendable limits (Ip addr) \<longleftrightarrow> sock_port addr \<noteq> 0"

text \<open>The wire format has no place for the flow label and the scope of an IPv6 socket address.\<close>

fun wire_target :: "target_addr \<Rightarrow> target_addr" where
  "wire_target (Domain host port) = Domain host port"
| "wire_target (Ip (SockV4 ip port)) = Ip (SockV4 ip port)"
| "wire_target (Ip (SockV6 ip port flowinfo scope_id)) = Ip (SockV6 ip port 0 0)"

lemma encode_target_Inr_iff: "encode_target t limits = Inr bs \<longleftrightarrow> target_sendable limits t \<and> bs = put_target t"
proof (cases t)
  case (Domain host port)
  then show ?thesis by (auto simp: encode_host_def put_string_def)
next
  case (Ip addr)
  then show ?thesis by (cases addr) auto
qed

lemma put_wire_target [simp]: "put_target (wire_target t) = put_target t"
  by (cases t rule: wire_target.cases) simp_all

lemma wire_target_simps [simp]:
  "target_typed t \<Longrightarrow> target_typed (wire_target t)" "target_sendable limits (wire_target t) = target_sendable limits t"
  "wire_target (wire_target t) = wire_target t"
  by (cases t rule: wire_target.cases; simp)+

lemma fits_16_iff: "fits 16 n \<longleftrightarrow> n \<le> 65535"
  by (auto simp: fits_def)

interpretation target: byte_codec put_target "decode_target limits"
  "\<lambda>t. target_typed t \<and> target_sendable limits t \<and> wire_target t = t" for limits
proof unfold_locales
  fix t assume t: "target_typed t \<and> target_sendable limits t \<and> wire_target t = t"
  show "yields (decode_target limits) (put_target t) t"
  proof (cases t rule: wire_target.cases)
    case (1 host port)
    then show ?thesis unfolding decode_target_def using t
      by (auto intro!: yields_bind [OF u8.get_put] yields_bind [OF utf8_string.get_put]
            yields_last_require [OF u16.get_put] simp: fits_16_iff)
  next
    case (2 ip port)
    then show ?thesis unfolding decode_target_def using t
      by (auto intro!: yields_bind [OF u8.get_put] yields_bind [OF array.get_put [unfolded id_def]]
            yields_last_require [OF u16.get_put])
  next
    case (3 ip port flowinfo scope_id)
    then show ?thesis unfolding decode_target_def using t
      by (auto intro!: yields_bind [OF u8.get_put] yields_bind [OF array.get_put [unfolded id_def]]
            yields_last_require [OF u16.get_put])
  qed
next
  show "accepts (decode_target limits)
     (\<lambda>x bs. (target_typed x \<and> target_sendable limits x \<and> wire_target x = x) \<and> bs = put_target x)"
    unfolding decode_target_def
    by (rule accepts_bind [OF u8.put_get])
      (auto intro!: accepts_bind [OF utf8_string.put_get] accepts_bind [OF array.put_get]
        accepts_bind [OF u16.put_get] accepts_require accepts_return accepts_error simp: fits_16_iff)
qed

section \<open>Path metrics and delivery samples\<close>

definition metrics_typed :: "path_metrics \<Rightarrow> bool" where
  "metrics_typed m \<longleftrightarrow>
     fits 16 (pm_path_id m) \<and> fits 64 (pm_metric_epoch m) \<and> fits 32 (pm_metric_age_us m)
     \<and> fits 64 (pm_rate_valid_for_us m) \<and> fits 32 (pm_srtt_us m) \<and> fits 32 (pm_rttvar_us m)
     \<and> fits 32 (pm_jitter_us m) \<and> fits 64 (pm_delivery_rate_bps m) \<and> fits 64 (pm_pacing_rate_bps m)
     \<and> fits 32 (pm_loss_ppm m) \<and> fits 32 (pm_ecn_ppm m) \<and> fits 64 (pm_bytes_in_flight m)
     \<and> fits 64 (pm_queue_bytes m) \<and> fits 64 (pm_inflight_limit_bytes m) \<and> fits 64 (pm_inflight_hi_bytes m)
     \<and> fits 32 (pm_confidence_ppm m) \<and> fits 32 (pm_data_sample_count m) \<and> fits 64 (pm_data_sample_bytes m)"

lemma consistent_rate: "metrics_consistent m \<Longrightarrow> min (pm_rate_valid_for_us m) PATH_METRICS_MAX_RATE_VALID_FOR_US = pm_rate_valid_for_us m"
  by (simp add: metrics_consistent_def)

lemmas metric_yields = u8.get_put [OF TrueI] u16.get_put u32.get_put u64.get_put underlay.get_put [OF TrueI]
  direction.get_put [OF TrueI] flag.get_put [OF TrueI]

lemmas metric_accepts = u8.put_get u16.put_get u32.put_get u64.put_get underlay.put_get direction.put_get flag.put_get

interpretation metrics: byte_codec encode_path_metrics decode_path_metrics
  "\<lambda>m. metrics_typed m \<and> metrics_consistent m"
proof unfold_locales
  fix m assume m: "metrics_typed m \<and> metrics_consistent m"
  note F = m [unfolded metrics_typed_def]
  show "yields decode_path_metrics (encode_path_metrics m) m"
    unfolding decode_path_metrics_def encode_path_metrics_def Let_def consistent_rate [OF m [THEN conjunct2]]
    apply (rule yields_eq)
    apply ((rule yields_bind, rule metric_yields, (simp add: F; fail)?)+)
    apply (rule yields_last_require, rule metric_yields)
    using m by (simp_all add: metrics_consistent_def)
next
  show "accepts decode_path_metrics (\<lambda>x bs. (metrics_typed x \<and> metrics_consistent x) \<and> bs = encode_path_metrics x)"
    unfolding decode_path_metrics_def Let_def
    apply (rule accepts_bind, rule metric_accepts)+
    apply (rule accepts_require, rule accepts_return)
    apply (frule consistent_rate, simp add: metrics_typed_def encode_path_metrics_def)
    done
qed

definition delivery_typed :: "native_delivery_snapshot option \<Rightarrow> bool" where
  "delivery_typed sample \<longleftrightarrow>
     (case sample of None \<Rightarrow> True
      | Some s \<Rightarrow> fits 64 (nd_epoch s) \<and> fits 64 (nd_sampled_at_us s) \<and> fits 64 (nd_acked_bytes s))"

lemma direction_from_u8: "path_metric_direction_from_u8 b = Inr d \<longleftrightarrow> b = path_metric_direction_to_u8 d"
  by (cases d) (auto simp: path_metric_direction_from_u8_def)

lemma direction_not_0: "path_metric_direction_to_u8 d \<noteq> 0"
  by (cases d) simp_all

interpretation delivery: byte_codec encode_native_delivery decode_native_delivery delivery_typed
proof unfold_locales
  fix sample assume d: "delivery_typed sample"
  show "yields decode_native_delivery (encode_native_delivery sample) sample"
  proof (cases sample)
    case None
    show ?thesis unfolding decode_native_delivery_def encode_native_delivery_def None option.case
      by ((rule yields_bind, rule metric_yields, (simp; fail)?)+, rule yields_bind_nil, rule metric_yields)
        (simp_all add: yields_require yields_return)
  next
    case (Some s)
    then have F: "fits 64 (nd_epoch s)" "fits 64 (nd_sampled_at_us s)" "fits 64 (nd_acked_bytes s)"
      using d by (simp_all add: delivery_typed_def)
    have dir: "path_metric_direction_from_u8 (path_metric_direction_to_u8 (nd_direction s)) = Inr (nd_direction s)"
      by (simp add: direction_from_u8)
    show ?thesis unfolding decode_native_delivery_def encode_native_delivery_def Some option.case
      by ((rule yields_bind, rule metric_yields, (simp add: F; fail)?)+, rule yields_bind_nil, rule metric_yields)
        (simp_all add: F dir direction_not_0 yields_eq [OF yields_return])
  qed
next
  show "accepts decode_native_delivery (\<lambda>x bs. delivery_typed x \<and> bs = encode_native_delivery x)"
    unfolding decode_native_delivery_def
    apply (rule accepts_bind, rule metric_accepts)+
    apply (auto intro!: accepts_require accepts_return accepts_error split: sum.splits
        simp: direction_from_u8 delivery_typed_def encode_native_delivery_def)
    done
qed

definition peer_path_ok :: "peer_path_status \<Rightarrow> bool" where
  "peer_path_ok p \<longleftrightarrow>
     metrics_typed (pp_metrics p) \<and> metrics_consistent (pp_metrics p) \<and> delivery_typed (pp_native_delivery p)"

interpretation peer_path: byte_codec encode_peer_path decode_peer_path peer_path_ok
proof unfold_locales
  fix p assume p: "peer_path_ok p"
  show "yields decode_peer_path (encode_peer_path p) p"
    unfolding decode_peer_path_def encode_peer_path_def using p
    by (intro yields_eq [OF yields_bind [OF path_state.get_put yields_bind [OF usage.get_put
          yields_bind [OF metrics.get_put yields_last [OF delivery.get_put]]]]]) (simp_all add: peer_path_ok_def)
next
  show "accepts decode_peer_path (\<lambda>x bs. peer_path_ok x \<and> bs = encode_peer_path x)"
    unfolding decode_peer_path_def
    by (rule accepts_bind [OF path_state.put_get], rule accepts_bind [OF usage.put_get],
        rule accepts_bind [OF metrics.put_get], rule accepts_bind [OF delivery.put_get], rule accepts_return)
      (simp add: peer_path_ok_def encode_peer_path_def)
qed

section \<open>Ranges\<close>

definition range_ok :: "offset_range \<Rightarrow> bool" where
  "range_ok r \<longleftrightarrow> range_start r < range_end r \<and> fits 64 (range_end r)"

definition put_range :: "offset_range \<Rightarrow> bytes" where
  "put_range r = put_u64 (range_start r) @ put_u64 (range_end r)"

lemma fits_le: "fits w n \<Longrightarrow> m \<le> n \<Longrightarrow> fits w m"
  by (simp add: fits_def)

lemma range_ok_start: "range_ok r \<Longrightarrow> fits 64 (range_start r)"
  by (auto simp: range_ok_def intro: fits_le)

lemma read_range_yields: "s < e \<Longrightarrow> yields (read_range s e) [] \<lparr>range_start = s, range_end = e\<rparr>"
  by (simp add: read_range_def OffsetRange_new_def yields_return)

lemma read_range_accepts:
  "accepts (read_range s e) (\<lambda>r bs. s < e \<and> bs = [] \<and> r = \<lparr>range_start = s, range_end = e\<rparr>)"
  by (simp add: read_range_def OffsetRange_new_def accepts_error accepts_return)

interpretation range_field: byte_codec put_range get_offset_range range_ok
proof unfold_locales
  fix r assume r: "range_ok r"
  show "yields get_offset_range (put_range r) r"
    unfolding get_offset_range_def put_range_def using r range_ok_start [OF r]
    by (intro yields_bind [OF u64.get_put] yields_bind_nil [OF u64.get_put] yields_eq [OF read_range_yields])
      (simp_all add: range_ok_def)
next
  show "accepts get_offset_range (\<lambda>x bs. range_ok x \<and> bs = put_range x)"
    unfolding get_offset_range_def
    by (rule accepts_bind [OF u64.put_get], rule accepts_bind [OF u64.put_get],
        rule accepts_weaken [OF read_range_accepts]) (auto simp: range_ok_def put_range_def)
qed

lemma put_offset_ranges_eq:
  "put_offset_ranges rs = (if list_ex range_is_empty rs then Inl InvalidRange else Inr (concat (map put_range rs)))"
  by (induction rs) (auto simp: put_range_def [abs_def] and_then_def)

definition ranges_ok :: "offset_range list \<Rightarrow> bool" where
  "ranges_ok rs \<longleftrightarrow> list_all range_ok rs"

text \<open>The range vector as the wire carries it, after the count.\<close>

definition put_ranges :: "offset_range list \<Rightarrow> bytes" where
  "put_ranges rs = put_u16 (length rs) @ concat (map put_range rs)"

interpretation range_list: byte_codec put_ranges "decode_offset_ranges limits"
  "\<lambda>rs. ranges_ok rs \<and> length rs \<le> cl_max_ack_ranges limits \<and> fits 16 (length rs)" for limits
proof unfold_locales
  fix rs assume "ranges_ok rs \<and> length rs \<le> cl_max_ack_ranges limits \<and> fits 16 (length rs)"
  then show "yields (decode_offset_ranges limits) (put_ranges rs) rs"
    unfolding decode_offset_ranges_def put_ranges_def
    by (intro yields_bind [OF u16.get_put] yields_require range_field.get_times_put) (simp_all add: ranges_ok_def)
next
  show "accepts (decode_offset_ranges limits)
     (\<lambda>x bs. (ranges_ok x \<and> length x \<le> cl_max_ack_ranges limits \<and> fits 16 (length x)) \<and> bs = put_ranges x)"
    unfolding decode_offset_ranges_def
    by (rule accepts_bind [OF u16.put_get], rule accepts_require, rule accepts_weaken [OF range_field.put_get_times])
      (auto simp: ranges_ok_def put_ranges_def)
qed

section \<open>Acknowledgements\<close>

fun ascending :: "u64 \<Rightarrow> offset_range list \<Rightarrow> bool" where
  "ascending previous_end [] = True"
| "ascending previous_end (r # rs) \<longleftrightarrow>
     previous_end \<le> range_start r \<and> range_start r < range_end r \<and> ascending (range_end r) rs"

fun packed_bytes :: "u64 \<Rightarrow> offset_range list \<Rightarrow> bytes" where
  "packed_bytes previous_end [] = []"
| "packed_bytes previous_end (r # rs) =
     put_ack_varint (range_start r - previous_end) @ put_ack_varint (range_end r - range_start r)
     @ packed_bytes (range_end r) rs"

lemma put_ack_ranges_eq:
  "put_ack_ranges packed previous_end rs =
     (if list_ex range_is_empty rs then Inl InvalidRange
      else Inr (if packed then packed_bytes previous_end rs else concat (map put_range rs)))"
proof (induction rs arbitrary: previous_end)
  case (Cons r rs)
  then show ?case by (cases packed) (auto simp: put_range_def [of r] and_then_def)
qed simp

lemma packed_len_from_eq:
  "list_all (\<lambda>r. fits 64 (range_end r)) rs \<Longrightarrow>
    packed_len_from previous_end len rs =
      (if ascending previous_end rs then Some (len + length (packed_bytes previous_end rs)) else None)"
proof (induction rs arbitrary: previous_end len)
  case (Cons r rs)
  have e: "fits 64 (range_end r)" using Cons.prems by simp
  show ?case
  proof (cases "previous_end \<le> range_start r \<and> range_start r < range_end r")
    case True
    then have "fits 64 (range_start r - previous_end)" "fits 64 (range_end r - range_start r)"
      using e by (auto intro: fits_le)
    then show ?thesis using True Cons by (simp add: range_is_empty_def ack_varint_len_exact)
  next
    case False
    then show ?thesis by (auto simp: range_is_empty_def)
  qed
qed simp

lemma packed_bounds_yields:
  assumes "previous_end \<le> s" "s \<le> e" "fits 64 e"
  shows "yields (get_packed_bounds previous_end) (put_ack_varint (s - previous_end) @ put_ack_varint (e - s)) (s, e)"
proof -
  have f: "fits 64 (s - previous_end)" "fits 64 (e - s)" "s \<le> u64_max" "e \<le> u64_max"
    using assms fits_64_iff by (auto intro: fits_le)
  have "yields (read_bind get_ack_varint (\<lambda>len. case checked_add s len of None \<Rightarrow> (\<lambda>r. Inl InvalidRange) | Some e \<Rightarrow> read_return (s, e)))
      (put_ack_varint (e - s)) (s, e)"
    using f assms by (intro yields_bind_nil [OF varint.get_put]) (simp_all add: checked_add_def yields_return)
  then show ?thesis
    unfolding get_packed_bounds_def using f assms
    by (intro yields_bind [OF varint.get_put]) (simp_all add: checked_add_def)
qed

lemma packed_bounds_accepts:
  "accepts (get_packed_bounds previous_end)
     (\<lambda>(s, e) bs. previous_end \<le> s \<and> s \<le> e \<and> fits 64 e
        \<and> bs = put_ack_varint (s - previous_end) @ put_ack_varint (e - s))"
  unfolding get_packed_bounds_def
  apply (rule accepts_bind [OF varint.put_get])
  apply (auto split: option.splits intro!: accepts_error)
  apply (rule accepts_bind [OF varint.put_get])
  apply (auto split: option.splits intro!: accepts_error accepts_return simp: checked_add_Some_iff fits_64_iff)
  done

lemma plain_bounds_yields:
  assumes "fits 64 s" "fits 64 e"
  shows "yields get_plain_bounds (put_u64 s @ put_u64 e) (s, e)"
  unfolding get_plain_bounds_def by (rule yields_bind [OF u64.get_put [OF assms(1)]], rule yields_last [OF u64.get_put [OF assms(2)]])

lemma plain_bounds_accepts:
  "accepts get_plain_bounds (\<lambda>(s, e) bs. fits 64 s \<and> fits 64 e \<and> bs = put_u64 s @ put_u64 e)"
  unfolding get_plain_bounds_def
  by (rule accepts_bind [OF u64.put_get], rule accepts_bind [OF u64.put_get], rule accepts_return) simp

definition ack_range_bytes :: "bool \<Rightarrow> u64 \<Rightarrow> offset_range list \<Rightarrow> bytes" where
  "ack_range_bytes packed previous_end rs =
     (if packed then packed_bytes previous_end rs else concat (map put_range rs))"

lemma decode_ack_ranges_yields:
  "ranges_ok rs \<Longrightarrow> packed \<longrightarrow> ascending previous_end rs \<Longrightarrow>
    yields (decode_ack_ranges (length rs) packed previous_end) (ack_range_bytes packed previous_end rs) rs"
proof (induction rs arbitrary: previous_end)
  case Nil
  then show ?case by (simp add: ack_range_bytes_def yields_return)
next
  case (Cons r rs)
  have r: "range_start r < range_end r" "fits 64 (range_end r)" "fits 64 (range_start r)" "ranges_ok rs"
    using Cons.prems(1) range_ok_start [of r] by (simp_all add: ranges_ok_def range_ok_def)
  let ?b = "if packed then put_ack_varint (range_start r - previous_end) @ put_ack_varint (range_end r - range_start r)
            else put_u64 (range_start r) @ put_u64 (range_end r)"
  have bounds: "yields (if packed then get_packed_bounds previous_end else get_plain_bounds) ?b (range_start r, range_end r)"
    using Cons.prems(2) r packed_bounds_yields [of previous_end "range_start r" "range_end r"]
      plain_bounds_yields [OF r(3,2)] by simp
  have "yields (read_bind (decode_ack_ranges (length rs) packed (range_end r)) (\<lambda>ranges. read_return (r # ranges)))
      (ack_range_bytes packed (range_end r) rs) (r # rs)"
    by (rule yields_last [OF Cons.IH]) (use Cons.prems(2) r(4) in simp_all)
  then have "yields (read_bind (read_range (range_start r) (range_end r)) (\<lambda>rng.
        read_bind (decode_ack_ranges (length rs) packed (range_end r)) (\<lambda>ranges. read_return (rng # ranges))))
      ([] @ ack_range_bytes packed (range_end r) rs) (r # rs)"
    by (rule yields_bind [OF yields_eq [OF read_range_yields [OF r(1)]], rotated]) simp
  then have "yields (decode_ack_ranges (Suc (length rs)) packed previous_end) (?b @ ack_range_bytes packed (range_end r) rs) (r # rs)"
    unfolding decode_ack_ranges.simps by (intro yields_bind [OF bounds]) simp
  moreover have "?b @ ack_range_bytes packed (range_end r) rs = ack_range_bytes packed previous_end (r # rs)"
    by (simp add: ack_range_bytes_def put_range_def)
  ultimately show ?case by simp
qed

lemma decode_ack_ranges_accepts:
  "accepts (decode_ack_ranges n packed previous_end)
     (\<lambda>rs bs. length rs = n \<and> ranges_ok rs \<and> (packed \<longrightarrow> ascending previous_end rs)
        \<and> bs = ack_range_bytes packed previous_end rs)"
proof (induction n arbitrary: previous_end)
  case 0
  show ?case unfolding decode_ack_ranges.simps by (rule accepts_return) (simp add: ranges_ok_def ack_range_bytes_def)
next
  case (Suc n)
  have bounds: "accepts (if packed then get_packed_bounds previous_end else get_plain_bounds)
      (\<lambda>(s, e) bs. fits 64 e \<and> (packed \<longrightarrow> previous_end \<le> s)
        \<and> bs = (if packed then put_ack_varint (s - previous_end) @ put_ack_varint (e - s) else put_u64 s @ put_u64 e))"
    by (auto intro: accepts_weaken [OF packed_bounds_accepts] accepts_weaken [OF plain_bounds_accepts])
  show ?case unfolding decode_ack_ranges.simps
  proof (rule accepts_bind [OF bounds])
    fix x b
    assume x: "(\<lambda>(s, e) bs. fits 64 e \<and> (packed \<longrightarrow> previous_end \<le> s)
        \<and> bs = (if packed then put_ack_varint (s - previous_end) @ put_ack_varint (e - s) else put_u64 s @ put_u64 e)) x b"
    obtain s e where se: "x = (s, e)" by (cases x)
    show "accepts ((\<lambda>(start, e). read_bind (read_range start e) (\<lambda>rng.
          read_bind (decode_ack_ranges n packed e) (\<lambda>ranges. read_return (rng # ranges)))) x)
        (\<lambda>rs bs. length rs = Suc n \<and> ranges_ok rs \<and> (packed \<longrightarrow> ascending previous_end rs)
          \<and> b @ bs = ack_range_bytes packed previous_end rs)"
      unfolding se prod.case using x se
      by (intro accepts_bind [OF read_range_accepts] accepts_bind [OF Suc.IH] accepts_return)
        (auto simp: ranges_ok_def range_ok_def ack_range_bytes_def put_range_def)
  qed
qed

lemma ack_flags_decode:
  "and (ack_flags scope packed) 1 \<noteq> 0 \<longleftrightarrow> scope \<noteq> None"
  "and (ack_flags scope packed) 2 \<noteq> 0 \<longleftrightarrow> packed"
  "and (ack_flags scope packed) (not 3) = 0"
  by (cases scope; cases packed; simp add: ack_flags_def bool_to_u8_def)+

lemma ack_flags_encode:
  assumes "and flags (not 3) = 0"
  shows "flags = ack_flags (if and flags 1 \<noteq> 0 then Some x else None) (and flags 2 \<noteq> 0)"
proof -
  have "flags = or (and flags m) (and flags (not m))" for m by (simp flip: bit.conj_disj_distrib)
  from this [of 3] have "flags = and flags 3" using assms by simp
  moreover have "(3 :: byte) = mask 2" by (simp add: mask_eq_exp_minus_1)
  ultimately have "unat flags = unat (take_bit 2 flags)" by (simp only: take_bit_eq_mask)
  then have "unat flags = take_bit 2 (unat flags)" by (simp only: unsigned_take_bit_eq)
  then have "unat flags < 4" by (metis take_bit_nat_less_exp power2_eq_square mult_2 numeral_Bit0 numeral_code(2))
  then consider "unat flags = 0" | "unat flags = 1" | "unat flags = 2" | "unat flags = 3" by linarith
  then have "flags \<in> {0, 1, 2, 3}" by cases (simp_all add: word_unat_eq_iff)
  then show ?thesis by (auto simp: ack_flags_def bool_to_u8_def)
qed

definition put_ack :: "bool \<Rightarrow> stream_id \<Rightarrow> u64 option \<Rightarrow> offset_range list \<Rightarrow> bytes" where
  "put_ack packed stream scope rs =
     put_u64 stream @ put_u8 (ack_flags scope packed) @ put_u16 (length rs)
     @ (case scope of None \<Rightarrow> [] | Some start \<Rightarrow> put_ack_varint start) @ ack_range_bytes packed 0 rs"

definition scope_ok :: "u64 option \<Rightarrow> offset_range list \<Rightarrow> bool" where
  "scope_ok scope rs \<longleftrightarrow> (\<forall>start. scope = Some start \<longrightarrow> fits 64 start \<and> list_ex (\<lambda>r. start < range_end r) rs)"

definition ack_ok :: "codec_limits \<Rightarrow> stream_id \<Rightarrow> u64 option \<Rightarrow> offset_range list \<Rightarrow> bool" where
  "ack_ok limits stream scope rs \<longleftrightarrow>
     fits 64 stream \<and> ranges_ok rs \<and> length rs \<le> cl_max_ack_ranges limits \<and> fits 16 (length rs) \<and> scope_ok scope rs"

definition prefers_packed :: "offset_range list \<Rightarrow> bool" where
  "prefers_packed rs \<longleftrightarrow> ascending 0 rs \<and> length (packed_bytes 0 rs) < length rs * 16"

lemma validate_ack_scope_Inr: "validate_ack_scope scope rs = Inr u \<longleftrightarrow> (\<forall>start. scope = Some start \<longrightarrow> list_ex (\<lambda>r. start < range_end r) rs)"
  by (cases scope) (auto simp: validate_ack_scope_def)

lemma decode_scope_yields:
  "scope_ok scope rs \<Longrightarrow>
    yields (decode_scope_start (scope \<noteq> None)) (case scope of None \<Rightarrow> [] | Some start \<Rightarrow> put_ack_varint start) scope"
  by (cases scope) (auto simp: decode_scope_start_def scope_ok_def intro!: yields_return yields_last varint.get_put)

lemma decode_scope_accepts:
  "accepts (decode_scope_start scoped) (\<lambda>scope bs. scoped = (scope \<noteq> None) \<and> (\<forall>start. scope = Some start \<longrightarrow> fits 64 start)
     \<and> bs = (case scope of None \<Rightarrow> [] | Some start \<Rightarrow> put_ack_varint start))"
  by (cases scoped) (auto simp: decode_scope_start_def intro!: accepts_return accepts_bind [OF varint.put_get])

lemma decode_ack_yields:
  assumes ok: "ack_ok limits stream scope rs" and asc: "packed \<longrightarrow> ascending 0 rs"
  shows "yields (decode_ack_payload limits) (put_ack packed stream scope rs) (StreamAck stream scope rs)"
proof -
  have v: "validate_ack_scope scope rs = Inr ()"
    using ok unfolding validate_ack_scope_Inr by (simp add: ack_ok_def scope_ok_def)
  have sc: "yields (decode_scope_start (and (ack_flags scope packed) 1 \<noteq> 0))
      (case scope of None \<Rightarrow> [] | Some start \<Rightarrow> put_ack_varint start) scope"
    unfolding ack_flags_decode using ok by (intro decode_scope_yields [of scope rs]) (simp add: ack_ok_def)
  have rs: "yields (decode_ack_ranges (length rs) (and (ack_flags scope packed) 2 \<noteq> 0) 0) (ack_range_bytes packed 0 rs) rs"
    unfolding ack_flags_decode using ok asc by (intro decode_ack_ranges_yields) (simp_all add: ack_ok_def)
  show ?thesis
    unfolding decode_ack_payload_def put_ack_def Let_def
    by (rule yields_bind [OF u64.get_put], simp add: ok [unfolded ack_ok_def], rule yields_bind [OF u8.get_put], simp,
        rule yields_require, rule ack_flags_decode, rule yields_bind [OF u16.get_put], simp add: ok [unfolded ack_ok_def],
        rule yields_require, simp add: ok [unfolded ack_ok_def], rule yields_bind [OF sc], rule yields_bind_nil [OF rs])
      (simp add: v yields_return)
qed

lemma decode_ack_accepts:
  "accepts (decode_ack_payload limits)
     (\<lambda>f bs. \<exists>packed stream scope rs. f = StreamAck stream scope rs \<and> ack_ok limits stream scope rs
        \<and> (packed \<longrightarrow> ascending 0 rs) \<and> bs = put_ack packed stream scope rs)"
  unfolding decode_ack_payload_def Let_def
  apply (rule accepts_bind [OF u64.put_get], rule accepts_bind [OF u8.put_get], rule accepts_require)
  apply (rule accepts_bind [OF u16.put_get], rule accepts_require)
  apply (rule accepts_bind [OF decode_scope_accepts], rule accepts_bind [OF decode_ack_ranges_accepts])
  subgoal premises p for stream b1 flags b2 n b3 scope b4 rs b5
  proof (cases "validate_ack_scope scope rs")
    case (Inl e)
    then show ?thesis by (simp add: accepts_error)
  next
    case (Inr u)
    let ?packed = "and flags 2 \<noteq> 0"
    have flags: "flags = ack_flags scope ?packed"
      using ack_flags_encode [OF p(3), of "the scope"] p(6) by (cases scope) auto
    have "ack_ok limits stream scope rs"
      using p Inr unfolding validate_ack_scope_Inr by (auto simp: ack_ok_def scope_ok_def)
    moreover have "b1 @ b2 @ b3 @ b4 @ b5 @ [] = put_ack ?packed stream scope rs"
      using p flags by (simp add: put_ack_def)
    ultimately show ?thesis using p(7) Inr by (auto intro!: accepts_return)
  qed
  done

lemma encode_ack_Inr_iff:
  assumes "fits 64 stream" "list_all (\<lambda>r. fits 64 (range_end r)) rs" "\<forall>start. scope = Some start \<longrightarrow> fits 64 start"
  shows "encode_ack_payload stream scope rs limits = Inr bs \<longleftrightarrow>
    ack_ok limits stream scope rs \<and> bs = put_ack (prefers_packed rs) stream scope rs"
proof -
  have packed: "(case packed_ack_ranges_len rs of None \<Rightarrow> False | Some len \<Rightarrow> len < length rs * 16) = prefers_packed rs"
    using packed_len_from_eq [OF assms(2), of 0 0] by (simp add: packed_ack_ranges_len_def prefers_packed_def)
  have ok: "\<not> list_ex range_is_empty rs \<longleftrightarrow> ranges_ok rs"
    using assms(2) by (auto simp: ranges_ok_def range_ok_def range_is_empty_def list_all_iff list_ex_iff not_le)
  show ?thesis
    unfolding encode_ack_payload_def packed put_ack_ranges_eq Let_def and_then_Inr_iff validate_ack_scope_Inr
    using assms ok by (auto simp: check_range_count_def ack_ok_def scope_ok_def fits_16_iff put_ack_def ack_range_bytes_def
        split: if_splits)
qed

text \<open>No accepted form of an acknowledgement is shorter than the one the encoder picks.\<close>

lemma put_ack_shortest:
  assumes "packed \<longrightarrow> ascending 0 rs"
  shows "length (put_ack (prefers_packed rs) stream scope rs) \<le> length (put_ack packed stream scope rs)"
proof -
  have "length (concat (map put_range rs)) = length rs * 16"
    by (induction rs) (simp_all add: put_range_def)
  then show ?thesis using assms by (auto simp: put_ack_def ack_range_bytes_def prefers_packed_def)
qed

end
