(* ===== verification/Codec_Frame_Laws.thy ===== *)
theory Codec_Frame_Laws
  imports Codec_Frame Codec_Field_Laws
begin

text \<open>
  Payloads: what \<open>encode_payload\<close> writes is read back by \<open>decode_payload\<close>, and what
  \<open>decode_payload\<close> reads is what \<open>encode_payload\<close> would have written, up to the choice between
  the two encodings of an acknowledgement.
\<close>

section \<open>The ranges of the Rust types\<close>

fun addr_typed :: "ip_addr \<Rightarrow> bool" where
  "addr_typed (IpV4 octets) \<longleftrightarrow> length octets = 4"
| "addr_typed (IpV6 octets) \<longleftrightarrow> length octets = 16"

definition range_typed :: "offset_range \<Rightarrow> bool" where
  "range_typed r \<longleftrightarrow> fits 64 (range_start r) \<and> fits 64 (range_end r)"

definition peer_path_typed :: "peer_path_status \<Rightarrow> bool" where
  "peer_path_typed p \<longleftrightarrow> metrics_typed (pp_metrics p) \<and> delivery_typed (pp_native_delivery p)"

fun frame_typed :: "frame \<Rightarrow> bool" where
  "frame_typed (SessionHello session) \<longleftrightarrow> fits 64 session"
| "frame_typed (SessionAuth session credential nonce issued_at tag) \<longleftrightarrow>
     fits 64 session \<and> utf8_valid credential \<and> length nonce = 16 \<and> fits 64 issued_at \<and> length tag = 32"
| "frame_typed SessionReady \<longleftrightarrow> True"
| "frame_typed (SessionClose reason) \<longleftrightarrow> True"
| "frame_typed (PathJoin session credential path slot underlay nonce issued_at tag) \<longleftrightarrow>
     fits 64 session \<and> utf8_valid credential \<and> fits 16 path \<and> fits 16 slot \<and> length nonce = 16
     \<and> fits 64 issued_at \<and> length tag = 32"
| "frame_typed (PathStatus path sequence usage) \<longleftrightarrow> fits 16 path \<and> fits 64 sequence"
| "frame_typed (PathDrain path) \<longleftrightarrow> fits 16 path"
| "frame_typed (PathClose path reason) \<longleftrightarrow> fits 16 path"
| "frame_typed (PathProofData path proof payload) \<longleftrightarrow> fits 16 path \<and> fits 64 proof"
| "frame_typed (PathProofAck path proof payload_bytes) \<longleftrightarrow> fits 16 path \<and> fits 64 proof \<and> fits 32 payload_bytes"
| "frame_typed (PathCapacityData path measurement payload) \<longleftrightarrow> fits 16 path \<and> fits 64 measurement"
| "frame_typed (PathCapacityFinish path measurement payload_bytes) \<longleftrightarrow>
     fits 16 path \<and> fits 64 measurement \<and> fits 64 payload_bytes"
| "frame_typed (PathCapacityReceipt path measurement received) \<longleftrightarrow>
     fits 16 path \<and> fits 64 measurement \<and> fits 64 received"
| "frame_typed (OpenStream stream target demand plan) \<longleftrightarrow>
     fits 64 stream \<and> target_typed target \<and> fits 64 (trigger_bytes plan)"
| "frame_typed (OpenStreamRepair stream parent) \<longleftrightarrow> fits 64 stream \<and> fits 64 parent"
| "frame_typed (StreamReturnPlanFinal stream retained_ordinals) \<longleftrightarrow> fits 64 stream"
| "frame_typed (StreamData stream offset payload) \<longleftrightarrow> fits 64 stream \<and> fits 64 offset"
| "frame_typed (StreamAck stream scope_start ranges) \<longleftrightarrow>
     fits 64 stream \<and> (\<forall>start. scope_start = Some start \<longrightarrow> fits 64 start) \<and> list_all range_typed ranges"
| "frame_typed (StreamRequalifyData stream probe offset payload) \<longleftrightarrow> fits 64 stream \<and> fits 64 probe \<and> fits 64 offset"
| "frame_typed (StreamRequalifyAck stream probe offset payload_bytes) \<longleftrightarrow>
     fits 64 stream \<and> fits 64 probe \<and> fits 64 offset \<and> fits 32 payload_bytes"
| "frame_typed (StreamMaxData stream max_offset) \<longleftrightarrow> fits 64 stream \<and> fits 64 max_offset"
| "frame_typed (StreamFeedbackProbe stream token max_offset) \<longleftrightarrow> fits 64 stream \<and> fits 64 token \<and> fits 64 max_offset"
| "frame_typed (StreamFeedbackReceipt stream token) \<longleftrightarrow> fits 64 stream \<and> fits 64 token"
| "frame_typed (StreamFin stream final_offset) \<longleftrightarrow> fits 64 stream \<and> fits 64 final_offset"
| "frame_typed (StreamDetach stream) \<longleftrightarrow> fits 64 stream"
| "frame_typed (StreamReset stream reason) \<longleftrightarrow> fits 64 stream"
| "frame_typed (OpenDatagramFlow flow target) \<longleftrightarrow> fits 64 flow \<and> target_typed target"
| "frame_typed (DatagramData flow datagram ttl_ms payload) \<longleftrightarrow> fits 64 flow \<and> fits 64 datagram \<and> fits 32 ttl_ms"
| "frame_typed (DatagramClose flow) \<longleftrightarrow> fits 64 flow"
| "frame_typed (DatagramFeedback flow received) \<longleftrightarrow> fits 64 flow \<and> list_all range_typed received"
| "frame_typed (PathMetrics metrics) \<longleftrightarrow> metrics_typed metrics"
| "frame_typed (PeerStatusRequest request) \<longleftrightarrow> fits 64 request"
| "frame_typed (PeerStatusResponse request code paths) \<longleftrightarrow> fits 64 request \<and> list_all peer_path_typed paths"
| "frame_typed (OpenIpTunnel tunnel) \<longleftrightarrow> fits 64 tunnel"
| "frame_typed (IpTunnelReady tunnel mtu addresses) \<longleftrightarrow> fits 64 tunnel \<and> fits 16 mtu \<and> list_all addr_typed addresses"
| "frame_typed (IpPacket tunnel packet payload) \<longleftrightarrow> fits 64 tunnel \<and> fits 64 packet"
| "frame_typed (IpTunnelClose tunnel reason) \<longleftrightarrow> fits 64 tunnel"
| "frame_typed (Ping nonce) \<longleftrightarrow> fits 64 nonce"
| "frame_typed (Pong nonce) \<longleftrightarrow> fits 64 nonce"

text \<open>
  What the wire does not carry: the flow label and the scope of an IPv6 target, and a validity of
  the rate beyond its maximum, which the encoder clips. \<open>wire_frame\<close> is the frame without these.
  The decoder also checks path metrics that the encoder writes unchecked; \<open>frame_consistent\<close> says
  that this check holds.
\<close>

definition wire_metrics :: "path_metrics \<Rightarrow> path_metrics" where
  "wire_metrics m = m\<lparr>pm_rate_valid_for_us := min (pm_rate_valid_for_us m) PATH_METRICS_MAX_RATE_VALID_FOR_US\<rparr>"

definition wire_path :: "peer_path_status \<Rightarrow> peer_path_status" where
  "wire_path p = p\<lparr>pp_metrics := wire_metrics (pp_metrics p)\<rparr>"

fun frame_consistent :: "frame \<Rightarrow> bool" where
  "frame_consistent (PathMetrics metrics) \<longleftrightarrow> metrics_consistent (wire_metrics metrics)"
| "frame_consistent (PeerStatusResponse request code paths) \<longleftrightarrow>
     list_all (\<lambda>p. metrics_consistent (wire_metrics (pp_metrics p))) paths"
| "frame_consistent _ \<longleftrightarrow> True"

fun wire_frame :: "frame \<Rightarrow> frame" where
  "wire_frame (OpenStream stream target demand plan) = OpenStream stream (wire_target target) demand plan"
| "wire_frame (OpenDatagramFlow flow target) = OpenDatagramFlow flow (wire_target target)"
| "wire_frame (PathMetrics metrics) = PathMetrics (wire_metrics metrics)"
| "wire_frame (PeerStatusResponse request code paths) = PeerStatusResponse request code (map wire_path paths)"
| "wire_frame f = f"

lemma wire_metrics_id: "metrics_consistent m \<Longrightarrow> wire_metrics m = m"
  by (simp add: wire_metrics_def consistent_rate)

lemma encode_wire_metrics [simp]: "encode_path_metrics (wire_metrics m) = encode_path_metrics m"
  by (simp add: encode_path_metrics_def wire_metrics_def)

lemma encode_wire_path [simp]: "encode_peer_path (wire_path p) = encode_peer_path p"
  by (simp add: encode_peer_path_def wire_path_def)

lemma wire_metrics_typed [simp]: "metrics_typed m \<Longrightarrow> metrics_typed (wire_metrics m)"
  using fits_le [of 64 "pm_rate_valid_for_us m" "min (pm_rate_valid_for_us m) PATH_METRICS_MAX_RATE_VALID_FOR_US"]
  by (simp add: metrics_typed_def wire_metrics_def)

lemma wire_path_id: "peer_path_ok p \<Longrightarrow> wire_path p = p"
  by (simp add: wire_path_def peer_path_ok_def wire_metrics_id)

text \<open>The kinds in groups, so that each group has one proof.\<close>

abbreviation session_path_kinds :: "frame_kind set" where
  "session_path_kinds \<equiv> {KSessionHello, KSessionAuth, KSessionReady, KSessionClose, KPathJoin, KPathStatus, KPathDrain,
      KPathClose, KPathProofData, KPathProofAck, KPathCapacityData, KPathCapacityFinish, KPathCapacityReceipt,
      KOpenStreamRepair}"

abbreviation flow_kinds :: "frame_kind set" where
  "flow_kinds \<equiv> {KStreamMaxData, KStreamFeedbackProbe, KStreamFeedbackReceipt, KStreamFin, KStreamDetach, KStreamReset,
      KOpenDatagramFlow, KDatagramData, KDatagramClose, KPathMetrics, KPeerStatusRequest, KOpenIpTunnel, KIpTunnelClose,
      KPing, KPong, KIpPacket, KOpenStream}"

abbreviation stream_kinds :: "frame_kind set" where
  "stream_kinds \<equiv> {KStreamData, KStreamRequalifyData, KStreamRequalifyAck}"

lemma kind_groups:
  obtains "k \<in> session_path_kinds" | "k \<in> flow_kinds" | "k \<in> stream_kinds" | "k = KIpTunnelReady"
    | "k = KStreamReturnPlanFinal" | "k = KPeerStatusResponse" | "k = KStreamAck" | "k = KDatagramFeedback"
  by (cases k) simp_all

section \<open>Writing, then reading\<close>

lemma target_yields:
  "target_typed t \<Longrightarrow> target_sendable limits t \<Longrightarrow> yields (decode_target limits) (put_target t) (wire_target t)"
  using target.get_put [of "wire_target t" limits] by simp

lemma metrics_yields:
  "metrics_typed m \<Longrightarrow> metrics_consistent (wire_metrics m) \<Longrightarrow> yields decode_path_metrics (encode_path_metrics m) (wire_metrics m)"
  using metrics.get_put [of "wire_metrics m"] by simp

lemmas bind_yields =
  yields_bind [OF u8.get_put [OF TrueI]] yields_bind [OF u16.get_put] yields_bind [OF u32.get_put] yields_bind [OF u64.get_put]
  yields_bind [OF underlay.get_put [OF TrueI]] yields_bind [OF usage.get_put [OF TrueI]]
  yields_bind [OF attach_phase.get_put [OF TrueI]] yields_bind [OF status_code.get_put [OF TrueI]]
  yields_bind [OF demand.get_put [OF TrueI]] yields_bind [OF credential.get_put]
  yields_bind [OF nonce.get_put] yields_bind [OF target_yields]

lemmas last_yields =
  yields_last [OF u8.get_put [OF TrueI]] yields_last [OF u16.get_put] yields_last [OF u32.get_put] yields_last [OF u64.get_put]
  yields_last [OF usage.get_put [OF TrueI]] yields_last [OF close_code.get_put [OF TrueI]]
  yields_last [OF reset_code.get_put [OF TrueI]] yields_last [OF tag.get_put] yields_last [OF target_yields]
  yields_last [OF metrics_yields] yields_last [OF range_list.get_put]
  yields_last [OF byte_string.get_put [unfolded put_bytes_def]]

lemma kinded_Inr: "kinded k r = Inr (k', bs) \<longleftrightarrow> k' = k \<and> r = Inr bs"
  by (auto simp: kinded_def and_then_Inr_iff)

lemma put_counted_Inr:
  "put_counted payload limits = Inr bs \<longleftrightarrow>
     fits 32 (length payload) \<and> length payload \<le> cl_max_payload_bytes limits \<and> bs = put_u32 (length payload) @ payload"
  by (auto simp: put_counted_def encode_payload_bytes_len_def and_then_Inr_iff fits_def)

lemma encode_credential_Inr: "encode_credential_id s = Inr bs \<longleftrightarrow> credential_id_is_canonical s \<and> bs = put_credential s"
  by (auto simp: encode_credential_id_eq)

lemmas encode_Inr = kinded_Inr put_counted_Inr encode_credential_Inr encode_target_Inr_iff and_then_Inr_iff

lemma simple_yields:
  assumes "frame_typed f" "frame_consistent f" "encode_payload f limits = Inr (k, bs)"
    and "k \<in> session_path_kinds"
  shows "yields (decode_payload k limits) bs (wire_frame f)"
  using assms
  by (cases f)
    (auto simp: encode_Inr decode_session_auth_def decode_path_join_def intro!: bind_yields last_yields yields_return)

lemma flow_yields:
  assumes "frame_typed f" "frame_consistent f" "encode_payload f limits = Inr (k, bs)" and "k \<in> flow_kinds"
  shows "yields (decode_payload k limits) bs (wire_frame f)"
  using assms
  by (cases f)
    (auto simp: encode_Inr decode_datagram_data_def decode_ip_packet_def encode_open_stream_def decode_open_stream_def
      intro!: bind_yields last_yields yields_return yields_last_require [OF byte_string.get_put [unfolded put_bytes_def]]
        yields_eq [OF yields_last [OF u8.get_put [OF TrueI]]] split: if_splits)

lemma yields_lift: "v = Inr u \<Longrightarrow> yields p bs x \<Longrightarrow> yields (lift v p) bs x"
  by (simp add: yields_def lift_def)

lemma yields_last_lift:
  assumes "yields p bs x" and "v x = Inr u"
  shows "yields (read_bind p (\<lambda>x. lift (v x) (read_return (F x)))) bs (F x)"
  using assms by (intro yields_bind_nil [OF assms(1)] yields_lift yields_return)

lemma extent_Inr: "validate_stream_data_extent offset n = Inr u \<longleftrightarrow> offset + n \<le> u64_max"
  by (auto simp: validate_stream_data_extent_def checked_add_def split: option.splits)

lemma encode_len_Inr: "encode_payload_bytes_len n limits = Inr u \<longleftrightarrow> n \<le> cl_max_payload_bytes limits \<and> fits 32 n"
  by (auto simp: encode_payload_bytes_len_def fits_def)

lemma prefix_Inr:
  "encode_stream_data_prefix stream offset n limits = Inr prefix \<longleftrightarrow>
     n \<le> cl_max_payload_bytes limits \<and> offset + n \<le> u64_max \<and> n + 20 \<le> 4294967295
     \<and> n + 30 \<le> cl_max_frame_bytes limits
     \<and> prefix = MAGIC @ [VERSION] @ [kind_to_u8 KStreamData] @ be_bytes 4 (n + 20)
                @ be_bytes 8 stream @ be_bytes 8 offset @ be_bytes 4 n"
  by (auto simp: encode_stream_data_prefix_def and_then_Inr_iff extent_Inr encode_len_Inr fits_def checked_add_def
      STREAM_DATA_FIXED_PAYLOAD_LEN_def FRAME_HEADER_LEN_def u64_max_def add.commute)

lemma encode_stream_data_Inr:
  "encode_stream_data stream offset payload limits = Inr bs \<longleftrightarrow>
     length payload \<le> cl_max_payload_bytes limits \<and> offset + length payload \<le> u64_max
     \<and> length payload + 20 \<le> 4294967295 \<and> length payload + 30 \<le> cl_max_frame_bytes limits
     \<and> bs = put_u64 stream @ put_u64 offset @ put_u32 (length payload) @ payload"
  by (auto simp: encode_stream_data_def and_then_Inr_iff prefix_Inr MAGIC_def FRAME_HEADER_LEN_def
      put_u64_def put_u32_def)

lemma stream_yields:
  assumes "frame_typed f" "encode_payload f limits = Inr (k, bs)"
    and "k \<in> stream_kinds"
  shows "yields (decode_payload k limits) bs (wire_frame f)"
proof (cases f)
  case (StreamData stream offset payload)
  then have "encode_stream_data stream offset payload limits = Inr bs" "k = KStreamData"
    using assms(2) by (simp_all add: kinded_Inr)
  then show ?thesis using StreamData assms(1)
    by (auto simp: encode_stream_data_Inr decode_stream_data_def extent_Inr fits_def
        intro!: bind_yields yields_last_lift [OF byte_string.get_put [unfolded put_bytes_def]])
next
  case (StreamRequalifyData stream probe offset payload)
  then show ?thesis using assms(1,2)
    by (auto simp: encode_Inr encode_requalify_data_def encode_len_Inr extent_Inr decode_requalify_data_def
        intro!: bind_yields yields_bind_nil [OF byte_string.get_put [unfolded put_bytes_def]] yields_require yields_lift yields_return
        split: if_splits)
next
  case (StreamRequalifyAck stream probe offset payload_bytes)
  then show ?thesis using assms(1,2)
    by (auto simp: encode_Inr encode_requalify_ack_def extent_Inr decode_requalify_ack_def
        intro!: bind_yields yields_bind_nil [OF u32.get_put] yields_require yields_lift yields_return
        split: if_splits)
qed (use assms in \<open>auto simp: kinded_Inr\<close>)

lemma ack_yields:
  assumes "frame_typed f" "encode_payload f limits = Inr (KStreamAck, bs)"
  shows "yields (decode_payload KStreamAck limits) bs (wire_frame f)"
proof (cases f)
  case (StreamAck stream scope ranges)
  have "list_all (\<lambda>r. fits 64 (range_end r)) ranges" using StreamAck assms(1) by (auto simp: range_typed_def list_all_iff)
  then have "ack_ok limits stream scope ranges \<and> bs = put_ack (prefers_packed ranges) stream scope ranges"
    using StreamAck assms(1,2) encode_ack_Inr_iff [of stream ranges scope limits bs] by (simp add: kinded_Inr)
  then show ?thesis using StreamAck decode_ack_yields [of limits stream scope ranges "prefers_packed ranges"]
    by (simp add: prefers_packed_def)
qed (use assms in \<open>simp_all add: kinded_Inr\<close>)

lemma typed_ranges_ok: "list_all range_typed rs \<Longrightarrow> \<not> list_ex range_is_empty rs \<longleftrightarrow> ranges_ok rs"
  by (auto simp: ranges_ok_def range_ok_def range_typed_def range_is_empty_def list_all_iff list_ex_iff not_le)

lemma feedback_yields:
  assumes "frame_typed f" "encode_payload f limits = Inr (KDatagramFeedback, bs)"
  shows "yields (decode_payload KDatagramFeedback limits) bs (wire_frame f)"
proof (cases f)
  case (DatagramFeedback flow received)
  then show ?thesis using assms typed_ranges_ok [of received]
    by (auto simp: encode_Inr encode_offset_ranges_def put_offset_ranges_eq check_range_count_def fits_16_iff
        put_ranges_def [symmetric] intro!: bind_yields last_yields split: if_splits)
qed (use assms in \<open>simp_all add: kinded_Inr\<close>)

text \<open>The addresses of a tunnel: at most one of each family.\<close>

fun families_ok :: "bool \<Rightarrow> bool \<Rightarrow> ip_addr list \<Rightarrow> bool" where
  "families_ok seen_v4 seen_v6 [] = True"
| "families_ok seen_v4 seen_v6 (IpV4 octets # addrs) \<longleftrightarrow> \<not> seen_v4 \<and> families_ok True seen_v6 addrs"
| "families_ok seen_v4 seen_v6 (IpV6 octets # addrs) \<longleftrightarrow> \<not> seen_v6 \<and> families_ok seen_v4 True addrs"

fun put_addr :: "ip_addr \<Rightarrow> bytes" where
  "put_addr (IpV4 octets) = put_u8 4 @ octets"
| "put_addr (IpV6 octets) = put_u8 6 @ octets"

fun is_v6 :: "ip_addr \<Rightarrow> bool" where
  "is_v6 (IpV4 octets) = False"
| "is_v6 (IpV6 octets) = True"

lemma put_tunnel_addresses_Inr:
  "put_tunnel_addresses v4 v6 addrs = Inr (bs, seen) \<longleftrightarrow>
     families_ok v4 v6 addrs \<and> bs = concat (map put_addr addrs) \<and> seen = (v6 \<or> list_ex is_v6 addrs)"
  by (induction v4 v6 addrs arbitrary: bs seen rule: put_tunnel_addresses.induct)
    (auto simp: and_then_Inr_iff split: prod.splits)

lemma get_tunnel_addresses_yields:
  "families_ok v4 v6 addrs \<Longrightarrow> list_all addr_typed addrs \<Longrightarrow>
    yields (get_tunnel_addresses (length addrs) v4 v6) (concat (map put_addr addrs)) (addrs, v6 \<or> list_ex is_v6 addrs)"
proof (induction v4 v6 addrs rule: families_ok.induct)
  case (1 v4 v6)
  then show ?case by (simp add: yields_return)
next
  case (2 v4 v6 octets addrs)
  have a: "\<not> v4" "length octets = 4" using "2.prems" by simp_all
  have rec: "yields (get_tunnel_addresses (length addrs) True v6) (concat (map put_addr addrs)) (addrs, v6 \<or> list_ex is_v6 addrs)"
    using 2 by simp
  have "yields (read_bind (get_array 4) (\<lambda>octets. read_bind (get_tunnel_addresses (length addrs) True v6)
      (\<lambda>(addresses, v6). read_return (IpV4 octets # addresses, v6)))) (octets @ concat (map put_addr addrs))
      (IpV4 octets # addrs, v6 \<or> list_ex is_v6 addrs)"
    using array.get_put [OF a(2)] by (intro yields_bind [of _ octets] yields_bind_nil [OF rec]) (auto intro: yields_return)
  then have "yields (get_tunnel_addresses (Suc (length addrs)) v4 v6) (put_u8 4 @ octets @ concat (map put_addr addrs))
      (IpV4 octets # addrs, v6 \<or> list_ex is_v6 addrs)"
    using a unfolding get_tunnel_addresses.simps by (intro yields_bind [OF u8.get_put]) simp_all
  then show ?case by simp
next
  case (3 v4 v6 octets addrs)
  have a: "\<not> v6" "length octets = 16" using "3.prems" by simp_all
  have rec: "yields (get_tunnel_addresses (length addrs) v4 True) (concat (map put_addr addrs)) (addrs, True)"
    using 3 by simp
  have "yields (read_bind (get_array 16) (\<lambda>octets. read_bind (get_tunnel_addresses (length addrs) v4 True)
      (\<lambda>(addresses, v6). read_return (IpV6 octets # addresses, v6)))) (octets @ concat (map put_addr addrs))
      (IpV6 octets # addrs, True)"
    using array.get_put [OF a(2)] by (intro yields_bind [of _ octets] yields_bind_nil [OF rec]) (auto intro: yields_return)
  then have "yields (get_tunnel_addresses (Suc (length addrs)) v4 v6) (put_u8 6 @ octets @ concat (map put_addr addrs))
      (IpV6 octets # addrs, True)"
    using a unfolding get_tunnel_addresses.simps by (intro yields_bind [OF u8.get_put]) simp_all
  then show ?case by simp
qed

lemma get_tunnel_addresses_accepts:
  "accepts (get_tunnel_addresses n v4 v6)
     (\<lambda>(addrs, seen) bs. length addrs = n \<and> families_ok v4 v6 addrs \<and> list_all addr_typed addrs
        \<and> seen = (v6 \<or> list_ex is_v6 addrs) \<and> bs = concat (map put_addr addrs))"
proof (induction n arbitrary: v4 v6)
  case 0
  show ?case unfolding get_tunnel_addresses.simps by (rule accepts_return) simp
next
  case (Suc n)
  show ?case unfolding get_tunnel_addresses.simps
    by (rule accepts_bind [OF u8.put_get])
      (auto intro!: accepts_bind [OF array.put_get] accepts_bind [OF Suc.IH] accepts_return accepts_error split: prod.splits)
qed

lemma encode_ip_tunnel_ready_Inr:
  "encode_ip_tunnel_ready tunnel mtu addrs = Inr bs \<longleftrightarrow>
     576 \<le> mtu \<and> addrs \<noteq> [] \<and> length addrs \<le> 2 \<and> families_ok False False addrs \<and> (list_ex is_v6 addrs \<longrightarrow> 1280 \<le> mtu)
     \<and> bs = put_u64 tunnel @ put_u16 mtu @ put_u8 (of_nat (length addrs)) @ concat (map put_addr addrs)"
  by (auto simp: encode_ip_tunnel_ready_def and_then_Inr_iff put_tunnel_addresses_Inr split: prod.splits if_splits)

lemma small_count: "n \<le> 255 \<Longrightarrow> unat (of_nat n :: byte) = n"
  by (simp add: unat_of_nat_byte)

lemma tunnel_yields:
  assumes "frame_typed (IpTunnelReady tunnel mtu addrs)" "encode_ip_tunnel_ready tunnel mtu addrs = Inr bs"
  shows "yields decode_ip_tunnel_ready bs (IpTunnelReady tunnel mtu addrs)"
proof -
  note e = assms(2) [unfolded encode_ip_tunnel_ready_Inr]
  have n: "unat (of_nat (length addrs) :: byte) = length addrs" using e by (intro small_count) simp
  have "yields (read_bind (get_tunnel_addresses (length addrs) False False) (\<lambda>(addresses, seen_v6).
       require (\<not> (addresses = [] \<or> seen_v6 \<and> mtu < 1280)) InvalidIpTunnel
         (read_return (IpTunnelReady tunnel mtu addresses)))) (concat (map put_addr addrs)) (IpTunnelReady tunnel mtu addrs)"
    using e assms(1) by (intro yields_bind_nil [OF get_tunnel_addresses_yields]) (auto intro!: yields_require yields_return)
  then show ?thesis
    unfolding decode_ip_tunnel_ready_def using e assms(1) n by (auto intro!: bind_yields yields_require)
qed

lemma return_plan_yields:
  assumes "fits 64 stream" "encode_return_plan_final stream ordinals limits = Inr bs"
  shows "yields (decode_return_plan_final limits) bs (StreamReturnPlanFinal stream ordinals)"
proof -
  have e: "length ordinals \<le> 255" "validate_path_count (length ordinals) limits = Inr ()"
      "bs = put_u64 stream @ put_u8 (of_nat (length ordinals)) @ ordinals"
    using assms(2) by (auto simp: encode_return_plan_final_def and_then_Inr_iff split: if_splits)
  show ?thesis unfolding decode_return_plan_final_def e(3) using assms(1) e small_count [OF e(1)]
    by (auto intro!: bind_yields yields_lift yields_last [OF get_exact_yields])
qed

lemma peer_path_length: "length (encode_peer_path p) = PEER_PATH_STATUS_ENCODED_LEN"
  by (cases "pp_native_delivery p")
    (simp_all add: encode_peer_path_def encode_path_metrics_def encode_native_delivery_def
      PEER_PATH_STATUS_ENCODED_LEN_def PATH_METRICS_ENCODED_LEN_def)

lemma peer_paths_length: "length (concat (map encode_peer_path paths)) = length paths * PEER_PATH_STATUS_ENCODED_LEN"
  by (induction paths) (simp_all add: peer_path_length)

lemma yields_with_room:
  assumes "yields p bs x" "n \<le> length bs"
  shows "yields (\<lambda>r. require (n \<le> remaining r) e p r) bs x"
  using assms unfolding yields_def
proof (intro allI impI)
  fix r suf assume r: "reader_ok r" "rest r = bs @ suf"
  then have "n \<le> remaining r" using rest_length [OF r(1)] assms(2) by (simp add: remaining_def)
  then show "require (n \<le> remaining r) e p r = Inr (x, advance (length bs) r)"
    using assms(1) r by (simp add: yields_def require_def)
qed

lemma peer_status_yields:
  assumes "frame_typed (PeerStatusResponse request code paths)" "frame_consistent (PeerStatusResponse request code paths)"
    and "encode_peer_status_response request code paths limits = Inr bs"
  shows "yields (decode_peer_status_response limits) bs (PeerStatusResponse request code (map wire_path paths))"
proof -
  have e: "validate_path_count (length paths) limits = Inr ()" "validate_peer_status_path_count code (length paths) = Inr ()"
      "length paths \<le> 65535"
      "bs = put_u64 request @ put_u8 (peer_status_code_to_u8 code) @ put_u16 (length paths) @ concat (map encode_peer_path paths)"
    using assms(3) by (auto simp: encode_peer_status_response_def and_then_Inr_iff split: if_splits)
  have ok: "list_all peer_path_ok (map wire_path paths)"
    using assms(1,2) by (auto simp: list_all_iff peer_path_ok_def peer_path_typed_def wire_path_def)
  have "length paths * PEER_PATH_STATUS_ENCODED_LEN \<le> u64_max"
    using e(3) by (simp add: PEER_PATH_STATUS_ENCODED_LEN_def PATH_METRICS_ENCODED_LEN_def u64_max_def)
  moreover have "yields (\<lambda>r. require (length paths * PEER_PATH_STATUS_ENCODED_LEN \<le> remaining r) UnexpectedEof
         (read_bind (get_times (length paths) decode_peer_path) (\<lambda>paths.
            read_return (PeerStatusResponse request code paths))) r) (concat (map encode_peer_path paths))
         (PeerStatusResponse request code (map wire_path paths))"
    using peer_paths_length peer_path.get_times_put [OF ok]
    by (intro yields_with_room yields_last [of _ _ "map wire_path paths"]) (simp_all add: comp_def)
  ultimately show ?thesis
    unfolding decode_peer_status_response_def e(4) using assms(1) e
    by (auto simp: fits_16_iff intro!: bind_yields yields_lift yields_require)
qed

lemma encode_payload_yields:
  assumes "frame_typed f" "frame_consistent f" "encode_payload f limits = Inr (k, bs)"
  shows "yields (decode_payload k limits) bs (wire_frame f)"
proof (rule kind_groups [of k])
  assume "k = KIpTunnelReady"
  then show ?thesis using assms tunnel_yields by (cases f) (auto simp: kinded_Inr)
next
  assume "k = KStreamReturnPlanFinal"
  then show ?thesis using assms return_plan_yields by (cases f) (auto simp: kinded_Inr)
next
  assume "k = KPeerStatusResponse"
  then show ?thesis
    using assms peer_status_yields by (cases f) (auto simp: kinded_Inr simp del: frame_typed.simps frame_consistent.simps)
next
  assume "k \<in> session_path_kinds"
  then show ?thesis by (rule simple_yields [OF assms])
next
  assume "k \<in> flow_kinds"
  then show ?thesis by (rule flow_yields [OF assms])
next
  assume "k \<in> stream_kinds"
  then show ?thesis by (rule stream_yields [OF assms(1,3)])
next
  assume "k = KStreamAck"
  then show ?thesis using ack_yields assms by metis
next
  assume "k = KDatagramFeedback"
  then show ?thesis using feedback_yields assms by metis
qed

section \<open>Reading, then writing\<close>

definition frame_fits :: "codec_limits \<Rightarrow> bytes \<Rightarrow> bool" where
  "frame_fits limits bs \<longleftrightarrow> length bs \<le> 4294967295 \<and> length bs + 10 \<le> cl_max_frame_bytes limits"

definition canonical :: "frame_kind \<Rightarrow> codec_limits \<Rightarrow> frame \<Rightarrow> bytes \<Rightarrow> bool" where
  "canonical k limits f bs \<longleftrightarrow>
     frame_typed f \<and> frame_consistent f \<and> wire_frame f = f
     \<and> (frame_fits limits bs \<longrightarrow>
          (\<exists>bs'. encode_payload f limits = Inr (k, bs') \<and> length bs' \<le> length bs \<and> (k \<noteq> KStreamAck \<longrightarrow> bs' = bs)))"

lemmas bind_accepts =
  accepts_bind [OF u8.put_get] accepts_bind [OF u16.put_get] accepts_bind [OF u32.put_get] accepts_bind [OF u64.put_get]
  accepts_bind [OF underlay.put_get] accepts_bind [OF usage.put_get] accepts_bind [OF attach_phase.put_get]
  accepts_bind [OF status_code.put_get] accepts_bind [OF close_code.put_get] accepts_bind [OF reset_code.put_get]
  accepts_bind [OF demand.put_get] accepts_bind [OF credential.put_get] accepts_bind [OF nonce.put_get]
  accepts_bind [OF tag.put_get] accepts_bind [OF target.put_get] accepts_bind [OF metrics.put_get]
  accepts_bind [OF range_list.put_get] accepts_bind [OF byte_string.put_get]

lemma accepts_lift: "(\<And>u. v = Inr u \<Longrightarrow> accepts p Q) \<Longrightarrow> accepts (lift v p) Q"
  by (cases v) (auto simp: accepts_def lift_def)

lemma accepts_with_room: "accepts p Q \<Longrightarrow> accepts (\<lambda>r. require (c r) e p r) Q"
  by (auto simp: accepts_def require_def split: if_splits)

lemma simple_accepts:
  assumes "k \<in> session_path_kinds"
  shows "accepts (decode_payload k limits) (canonical k limits)"
  using assms
  by (elim insertE)
    (auto simp: canonical_def encode_Inr decode_session_auth_def decode_path_join_def put_bytes_def canonical_facts
      intro!: bind_accepts accepts_return)

lemma flow_accepts:
  assumes "k \<in> flow_kinds"
  shows "accepts (decode_payload k limits) (canonical k limits)"
  using assms
  by (elim insertE)
    (auto simp: canonical_def encode_Inr decode_datagram_data_def decode_ip_packet_def decode_open_stream_def
      encode_open_stream_def put_bytes_def wire_metrics_id intro!: bind_accepts accepts_require accepts_return)

lemma stream_accepts:
  assumes "k \<in> stream_kinds"
  shows "accepts (decode_payload k limits) (canonical k limits)"
  using assms
  by (elim insertE)
    (auto simp: canonical_def encode_Inr decode_stream_data_def decode_requalify_data_def decode_requalify_ack_def
      encode_requalify_data_def encode_requalify_ack_def encode_stream_data_Inr encode_len_Inr extent_Inr
      put_bytes_def frame_fits_def intro!: bind_accepts accepts_require accepts_lift accepts_return)

lemma feedback_accepts: "accepts (decode_payload KDatagramFeedback limits) (canonical KDatagramFeedback limits)"
proof -
  have "canonical KDatagramFeedback limits (DatagramFeedback flow rs) (put_u64 flow @ put_ranges rs)"
    if "fits 64 flow" "ranges_ok rs" "length rs \<le> cl_max_ack_ranges limits" "fits 16 (length rs)" for flow rs
  proof -
    have "\<not> list_ex range_is_empty rs"
      using that(2) by (auto simp: ranges_ok_def range_ok_def range_is_empty_def list_all_iff list_ex_iff)
    moreover have "list_all range_typed rs"
      using that(2) range_ok_start by (auto simp: ranges_ok_def range_typed_def range_ok_def list_all_iff)
    ultimately show ?thesis
      using that by (simp add: canonical_def encode_Inr encode_offset_ranges_def put_offset_ranges_eq check_range_count_def
          fits_16_iff put_ranges_def)
  qed
  then show ?thesis by (auto intro!: bind_accepts accepts_return)
qed

lemma ack_accepts: "accepts (decode_payload KStreamAck limits) (canonical KStreamAck limits)"
proof -
  have "canonical KStreamAck limits (StreamAck stream scope rs) (put_ack packed stream scope rs)"
    if ok: "ack_ok limits stream scope rs" and asc: "packed \<longrightarrow> ascending 0 rs" for stream scope rs packed
  proof -
    have typed: "list_all range_typed rs" "list_all (\<lambda>r. fits 64 (range_end r)) rs"
      using ok range_ok_start by (auto simp: ack_ok_def ranges_ok_def range_typed_def range_ok_def list_all_iff)
    have "encode_ack_payload stream scope rs limits = Inr (put_ack (prefers_packed rs) stream scope rs)"
      using encode_ack_Inr_iff [OF _ typed(2), of stream scope limits] ok by (auto simp: ack_ok_def scope_ok_def)
    then show ?thesis
      using ok typed(1) put_ack_shortest [OF asc, of stream scope]
      by (auto simp: canonical_def kinded_Inr ack_ok_def scope_ok_def)
  qed
  then show ?thesis unfolding decode_payload.simps by (intro accepts_weaken [OF decode_ack_accepts]) auto
qed

lemma tunnel_accepts: "accepts (decode_payload KIpTunnelReady limits) (canonical KIpTunnelReady limits)"
proof -
  have "canonical KIpTunnelReady limits (IpTunnelReady tunnel mtu addrs)
      (put_u64 tunnel @ put_u16 mtu @ put_u8 n @ concat (map put_addr addrs))"
    if "fits 64 tunnel" "fits 16 mtu" "576 \<le> mtu" "unat n \<le> 2" "length addrs = unat n" "families_ok False False addrs"
      "list_all addr_typed addrs" "\<not> (addrs = [] \<or> list_ex is_v6 addrs \<and> mtu < 1280)" for tunnel mtu n addrs
  proof -
    have "of_nat (length addrs) = n" using that(5) by simp
    moreover have "encode_ip_tunnel_ready tunnel mtu addrs
        = Inr (put_u64 tunnel @ put_u16 mtu @ put_u8 (of_nat (length addrs)) @ concat (map put_addr addrs))"
      using that by (auto simp: encode_ip_tunnel_ready_Inr)
    ultimately show ?thesis using that by (simp add: canonical_def kinded_Inr)
  qed
  then show ?thesis
    unfolding decode_payload.simps decode_ip_tunnel_ready_def
    by (intro bind_accepts accepts_require accepts_bind [OF get_tunnel_addresses_accepts])
      (auto intro!: accepts_require accepts_return split: prod.splits)
qed

lemma return_plan_accepts: "accepts (decode_payload KStreamReturnPlanFinal limits) (canonical KStreamReturnPlanFinal limits)"
proof -
  have "canonical KStreamReturnPlanFinal limits (StreamReturnPlanFinal stream os) (put_u64 stream @ put_u8 n @ os)"
    if "fits 64 stream" "validate_path_count (unat n) limits = Inr u" "length os = unat n" for stream n os u
  proof -
    have "of_nat (length os) = n" using that(3) by simp
    moreover have "length os \<le> 255" unfolding that(3) using unat_byte_less [of n] by linarith
    ultimately show ?thesis using that by (simp add: canonical_def kinded_Inr encode_return_plan_final_def)
  qed
  then show ?thesis unfolding decode_payload.simps decode_return_plan_final_def
    by (auto intro!: bind_accepts accepts_lift accepts_bind [OF get_exact_accepts] accepts_return)
qed

lemma peer_status_accepts: "accepts (decode_payload KPeerStatusResponse limits) (canonical KPeerStatusResponse limits)"
proof -
  have "canonical KPeerStatusResponse limits (PeerStatusResponse request code paths)
      (put_u64 request @ put_u8 (peer_status_code_to_u8 code) @ put_u16 (length paths) @ concat (map encode_peer_path paths))"
    if "fits 64 request" "fits 16 (length paths)" "validate_path_count (length paths) limits = Inr u"
      "validate_peer_status_path_count code (length paths) = Inr u'" "list_all peer_path_ok paths" for request code paths u u'
  proof -
    have "peer_path_typed p \<and> metrics_consistent (wire_metrics (pp_metrics p)) \<and> wire_path p = p" if "peer_path_ok p" for p
      using that wire_path_id [OF that] by (simp add: peer_path_ok_def peer_path_typed_def wire_metrics_id)
    then have "list_all peer_path_typed paths" "list_all (\<lambda>p. metrics_consistent (wire_metrics (pp_metrics p))) paths"
        "map wire_path paths = paths"
      using that(5) by (induction paths) simp_all
    then show ?thesis
      using that by (simp add: canonical_def kinded_Inr encode_peer_status_response_def fits_16_iff)
  qed
  then show ?thesis unfolding decode_payload.simps decode_peer_status_response_def
    by (auto intro!: bind_accepts accepts_lift accepts_require accepts_with_room
        accepts_bind [OF peer_path.put_get_times] accepts_return)
qed

lemma decode_payload_accepts: "accepts (decode_payload k limits) (canonical k limits)"
  by (rule kind_groups [of k], erule simple_accepts, erule flow_accepts, erule stream_accepts)
    (simp_all only: tunnel_accepts return_plan_accepts peer_status_accepts ack_accepts feedback_accepts)

end
