(* ===== verification/Codec_Local.thy ===== *)
theory Codec_Local
  imports Codec_Frame_Laws
begin

text \<open>
  A decoder depends on nothing but the bytes in front of it: the position of the reader, the
  bytes before it and the place of the payload in the shared buffer do not matter, for the value,
  for the number of bytes read and for the error. This is what makes the zero-copy \<open>Reader\<close> of
  \<open>codec.rs\<close> a parser of byte strings.
\<close>

text \<open>A Rust buffer is shorter than \<open>2 ^ 63\<close> bytes.\<close>

definition reader_fit :: "reader \<Rightarrow> bool" where
  "reader_fit r \<longleftrightarrow> reader_ok r \<and> length (rd_bytes r) < 2 ^ 63"

lemma reader_fitD [dest]: "reader_fit r \<Longrightarrow> reader_ok r"
  by (simp add: reader_fit_def)

definition local_get :: "'a get \<Rightarrow> bool" where
  "local_get p \<longleftrightarrow>
     (\<forall>r1 r2. reader_fit r1 \<longrightarrow> reader_fit r2 \<longrightarrow> rest r1 = rest r2 \<longrightarrow>
        (case p r1 of
           Inl e \<Rightarrow> p r2 = Inl e
         | Inr (x, r') \<Rightarrow> \<exists>n \<le> length (rest r1). r' = advance n r1 \<and> p r2 = Inr (x, advance n r2)))"

lemma local_getI:
  assumes "\<And>r1 r2. reader_fit r1 \<Longrightarrow> reader_fit r2 \<Longrightarrow> rest r1 = rest r2 \<Longrightarrow>
    (\<exists>e. p r1 = Inl e \<and> p r2 = Inl e)
    \<or> (\<exists>x n. n \<le> length (rest r1) \<and> p r1 = Inr (x, advance n r1) \<and> p r2 = Inr (x, advance n r2))"
  shows "local_get p"
  unfolding local_get_def
proof (intro allI impI)
  fix r1 r2 assume "reader_fit r1" "reader_fit r2" "rest r1 = rest r2"
  from assms [OF this] show "case p r1 of Inl e \<Rightarrow> p r2 = Inl e
      | Inr (x, r') \<Rightarrow> \<exists>n \<le> length (rest r1). r' = advance n r1 \<and> p r2 = Inr (x, advance n r2)"
    by auto
qed

lemma local_getE:
  assumes "local_get p" "reader_fit r1" "reader_fit r2" "rest r1 = rest r2"
  obtains e where "p r1 = Inl e" "p r2 = Inl e"
  | x n where "n \<le> length (rest r1)" "p r1 = Inr (x, advance n r1)" "p r2 = Inr (x, advance n r2)"
proof -
  have "case p r1 of Inl e \<Rightarrow> p r2 = Inl e
      | Inr (x, r') \<Rightarrow> \<exists>n \<le> length (rest r1). r' = advance n r1 \<and> p r2 = Inr (x, advance n r2)"
    using assms unfolding local_get_def by blast
  then show thesis using that by (cases "p r1") auto
qed

lemma advance_ok:
  assumes "reader_fit r" "n \<le> length (rest r)"
  shows "reader_fit (advance n r)" "rest (advance n r) = drop n (rest r)"
  using assms(1) reader_ok_advance [OF reader_fitD [OF assms(1)], of "take n (rest r)" "drop n (rest r)"]
    rest_advance [of r "take n (rest r)" "drop n (rest r)"] assms(2) by (simp_all add: reader_fit_def)

lemma local_return: "local_get (read_return x)"
proof (rule local_getI)
  fix r1 r2
  have "read_return x r1 = Inr (x, advance 0 r1)" "read_return x r2 = Inr (x, advance 0 r2)" by (simp_all add: read_return_def)
  then show "(\<exists>e. read_return x r1 = Inl e \<and> read_return x r2 = Inl e)
    \<or> (\<exists>y n. n \<le> length (rest r1) \<and> read_return x r1 = Inr (y, advance n r1) \<and> read_return x r2 = Inr (y, advance n r2))"
    by blast
qed

lemma local_error: "local_get (\<lambda>r. Inl e)"
  by (rule local_getI) simp

lemma local_bind_if:
  assumes p: "local_get p" and P: "\<And>r x r'. reader_fit r \<Longrightarrow> p r = Inr (x, r') \<Longrightarrow> P x"
    and q: "\<And>x. P x \<Longrightarrow> local_get (q x)"
  shows "local_get (read_bind p q)"
proof (rule local_getI)
  fix r1 r2 assume r: "reader_fit r1" "reader_fit r2" "rest r1 = rest r2"
  show "(\<exists>e. read_bind p q r1 = Inl e \<and> read_bind p q r2 = Inl e)
    \<or> (\<exists>y n. n \<le> length (rest r1) \<and> read_bind p q r1 = Inr (y, advance n r1) \<and> read_bind p q r2 = Inr (y, advance n r2))"
  proof (rule local_getE [OF p r])
    fix e assume "p r1 = Inl e" "p r2 = Inl e"
    then show ?thesis by (simp add: read_bind_def)
  next
    fix x n assume n: "n \<le> length (rest r1)" and run: "p r1 = Inr (x, advance n r1)" "p r2 = Inr (x, advance n r2)"
    have n2: "n \<le> length (rest r2)" using n r(3) by simp
    note q = q [OF P [OF r(1) run(1)]]
    note A1 = advance_ok [OF r(1) n] and A2 = advance_ok [OF r(2) n2]
    have same: "rest (advance n r1) = rest (advance n r2)" using A1(2) A2(2) r(3) by simp
    show ?thesis
    proof (rule local_getE [OF q A1(1) A2(1) same])
      fix e assume "q x (advance n r1) = Inl e" "q x (advance n r2) = Inl e"
      then show ?thesis using run by (simp add: read_bind_def)
    next
      fix y m assume m: "m \<le> length (rest (advance n r1))" and
        "q x (advance n r1) = Inr (y, advance m (advance n r1))" "q x (advance n r2) = Inr (y, advance m (advance n r2))"
      then have "read_bind p q r1 = Inr (y, advance (n + m) r1)" "read_bind p q r2 = Inr (y, advance (n + m) r2)"
        using run by (simp_all add: read_bind_def)
      moreover have "n + m \<le> length (rest r1)" using m n A1(2) by simp
      ultimately show ?thesis by blast
    qed
  qed
qed

lemma local_bind: "local_get p \<Longrightarrow> (\<And>x. local_get (q x)) \<Longrightarrow> local_get (read_bind p q)"
  by (rule local_bind_if [where P = "\<lambda>_. True"]) simp_all

lemma local_bind_of:
  assumes "local_get p" "accepts p R" "\<And>x b. R x b \<Longrightarrow> local_get (q x)"
  shows "local_get (read_bind p q)"
proof (rule local_bind_if [OF assms(1), where P = "\<lambda>x. \<exists>b. R x b"])
  show "\<exists>b. R x b" if "reader_fit r" "p r = Inr (x, r')" for r x r'
    using assms(2) that unfolding accepts_def by blast
qed (use assms(3) in blast)

lemma local_require: "(c \<Longrightarrow> local_get p) \<Longrightarrow> local_get (require c e p)"
proof -
  have "require c e p = (if c then p else (\<lambda>r. Inl e))" by (rule ext) (simp add: require_def)
  then show "(c \<Longrightarrow> local_get p) \<Longrightarrow> local_get (require c e p)" by (simp add: local_error)
qed

lemma local_lift: "local_get p \<Longrightarrow> local_get (lift v p)"
proof -
  have "lift v p = (case v of Inl e \<Rightarrow> (\<lambda>r. Inl e) | Inr _ \<Rightarrow> p)" by (rule ext) (simp add: lift_def split: sum.splits)
  then show "local_get p \<Longrightarrow> local_get (lift v p)" by (cases v) (simp_all add: local_error)
qed

lemma local_convert:
  assumes "local_get p"
  shows "local_get (convert f p)"
proof -
  have "convert f p = read_bind p (\<lambda>x. case f x of Inl e \<Rightarrow> (\<lambda>r. Inl e) | Inr y \<Rightarrow> read_return y)"
    by (rule ext) (auto simp: convert_def read_bind_def read_return_def split: sum.splits)
  moreover have "local_get (case f x of Inl e \<Rightarrow> (\<lambda>r. Inl e) | Inr y \<Rightarrow> read_return y)" for x
    by (cases "f x") (simp_all add: local_error local_return)
  ultimately show ?thesis using local_bind [OF assms, of "\<lambda>x. case f x of Inl e \<Rightarrow> (\<lambda>r. Inl e) | Inr y \<Rightarrow> read_return y"]
    by metis
qed

lemma remaining_rest: "reader_fit r \<Longrightarrow> remaining r = length (rest r)"
  using rest_length [of r] by (simp add: reader_fit_def remaining_def)

lemma local_with_room:
  assumes p: "local_get p"
  shows "local_get (\<lambda>r. require (n \<le> remaining r) e p r)"
proof (rule local_getI)
  fix r1 r2 assume r: "reader_fit r1" "reader_fit r2" "rest r1 = rest r2"
  show "(\<exists>d. require (n \<le> remaining r1) e p r1 = Inl d \<and> require (n \<le> remaining r2) e p r2 = Inl d)
    \<or> (\<exists>y m. m \<le> length (rest r1) \<and> require (n \<le> remaining r1) e p r1 = Inr (y, advance m r1)
          \<and> require (n \<le> remaining r2) e p r2 = Inr (y, advance m r2))"
  proof (cases "n \<le> length (rest r1)")
    case True
    then have "n \<le> remaining r1" "n \<le> remaining r2" using r remaining_rest by simp_all
    then show ?thesis using local_getE [OF p r] by (metis require_def)
  next
    case False
    then have "\<not> n \<le> remaining r1" "\<not> n \<le> remaining r2" using r remaining_rest by simp_all
    then show ?thesis by (simp add: require_def)
  qed
qed

lemma local_get_exact:
  assumes "n < 2 ^ 63"
  shows "local_get (get_exact n)"
proof (rule local_getI)
  fix r1 r2 assume r: "reader_fit r1" "reader_fit r2" "rest r1 = rest r2"
  show "(\<exists>e. get_exact n r1 = Inl e \<and> get_exact n r2 = Inl e)
    \<or> (\<exists>y m. m \<le> length (rest r1) \<and> get_exact n r1 = Inr (y, advance m r1) \<and> get_exact n r2 = Inr (y, advance m r2))"
  proof (cases "n \<le> length (rest r1)")
    case True
    have "get_exact n x = Inr (take n (rest r1), advance n x)" if x: "reader_fit x" "rest x = rest r1" for x
    proof -
      have "rest x = take n (rest r1) @ drop n (rest r1)" using x(2) by simp
      then show ?thesis
        using get_exact_yields [of "take n (rest r1)" n] True reader_fitD [OF x(1)] unfolding yields_def
        by (metis length_take min.absorb2)
    qed
    then show ?thesis using True r by metis
  next
    case False
    have "get_exact n x = Inl UnexpectedEof" if x: "reader_fit x" "rest x = rest r1" for x
    proof -
      have "rd_pos x \<le> length (rd_bytes x)" "length (rd_bytes x) < 2 ^ 63" using x(1) by (simp_all add: reader_fit_def reader_ok_def)
      then have "rd_pos x + n \<le> u64_max" using assms by (simp add: u64_max_def)
      moreover have "length (rd_bytes x) < rd_pos x + n"
        using False x rest_length [OF reader_fitD [OF x(1)]] by simp
      ultimately show ?thesis by (simp add: get_exact_def checked_add_def)
    qed
    then show ?thesis using r by metis
  qed
qed

lemma local_cong:
  assumes "local_get q" and "\<And>r. reader_fit r \<Longrightarrow> p r = q r"
  shows "local_get p"
proof (rule local_getI)
  fix r1 r2 assume r: "reader_fit r1" "reader_fit r2" "rest r1 = rest r2"
  show "(\<exists>e. p r1 = Inl e \<and> p r2 = Inl e)
    \<or> (\<exists>y m. m \<le> length (rest r1) \<and> p r1 = Inr (y, advance m r1) \<and> p r2 = Inr (y, advance m r2))"
    using local_getE [OF assms(1) r] assms(2) [OF r(1)] assms(2) [OF r(2)] by metis
qed

section \<open>All decoders\<close>

lemma local_basic: "local_get get_u8" "local_get get_u16" "local_get get_u32" "local_get get_u64"
  unfolding get_u8_def get_u16_def get_u32_def get_u64_def
  by (intro local_bind local_return local_get_exact; simp)+

lemma local_get_bytes: "local_get (get_bytes_u32 limit)"
proof -
  have "local_get (take_source n)" if "n < 2 ^ 63" for n
    using local_get_exact [OF that] by (rule local_cong) (simp add: take_source_run reader_fit_def)
  then show ?thesis
    unfolding get_bytes_u32_alt by (intro local_bind_of [OF local_basic(3) u32.put_get] local_require) (auto simp: fits_def)
qed

lemma local_fields:
  "local_get (get_string_u16 limit)" "local_get decode_credential_id" "local_get decode_nonce" "local_get decode_auth_tag"
  "local_get (convert f get_u8)" "local_get get_bool" "local_get decode_stream_demand_hint"
proof -
  show "local_get (get_string_u16 limit)"
    unfolding get_string_u16_def
    by (intro local_bind_of [OF local_basic(2) u16.put_get] local_require local_convert local_get_exact) (auto simp: fits_def)
  have small: "unat b < 2 ^ 63" for b :: byte by (rule less_trans [OF unat_byte_less]) simp
  show "local_get decode_credential_id"
    unfolding decode_credential_id_def Let_def
    by (intro local_bind local_basic local_require local_convert local_get_exact local_return small)
  show "local_get decode_nonce" "local_get decode_auth_tag"
    unfolding decode_nonce_def decode_auth_tag_def get_array_def by (intro local_get_exact; simp)+
  show "local_get (convert f get_u8)" "local_get get_bool" "local_get decode_stream_demand_hint"
    unfolding get_bool_def decode_stream_demand_hint_def by (intro local_convert local_basic)+
qed

lemma local_get_times: "local_get p \<Longrightarrow> local_get (get_times n p)"
  by (induction n) (auto intro!: local_return local_bind)

lemma local_varint: "local_get (get_ack_varint_from shift v)"
proof (induction shift v rule: get_ack_varint_from.induct)
  case (1 shift v)
  then show ?case
    by (subst get_ack_varint_from.simps)
      (auto simp: Let_def intro!: local_error local_bind local_basic local_require local_return)
qed

lemma local_target: "local_get (decode_target limits)"
  unfolding decode_target_def get_array_def
  by (auto intro!: local_bind local_basic local_fields local_require local_return local_error local_get_exact)

lemma local_metrics: "local_get decode_path_metrics"
  unfolding decode_path_metrics_def Let_def
  by (intro local_bind local_basic local_fields local_require local_return)

lemma local_peer_path: "local_get decode_peer_path"
  unfolding decode_peer_path_def decode_native_delivery_def
  by (auto intro!: local_bind local_basic local_fields local_metrics local_require local_return local_error split: sum.splits)

lemma local_read_range: "local_get (read_range s e)"
  by (auto simp: read_range_def intro!: local_return local_error split: option.splits)

lemma local_ranges: "local_get (decode_offset_ranges limits)"
  unfolding decode_offset_ranges_def get_offset_range_def
  by (intro local_bind local_basic local_require local_get_times local_read_range)

lemma local_bounds: "local_get (get_packed_bounds previous_end)" "local_get get_plain_bounds"
  unfolding get_packed_bounds_def get_plain_bounds_def get_ack_varint_def
  by (auto intro!: local_bind local_basic local_varint local_return local_error split: option.splits)

lemma local_ack_ranges: "local_get (decode_ack_ranges n packed previous_end)"
  by (induction n arbitrary: previous_end)
    (auto intro!: local_return local_bind local_bounds local_read_range split: prod.splits)

lemma local_ack: "local_get (decode_ack_payload limits)"
  unfolding decode_ack_payload_def Let_def decode_scope_start_def get_ack_varint_def
  by (auto intro!: local_bind local_basic local_require local_varint local_return local_error local_ack_ranges split: sum.splits)

lemma local_tunnel_addresses: "local_get (get_tunnel_addresses n v4 v6)"
  by (induction n arbitrary: v4 v6)
    (auto simp: get_array_def intro!: local_return local_bind local_basic local_get_exact local_error split: prod.splits)

lemma local_decode_payload: "local_get (decode_payload k limits)"
  by (cases k)
    (auto simp: decode_session_auth_def decode_path_join_def decode_open_stream_def decode_return_plan_final_def
      decode_stream_data_def decode_requalify_data_def decode_requalify_ack_def decode_datagram_data_def
      decode_peer_status_response_def decode_ip_tunnel_ready_def decode_ip_packet_def
      intro!: local_bind local_basic local_fields local_get_bytes local_target local_metrics local_ranges local_ack
        local_require local_lift local_return local_with_room local_get_times local_peer_path local_tunnel_addresses
        local_get_exact less_trans [OF unat_byte_less] split: prod.splits)

end
