(* ===== verification/Codec_Correct.thy ===== *)
theory Codec_Correct
  imports Codec_Local
begin

text \<open>
  The codec as a whole: round trips of single frames and of sequences, canonical decoding,
  refusal of truncated and of extended frames, the scatter encoder of stream data, and the number
  of paths that fit a status response.
\<close>

section \<open>Headers\<close>

definition header :: "frame_kind \<Rightarrow> nat \<Rightarrow> bytes" where
  "header k n = MAGIC @ [VERSION] @ [kind_to_u8 k] @ be_bytes 4 n"

lemma length_header [simp]: "length (header k n) = FRAME_HEADER_LEN"
  by (simp add: header_def MAGIC_def FRAME_HEADER_LEN_def)

lemma kind_from_to: "kind_from_u8 (kind_to_u8 k) = Inr k"
  by (cases k) (simp_all add: kind_from_u8_def kind_table_def)

lemma kind_from_u8_Inr: "kind_from_u8 b = Inr k \<longleftrightarrow> b = kind_to_u8 k"
proof
  assume "kind_from_u8 b = Inr k"
  then have "map_of kind_table b = Some k" by (auto simp: kind_from_u8_def split: option.splits)
  then have "(b, k) \<in> set kind_table" by (rule map_of_SomeD)
  then show "b = kind_to_u8 k" by (auto simp: kind_table_def)
qed (simp add: kind_from_to)

lemma header_nth: "header k n ! 4 = VERSION" "header k n ! 5 = kind_to_u8 k"
  "bslice 0 4 (header k n) = MAGIC" "bslice 6 10 (header k n) = be_bytes 4 n"
  by (simp_all add: header_def MAGIC_def bslice_def)

definition len_fits :: "codec_limits \<Rightarrow> nat \<Rightarrow> bool" where
  "len_fits limits n \<longleftrightarrow> n \<le> 4294967295 \<and> n + 10 \<le> cl_max_frame_bytes limits"

lemma header_decodes: "len_fits limits n \<Longrightarrow> decode_payload_len_from_header (header k n) limits = Inr n"
  by (simp add: decode_payload_len_from_header_def header_nth kind_from_to be_nat_be_bytes len_fits_def
      FRAME_HEADER_LEN_def checked_add_def u64_max_def del: length_header) (simp add: header_def MAGIC_def)

lemma header_split: "length h = 10 \<Longrightarrow> h = bslice 0 4 h @ [h ! 4] @ [h ! 5] @ bslice 6 10 h"
  by (auto simp: bslice_def length_Suc_conv numeral_eq_Suc)

lemma decoded_header:
  assumes "decode_payload_len_from_header h limits = Inr n"
  shows "\<exists>k. h = header k n \<and> len_fits limits n"
proof -
  have h: "length h = 10" "bslice 0 4 h = MAGIC" "h ! 4 = VERSION"
    using assms by (auto simp: decode_payload_len_from_header_def FRAME_HEADER_LEN_def split: if_splits)
  obtain k where k: "h ! 5 = kind_to_u8 k" and n: "n = be_nat (bslice 6 10 h)" "n + 10 \<le> cl_max_frame_bytes limits"
    using assms h by (auto simp: decode_payload_len_from_header_def and_then_Inr_iff kind_from_u8_Inr Let_def
        checked_add_def FRAME_HEADER_LEN_def split: if_splits option.splits)
  have len: "length (bslice 6 10 h) = 4" using h(1) by simp
  have "be_bytes 4 n = bslice 6 10 h" using be_bytes_be_nat [of "bslice 6 10 h"] len n(1) by simp
  then have "h = header k n" using header_split [OF h(1)] h k by (simp add: header_def)
  moreover have "n \<le> 4294967295" using be_nat_less [of "bslice 6 10 h"] len n(1) by simp
  ultimately show ?thesis using n(2) by (auto simp: len_fits_def)
qed

section \<open>One frame inside a buffer\<close>

lemma encode_frame_into_Inr:
  "encode_frame_into f limits out = Inr out' \<longleftrightarrow>
     (\<exists>k payload. encode_payload f limits = Inr (k, payload) \<and> len_fits limits (length payload)
        \<and> out' = out @ header k (length payload) @ payload)"
  by (fastforce simp: encode_frame_into_def and_then_Inr_iff len_fits_def header_def FRAME_HEADER_LEN_def
      checked_add_def u64_max_def split: if_splits option.splits prod.splits)

lemma with_source_facts:
  assumes "s \<le> e" "e \<le> length bs" "e \<le> u64_max"
  shows "reader_ok (with_source bs s e)" "rest (with_source bs s e) = bslice s e bs"
    "rd_pos (with_source bs s e) = 0" "length (rd_bytes (with_source bs s e)) = e - s"
  using assms by (simp_all add: reader_ok_def with_source_def rest_def)

lemma read_payload:
  assumes "yields p payload f" "bslice s e bs = payload" "s \<le> e" "e \<le> length bs" "e \<le> u64_max"
  shows "and_then (p (with_source bs s e)) (\<lambda>(f, r). and_then (finish r) (\<lambda>_. Inr (g f))) = Inr (g f)"
proof -
  let ?r = "with_source bs s e"
  note W = with_source_facts [OF assms(3-5)]
  have "p ?r = Inr (f, advance (length payload) ?r)"
    using assms(1,2) W(1,2) unfolding yields_def by (metis append_Nil2)
  moreover have "length payload = e - s" using assms by auto
  ultimately show ?thesis using W by (simp add: finish_def)
qed

lemma payload_read:
  assumes "accepts p Q" "s \<le> e" "e \<le> length bs" "e \<le> u64_max"
    and "and_then (p (with_source bs s e)) (\<lambda>(f, r). and_then (finish r) (\<lambda>_. Inr (g f))) = Inr y"
  shows "\<exists>f. y = g f \<and> Q f (bslice s e bs)"
proof -
  let ?r = "with_source bs s e"
  note W = with_source_facts [OF assms(2-4)]
  obtain f r' where p: "p ?r = Inr (f, r')" "finish r' = Inr ()" "y = g f"
    using assms(5) by (auto simp: and_then_Inr_iff)
  obtain b suf where b: "bslice s e bs = b @ suf" "r' = advance (length b) ?r" "Q f b"
    using assms(1) W(1,2) p(1) unfolding accepts_def by metis
  have "length b = e - s" using p(2) b(2) W(3,4) by (auto simp: finish_def split: if_splits)
  moreover have "length (b @ suf) = e - s" using b(1) assms(2,3) by (metis diff_le_mono length_bslice min.absorb1)
  ultimately have "suf = []" by simp
  then show ?thesis using p(3) b by auto
qed

lemma decode_frame_bytes_of_frame:
  assumes "len_fits limits (length payload)"
  shows "decode_frame_bytes (header k (length payload) @ payload) limits
    = and_then (decode_payload k limits (with_source (header k (length payload) @ payload) 10 (length payload + 10)))
        (\<lambda>(f, r). and_then (finish r) (\<lambda>_. Inr f))"
proof -
  let ?bs = "header k (length payload) @ payload"
  have hd: "bslice 0 10 ?bs = header k (length payload)" by (simp add: bslice_def FRAME_HEADER_LEN_def)
  have nth: "?bs ! 5 = kind_to_u8 k" by (simp add: nth_append header_nth FRAME_HEADER_LEN_def)
  have len: "length ?bs = length payload + 10" by (simp add: FRAME_HEADER_LEN_def)
  have "checked_add 10 (length payload) = Some (length payload + 10)"
    using assms by (simp add: checked_add_def len_fits_def u64_max_def)
  then show ?thesis
    using assms unfolding decode_frame_bytes_def len FRAME_HEADER_LEN_def hd header_decodes [OF assms] nth
    by (simp add: len_fits_def kind_from_to)
qed

lemma decode_frame_at_of_frame:
  assumes "len_fits limits (length payload)" "length (pre @ header k (length payload) @ payload @ post) \<le> u64_max"
  shows "decode_frame_at (pre @ header k (length payload) @ payload @ post) limits (length pre)
    = and_then (decode_payload k limits (with_source (pre @ header k (length payload) @ payload @ post)
          (length pre + 10) (length pre + 10 + length payload)))
        (\<lambda>(f, r). and_then (finish r) (\<lambda>_. Inr (f, length pre + 10 + length payload)))"
proof -
  let ?bs = "pre @ header k (length payload) @ payload @ post"
  have hd: "bslice (length pre) (length pre + 10) ?bs = header k (length payload)" by (simp add: bslice_def FRAME_HEADER_LEN_def)
  have nth: "?bs ! (length pre + 5) = kind_to_u8 k" by (simp add: nth_append header_nth FRAME_HEADER_LEN_def)
  have len: "length ?bs = length pre + 10 + length payload + length post" by (simp add: FRAME_HEADER_LEN_def)
  have c: "checked_add (length pre) 10 = Some (length pre + 10)"
    "checked_add (length pre + 10) (length payload) = Some (length pre + 10 + length payload)"
    using assms(2) by (simp_all add: checked_add_def FRAME_HEADER_LEN_def)
  show ?thesis
    unfolding decode_frame_at_def FRAME_HEADER_LEN_def c option.case hd header_decodes [OF assms(1)] nth kind_from_to
      and_then_simps using len by simp
qed

lemma encode_frame_Inr:
  "encode_frame f limits = Inr bs \<longleftrightarrow>
     (\<exists>k payload. encode_payload f limits = Inr (k, payload) \<and> len_fits limits (length payload)
        \<and> bs = header k (length payload) @ payload)"
  by (simp add: encode_frame_def encode_frame_into_Inr)

lemma decode_encoded:
  assumes "frame_typed f" "frame_consistent f" "encode_payload f limits = Inr (k, payload)" "len_fits limits (length payload)"
  shows "decode_frame_bytes (header k (length payload) @ payload) limits = Inr (wire_frame f)"
proof -
  let ?bs = "header k (length payload) @ payload"
  have "bslice 10 (length payload + 10) ?bs = payload" by (simp add: bslice_def FRAME_HEADER_LEN_def)
  moreover have "length payload + 10 \<le> u64_max" using assms(4) by (simp add: len_fits_def u64_max_def)
  ultimately show ?thesis
    unfolding decode_frame_bytes_of_frame [OF assms(4)]
    using read_payload [OF encode_payload_yields [OF assms(1-3)], of 10 "length payload + 10" ?bs "\<lambda>f. f"]
    by (simp add: FRAME_HEADER_LEN_def)
qed

lemma decoded_frame_shape:
  assumes "decode_frame_bytes bs limits = Inr f"
  shows "\<exists>k payload. bs = header k (length payload) @ payload \<and> len_fits limits (length payload) \<and> canonical k limits f payload"
proof -
  obtain n where n: "decode_payload_len_from_header (bslice 0 10 bs) limits = Inr n" "length bs = n + 10"
    using assms by (auto simp: decode_frame_bytes_def and_then_Inr_iff FRAME_HEADER_LEN_def checked_add_def
        split: if_splits option.splits)
  obtain k where k: "bslice 0 10 bs = header k n" "len_fits limits n" using decoded_header [OF n(1)] by blast
  define payload where "payload = drop 10 bs"
  have bs: "bs = header k (length payload) @ payload" and len: "length payload = n"
    using k(1) n(2) append_take_drop_id [of 10 bs] by (simp_all add: payload_def bslice_def)
  have fits: "len_fits limits (length payload)" using k(2) len by simp
  have max: "length payload + 10 \<le> u64_max" using fits by (simp add: len_fits_def u64_max_def)
  have sl: "bslice 10 (length payload + 10) bs = payload" using bs by (simp add: bslice_def payload_def)
  have "canonical k limits f payload"
    using payload_read [OF decode_payload_accepts, of 10 "length payload + 10" bs k limits "\<lambda>f. f" f]
      decode_frame_bytes_of_frame [OF fits, of k] assms sl n(2) len max bs by simp
  then show ?thesis using bs fits by blast
qed

section \<open>Properties of single frames\<close>

text \<open>C5. What \<open>encode_frame\<close> writes, \<open>decode_frame_bytes\<close> reads back under the same limits, for all 39
  frames. A frame comes back as it was sent, except that the flow label and the scope of an IPv6
  target, which have no place on the wire, come back as zero, and that the validity of a rate is
  clipped to the protocol maximum. The frame has to be one that the
  Rust types allow, and its path metrics have to be consistent, which the encoder does not check.\<close>

theorem frame_round_trip:
  assumes "frame_typed f" "frame_consistent f" "encode_frame f limits = Inr bs"
  shows "decode_frame_bytes bs limits = Inr (wire_frame f)"
  using assms decode_encoded unfolding encode_frame_Inr by blast

definition ex_ack :: frame where
  "ex_ack = StreamAck 5 (Some 3) [\<lparr>range_start = 10, range_end = 20\<rparr>, \<lparr>range_start = 300, range_end = 1000\<rparr>]"

definition ex_ack_bytes :: bytes where
  "ex_ack_bytes = [0x4D, 0x50, 0x54, 0x46, 16, 9, 0, 0, 0, 18, 0, 0, 0, 0, 0, 0, 0, 5, 3, 0, 2, 3, 10, 10, 0x98, 2, 0xBC, 5]"

theorem frame_round_trip_witness:
  "encode_frame ex_ack default_codec_limits = Inr ex_ack_bytes
   \<and> decode_frame_bytes ex_ack_bytes default_codec_limits = Inr ex_ack"
proof -
  have e: "encode_frame ex_ack default_codec_limits = Inr ex_ack_bytes" by code_simp
  have t: "frame_typed ex_ack" "frame_consistent ex_ack"
    by (simp_all add: ex_ack_def range_typed_def fits_def)
  show ?thesis using e frame_round_trip [OF t e] by (simp add: ex_ack_def)
qed

text \<open>C6. Decoding is canonical: an accepted byte string is the encoding of the frame it decodes to,
  under the same limits, and the frame is well typed and consistent. Only an acknowledgement has a
  second accepted form, and the encoder's form of it is never longer than the accepted one.\<close>

theorem decode_canonical:
  assumes "decode_frame_bytes bs limits = Inr f"
  shows "frame_typed f \<and> frame_consistent f \<and> wire_frame f = f
    \<and> (\<exists>bs'. encode_frame f limits = Inr bs' \<and> length bs' \<le> length bs
          \<and> ((\<forall>stream scope rs. f \<noteq> StreamAck stream scope rs) \<longrightarrow> bs' = bs))"
proof -
  obtain k payload where s: "bs = header k (length payload) @ payload" "len_fits limits (length payload)"
      "canonical k limits f payload"
    using decoded_frame_shape [OF assms] by blast
  then obtain p where p: "encode_payload f limits = Inr (k, p)" "length p \<le> length payload" "k \<noteq> KStreamAck \<longrightarrow> p = payload"
    by (auto simp: canonical_def frame_fits_def len_fits_def)
  have "encode_frame f limits = Inr (header k (length p) @ p)"
    unfolding encode_frame_Inr using p s(2) by (auto simp: len_fits_def)
  moreover have "k \<noteq> KStreamAck" if "\<forall>stream scope rs. f \<noteq> StreamAck stream scope rs"
    using p(1) that by (cases f) (auto simp: kinded_Inr)
  ultimately show ?thesis using s p by (auto simp: canonical_def)
qed

theorem decode_canonical_witness:
  "decode_frame_bytes [0x4D, 0x50, 0x54, 0x46, 16, 16, 0, 0, 0, 8, 0, 0, 0, 0, 0, 0, 1, 2] default_codec_limits = Inr (Ping 258)
   \<and> encode_frame (Ping 258) default_codec_limits = Inr [0x4D, 0x50, 0x54, 0x46, 16, 16, 0, 0, 0, 8, 0, 0, 0, 0, 0, 0, 1, 2]"
proof -
  let ?bs = "[0x4D, 0x50, 0x54, 0x46, 16, 16, 0, 0, 0, 8, 0, 0, 0, 0, 0, 0, 1, 2]"
  have d: "decode_frame_bytes ?bs default_codec_limits = Inr (Ping 258)" by code_simp
  show ?thesis using d decode_canonical [OF d] by auto
qed

section \<open>Sequences of frames\<close>

lemma same_payload:
  assumes "local_get p" "s1 \<le> e1" "e1 \<le> length b1" "length b1 < 2 ^ 63" "s2 \<le> e2" "e2 \<le> length b2" "length b2 < 2 ^ 63"
    and "bslice s1 e1 b1 = bslice s2 e2 b2"
  shows "and_then (p (with_source b1 s1 e1)) (\<lambda>(f, r). and_then (finish r) (\<lambda>_. Inr (g f)))
       = and_then (p (with_source b2 s2 e2)) (\<lambda>(f, r). and_then (finish r) (\<lambda>_. Inr (g f)))"
proof -
  let ?r1 = "with_source b1 s1 e1" and ?r2 = "with_source b2 s2 e2"
  have "e1 \<le> u64_max" "e2 \<le> u64_max" using assms(3,4,6,7) by (simp_all add: u64_max_def)
  note W1 = with_source_facts [OF assms(2,3) this(1)] and W2 = with_source_facts [OF assms(5,6) this(2)]
  have len: "e1 - s1 = e2 - s2"
    using arg_cong [OF assms(8), of length] assms(2,3,5,6) by (simp add: min_def split: if_splits)
  have "reader_fit ?r1" "reader_fit ?r2" using W1(1,4) W2(1,4) assms by (simp_all add: reader_fit_def)
  then show ?thesis
  proof (rule local_getE [OF assms(1)])
    show "rest ?r1 = rest ?r2" using W1(2) W2(2) assms(8) by simp
  next
    fix x n assume "p ?r1 = Inr (x, advance n ?r1)" "p ?r2 = Inr (x, advance n ?r2)"
    then show ?thesis using W1(3,4) W2(3,4) len by (simp add: finish_def)
  qed simp
qed

lemma decode_frame_at_split:
  assumes "len_fits limits (length payload)" "length (pre @ header k (length payload) @ payload @ post) < 2 ^ 63"
  shows "decode_frame_at (pre @ header k (length payload) @ payload @ post) limits (length pre)
    = and_then (decode_frame_bytes (header k (length payload) @ payload) limits)
        (\<lambda>f. Inr (f, length pre + 10 + length payload))"
proof -
  let ?bs = "pre @ header k (length payload) @ payload @ post" and ?one = "header k (length payload) @ payload"
  let ?g = "\<lambda>f. (f, length pre + 10 + length payload)"
  have "length ?bs \<le> u64_max" using assms(2) by (simp add: u64_max_def)
  note at = decode_frame_at_of_frame [OF assms(1) this]
  have "bslice (length pre + 10) (length pre + 10 + length payload) ?bs = bslice 10 (length payload + 10) ?one"
    by (simp add: bslice_def FRAME_HEADER_LEN_def)
  then have "decode_frame_at ?bs limits (length pre)
      = and_then (decode_payload k limits (with_source ?one 10 (length payload + 10)))
          (\<lambda>(f, r). and_then (finish r) (\<lambda>_. Inr (?g f)))"
    unfolding at using assms(2)
    by (intro same_payload [OF local_decode_payload]) (simp_all add: FRAME_HEADER_LEN_def)
  also have "\<dots> = and_then (decode_frame_bytes ?one limits) (\<lambda>f. Inr (?g f))"
    unfolding decode_frame_bytes_of_frame [OF assms(1)] by (auto simp: and_then_def split: sum.splits)
  finally show ?thesis .
qed

lemma bslice_split: "a \<le> b \<Longrightarrow> b \<le> length bs \<Longrightarrow> bs = take a bs @ bslice a b bs @ drop b bs"
  by (metis append_take_drop_id bslice_def drop_drop le_add_diff_inverse2 append.assoc)

lemma decode_frame_at_in:
  assumes "bs = pre @ header k (length payload) @ payload @ post" "len_fits limits (length payload)" "length bs < 2 ^ 63"
    and "length pre = pos" "e = pos + 10 + length payload"
  shows "decode_frame_at bs limits pos = and_then (decode_frame_bytes (header k (length payload) @ payload) limits) (\<lambda>f. Inr (f, e))"
  using decode_frame_at_split [OF assms(2), of pre k post] assms by simp

lemma decode_frame_at_iff:
  assumes "length bs < 2 ^ 63" "pos \<le> length bs"
  shows "decode_frame_at bs limits pos = Inr (f, e) \<longleftrightarrow>
    pos < e \<and> e \<le> length bs \<and> decode_frame_bytes (bslice pos e bs) limits = Inr f"
proof
  assume at: "decode_frame_at bs limits pos = Inr (f, e)"
  note move = decode_frame_at_moves [OF at]
  obtain n where n: "decode_payload_len_from_header (bslice pos (pos + 10) bs) limits = Inr n" "e = pos + 10 + n" "pos + 10 \<le> length bs"
    using at by (auto simp: decode_frame_at_def and_then_Inr_iff FRAME_HEADER_LEN_def checked_add_def
        split: if_splits option.splits)
  obtain k where k: "bslice pos (pos + 10) bs = header k n" "len_fits limits n" using decoded_header [OF n(1)] by blast
  define payload where "payload = bslice (pos + 10) e bs"
  have len: "length payload = n" using n(2) move by (simp add: payload_def)
  have one: "bslice pos e bs = header k (length payload) @ payload"
  proof -
    have "bslice pos e bs = bslice pos (pos + 10) bs @ bslice (pos + 10) e bs"
      using n(2) take_add [of 10 n "drop pos bs"] by (simp add: bslice_def add.commute)
    then show ?thesis using k(1) len by (simp add: payload_def)
  qed
  have bs: "bs = take pos bs @ header k (length payload) @ payload @ drop e bs"
    using bslice_split [of pos e bs] move one by simp
  have "decode_frame_at bs limits pos
      = and_then (decode_frame_bytes (header k (length payload) @ payload) limits) (\<lambda>f. Inr (f, e))"
    by (rule decode_frame_at_in [OF bs _ assms(1)]) (use k(2) len n(2) assms(2) in simp_all)
  then show "pos < e \<and> e \<le> length bs \<and> decode_frame_bytes (bslice pos e bs) limits = Inr f"
    using at move unfolding one by (cases "decode_frame_bytes (header k (length payload) @ payload) limits") simp_all
next
  assume r: "pos < e \<and> e \<le> length bs \<and> decode_frame_bytes (bslice pos e bs) limits = Inr f"
  then obtain k payload where one: "bslice pos e bs = header k (length payload) @ payload" "len_fits limits (length payload)"
    using decoded_frame_shape by blast
  have bs: "bs = take pos bs @ header k (length payload) @ payload @ drop e bs"
    using bslice_split [of pos e bs] r one(1) by simp
  have e: "e = pos + 10 + length payload"
    using arg_cong [OF one(1), of length] r by (auto simp: FRAME_HEADER_LEN_def min_def split: if_splits)
  have "decode_frame_at bs limits pos
      = and_then (decode_frame_bytes (header k (length payload) @ payload) limits) (\<lambda>f. Inr (f, e))"
    by (rule decode_frame_at_in [OF bs one(2) assms(1)]) (use e assms(2) in simp_all)
  then show "decode_frame_at bs limits pos = Inr (f, e)" using r unfolding one(1) by simp
qed

definition decodes :: "codec_limits \<Rightarrow> bytes \<Rightarrow> frame \<Rightarrow> bool" where
  "decodes limits part f \<longleftrightarrow> decode_frame_bytes part limits = Inr f"

lemma decodes_nonempty: "decodes limits part f \<Longrightarrow> part \<noteq> []"
  by (auto simp: decodes_def decode_frame_bytes_def FRAME_HEADER_LEN_def)

lemma decode_frames_from_iff:
  "length bs < 2 ^ 63 \<Longrightarrow> pos \<le> length bs \<Longrightarrow>
    decode_frames_from bs limits pos = Inr fs \<longleftrightarrow> (\<exists>parts. drop pos bs = concat parts \<and> list_all2 (decodes limits) parts fs)"
proof (induction bs limits pos arbitrary: fs rule: decode_frames_from.induct)
  case (1 bs limits pos)
  show ?case
  proof (cases "pos < length bs")
    case False
    then have "parts = []" if "[] = concat parts" "list_all2 (decodes limits) parts fs" for parts
      using that decodes_nonempty by (cases parts) (auto simp: list_all2_Cons1)
    then show ?thesis using False "1.prems" by (subst decode_frames_from.simps) auto
  next
    case True
    have run: "decode_frames_from bs limits pos = Inr fs \<longleftrightarrow>
        (\<exists>f e gs. decode_frame_at bs limits pos = Inr (f, e) \<and> decode_frames_from bs limits e = Inr gs \<and> fs = f # gs)"
      using True by (subst decode_frames_from.simps) (auto split: sum.splits)
    show ?thesis
    proof
      assume "decode_frames_from bs limits pos = Inr fs"
      then obtain f e gs where f: "decode_frame_at bs limits pos = Inr (f, e)" "decode_frames_from bs limits e = Inr gs" "fs = f # gs"
        using run by blast
      note at = f(1) [unfolded decode_frame_at_iff [OF "1.prems"]]
      obtain parts where parts: "drop e bs = concat parts" "list_all2 (decodes limits) parts gs"
        using "1.IH" [OF True f(1)] f(2) "1.prems"(1) at by auto
      have "drop pos bs = bslice pos e bs @ drop e bs"
        using at by (metis append_take_drop_id bslice_def drop_drop le_add_diff_inverse2 less_imp_le)
      then have "drop pos bs = concat (bslice pos e bs # parts) \<and> list_all2 (decodes limits) (bslice pos e bs # parts) fs"
        using parts f(3) at by (simp add: decodes_def)
      then show "\<exists>parts. drop pos bs = concat parts \<and> list_all2 (decodes limits) parts fs" by blast
    next
      assume "\<exists>parts. drop pos bs = concat parts \<and> list_all2 (decodes limits) parts fs"
      then obtain part parts f gs where parts: "drop pos bs = part @ concat parts" "decodes limits part f"
          "list_all2 (decodes limits) parts gs" "fs = f # gs"
      proof (elim exE conjE)
        fix ps assume ps: "drop pos bs = concat ps" "list_all2 (decodes limits) ps fs"
        then obtain q qs where "ps = q # qs" using True by (cases ps) auto
        then show thesis using ps that by (auto simp: list_all2_Cons1)
      qed
      define e where "e = pos + length part"
      have len: "length part \<le> length (drop pos bs)" using parts(1) by simp
      have "drop (length part) (drop pos bs) = concat parts" using parts(1) by simp
      then have "drop e bs = concat parts" by (simp add: e_def add.commute)
      moreover have "bslice pos e bs = part" using parts(1) by (simp add: bslice_def e_def)
      moreover have "pos < e" "e \<le> length bs"
        using decodes_nonempty [OF parts(2)] len True by (simp_all add: e_def)
      ultimately have bs: "bslice pos e bs = part" "drop e bs = concat parts" "pos < e" "e \<le> length bs" by blast+
      then have at: "decode_frame_at bs limits pos = Inr (f, e)"
        using parts(2) decode_frame_at_iff [OF "1.prems"] by (simp add: decodes_def)
      then have "decode_frames_from bs limits e = Inr gs"
        using "1.IH" [OF True at] "1.prems"(1) parts(3) bs(2,4) by auto
      then show "decode_frames_from bs limits pos = Inr fs" using run at parts(4) by blast
    qed
  qed
qed

text \<open>C31. A buffer of several frames decodes to a list of frames exactly when it is cut, at the ends
  that the headers give, into byte strings that each decode on their own to that frame. No frame
  borrows bytes from its neighbours.\<close>

theorem decode_frames_piecewise:
  assumes "length bs < 2 ^ 63"
  shows "decode_frames_bytes bs limits = Inr fs \<longleftrightarrow>
    fs \<noteq> [] \<and> (\<exists>parts. bs = concat parts \<and> list_all2 (\<lambda>part f. decode_frame_bytes part limits = Inr f) parts fs)"
proof (cases "bs = []")
  case True
  have "parts = []" if "[] = concat parts" "list_all2 (decodes limits) parts fs" for parts
    using that decodes_nonempty by (cases parts) (auto simp: list_all2_Cons1)
  then show ?thesis using True by (auto simp: decode_frames_bytes_def decodes_def [abs_def])
next
  case False
  then show ?thesis
    using decode_frames_from_iff [OF assms, of 0 limits fs]
    by (auto simp: decode_frames_bytes_def decodes_def [abs_def])
qed

definition ex_ready_bytes :: bytes where
  "ex_ready_bytes = [0x4D, 0x50, 0x54, 0x46, 16, 2, 0, 0, 0, 0]"

theorem decode_frames_piecewise_witness:
  "decode_frames_bytes (ex_ready_bytes @ ex_ack_bytes) default_codec_limits = Inr [SessionReady, ex_ack]"
proof -
  have d: "decode_frame_bytes ex_ready_bytes default_codec_limits = Inr SessionReady"
    "decode_frame_bytes ex_ack_bytes default_codec_limits = Inr ex_ack" by code_simp+
  have "ex_ready_bytes @ ex_ack_bytes = concat [ex_ready_bytes, ex_ack_bytes]
    \<and> list_all2 (\<lambda>part f. decode_frame_bytes part default_codec_limits = Inr f) [ex_ready_bytes, ex_ack_bytes] [SessionReady, ex_ack]"
    using d by simp
  moreover have "length (ex_ready_bytes @ ex_ack_bytes) < 2 ^ 63" by (simp add: ex_ready_bytes_def ex_ack_bytes_def)
  ultimately show ?thesis using decode_frames_piecewise [of "ex_ready_bytes @ ex_ack_bytes" default_codec_limits] by blast
qed




section \<open>Refusals and sizes\<close>

text \<open>C33. An encoded frame is recognised at its exact length. Every proper prefix of it is refused as
  an unexpected end, so a stream reader waits for more bytes. Every proper extension of it is refused
  as well: as trailing bytes when it is within the frame size limit, and as too large, with its
  length and the limit, when it is not.\<close>

theorem wrong_length_refused:
  assumes "encode_frame f limits = Inr bs"
  shows "(n < length bs \<longrightarrow> decode_frame_bytes (take n bs) limits = Inl UnexpectedEof)
    \<and> (suf \<noteq> [] \<longrightarrow> decode_frame_bytes (bs @ suf) limits
          = Inl (if length (bs @ suf) \<le> cl_max_frame_bytes limits then TrailingBytes
                 else FrameTooLarge (length (bs @ suf)) (cl_max_frame_bytes limits)))"
proof -
  obtain k payload where p: "len_fits limits (length payload)" "bs = header k (length payload) @ payload"
    using assms unfolding encode_frame_Inr by blast
  have len: "length bs = length payload + 10" using p(2) by (simp add: FRAME_HEADER_LEN_def)
  have c: "checked_add 10 (length payload) = Some (length payload + 10)"
    using p(1) by (simp add: checked_add_def len_fits_def u64_max_def)
  have "decode_frame_bytes (take n bs) limits = Inl UnexpectedEof" if n: "n < length bs"
  proof (cases "n < 10")
    case True
    then show ?thesis using n by (simp add: decode_frame_bytes_def FRAME_HEADER_LEN_def)
  next
    case False
    then have hd: "bslice 0 10 (take n bs) = header k (length payload)"
      using p(2) by (simp add: bslice_def FRAME_HEADER_LEN_def min_def)
    show ?thesis
      unfolding decode_frame_bytes_def FRAME_HEADER_LEN_def hd header_decodes [OF p(1)] and_then_simps c option.case
      using False n len p(1) by (simp add: len_fits_def)
  qed
  moreover have "decode_frame_bytes (bs @ suf) limits = Inl TrailingBytes"
    if s: "suf \<noteq> []" "length (bs @ suf) \<le> cl_max_frame_bytes limits"
  proof -
    have hd: "bslice 0 10 (bs @ suf) = header k (length payload)" using p(2) by (simp add: bslice_def FRAME_HEADER_LEN_def)
    show ?thesis
      unfolding decode_frame_bytes_def FRAME_HEADER_LEN_def hd header_decodes [OF p(1)] and_then_simps c option.case
      using s len by simp
  qed
  moreover have "decode_frame_bytes (bs @ suf) limits = Inl (FrameTooLarge (length (bs @ suf)) (cl_max_frame_bytes limits))"
    if "cl_max_frame_bytes limits < length (bs @ suf)"
    using that len by (simp add: decode_frame_bytes_def FRAME_HEADER_LEN_def)
  ultimately show ?thesis by (simp add: not_le)
qed

theorem wrong_length_refused_witness:
  "decode_frame_bytes (take 27 ex_ack_bytes) default_codec_limits = Inl UnexpectedEof
   \<and> decode_frame_bytes (ex_ack_bytes @ [0]) default_codec_limits = Inl TrailingBytes
   \<and> decode_frame_bytes (ex_ack_bytes @ [0]) (default_codec_limits\<lparr>cl_max_frame_bytes := 28\<rparr>) = Inl (FrameTooLarge 29 28)"
proof -
  have e: "encode_frame ex_ack default_codec_limits = Inr ex_ack_bytes"
      "encode_frame ex_ack (default_codec_limits\<lparr>cl_max_frame_bytes := 28\<rparr>) = Inr ex_ack_bytes" by code_simp+
  show ?thesis
    using wrong_length_refused [OF e(1), of 27 "[0]"] wrong_length_refused [OF e(2), of 27 "[0]"]
    by (simp add: ex_ack_bytes_def default_codec_limits_def)
qed

text \<open>C34. The scatter encoder of stream data agrees with the ordinary codec, errors included: encoding
  a stream data frame is the prefix of \<open>encode_stream_data_prefix\<close> followed by the payload.\<close>

theorem stream_data_prefix_exact:
  "encode_frame (StreamData stream offset payload) limits
     = and_then (encode_stream_data_prefix stream offset (length payload) limits) (\<lambda>prefix. Inr (prefix @ payload))"
proof (cases "encode_stream_data_prefix stream offset (length payload) limits")
  case (Inl e)
  then show ?thesis by (simp add: encode_frame_def encode_frame_into_def encode_stream_data_def kinded_def)
next
  case (Inr prefix)
  note p = Inr [unfolded prefix_Inr]
  let ?enc = "put_u64 stream @ put_u64 offset @ put_u32 (length payload) @ payload"
  have "encode_stream_data stream offset payload limits = Inr ?enc"
    using p by (simp add: encode_stream_data_Inr)
  then have "encode_payload (StreamData stream offset payload) limits = Inr (KStreamData, ?enc)" by (simp add: kinded_def)
  moreover have "len_fits limits (length ?enc)" using p by (simp add: len_fits_def)
  moreover have "header KStreamData (length ?enc) @ ?enc = prefix @ payload"
    using p by (simp add: header_def put_u64_def put_u32_def add.commute)
  ultimately have "encode_frame (StreamData stream offset payload) limits = Inr (prefix @ payload)"
    unfolding encode_frame_Inr by metis
  then show ?thesis using Inr by simp
qed

text \<open>C35. \<open>peer_status_response_path_limit\<close> is exact. A status response can be encoded exactly when the
  limits leave room for a response without paths, it has at most that many paths, and it has no paths
  at all unless its code is OK.\<close>

theorem peer_status_limit_exact:
  "(\<exists>bs. encode_frame (PeerStatusResponse request code paths) limits = Inr bs)
    \<longleftrightarrow> FRAME_HEADER_LEN + PEER_STATUS_RESPONSE_FIXED_PAYLOAD_LEN \<le> cl_max_frame_bytes limits
      \<and> length paths \<le> peer_status_response_path_limit limits \<and> (code = PeerOk \<or> paths = [])"
proof -
  let ?n = "length paths"
  let ?enc = "put_u64 request @ put_u8 (peer_status_code_to_u8 code) @ put_u16 ?n @ concat (map encode_peer_path paths)"
  have payload: "encode_payload (PeerStatusResponse request code paths) limits = Inr (k, p) \<longleftrightarrow>
      ?n \<le> cl_max_paths limits \<and> ?n \<le> 65535 \<and> (code = PeerOk \<or> paths = []) \<and> k = KPeerStatusResponse \<and> p = ?enc" for k p
    by (auto simp: kinded_Inr encode_peer_status_response_def and_then_Inr_iff validate_path_count_def
        validate_peer_status_path_count_def)
  have len: "length ?enc = 11 + ?n * 144"
    by (simp add: peer_paths_length PEER_PATH_STATUS_ENCODED_LEN_def PATH_METRICS_ENCODED_LEN_def del: length_concat)
  have "(\<exists>bs. encode_frame (PeerStatusResponse request code paths) limits = Inr bs) \<longleftrightarrow>
      ?n \<le> cl_max_paths limits \<and> ?n \<le> 65535 \<and> (code = PeerOk \<or> paths = []) \<and> len_fits limits (11 + ?n * 144)"
    unfolding encode_frame_Inr payload using len by auto
  also have "\<dots> \<longleftrightarrow> 21 \<le> cl_max_frame_bytes limits \<and> ?n \<le> cl_max_paths limits \<and> ?n \<le> 65535
      \<and> ?n \<le> (cl_max_frame_bytes limits - 21) div 144 \<and> (code = PeerOk \<or> paths = [])"
    by (auto simp: len_fits_def less_eq_div_iff_mult_less_eq)
  finally show ?thesis
    by (auto simp: peer_status_response_path_limit_def Let_def FRAME_HEADER_LEN_def
        PEER_STATUS_RESPONSE_FIXED_PAYLOAD_LEN_def PEER_PATH_STATUS_ENCODED_LEN_def PATH_METRICS_ENCODED_LEN_def)
qed

text \<open>Acknowledgements are compressed only when that is shorter, and losslessly: the encoded payload is
  never longer than the sixteen bytes per range of the plain form plus the fixed fields, and the
  length that \<open>packed_ack_ranges_len\<close> predicts is the length of the packed ranges.\<close>

theorem ack_encoding_compact:
  assumes "frame_typed (StreamAck stream scope ranges)" "encode_ack_payload stream scope ranges limits = Inr bs"
  shows "length bs \<le> 11 + (case scope of None \<Rightarrow> 0 | Some start \<Rightarrow> ack_varint_len start) + length ranges * 16
    \<and> (packed_ack_ranges_len ranges = Some n \<and> n < length ranges * 16
        \<longrightarrow> length bs = 11 + (case scope of None \<Rightarrow> 0 | Some start \<Rightarrow> ack_varint_len start) + n)"
proof -
  have ends: "list_all (\<lambda>r. fits 64 (range_end r)) ranges" using assms(1) by (auto simp: range_typed_def list_all_iff)
  have bs: "bs = put_ack (prefers_packed ranges) stream scope ranges"
    using encode_ack_Inr_iff [OF _ ends, of stream scope limits bs] assms by simp
  have plain: "length (concat (map put_range ranges)) = length ranges * 16"
    by (induction ranges) (simp_all add: put_range_def)
  have scope: "length (case scope of None \<Rightarrow> [] | Some start \<Rightarrow> put_ack_varint start)
      = (case scope of None \<Rightarrow> 0 | Some start \<Rightarrow> ack_varint_len start)"
    using assms(1) by (cases scope) (simp_all add: ack_varint_len_exact)
  have "packed_ack_ranges_len ranges = (if ascending 0 ranges then Some (length (packed_bytes 0 ranges)) else None)"
    using packed_len_from_eq [OF ends, of 0 0] by (simp add: packed_ack_ranges_len_def)
  then show ?thesis
    unfolding bs put_ack_def using plain scope by (auto simp: ack_range_bytes_def prefers_packed_def split: if_splits)
qed

theorem ack_encoding_compact_witness:
  "packed_ack_ranges_len [\<lparr>range_start = 10, range_end = 20\<rparr>, \<lparr>range_start = 300, range_end = 1000\<rparr>] = Some 6
   \<and> (\<exists>bs. encode_ack_payload 5 (Some 3) [\<lparr>range_start = 10, range_end = 20\<rparr>, \<lparr>range_start = 300, range_end = 1000\<rparr>] default_codec_limits
        = Inr bs \<and> length bs = 18)"
proof -
  let ?rs = "[\<lparr>range_start = 10, range_end = 20\<rparr>, \<lparr>range_start = 300, range_end = 1000\<rparr>]"
  have n: "packed_ack_ranges_len ?rs = Some 6" "ack_varint_len 3 = 1" by code_simp+
  have "\<not> isl (encode_ack_payload 5 (Some 3) ?rs default_codec_limits)" by code_simp
  then obtain bs where e: "encode_ack_payload 5 (Some 3) ?rs default_codec_limits = Inr bs"
    by (cases "encode_ack_payload 5 (Some 3) ?rs default_codec_limits") simp_all
  have "frame_typed (StreamAck 5 (Some 3) ?rs)" by (simp add: range_typed_def fits_def)
  from ack_encoding_compact [OF this e, of 6] show ?thesis using n e by simp
qed

end
