(* ===== verification/Auth_Tags.thy ===== *)
theory Auth_Tags
  imports Codec_Fields
begin

text \<open>
  Session and path-join authentication, \<open>src/src/protocol/auth.rs\<close>. The \<open>hmac\<close> crate is a parameter:
  \<open>hmac secret message\<close> is the 32 byte HMAC-SHA256 of the message. A running MAC is the
  message it has been fed so far, since \<open>update\<close> appends; \<open>verify_slice\<close> compares the complete tag.

  The contract that the callers rely on is that a tag stands for one request only. A transcript
  determines its request, over all three kinds of request, so a tag that is accepted for a request
  other than the one it was made for is a collision of the MAC.
\<close>

section \<open>Transcripts\<close>

type_synonym mac_function = "bytes \<Rightarrow> bytes \<Rightarrow> auth_tag"
type_synonym mac = bytes

definition ascii :: "string \<Rightarrow> bytes" where
  "ascii s = map of_char s"

definition SESSION_AUTH_CONTEXT :: bytes where
  "SESSION_AUTH_CONTEXT = ascii ''mptunnel session auth v11''"

definition PATH_JOIN_CONTEXT :: bytes where
  "PATH_JOIN_CONTEXT = ascii ''mptunnel path join v11''"

definition TCP_SESSION_AUTH_CONTEXT :: bytes where
  "TCP_SESSION_AUTH_CONTEXT = ascii ''mptunnel tcp session auth v1''"

definition TCP_CARRIER_ROLE_CLIENT :: u8 where
  "TCP_CARRIER_ROLE_CLIENT = 1"

definition TCP_DIRECTION_CLIENT_TO_SERVER :: u8 where
  "TCP_DIRECTION_CLIENT_TO_SERVER = 1"

definition mac_update :: "bytes \<Rightarrow> mac \<Rightarrow> mac" where
  "mac_update bs mac = mac @ bs"

definition update_session_id :: "session_id \<Rightarrow> mac \<Rightarrow> mac" where
  "update_session_id sid = mac_update (be_bytes 8 sid)"

definition update_credential_id :: "rust_string \<Rightarrow> mac \<Rightarrow> mac" where
  "update_credential_id cred =
     (let len = (if length cred \<le> 255 then of_nat (length cred) else 255) :: u8
      in mac_update cred \<circ> mac_update [len])"

definition update_path_id :: "path_id \<Rightarrow> mac \<Rightarrow> mac" where
  "update_path_id path = mac_update (be_bytes 2 path)"

definition update_configured_slot :: "configured_member_slot \<Rightarrow> mac \<Rightarrow> mac" where
  "update_configured_slot slot = mac_update (be_bytes 2 slot)"

definition update_underlay :: "underlay_protocol \<Rightarrow> mac \<Rightarrow> mac" where
  "update_underlay underlay = mac_update [case underlay of Tcp \<Rightarrow> 1 | Udp \<Rightarrow> 2]"

definition update_nonce :: "auth_nonce \<Rightarrow> mac \<Rightarrow> mac" where
  "update_nonce nonce = mac_update nonce"

definition update_issued_at :: "u64 \<Rightarrow> mac \<Rightarrow> mac" where
  "update_issued_at t = mac_update (be_bytes 8 t)"

definition update_tcp_session_auth_transcript ::
  "session_id \<Rightarrow> rust_string \<Rightarrow> auth_nonce \<Rightarrow> u64 \<Rightarrow> bytes \<Rightarrow> mac \<Rightarrow> mac" where
  "update_tcp_session_auth_transcript sid cred nonce t binding mac =
     update_issued_at t (update_nonce nonce (update_credential_id cred (update_session_id sid
       (mac_update binding
         (mac_update [TCP_CARRIER_ROLE_CLIENT, TCP_DIRECTION_CLIENT_TO_SERVER]
           (mac_update TCP_SESSION_AUTH_CONTEXT mac))))))"

section \<open>The authenticator\<close>

datatype auth_error = EmptySecret

record session_authenticator =
  sa_secret :: bytes

definition session_authenticator_new :: "bytes \<Rightarrow> auth_error + session_authenticator" where
  "session_authenticator_new secret = (if secret = [] then Inl EmptySecret else Inr \<lparr>sa_secret = secret\<rparr>)"

definition new_mac :: mac where
  "new_mac = []"

definition finalize_tag :: "mac_function \<Rightarrow> session_authenticator \<Rightarrow> mac \<Rightarrow> auth_tag" where
  "finalize_tag hmac au mac = hmac (sa_secret au) mac"

definition verify_tag :: "mac_function \<Rightarrow> session_authenticator \<Rightarrow> mac \<Rightarrow> auth_tag \<Rightarrow> bool" where
  "verify_tag hmac au mac tag \<longleftrightarrow> hmac (sa_secret au) mac = tag"

text \<open>\<open>u64::abs_diff\<close>.\<close>

definition abs_diff :: "nat \<Rightarrow> nat \<Rightarrow> nat" where
  "abs_diff a b = (if a < b then b - a else a - b)"

definition issued_at_is_fresh :: "u64 \<Rightarrow> u64 \<Rightarrow> u64 \<Rightarrow> bool" where
  "issued_at_is_fresh issued_at now window \<longleftrightarrow> (if window = 0 then False else abs_diff issued_at now \<le> window)"

definition session_auth_tag ::
  "mac_function \<Rightarrow> session_authenticator \<Rightarrow> session_id \<Rightarrow> rust_string \<Rightarrow> auth_nonce \<Rightarrow> u64 \<Rightarrow> auth_tag" where
  "session_auth_tag hmac au sid cred nonce t =
     finalize_tag hmac au
       (update_issued_at t (update_nonce nonce (update_credential_id cred (update_session_id sid
         (mac_update SESSION_AUTH_CONTEXT new_mac)))))"

record session_auth_check =
  sac_session_id :: session_id
  sac_credential_id :: rust_string
  sac_nonce :: auth_nonce
  sac_issued_at :: u64
  sac_tag :: auth_tag
  sac_now :: u64
  sac_window :: u64

definition verify_session_auth :: "mac_function \<Rightarrow> session_authenticator \<Rightarrow> session_auth_check \<Rightarrow> bool" where
  "verify_session_auth hmac au check \<longleftrightarrow>
     (if \<not> issued_at_is_fresh (sac_issued_at check) (sac_now check) (sac_window check) then False
      else verify_tag hmac au
        (update_issued_at (sac_issued_at check) (update_nonce (sac_nonce check)
          (update_credential_id (sac_credential_id check) (update_session_id (sac_session_id check)
            (mac_update SESSION_AUTH_CONTEXT new_mac)))))
        (sac_tag check))"

definition tcp_session_auth_tag ::
  "mac_function \<Rightarrow> session_authenticator \<Rightarrow> session_id \<Rightarrow> rust_string \<Rightarrow> auth_nonce \<Rightarrow> u64 \<Rightarrow> bytes \<Rightarrow> auth_tag" where
  "tcp_session_auth_tag hmac au sid cred nonce t binding =
     finalize_tag hmac au (update_tcp_session_auth_transcript sid cred nonce t binding new_mac)"

record tcp_session_auth_check =
  tac_session_id :: session_id
  tac_credential_id :: rust_string
  tac_nonce :: auth_nonce
  tac_issued_at :: u64
  tac_transport_binding :: bytes
  tac_tag :: auth_tag
  tac_now :: u64
  tac_window :: u64

definition verify_tcp_session_auth :: "mac_function \<Rightarrow> session_authenticator \<Rightarrow> tcp_session_auth_check \<Rightarrow> bool" where
  "verify_tcp_session_auth hmac au check \<longleftrightarrow>
     (if \<not> issued_at_is_fresh (tac_issued_at check) (tac_now check) (tac_window check) then False
      else verify_tag hmac au
        (update_tcp_session_auth_transcript (tac_session_id check) (tac_credential_id check) (tac_nonce check)
          (tac_issued_at check) (tac_transport_binding check) new_mac)
        (tac_tag check))"

definition path_join_tag ::
  "mac_function \<Rightarrow> session_authenticator \<Rightarrow> session_id \<Rightarrow> rust_string \<Rightarrow> path_id \<Rightarrow> configured_member_slot
     \<Rightarrow> underlay_protocol \<Rightarrow> auth_nonce \<Rightarrow> u64 \<Rightarrow> auth_tag" where
  "path_join_tag hmac au sid cred path slot underlay nonce t =
     finalize_tag hmac au
       (update_issued_at t (update_nonce nonce (update_underlay underlay (update_configured_slot slot
         (update_path_id path (update_credential_id cred (update_session_id sid
           (mac_update PATH_JOIN_CONTEXT new_mac))))))))"

record path_join_auth_check =
  pjc_session_id :: session_id
  pjc_credential_id :: rust_string
  pjc_path_id :: path_id
  pjc_configured_slot :: configured_member_slot
  pjc_underlay :: underlay_protocol
  pjc_nonce :: auth_nonce
  pjc_issued_at :: u64
  pjc_tag :: auth_tag
  pjc_now :: u64
  pjc_window :: u64

definition verify_path_join :: "mac_function \<Rightarrow> session_authenticator \<Rightarrow> path_join_auth_check \<Rightarrow> bool" where
  "verify_path_join hmac au check \<longleftrightarrow>
     (if \<not> issued_at_is_fresh (pjc_issued_at check) (pjc_now check) (pjc_window check) then False
      else verify_tag hmac au
        (update_issued_at (pjc_issued_at check) (update_nonce (pjc_nonce check) (update_underlay (pjc_underlay check)
          (update_configured_slot (pjc_configured_slot check) (update_path_id (pjc_path_id check)
            (update_credential_id (pjc_credential_id check) (update_session_id (pjc_session_id check)
              (mac_update PATH_JOIN_CONTEXT new_mac))))))))
        (pjc_tag check))"

section \<open>What a tag stands for\<close>

text \<open>A request is what is authenticated; its transcript is the message under the MAC.\<close>

datatype auth_request =
    SessionRequest session_id rust_string auth_nonce u64
  | TcpSessionRequest session_id rust_string auth_nonce u64 bytes
  | JoinRequest session_id rust_string path_id configured_member_slot underlay_protocol auth_nonce u64

definition credential_bytes :: "rust_string \<Rightarrow> bytes" where
  "credential_bytes cred = of_nat (length cred) # cred"

definition underlay_byte :: "underlay_protocol \<Rightarrow> u8" where
  "underlay_byte u = (case u of Tcp \<Rightarrow> 1 | Udp \<Rightarrow> 2)"

fun transcript :: "auth_request \<Rightarrow> bytes" where
  "transcript (SessionRequest sid cred nonce t) =
     SESSION_AUTH_CONTEXT @ be_bytes 8 sid @ credential_bytes cred @ nonce @ be_bytes 8 t"
| "transcript (TcpSessionRequest sid cred nonce t binding) =
     TCP_SESSION_AUTH_CONTEXT @ [1, 1] @ binding @ be_bytes 8 sid @ credential_bytes cred @ nonce @ be_bytes 8 t"
| "transcript (JoinRequest sid cred path slot underlay nonce t) =
     PATH_JOIN_CONTEXT @ be_bytes 8 sid @ credential_bytes cred @ be_bytes 2 path @ be_bytes 2 slot
       @ [underlay_byte underlay] @ nonce @ be_bytes 8 t"

text \<open>The ranges of the Rust types; credentials of more than 255 bytes cannot be parsed.\<close>

fun request_typed :: "auth_request \<Rightarrow> bool" where
  "request_typed (SessionRequest sid cred nonce t) \<longleftrightarrow>
     fits 64 sid \<and> length cred \<le> 255 \<and> length nonce = 16 \<and> fits 64 t"
| "request_typed (TcpSessionRequest sid cred nonce t binding) \<longleftrightarrow>
     fits 64 sid \<and> length cred \<le> 255 \<and> length nonce = 16 \<and> fits 64 t \<and> length binding = 32"
| "request_typed (JoinRequest sid cred path slot underlay nonce t) \<longleftrightarrow>
     fits 64 sid \<and> length cred \<le> 255 \<and> fits 16 path \<and> fits 16 slot \<and> length nonce = 16 \<and> fits 64 t"

lemmas update_defs = mac_update_def update_session_id_def update_credential_id_def update_path_id_def
  update_configured_slot_def update_underlay_def update_nonce_def update_issued_at_def new_mac_def
  update_tcp_session_auth_transcript_def TCP_CARRIER_ROLE_CLIENT_def TCP_DIRECTION_CLIENT_TO_SERVER_def

lemma tags_of_transcripts:
  assumes "length cred \<le> 255"
  shows "session_auth_tag hmac au sid cred nonce t = hmac (sa_secret au) (transcript (SessionRequest sid cred nonce t))"
    "tcp_session_auth_tag hmac au sid cred nonce t binding
      = hmac (sa_secret au) (transcript (TcpSessionRequest sid cred nonce t binding))"
    "path_join_tag hmac au sid cred path slot underlay nonce t
      = hmac (sa_secret au) (transcript (JoinRequest sid cred path slot underlay nonce t))"
  using assms
  by (simp_all add: session_auth_tag_def tcp_session_auth_tag_def path_join_tag_def finalize_tag_def update_defs
      credential_bytes_def underlay_byte_def Let_def)

lemma verify_transcripts:
  "length (sac_credential_id c) \<le> 255 \<Longrightarrow> verify_session_auth hmac au c \<longleftrightarrow>
     issued_at_is_fresh (sac_issued_at c) (sac_now c) (sac_window c)
     \<and> sac_tag c = hmac (sa_secret au) (transcript (SessionRequest (sac_session_id c) (sac_credential_id c) (sac_nonce c) (sac_issued_at c)))"
  "length (tac_credential_id d) \<le> 255 \<Longrightarrow> verify_tcp_session_auth hmac au d \<longleftrightarrow>
     issued_at_is_fresh (tac_issued_at d) (tac_now d) (tac_window d)
     \<and> tac_tag d = hmac (sa_secret au) (transcript (TcpSessionRequest (tac_session_id d) (tac_credential_id d) (tac_nonce d)
         (tac_issued_at d) (tac_transport_binding d)))"
  "length (pjc_credential_id e) \<le> 255 \<Longrightarrow> verify_path_join hmac au e \<longleftrightarrow>
     issued_at_is_fresh (pjc_issued_at e) (pjc_now e) (pjc_window e)
     \<and> pjc_tag e = hmac (sa_secret au) (transcript (JoinRequest (pjc_session_id e) (pjc_credential_id e) (pjc_path_id e)
         (pjc_configured_slot e) (pjc_underlay e) (pjc_nonce e) (pjc_issued_at e)))"
  by (auto simp: verify_session_auth_def verify_tcp_session_auth_def verify_path_join_def verify_tag_def update_defs
      credential_bytes_def underlay_byte_def Let_def)

lemma be_bytes_inj: "fits (8 * k) m \<Longrightarrow> fits (8 * k) n \<Longrightarrow> be_bytes k m = be_bytes k n \<longleftrightarrow> m = n"
proof -
  assume "fits (8 * k) m" "fits (8 * k) n"
  then have "m < 256 ^ k" "n < 256 ^ k" by (simp_all add: fits_def power_mult)
  then show ?thesis by (metis be_nat_be_bytes)
qed

lemma be_bytes_inj_sizes:
  "fits 64 m \<Longrightarrow> fits 64 n \<Longrightarrow> be_bytes 8 m = be_bytes 8 n \<longleftrightarrow> m = n"
  "fits 16 m \<Longrightarrow> fits 16 n \<Longrightarrow> be_bytes 2 m = be_bytes 2 n \<longleftrightarrow> m = n"
  using be_bytes_inj [of 8 m n] be_bytes_inj [of 2 m n] by simp_all

lemma credential_bytes_cancel:
  assumes "length c \<le> 255" "length d \<le> 255"
  shows "credential_bytes c @ xs = credential_bytes d @ ys \<longleftrightarrow> c = d \<and> xs = ys"
proof
  assume e: "credential_bytes c @ xs = credential_bytes d @ ys"
  then have "unat (of_nat (length c) :: byte) = unat (of_nat (length d) :: byte)" by (simp add: credential_bytes_def)
  then have "length c = length d" using assms by (simp only: unat_of_nat_byte, simp)
  then show "c = d \<and> xs = ys" using e by (simp add: credential_bytes_def)
qed simp

lemma credential_bytes_eq: "credential_bytes c = credential_bytes d \<longleftrightarrow> c = d"
  by (auto simp: credential_bytes_def)

lemma context_marks:
  "9 < length SESSION_AUTH_CONTEXT" "9 < length PATH_JOIN_CONTEXT" "9 < length TCP_SESSION_AUTH_CONTEXT"
  "SESSION_AUTH_CONTEXT ! 9 = 0x73" "PATH_JOIN_CONTEXT ! 9 = 0x70" "TCP_SESSION_AUTH_CONTEXT ! 9 = 0x74"
  by code_simp+

lemma marks_differ: "9 < length c \<Longrightarrow> 9 < length d \<Longrightarrow> c ! 9 \<noteq> d ! 9 \<Longrightarrow> c @ xs \<noteq> d @ ys"
  by (metis nth_append)

lemma contexts_differ:
  "SESSION_AUTH_CONTEXT @ xs \<noteq> PATH_JOIN_CONTEXT @ ys" "PATH_JOIN_CONTEXT @ xs \<noteq> SESSION_AUTH_CONTEXT @ ys"
  "SESSION_AUTH_CONTEXT @ xs \<noteq> TCP_SESSION_AUTH_CONTEXT @ ys" "TCP_SESSION_AUTH_CONTEXT @ xs \<noteq> SESSION_AUTH_CONTEXT @ ys"
  "PATH_JOIN_CONTEXT @ xs \<noteq> TCP_SESSION_AUTH_CONTEXT @ ys" "TCP_SESSION_AUTH_CONTEXT @ xs \<noteq> PATH_JOIN_CONTEXT @ ys"
  by (rule marks_differ; simp add: context_marks)+

lemma underlay_byte_inj: "underlay_byte u = underlay_byte v \<longleftrightarrow> u = v"
  by (cases u; cases v) (simp_all add: underlay_byte_def)

lemma transcript_inj:
  assumes "request_typed r" "request_typed r'" "transcript r = transcript r'"
  shows "r = r'"
  using assms
  by (cases r; cases r'; simp add: contexts_differ credential_bytes_cancel credential_bytes_eq be_bytes_inj_sizes underlay_byte_inj)

fun request_tag :: "mac_function \<Rightarrow> session_authenticator \<Rightarrow> auth_request \<Rightarrow> auth_tag" where
  "request_tag hmac au (SessionRequest sid cred nonce t) = session_auth_tag hmac au sid cred nonce t"
| "request_tag hmac au (TcpSessionRequest sid cred nonce t binding) = tcp_session_auth_tag hmac au sid cred nonce t binding"
| "request_tag hmac au (JoinRequest sid cred path slot underlay nonce t) = path_join_tag hmac au sid cred path slot underlay nonce t"

fun request_verified :: "mac_function \<Rightarrow> session_authenticator \<Rightarrow> auth_request \<Rightarrow> auth_tag \<Rightarrow> u64 \<Rightarrow> u64 \<Rightarrow> bool" where
  "request_verified hmac au (SessionRequest sid cred nonce t) tag now window =
     verify_session_auth hmac au \<lparr>sac_session_id = sid, sac_credential_id = cred, sac_nonce = nonce, sac_issued_at = t,
       sac_tag = tag, sac_now = now, sac_window = window\<rparr>"
| "request_verified hmac au (TcpSessionRequest sid cred nonce t binding) tag now window =
     verify_tcp_session_auth hmac au \<lparr>tac_session_id = sid, tac_credential_id = cred, tac_nonce = nonce, tac_issued_at = t,
       tac_transport_binding = binding, tac_tag = tag, tac_now = now, tac_window = window\<rparr>"
| "request_verified hmac au (JoinRequest sid cred path slot underlay nonce t) tag now window =
     verify_path_join hmac au \<lparr>pjc_session_id = sid, pjc_credential_id = cred, pjc_path_id = path, pjc_configured_slot = slot,
       pjc_underlay = underlay, pjc_nonce = nonce, pjc_issued_at = t, pjc_tag = tag, pjc_now = now, pjc_window = window\<rparr>"

fun request_time :: "auth_request \<Rightarrow> u64" where
  "request_time (SessionRequest sid cred nonce t) = t"
| "request_time (TcpSessionRequest sid cred nonce t binding) = t"
| "request_time (JoinRequest sid cred path slot underlay nonce t) = t"

lemma request_tag_transcript: "request_typed r \<Longrightarrow> request_tag hmac au r = hmac (sa_secret au) (transcript r)"
  by (cases r) (simp_all only: request_tag.simps request_typed.simps tags_of_transcripts)

lemma request_verified_transcript:
  "request_typed r \<Longrightarrow> request_verified hmac au r tag now window \<longleftrightarrow>
     issued_at_is_fresh (request_time r) now window \<and> tag = hmac (sa_secret au) (transcript r)"
  by (cases r) (simp_all add: verify_transcripts del: transcript.simps)

text \<open>C12. A tag stands for one request. Verification accepts the tag of a request exactly within the
  freshness window, whichever of the three kinds the request has; a tag that was made for another
  request (another field, another kind, another transport binding) is accepted only when the MAC
  collides on two different messages.\<close>

theorem tag_binds_request:
  assumes "request_typed r" "request_typed r'"
  shows "(request_verified hmac au r (request_tag hmac au r) now window \<longleftrightarrow> issued_at_is_fresh (request_time r) now window)
    \<and> (request_verified hmac au r (request_tag hmac au r') now window \<and> r \<noteq> r' \<longrightarrow>
        transcript r \<noteq> transcript r' \<and> hmac (sa_secret au) (transcript r) = hmac (sa_secret au) (transcript r'))"
  using transcript_inj [OF assms] by (auto simp: request_verified_transcript assms request_tag_transcript)

text \<open>The witness takes a MAC that returns the message itself: no tag is accepted across kinds.\<close>

theorem tag_binds_request_witness:
  "let au = \<lparr>sa_secret = [1]\<rparr>; hmac = (\<lambda>k m. m);
       join = JoinRequest 7 [97] 1 2 Udp (replicate 16 0) 100; ses = SessionRequest 7 [97] (replicate 16 0) 100
   in request_verified hmac au join (request_tag hmac au join) 130 30
      \<and> \<not> request_verified hmac au join (request_tag hmac au join) 131 30
      \<and> \<not> request_verified hmac au join (request_tag hmac au ses) 100 30"
proof -
  let ?join = "JoinRequest 7 [97] 1 2 Udp (replicate 16 0) 100" and ?ses = "SessionRequest 7 [97] (replicate 16 0) 100"
  have typed: "request_typed ?join" "request_typed ?ses" by (simp_all add: fits_def)
  show ?thesis
    using tag_binds_request [OF typed, of "\<lambda>k m. m" "\<lparr>sa_secret = [1]\<rparr>" 130 30]
      tag_binds_request [OF typed, of "\<lambda>k m. m" "\<lparr>sa_secret = [1]\<rparr>" 131 30]
      tag_binds_request [OF typed, of "\<lambda>k m. m" "\<lparr>sa_secret = [1]\<rparr>" 100 30]
    by (auto simp: issued_at_is_fresh_def abs_diff_def Let_def simp del: transcript.simps request_verified.simps request_tag.simps)
qed

end
