(* ===== verification/Credentials.thy ===== *)
theory Credentials
  imports Codec_Fields "HOL-Library.AList"
begin

text \<open>
  Product credentials, \<open>src/src/product/identity.rs\<close>, and the policy identifiers they are named by,
  \<open>src/src/product/flow.rs\<close>. A catalog is an association list from identifiers to records, in place
  of the \<open>HashMap\<close>; only lookup, insertion and length are used. SHA-256 (crate \<open>sha2\<close>) and UUID
  parsing (crate \<open>uuid\<close>) are parameters of the derivation of a shared secret.
\<close>

section \<open>Policy identifiers\<close>

datatype flow_error =
    EmptyDomain | DomainTooLong | DomainLooksLikeIp | InvalidDomain | InvalidAuthority | InvalidFlowPort
  | InvalidPolicyId | ControlCharacter | TextTooLong

type_synonym policy_id = rust_string

definition MAX_POLICY_ID_BYTES :: usize where
  "MAX_POLICY_ID_BYTES = 64"

definition is_ascii_uppercase :: "byte \<Rightarrow> bool" where
  "is_ascii_uppercase b \<longleftrightarrow> 0x41 \<le> b \<and> b \<le> 0x5A"

definition is_ascii_alphanumeric :: "byte \<Rightarrow> bool" where
  "is_ascii_alphanumeric b \<longleftrightarrow> is_ascii_uppercase b \<or> is_ascii_lowercase b \<or> is_ascii_digit b"

definition to_ascii_lowercase :: "byte \<Rightarrow> byte" where
  "to_ascii_lowercase b = (if is_ascii_uppercase b then b + 0x20 else b)"

text \<open>\<open>char::is_control\<close> over the UTF-8 bytes of a string: the characters U+0000 to U+001F and
  U+007F, and U+0080 to U+009F, which are the pairs \<open>C2 80\<close> to \<open>C2 9F\<close>.\<close>

fun has_control :: "rust_string \<Rightarrow> bool" where
  "has_control [] = False"
| "has_control (a # bs) =
     (a < 0x20 \<or> a = 0x7F
      \<or> a = 0xC2 \<and> (case bs of [] \<Rightarrow> False | b # _ \<Rightarrow> 0x80 \<le> b \<and> b \<le> 0x9F)
      \<or> has_control bs)"

definition validate_untrusted_text :: "rust_string \<Rightarrow> usize \<Rightarrow> flow_error + unit" where
  "validate_untrusted_text input max_bytes =
     (if length input > max_bytes then Inl TextTooLong
      else if has_control input then Inl ControlCharacter
      else Inr ())"

definition canonical_policy_id :: "rust_string \<Rightarrow> flow_error + policy_id" where
  "canonical_policy_id input =
     and_then (validate_untrusted_text input MAX_POLICY_ID_BYTES) (\<lambda>_.
       case input of
         [] \<Rightarrow> Inl InvalidPolicyId
       | first # bs \<Rightarrow>
           if \<not> is_ascii_alphanumeric first
              \<or> \<not> list_all (\<lambda>b. is_ascii_alphanumeric b \<or> b \<in> {0x2E, 0x5F, 0x2D}) bs
           then Inl InvalidPolicyId
           else Inr (map to_ascii_lowercase input))"

section \<open>Secrets\<close>

type_synonym shared_secret = bytes

datatype security_policy_error = MissingSecret | SecretTooShort usize usize

definition SECRET_MIN_BYTES :: usize where
  "SECRET_MIN_BYTES = 32"

definition parse_uuid_secret :: "(rust_string \<Rightarrow> bytes option) \<Rightarrow> bytes \<Rightarrow> bytes option" where
  "parse_uuid_secret uuid_parse value = (if utf8_valid value then uuid_parse value else None)"

definition derive_secret_material :: "(bytes \<Rightarrow> bytes) \<Rightarrow> bytes \<Rightarrow> bytes \<Rightarrow> shared_secret" where
  "derive_secret_material sha256 kind value =
     sha256 (map of_char ''mptunnel shared secret master v1'' @ kind @ value)"

definition shared_secret_new ::
  "(bytes \<Rightarrow> bytes) \<Rightarrow> (rust_string \<Rightarrow> bytes option) \<Rightarrow> bytes \<Rightarrow> security_policy_error + shared_secret" where
  "shared_secret_new sha256 uuid_parse value =
     (case parse_uuid_secret uuid_parse value of
        Some uuid_bytes \<Rightarrow> Inr (derive_secret_material sha256 (map of_char ''uuid'') uuid_bytes)
      | None \<Rightarrow>
          if length value < SECRET_MIN_BYTES then Inl (SecretTooShort (length value) SECRET_MIN_BYTES)
          else Inr (derive_secret_material sha256 (map of_char ''raw'') value))"

section \<open>Credentials and authorities\<close>

definition MAX_CREDENTIALS :: usize where
  "MAX_CREDENTIALS = 64"

definition MAX_CREDENTIAL_EXPIRY_UNIX_SECS :: u64 where
  "MAX_CREDENTIAL_EXPIRY_UNIX_SECS = 253402300799"

record credential_record =
  cr_id :: policy_id
  cr_principal :: policy_id
  cr_secret :: shared_secret
  cr_expires_at :: "u64 option"
  cr_revoked :: bool
  cr_revocation_grace :: u64

datatype credential_catalog_error =
    TooManyCredentials usize
  | DuplicateCredential policy_id
  | MissingCredential policy_id
  | DuplicateAuthorityCredential policy_id
  | InvalidExpiration policy_id
  | EmptyAuthority

datatype credential_admission_error = UnknownCredential | Revoked | Expired | Overloaded

definition credential_record_new ::
  "policy_id \<Rightarrow> policy_id \<Rightarrow> shared_secret \<Rightarrow> u64 option \<Rightarrow> bool \<Rightarrow> u64 \<Rightarrow> credential_catalog_error + credential_record" where
  "credential_record_new cid owner secret expires_at revoked grace =
     (if (case expires_at of None \<Rightarrow> False | Some v \<Rightarrow> v = 0 \<or> v > MAX_CREDENTIAL_EXPIRY_UNIX_SECS)
      then Inl (InvalidExpiration cid)
      else Inr \<lparr>cr_id = cid, cr_principal = owner, cr_secret = secret, cr_expires_at = expires_at,
             cr_revoked = revoked, cr_revocation_grace = grace\<rparr>)"

type_synonym credential_catalog = "(policy_id \<times> credential_record) list"
type_synonym credential_authority = "(policy_id \<times> credential_record) list"

fun compile_loop :: "credential_record list \<Rightarrow> credential_catalog \<Rightarrow> credential_catalog_error + credential_catalog" where
  "compile_loop [] compiled = Inr compiled"
| "compile_loop (r # rs) compiled =
     (if length compiled \<ge> MAX_CREDENTIALS then Inl (TooManyCredentials MAX_CREDENTIALS)
      else if map_of compiled (cr_id r) \<noteq> None then Inl (DuplicateCredential (cr_id r))
      else compile_loop rs (AList.update (cr_id r) r compiled))"

definition catalog_compile :: "credential_record list \<Rightarrow> credential_catalog_error + credential_catalog" where
  "catalog_compile records = compile_loop records []"

definition catalog_credential :: "credential_catalog \<Rightarrow> policy_id \<Rightarrow> credential_catalog_error + credential_record" where
  "catalog_credential catalog cid =
     (case map_of catalog cid of None \<Rightarrow> Inl (MissingCredential cid) | Some r \<Rightarrow> Inr r)"

fun authority_loop ::
  "credential_catalog \<Rightarrow> policy_id list \<Rightarrow> policy_id set \<Rightarrow> credential_authority \<Rightarrow> credential_catalog_error + credential_authority" where
  "authority_loop catalog [] seen selected = Inr selected"
| "authority_loop catalog (cid # ids) seen selected =
     (if cid \<in> seen then Inl (DuplicateAuthorityCredential cid)
      else and_then (catalog_credential catalog cid) (\<lambda>r.
        authority_loop catalog ids (insert cid seen) (AList.update cid r selected)))"

definition catalog_authority :: "credential_catalog \<Rightarrow> policy_id list \<Rightarrow> credential_catalog_error + credential_authority" where
  "catalog_authority catalog ids = (if ids = [] then Inl EmptyAuthority else authority_loop catalog ids {} [])"

type_synonym credential_candidate = credential_record

definition authority_candidate :: "credential_authority \<Rightarrow> policy_id \<Rightarrow> u64 \<Rightarrow> credential_admission_error + credential_candidate" where
  "authority_candidate authority cid now =
     (case map_of authority cid of
        None \<Rightarrow> Inl UnknownCredential
      | Some r \<Rightarrow>
          if cr_revoked r then Inl Revoked
          else if (case cr_expires_at r of None \<Rightarrow> False | Some expires_at \<Rightarrow> now \<ge> expires_at) then Inl Expired
          else Inr r)"

record principal_permit =
  permit_credential_id :: policy_id
  permit_principal :: policy_id
  permit_admitted_at :: u64
  permit_expires_at :: "u64 option"
  permit_revocation_grace :: u64

definition into_permit :: "credential_candidate \<Rightarrow> u64 \<Rightarrow> principal_permit" where
  "into_permit r admitted_at =
     \<lparr>permit_credential_id = cr_id r, permit_principal = cr_principal r, permit_admitted_at = admitted_at,
      permit_expires_at = cr_expires_at r, permit_revocation_grace = cr_revocation_grace r\<rparr>"

definition forced_close_at :: "principal_permit \<Rightarrow> u64 option" where
  "forced_close_at p =
     map_option (\<lambda>expires_at. saturating_add expires_at (permit_revocation_grace p)) (permit_expires_at p)"

section \<open>Laws\<close>

definition credential_active :: "credential_record \<Rightarrow> u64 \<Rightarrow> bool" where
  "credential_active r now \<longleftrightarrow> \<not> cr_revoked r \<and> (\<forall>e. cr_expires_at r = Some e \<longrightarrow> now < e)"

lemma authority_candidate_Inr:
  "authority_candidate authority cid now = Inr r \<longleftrightarrow> map_of authority cid = Some r \<and> credential_active r now"
  by (auto simp: authority_candidate_def credential_active_def split: option.splits)

text \<open>Canonical identifiers are what the codec accepts on the wire, and parsing is idempotent.\<close>

lemma lowercase_facts:
  fixes b :: byte
  shows "is_ascii_alphanumeric b \<Longrightarrow> is_ascii_lowercase (to_ascii_lowercase b) \<or> is_ascii_digit (to_ascii_lowercase b)"
    "b \<in> {0x2E, 0x5F, 0x2D} \<Longrightarrow> to_ascii_lowercase b = b"
proof -
  have up: "unat (b + 0x20) = unat b + 32" if "unat b \<le> 90"
    using that unat_add_lem [where x = b and y = "0x20"] by simp
  show "is_ascii_alphanumeric b \<Longrightarrow> is_ascii_lowercase (to_ascii_lowercase b) \<or> is_ascii_digit (to_ascii_lowercase b)"
    using up by (auto simp: is_ascii_alphanumeric_def is_ascii_lowercase_def is_ascii_digit_def to_ascii_lowercase_def
        is_ascii_uppercase_def word_le_nat_alt)
  show "b \<in> {0x2E, 0x5F, 0x2D} \<Longrightarrow> to_ascii_lowercase b = b"
    by (auto simp: to_ascii_lowercase_def is_ascii_uppercase_def)
qed

lemma lowercase_tail:
  assumes "list_all (\<lambda>b. is_ascii_alphanumeric b \<or> b \<in> {0x2E, 0x5F, 0x2D}) bs"
  shows "list_all (\<lambda>b. is_ascii_lowercase b \<or> is_ascii_digit b \<or> b \<in> {0x2E, 0x5F, 0x2D}) (map to_ascii_lowercase bs)"
proof -
  have "is_ascii_lowercase (to_ascii_lowercase b) \<or> is_ascii_digit (to_ascii_lowercase b) \<or> to_ascii_lowercase b \<in> {0x2E, 0x5F, 0x2D}"
    if "b \<in> set bs" for b
    using assms that lowercase_facts [of b] unfolding list_all_iff by metis
  then show ?thesis unfolding list_all_iff by auto
qed

lemma canonical_policy_id_wire:
  assumes "canonical_policy_id s = Inr cid"
  shows "credential_id_is_canonical cid \<and> length cid = length s"
proof (cases s)
  case Nil
  then show ?thesis using assms by (simp add: canonical_policy_id_def and_then_Inr_iff)
next
  case (Cons b bs)
  have s: "length s \<le> 64" "is_ascii_alphanumeric b" "cid = map to_ascii_lowercase s"
    "list_all (\<lambda>b. is_ascii_alphanumeric b \<or> b \<in> {0x2E, 0x5F, 0x2D}) bs"
    using assms unfolding Cons
    by (simp_all add: canonical_policy_id_def validate_untrusted_text_def MAX_POLICY_ID_BYTES_def and_then_Inr_iff split: if_splits)
  show ?thesis
    using s(1,3) lowercase_facts(1) [OF s(2)] lowercase_tail [OF s(4)]
    by (simp add: Cons credential_id_is_canonical_def MAX_CREDENTIAL_ID_BYTES_def)
qed

lemma lowercase_id: "is_ascii_lowercase b \<or> is_ascii_digit b \<or> b \<in> {0x2E, 0x5F, 0x2D} \<Longrightarrow> to_ascii_lowercase b = b"
  by (auto simp: to_ascii_lowercase_def is_ascii_uppercase_def is_ascii_lowercase_def is_ascii_digit_def word_le_nat_alt)

lemma no_control: "list_all (\<lambda>b. is_ascii_lowercase b \<or> is_ascii_digit b \<or> b \<in> {0x2E, 0x5F, 0x2D}) s \<Longrightarrow> \<not> has_control s"
  by (induction s) (auto simp: is_ascii_lowercase_def is_ascii_digit_def word_le_nat_alt word_less_nat_alt)

lemma wire_canonical_policy_id: "credential_id_is_canonical s \<Longrightarrow> canonical_policy_id s = Inr s"
proof -
  assume c: "credential_id_is_canonical s"
  then have all: "list_all (\<lambda>b. is_ascii_lowercase b \<or> is_ascii_digit b \<or> b \<in> {0x2E, 0x5F, 0x2D}) s"
    by (cases s) (auto simp: credential_id_is_canonical_def split: if_splits)
  then have "map to_ascii_lowercase s = s" using lowercase_id by (auto simp: list_all_iff intro!: map_idI)
  then show ?thesis
    using c no_control [OF all]
    by (cases s) (auto simp: canonical_policy_id_def validate_untrusted_text_def credential_id_is_canonical_def
        MAX_POLICY_ID_BYTES_def MAX_CREDENTIAL_ID_BYTES_def is_ascii_alphanumeric_def list_all_iff split: if_splits)
qed

end
