(* ===== verification/Replay_Cache.thy ===== *)
theory Replay_Cache
  imports Btree_Map "HOL-Library.AList"
begin

text \<open>
  Bounded identity retention, \<open>src/src/runtime/recent_ids.rs\<close>. A \<open>HashMap\<close> is an association list
  with distinct keys, of which only lookup, update, removal and length are used; a \<open>HashSet\<close> is a
  set; the \<open>BTreeMap\<close> of expirations is a tree of \<open>Btree_Map\<close>.

  \<open>replay_spec\<close> is what the replay cache promises: a map from identities to their last valid second,
  from which a call first drops what has expired. \<open>try_insert\<close> refines it.
\<close>

section \<open>Recently closed identities\<close>

record 'a recent_id_cache =
  rc_capacity :: usize
  rc_order :: "'a list"
  rc_set :: "'a set"

definition recent_new :: "usize \<Rightarrow> 'a recent_id_cache" where
  "recent_new capacity = \<lparr>rc_capacity = max capacity 1, rc_order = [], rc_set = {}\<rparr>"

fun recent_evict :: "usize \<Rightarrow> 'a list \<Rightarrow> 'a set \<Rightarrow> 'a list \<times> 'a set" where
  "recent_evict capacity [] ids = ([], ids)"
| "recent_evict capacity (expired # order) ids =
     (if length (expired # order) > capacity then recent_evict capacity order (ids - {expired})
      else (expired # order, ids))"

definition recent_insert :: "'a \<Rightarrow> 'a recent_id_cache \<Rightarrow> 'a recent_id_cache" where
  "recent_insert x c =
     (if x \<in> rc_set c then c
      else
        let (order, ids) = recent_evict (rc_capacity c) (rc_order c @ [x]) (insert x (rc_set c))
        in c\<lparr>rc_order := order, rc_set := ids\<rparr>)"

definition recent_contains :: "'a \<Rightarrow> 'a recent_id_cache \<Rightarrow> bool" where
  "recent_contains x c \<longleftrightarrow> x \<in> rc_set c"

section \<open>The replay cache\<close>

record 'a expiring_replay_cache =
  rp_capacity :: usize
  rp_entries :: "('a \<times> u64) list"
  rp_expirations :: "'a list btree"
  rp_observed :: u64

definition replay_new :: "usize \<Rightarrow> 'a expiring_replay_cache" where
  "replay_new capacity = \<lparr>rp_capacity = max capacity 1, rp_entries = [], rp_expirations = [], rp_observed = 0\<rparr>"

fun remove_expired :: "u64 \<Rightarrow> 'a list \<Rightarrow> ('a \<times> u64) list \<Rightarrow> ('a \<times> u64) list" where
  "remove_expired expires_at [] entries = entries"
| "remove_expired expires_at (x # ids) entries =
     remove_expired expires_at ids
       (if map_of entries x = Some expires_at then AList.delete x entries else entries)"

fun prune_expired :: "u64 \<Rightarrow> 'a list btree \<Rightarrow> ('a \<times> u64) list \<Rightarrow> 'a list btree \<times> ('a \<times> u64) list" where
  "prune_expired now [] entries = ([], entries)"
| "prune_expired now ((expires_at, ids) # expirations) entries =
     (if expires_at \<ge> now then ((expires_at, ids) # expirations, entries)
      else prune_expired now expirations (remove_expired expires_at ids entries))"

definition try_insert :: "'a \<Rightarrow> u64 \<Rightarrow> u64 \<Rightarrow> 'a expiring_replay_cache \<Rightarrow> bool \<times> 'a expiring_replay_cache" where
  "try_insert x expires_at now c =
     (let observed = max (rp_observed c) now;
          (expirations, entries) = prune_expired observed (rp_expirations c) (rp_entries c);
          pruned = c\<lparr>rp_observed := observed, rp_expirations := expirations, rp_entries := entries\<rparr>
      in if expires_at < observed \<or> map_of entries x \<noteq> None \<or> length entries \<ge> rp_capacity c
         then (False, pruned)
         else (True, pruned\<lparr>rp_entries := AList.update x expires_at entries,
                 rp_expirations := bt_insert expires_at
                   ((case bt_get expires_at expirations of None \<Rightarrow> [] | Some ids \<Rightarrow> ids) @ [x]) expirations\<rparr>))"

definition reliable_closed_stream_cache_capacity :: "usize \<Rightarrow> usize" where
  "reliable_closed_stream_cache_capacity max_streams = saturating_mul (max max_streams 1) 2"

definition path_join_replay_cache_capacity :: "usize \<Rightarrow> usize" where
  "path_join_replay_cache_capacity max_streams = saturating_mul (max max_streams 1) 4"

section \<open>The promise\<close>

definition still_live :: "u64 \<Rightarrow> ('a \<rightharpoonup> u64) \<Rightarrow> 'a \<rightharpoonup> u64" where
  "still_live now live x = (case live x of None \<Rightarrow> None | Some e \<Rightarrow> if now \<le> e then Some e else None)"

definition replay_spec ::
  "usize \<Rightarrow> 'a \<Rightarrow> u64 \<Rightarrow> u64 \<Rightarrow> ('a \<rightharpoonup> u64) \<Rightarrow> u64 \<Rightarrow> bool \<times> ('a \<rightharpoonup> u64) \<times> u64" where
  "replay_spec capacity x expires_at now live observed =
     (let observed' = max observed now; live' = still_live observed' live
      in if expires_at < observed' \<or> live' x \<noteq> None \<or> card (dom live') \<ge> capacity
         then (False, live', observed')
         else (True, live'(x \<mapsto> expires_at), observed'))"

definition replay_live :: "'a expiring_replay_cache \<Rightarrow> 'a \<rightharpoonup> u64" where
  "replay_live c = map_of (rp_entries c)"

text \<open>The two indexes of the cache agree.\<close>

definition indexes_agree :: "'a list btree \<Rightarrow> ('a \<times> u64) list \<Rightarrow> bool" where
  "indexes_agree expirations entries \<longleftrightarrow>
     distinct (map fst entries) \<and> bt_wf expirations
     \<and> (\<forall>x e. map_of entries x = Some e \<longleftrightarrow> (\<exists>ids. (e, ids) \<in> set expirations \<and> x \<in> set ids))"

definition replay_ok :: "'a expiring_replay_cache \<Rightarrow> bool" where
  "replay_ok c \<longleftrightarrow> indexes_agree (rp_expirations c) (rp_entries c) \<and> length (rp_entries c) \<le> rp_capacity c \<and> 1 \<le> rp_capacity c"

lemma indexes_agreeD:
  assumes "indexes_agree expirations entries"
  shows "distinct (map fst entries)" "bt_wf expirations"
    "map_of entries x = Some e \<longleftrightarrow> (\<exists>ids. (e, ids) \<in> set expirations \<and> x \<in> set ids)"
  using assms by (simp_all add: indexes_agree_def)

lemma replay_ok_new: "replay_ok (replay_new capacity)"
  by (auto simp: replay_ok_def replay_new_def indexes_agree_def)

lemma remove_expired_map:
  "map_of (remove_expired e ids entries) x = (if x \<in> set ids \<and> map_of entries x = Some e then None else map_of entries x)"
  by (induction ids arbitrary: entries) (auto simp: delete_conv')

lemma remove_expired_distinct:
  "distinct (map fst entries) \<Longrightarrow> distinct (map fst (remove_expired e ids entries))"
  by (induction ids arbitrary: entries) (auto simp: distinct_delete)

lemma length_dom: "distinct (map fst entries) \<Longrightarrow> length entries = card (dom (map_of entries))"
  using distinct_card [of "map fst entries"] by (simp add: dom_map_of_conv_image_fst)

lemma remove_expired_agree:
  assumes "indexes_agree ((e, ids) # expirations) entries"
  shows "indexes_agree expirations (remove_expired e ids entries)"
    "map_of (remove_expired e ids entries) x = (if map_of entries x = Some e then None else map_of entries x)"
proof -
  have a: "distinct (map fst entries)" "bt_wf ((e, ids) # expirations)"
    "\<And>x d. map_of entries x = Some d \<longleftrightarrow> (\<exists>is. (d, is) \<in> set ((e, ids) # expirations) \<and> x \<in> set is)"
    by (rule indexes_agreeD [OF assms])+
  have fresh: "(e, is) \<notin> set expirations" for "is"
    using a(2) by (force simp: bt_wf_Cons)
  have in_ids: "map_of entries x = Some e \<longleftrightarrow> x \<in> set ids" for x
    using a(3) [of x e] fresh by auto
  then have m: "map_of (remove_expired e ids entries) x = (if map_of entries x = Some e then None else map_of entries x)" for x
    by (simp add: remove_expired_map)
  show "map_of (remove_expired e ids entries) x = (if map_of entries x = Some e then None else map_of entries x)" by (rule m)
  have "map_of (remove_expired e ids entries) x = Some d \<longleftrightarrow> (\<exists>is. (d, is) \<in> set expirations \<and> x \<in> set is)" for x d
    using a(3) [of x d] in_ids [of x] fresh m [of x] by (cases "d = e") auto
  then show "indexes_agree expirations (remove_expired e ids entries)"
    using a(1,2) by (simp add: indexes_agree_def remove_expired_distinct bt_wf_Cons)
qed

lemma prune_expired_spec:
  assumes "indexes_agree expirations entries" and "prune_expired now expirations entries = (expirations', entries')"
  shows "indexes_agree expirations' entries'" "map_of entries' = still_live now (map_of entries)"
    "length entries' \<le> length entries"
proof -
  have "indexes_agree expirations' entries' \<and> map_of entries' = still_live now (map_of entries)"
    using assms
  proof (induction expirations arbitrary: entries)
    case Nil
    have "map_of entries x \<noteq> Some e" for x e unfolding indexes_agreeD(3) [OF Nil(1)] by simp
    then have "map_of entries x = None" for x by (cases "map_of entries x") simp_all
    then show ?case using Nil by (simp add: still_live_def fun_eq_iff)
  next
    case (Cons p expirations)
    obtain e ids where p: "p = (e, ids)" by (cases p)
    note rm = remove_expired_agree [OF Cons.prems(1) [unfolded p]]
    show ?case
    proof (cases "e \<ge> now")
      case True
      have "now \<le> d" if m: "map_of entries x = Some d" for x d
      proof -
        obtain "is" where "(d, is) \<in> set (p # expirations)"
          using m unfolding indexes_agreeD(3) [OF Cons.prems(1)] by (elim exE conjE)
        moreover have "\<forall>q \<in> set expirations. e < fst q" using indexes_agreeD(2) [OF Cons.prems(1)] by (simp add: p bt_wf_Cons)
        ultimately have "e \<le> d" by (auto simp: p)
        then show ?thesis using True by simp
      qed
      then have "still_live now (map_of entries) = map_of entries"
        by (auto simp: still_live_def fun_eq_iff split: option.splits)
      then show ?thesis using Cons.prems True by (simp add: p)
    next
      case False
      have "still_live now (map_of (remove_expired e ids entries)) = still_live now (map_of entries)"
        using False rm(2) by (auto simp: still_live_def fun_eq_iff split: option.splits)
      then show ?thesis using Cons.IH [OF rm(1)] Cons.prems(2) False by (simp add: p)
    qed
  qed
  then show agree: "indexes_agree expirations' entries'" and live: "map_of entries' = still_live now (map_of entries)" by auto
  have "dom (map_of entries') \<subseteq> dom (map_of entries)" unfolding live by (auto simp: still_live_def split: option.splits)
  moreover have "distinct (map fst entries)" "distinct (map fst entries')"
    by (rule indexes_agreeD(1) [OF assms(1)], rule indexes_agreeD(1) [OF agree])
  ultimately show "length entries' \<le> length entries" by (simp add: length_dom card_mono finite_dom_map_of)
qed

lemma index_insert:
  assumes "indexes_agree expirations entries" and "map_of entries x = None"
  shows "indexes_agree (bt_insert e ((case bt_get e expirations of None \<Rightarrow> [] | Some ids \<Rightarrow> ids) @ [x]) expirations) (AList.update x e entries)"
proof -
  let ?ids = "case bt_get e expirations of None \<Rightarrow> [] | Some ids \<Rightarrow> ids"
  have a: "distinct (map fst entries)" "bt_wf expirations"
    "\<And>y d. map_of entries y = Some d \<longleftrightarrow> (\<exists>is. (d, is) \<in> set expirations \<and> y \<in> set is)"
    by (rule indexes_agreeD [OF assms(1)])+
  have ids: "y \<in> set ?ids \<longleftrightarrow> map_of entries y = Some e" for y
  proof (cases "bt_get e expirations")
    case None
    then have "(e, is) \<notin> set expirations" for "is" by (auto simp: bt_get_None)
    then show ?thesis by (simp add: None a(3))
  next
    case (Some js)
    then have "(e, is) \<in> set expirations \<longleftrightarrow> is = js" for "is" using bt_get_in [OF a(2), of e "is"] by auto
    then show ?thesis by (simp add: Some a(3))
  qed
  have mem: "(d, is) \<in> set (bt_insert e js expirations) \<longleftrightarrow> (if d = e then is = js else (d, is) \<in> set expirations)" for d "is" js
    by (auto simp: set_bt_insert [OF a(2)])
  have "map_of (AList.update x e entries) y = Some d \<longleftrightarrow>
      (\<exists>is. (d, is) \<in> set (bt_insert e (?ids @ [x]) expirations) \<and> y \<in> set is)" for y d
  proof (cases "d = e")
    case True
    have "map_of (AList.update x e entries) y = Some e \<longleftrightarrow> y = x \<or> map_of entries y = Some e" by (simp add: update_conv')
    then show ?thesis unfolding mem True using ids [of y] by auto
  next
    case False
    have "map_of (AList.update x e entries) y = Some d \<longleftrightarrow> map_of entries y = Some d"
      using False assms(2) by (cases "y = x") (simp_all add: update_conv')
    then show ?thesis unfolding mem using False a(3) [of y d] by simp
  qed
  then show ?thesis using a(1,2) by (simp add: indexes_agree_def distinct_update)
qed

lemma length_update_fresh: "map_of entries x = None \<Longrightarrow> length (AList.update x e entries) = Suc (length entries)"
  by (induction entries) (auto split: if_splits)

lemma try_insert_refines:
  assumes ok: "replay_ok c" and call: "try_insert x expires_at now c = (admitted, c')"
  shows "replay_ok c'" "rp_capacity c' = rp_capacity c"
    "replay_spec (rp_capacity c) x expires_at now (replay_live c) (rp_observed c) = (admitted, replay_live c', rp_observed c')"
proof -
  obtain expirations entries where p: "prune_expired (max (rp_observed c) now) (rp_expirations c) (rp_entries c) = (expirations, entries)"
    by (meson surj_pair)
  have agree: "indexes_agree (rp_expirations c) (rp_entries c)" using ok by (simp add: replay_ok_def)
  note pr = prune_expired_spec [OF agree p]
  have card: "card (dom (map_of entries)) = length entries" by (rule length_dom [OF indexes_agreeD(1) [OF pr(1)], symmetric])
  note defs = try_insert_def replay_spec_def replay_live_def Let_def
  show "rp_capacity c' = rp_capacity c" using call by (auto simp: defs p split: if_splits)
  show "replay_spec (rp_capacity c) x expires_at now (replay_live c) (rp_observed c) = (admitted, replay_live c', rp_observed c')"
    using call card by (auto simp: defs p pr(2) [symmetric] update_conv' split: if_splits)
  show "replay_ok c'"
  proof (cases admitted)
    case True
    then have c': "c' = c\<lparr>rp_observed := max (rp_observed c) now, rp_entries := AList.update x expires_at entries,
        rp_expirations := bt_insert expires_at ((case bt_get expires_at expirations of None \<Rightarrow> [] | Some ids \<Rightarrow> ids) @ [x]) expirations\<rparr>"
      and new: "map_of entries x = None" "length entries < rp_capacity c"
      using call by (auto simp: defs p split: if_splits)
    have "length (AList.update x expires_at entries) = Suc (length entries)"
      using new(1) by (rule length_update_fresh)
    then show ?thesis using index_insert [OF pr(1) new(1)] new ok unfolding c' by (simp add: replay_ok_def)
  next
    case False
    then have "c' = c\<lparr>rp_observed := max (rp_observed c) now, rp_expirations := expirations, rp_entries := entries\<rparr>"
      using call by (auto simp: defs p split: if_splits)
    then show ?thesis using ok pr(1,3) by (simp add: replay_ok_def)
  qed
qed

section \<open>Sequences of calls\<close>

text \<open>A call is the identity, its last valid second and the clock reading.\<close>

fun replay_run :: "('a \<times> u64 \<times> u64) list \<Rightarrow> 'a expiring_replay_cache \<Rightarrow> bool list \<times> 'a expiring_replay_cache" where
  "replay_run [] c = ([], c)"
| "replay_run ((x, expires_at, now) # calls) c =
     (let (admitted, c') = try_insert x expires_at now c; (rest, c'') = replay_run calls c'
      in (admitted # rest, c''))"

definition admitted_calls :: "('a \<times> u64 \<times> u64) list \<Rightarrow> 'a expiring_replay_cache \<Rightarrow> ('a \<times> u64 \<times> u64) list" where
  "admitted_calls calls c = map fst (filter snd (zip calls (fst (replay_run calls c))))"

lemma admitted_calls_simps [simp]:
  "admitted_calls [] c = []"
  "admitted_calls ((x, e, now) # calls) c =
     (let (admitted, c') = try_insert x e now c in (if admitted then [(x, e, now)] else []) @ admitted_calls calls c')"
  by (auto simp: admitted_calls_def Let_def split: prod.splits)

lemma replay_spec_result:
  assumes "replay_spec capacity x e now live observed = (admitted, live', observed')"
  shows "observed' = max observed now" "\<not> admitted \<Longrightarrow> live' = still_live observed' live"
    "admitted \<Longrightarrow> observed' \<le> e \<and> still_live observed' live x = None \<and> live' = (still_live observed' live)(x \<mapsto> e)"
  using assms by (auto simp: replay_spec_def Let_def split: if_splits)

text \<open>What is live stays live until it expires, and a live or expired admission is not repeated.\<close>

lemma admitted_after:
  assumes "replay_ok c" and "(x, e', t) \<in> set (admitted_calls calls c)"
    and "rp_observed c \<le> e \<longrightarrow> replay_live c x = Some e"
  shows "e < e'"
  using assms
proof (induction calls arbitrary: c)
  case (Cons call calls)
  obtain y d now where call: "call = (y, d, now)" by (cases call)
  obtain admitted c' where t: "try_insert y d now c = (admitted, c')" by (meson surj_pair)
  note r = try_insert_refines [OF Cons.prems(1) t]
  note spec = replay_spec_result [OF r(3)]
  have kept: "rp_observed c' \<le> e \<Longrightarrow> still_live (rp_observed c') (replay_live c) x = Some e"
    using Cons.prems(3) spec(1) by (simp add: still_live_def)
  show ?case
  proof (cases "admitted \<and> (x, e', t) = (y, d, now)")
    case True
    then have "\<not> rp_observed c' \<le> e" "rp_observed c' \<le> e'" using spec(3) kept by auto
    then show ?thesis by simp
  next
    case False
    then have "(x, e', t) \<in> set (admitted_calls calls c')" using Cons.prems(2) by (auto simp: call t split: if_splits)
    moreover have "rp_observed c' \<le> e \<longrightarrow> replay_live c' x = Some e"
      using spec(2,3) kept by (cases admitted) auto
    ultimately show ?thesis by (rule Cons.IH [OF r(1)])
  qed
qed simp

lemma admitted_increasing:
  "replay_ok c \<Longrightarrow> sorted_wrt (\<lambda>(x, e, t) (y, d, u). x = y \<longrightarrow> e < d) (admitted_calls calls c)"
proof (induction calls arbitrary: c)
  case (Cons call calls)
  obtain y d now where call: "call = (y, d, now)" by (cases call)
  obtain admitted c' where t: "try_insert y d now c = (admitted, c')" by (meson surj_pair)
  note r = try_insert_refines [OF Cons.prems t]
  have "d < e" if "admitted" "(y, e, u) \<in> set (admitted_calls calls c')" for e u
    using replay_spec_result(3) [OF r(3) that(1)] by (intro admitted_after [OF r(1) that(2)]) simp
  then show ?case using Cons.IH [OF r(1)] by (auto simp: call t)
qed simp

text \<open>C10. The replay cache implements its promise: with the same capacity and the same retained
  identities, a call answers as the map from identities to expiry does, retains the same identities
  afterwards, and keeps the two indexes of the cache in agreement and the capacity respected.\<close>

theorem replay_cache_refines:
  assumes "replay_ok c"
  shows "\<exists>admitted c'. try_insert x expires_at now c = (admitted, c') \<and> replay_ok c' \<and> rp_capacity c' = rp_capacity c
    \<and> replay_spec (rp_capacity c) x expires_at now (replay_live c) (rp_observed c) = (admitted, replay_live c', rp_observed c')"
  using try_insert_refines [OF assms] by (metis surj_pair)

theorem replay_cache_refines_witness:
  "\<exists>c'. try_insert (7 :: nat) 20 5 (replay_new 1) = (True, c') \<and> replay_ok c' \<and> replay_live c' = [7 \<mapsto> 20]"
proof -
  have "fst (try_insert (7 :: nat) 20 5 (replay_new 1)) = True" by code_simp
  moreover have "replay_live (snd (try_insert (7 :: nat) 20 5 (replay_new 1))) = [7 \<mapsto> 20]"
    by (simp add: try_insert_def replay_new_def replay_live_def)
  ultimately show ?thesis
    using replay_cache_refines [OF replay_ok_new, of 7 20 5 1] by (auto simp: prod_eq_iff)
qed

text \<open>C11. No identity is admitted twice for the same validity. Over any sequence of calls, whatever
  the clock does, a later admission of an identity has a strictly later expiry than an earlier one;
  so no call that repeats an admitted identity with its expiry is ever admitted.\<close>

theorem replay_never_admitted_twice:
  assumes "replay_ok c"
  shows "sorted_wrt (\<lambda>(x, e, t) (y, d, u). x = y \<longrightarrow> e < d) (admitted_calls calls c)
    \<and> distinct (map (\<lambda>(x, e, t). (x, e)) (admitted_calls calls c))"
proof -
  have s: "sorted_wrt (\<lambda>(x, e, t) (y, d, u). x = y \<longrightarrow> e < d) (admitted_calls calls c)" by (rule admitted_increasing [OF assms])
  moreover have "distinct (map (\<lambda>(x, e, t). (x, e)) zs)"
    if "sorted_wrt (\<lambda>(x, e, t) (y, d, u). x = y \<longrightarrow> e < d) zs" for zs :: "('a \<times> u64 \<times> u64) list"
    using that
  proof (induction zs)
    case (Cons a zs)
    have "(fst a, fst (snd a)) \<noteq> (fst b, fst (snd b))" if "b \<in> set zs" for b
      using Cons.prems that by (cases a; cases b) fastforce
    then show ?case using Cons by (force simp: case_prod_unfold)
  qed simp
  ultimately show ?thesis by blast
qed

theorem replay_never_admitted_twice_witness:
  "admitted_calls [(7 :: nat, 20, 5), (7, 20, 6), (8, 30, 6), (7, 20, 21), (7, 40, 25)] (replay_new 2)
     = [(7, 20, 5), (8, 30, 6), (7, 40, 25)]
   \<and> distinct (map (\<lambda>(x, e, t). (x, e))
        (admitted_calls [(7 :: nat, 20, 5), (7, 20, 6), (8, 30, 6), (7, 20, 21), (7, 40, 25)] (replay_new 2)))"
proof -
  have "admitted_calls [(7 :: nat, 20, 5), (7, 20, 6), (8, 30, 6), (7, 20, 21), (7, 40, 25)] (replay_new 2)
     = [(7, 20, 5), (8, 30, 6), (7, 40, 25)]" by code_simp
  then show ?thesis using replay_never_admitted_twice [OF replay_ok_new] by blast
qed

section \<open>Recently closed identities: laws\<close>

definition recent_ok :: "'a recent_id_cache \<Rightarrow> bool" where
  "recent_ok c \<longleftrightarrow> distinct (rc_order c) \<and> rc_set c = set (rc_order c) \<and> length (rc_order c) \<le> rc_capacity c \<and> 1 \<le> rc_capacity c"

lemma recent_evict_drop:
  "distinct order \<Longrightarrow> ids = set order \<Longrightarrow>
     recent_evict n order ids = (drop (length order - n) order, set (drop (length order - n) order))"
  by (induction order arbitrary: ids) (auto simp: Suc_diff_le insert_Diff_if)

lemma recent_insert_ok:
  assumes "recent_ok c"
  shows "recent_ok (recent_insert x c)" "recent_contains x (recent_insert x c)"
    "rc_order (recent_insert x c)
      = (if recent_contains x c then rc_order c else drop (length (rc_order c) + 1 - rc_capacity c) (rc_order c @ [x]))"
proof -
  have new: "recent_evict (rc_capacity c) (rc_order c @ [x]) (insert x (rc_set c))
      = (drop (length (rc_order c) + 1 - rc_capacity c) (rc_order c @ [x]), set (drop (length (rc_order c) + 1 - rc_capacity c) (rc_order c @ [x])))"
    if "x \<notin> rc_set c"
    using that assms by (subst recent_evict_drop) (auto simp: recent_ok_def)
  show order: "rc_order (recent_insert x c)
      = (if recent_contains x c then rc_order c else drop (length (rc_order c) + 1 - rc_capacity c) (rc_order c @ [x]))"
    using new by (auto simp: recent_insert_def recent_contains_def)
  show "recent_ok (recent_insert x c)"
    using assms new by (auto simp: recent_insert_def recent_ok_def dest: in_set_dropD)
  show "recent_contains x (recent_insert x c)"
    using assms new by (auto simp: recent_insert_def recent_contains_def recent_ok_def)
qed

end
