(* ===== verification/Path_Auth.thy ===== *)
theory Path_Auth
  imports Auth_Tags Credentials Replay_Cache
begin

text \<open>
  The admission of a carrier path: the client's flight and the server's order of HELLO, AUTH and
  JOIN, \<open>src/src/runtime/path/authentication.rs\<close>; the fixed TCP prelude,
  \<open>src/src/runtime/path/tcp/admission.rs\<close>; replay admission,
  \<open>src/src/runtime/path/server_context.rs\<close>; and the two admission sequences of
  \<open>src/src/runtime/path/quic/server.rs\<close> and \<open>src/src/runtime/path/tcp/server.rs\<close>, up to the first status of
  the path; the registration that follows is not modelled.

  The clock readings, the random nonces and the frames that arrive are arguments. The credential
  authority can be replaced between the lookup and the admission, so the two calls take two
  authorities.
\<close>

section \<open>Errors and results\<close>

text \<open>The errors of \<open>RuntimeError\<close> that admission raises.\<close>

datatype runtime_error = RtAuth auth_error | RtProtocol string

definition with_auth_error :: "auth_error + 'a \<Rightarrow> runtime_error + 'a" where
  "with_auth_error x = (case x of Inl e \<Rightarrow> Inl (RtAuth e) | Inr a \<Rightarrow> Inr a)"

definition result_ok :: "'e + 'a \<Rightarrow> 'a option" where
  "result_ok x = (case x of Inl e \<Rightarrow> None | Inr a \<Rightarrow> Some a)"

definition ok_or :: "string \<Rightarrow> 'a option \<Rightarrow> runtime_error + 'a" where
  "ok_or message x = (case x of None \<Rightarrow> Inl (RtProtocol message) | Some a \<Rightarrow> Inr a)"

section \<open>The client\<close>

record client_frames =
  cf_session_hello :: frame
  cf_session_auth :: frame
  cf_path_join :: frame

definition client_for_session ::
  "mac_function \<Rightarrow> credential_record \<Rightarrow> path_id \<Rightarrow> configured_member_slot \<Rightarrow> underlay_protocol \<Rightarrow> session_id
     \<Rightarrow> u64 \<Rightarrow> auth_nonce \<Rightarrow> auth_nonce \<Rightarrow> runtime_error + client_frames" where
  "client_for_session hmac credential path slot underlay sid now session_nonce path_nonce =
     and_then (with_auth_error (session_authenticator_new (cr_secret credential))) (\<lambda>au.
       let cred = cr_id credential
       in Inr \<lparr>cf_session_hello = SessionHello sid,
            cf_session_auth = SessionAuth sid cred session_nonce now (session_auth_tag hmac au sid cred session_nonce now),
            cf_path_join = PathJoin sid cred path slot underlay path_nonce now
              (path_join_tag hmac au sid cred path slot underlay path_nonce now)\<rparr>)"

section \<open>The server\<close>

definition DUMMY_AUTH_SECRET :: bytes where
  "DUMMY_AUTH_SECRET = replicate 32 0xA5"

definition product_admit :: "credential_authority \<Rightarrow> credential_candidate \<Rightarrow> u64 \<Rightarrow> credential_admission_error + principal_permit" where
  "product_admit authority candidate now =
     and_then (authority_candidate authority (cr_id candidate) now) (\<lambda>current. Inr (into_permit current now))"

record server_path_authentication =
  spa_session_id :: session_id
  spa_window :: u64

record authenticated_session =
  as_session_id :: session_id
  as_credential_id :: policy_id
  as_authenticator :: session_authenticator
  as_window :: u64
  as_permit :: principal_permit

definition from_session_hello :: "u64 \<Rightarrow> frame \<Rightarrow> server_path_authentication option" where
  "from_session_hello window frame =
     (case frame of SessionHello sid \<Rightarrow> Some \<lparr>spa_session_id = sid, spa_window = window\<rparr> | _ \<Rightarrow> None)"

definition find_candidate :: "credential_authority \<Rightarrow> rust_string \<Rightarrow> u64 \<Rightarrow> credential_candidate option" where
  "find_candidate authority cred now =
     Option.bind (result_ok (canonical_policy_id cred)) (\<lambda>cid. result_ok (authority_candidate authority cid now))"

definition candidate_secret :: "credential_candidate option \<Rightarrow> bytes" where
  "candidate_secret c = (case c of None \<Rightarrow> DUMMY_AUTH_SECRET | Some r \<Rightarrow> cr_secret r)"

definition admit_session ::
  "credential_authority \<Rightarrow> bool \<Rightarrow> policy_id option \<Rightarrow> credential_candidate option \<Rightarrow> session_authenticator
     \<Rightarrow> session_id \<Rightarrow> u64 \<Rightarrow> u64 \<Rightarrow> authenticated_session option" where
  "admit_session current verified parsed candidate au sid window now =
     (case (parsed, candidate) of
        (Some cid, Some c) \<Rightarrow>
          if \<not> verified then None
          else
            (case product_admit current c now of
               Inl _ \<Rightarrow> None
             | Inr permit \<Rightarrow> Some \<lparr>as_session_id = sid, as_credential_id = cid, as_authenticator = au,
                                as_window = window, as_permit = permit\<rparr>)
      | _ \<Rightarrow> None)"

definition authenticate_session_at ::
  "mac_function \<Rightarrow> credential_authority \<Rightarrow> credential_authority \<Rightarrow> server_path_authentication \<Rightarrow> frame \<Rightarrow> u64
     \<Rightarrow> runtime_error + authenticated_session option" where
  "authenticate_session_at hmac looked_up current spa frame now =
     (case frame of
        SessionAuth sid cred nonce t tag \<Rightarrow>
          if sid \<noteq> spa_session_id spa then Inr None
          else
            let parsed = result_ok (canonical_policy_id cred); candidate = find_candidate looked_up cred now
            in and_then (with_auth_error (session_authenticator_new (candidate_secret candidate))) (\<lambda>au.
                 let verified = verify_session_auth hmac au \<lparr>sac_session_id = sid, sac_credential_id = cred, sac_nonce = nonce,
                       sac_issued_at = t, sac_tag = tag, sac_now = now, sac_window = spa_window spa\<rparr>
                 in Inr (admit_session current verified parsed candidate au sid (spa_window spa) now))
      | _ \<Rightarrow> Inr None)"

definition authenticate_tcp_session ::
  "mac_function \<Rightarrow> credential_authority \<Rightarrow> credential_authority \<Rightarrow> u64 \<Rightarrow> session_id \<Rightarrow> rust_string \<Rightarrow> auth_nonce \<Rightarrow> u64
     \<Rightarrow> auth_tag \<Rightarrow> bytes \<Rightarrow> u64 \<Rightarrow> runtime_error + authenticated_session option" where
  "authenticate_tcp_session hmac looked_up current window sid cred nonce t tag binding now =
     (let parsed = result_ok (canonical_policy_id cred); candidate = find_candidate looked_up cred now
      in and_then (with_auth_error (session_authenticator_new (candidate_secret candidate))) (\<lambda>au.
           let verified = verify_tcp_session_auth hmac au \<lparr>tac_session_id = sid, tac_credential_id = cred, tac_nonce = nonce,
                 tac_issued_at = t, tac_transport_binding = binding, tac_tag = tag, tac_now = now, tac_window = window\<rparr>
           in Inr (admit_session current verified parsed candidate au sid window now)))"

record authenticated_path_join =
  aj_session_id :: session_id
  aj_credential_id :: policy_id
  aj_path_id :: path_id
  aj_configured_slot :: configured_member_slot
  aj_nonce :: auth_nonce
  aj_issued_at :: u64
  aj_verified_at :: u64
  aj_permit :: principal_permit

definition authenticate_path_join_at ::
  "mac_function \<Rightarrow> authenticated_session \<Rightarrow> underlay_protocol \<Rightarrow> frame \<Rightarrow> u64 \<Rightarrow> authenticated_path_join option" where
  "authenticate_path_join_at hmac ses expected_underlay frame now =
     (case frame of
        PathJoin sid cred path slot underlay nonce t tag \<Rightarrow>
          if sid \<noteq> as_session_id ses \<or> cred \<noteq> as_credential_id ses \<or> underlay \<noteq> expected_underlay
             \<or> \<not> verify_path_join hmac (as_authenticator ses)
                  \<lparr>pjc_session_id = sid, pjc_credential_id = as_credential_id ses, pjc_path_id = path, pjc_configured_slot = slot,
                   pjc_underlay = underlay, pjc_nonce = nonce, pjc_issued_at = t, pjc_tag = tag, pjc_now = now,
                   pjc_window = as_window ses\<rparr>
          then None
          else Some \<lparr>aj_session_id = sid, aj_credential_id = as_credential_id ses, aj_path_id = path, aj_configured_slot = slot,
                 aj_nonce = nonce, aj_issued_at = t, aj_verified_at = now, aj_permit = as_permit ses\<rparr>
      | _ \<Rightarrow> None)"

record path_join_replay_key =
  pk_session_id :: session_id
  pk_credential_id :: policy_id
  pk_path_id :: path_id
  pk_underlay :: underlay_protocol
  pk_nonce :: auth_nonce

type_synonym replay_cache = "path_join_replay_key expiring_replay_cache"

definition accept_path_join_nonce ::
  "u64 \<Rightarrow> session_id \<Rightarrow> policy_id \<Rightarrow> path_id \<Rightarrow> underlay_protocol \<Rightarrow> auth_nonce \<Rightarrow> u64 \<Rightarrow> u64 \<Rightarrow> replay_cache \<Rightarrow> bool \<times> replay_cache" where
  "accept_path_join_nonce window sid cred path underlay nonce issued_at verified_at replay =
     (if window = 0 \<or> abs_diff issued_at verified_at > window then (False, replay)
      else
        let key = \<lparr>pk_session_id = sid, pk_credential_id = cred, pk_path_id = path, pk_underlay = underlay, pk_nonce = nonce\<rparr>;
            expires_at = saturating_add issued_at window
        in try_insert key expires_at verified_at replay)"

text \<open>The first status of the path, which follows the join.\<close>

definition initial_path_usage :: "path_id \<Rightarrow> frame \<Rightarrow> path_usage option" where
  "initial_path_usage path frame =
     (case frame of
        PathStatus status_path sequence usage \<Rightarrow> if sequence = 0 \<and> status_path = path then Some usage else None
      | _ \<Rightarrow> None)"

text \<open>Replay admission of a verified join and then the status of the path, the end of both sequences.
  The two messages are those of the two refusals.\<close>

definition admit_join ::
  "string \<Rightarrow> string \<Rightarrow> u64 \<Rightarrow> underlay_protocol \<Rightarrow> authenticated_path_join \<Rightarrow> frame \<Rightarrow> replay_cache
     \<Rightarrow> (runtime_error + authenticated_path_join \<times> path_usage) \<times> replay_cache" where
  "admit_join join_message status_message window underlay jn status replay =
     (case accept_path_join_nonce window (aj_session_id jn) (aj_credential_id jn) (aj_path_id jn) underlay (aj_nonce jn)
             (aj_issued_at jn) (aj_verified_at jn) replay of
        (False, replay') \<Rightarrow> (Inl (RtProtocol join_message), replay')
      | (True, replay') \<Rightarrow>
          (and_then (ok_or status_message (initial_path_usage (aj_path_id jn) status)) (\<lambda>usage. Inr (jn, usage)), replay'))"

definition admit_server_udp_path ::
  "mac_function \<Rightarrow> credential_authority \<Rightarrow> credential_authority \<Rightarrow> u64 \<Rightarrow> frame \<Rightarrow> frame \<Rightarrow> u64 \<Rightarrow> frame \<Rightarrow> u64 \<Rightarrow> frame
     \<Rightarrow> replay_cache \<Rightarrow> (runtime_error + authenticated_path_join \<times> path_usage) \<times> replay_cache" where
  "admit_server_udp_path hmac looked_up current window hello auth auth_now join join_now status replay =
     (case and_then (ok_or ''expected QUIC UDP path SESSION_HELLO'' (from_session_hello window hello)) (\<lambda>spa.
           and_then (authenticate_session_at hmac looked_up current spa auth auth_now) (\<lambda>found.
           and_then (ok_or ''invalid QUIC UDP path SESSION_AUTH'' found) (\<lambda>ses.
             ok_or ''invalid QUIC UDP path PATH_JOIN'' (authenticate_path_join_at hmac ses Udp join join_now)))) of
        Inl e \<Rightarrow> (Inl e, replay)
      | Inr jn \<Rightarrow> admit_join ''invalid QUIC UDP path PATH_JOIN'' ''invalid client QUIC path usage advertisement''
                      window Udp jn status replay)"

section \<open>The TCP prelude\<close>

definition CLIENT_ROLE :: u8 where
  "CLIENT_ROLE = 1"

definition CLIENT_TO_SERVER :: u8 where
  "CLIENT_TO_SERVER = 1"

definition TCP_ADMISSION_PRELUDE_LEN :: usize where
  "TCP_ADMISSION_PRELUDE_LEN = 131"

definition encode_prelude :: "session_id \<Rightarrow> rust_string \<Rightarrow> auth_nonce \<Rightarrow> u64 \<Rightarrow> auth_tag \<Rightarrow> bytes" where
  "encode_prelude sid cred nonce t tag =
     [CLIENT_ROLE, CLIENT_TO_SERVER, of_nat (length cred)] @ cred @ replicate (MAX_CREDENTIAL_ID_BYTES - length cred) 0
       @ be_bytes 8 sid @ nonce @ be_bytes 8 t @ tag"

record decoded_prelude =
  dp_session_id :: session_id
  dp_credential_id :: rust_string
  dp_nonce :: auth_nonce
  dp_issued_at :: u64
  dp_auth_tag :: auth_tag

definition decode_prelude :: "bytes \<Rightarrow> decoded_prelude option" where
  "decode_prelude encoded =
     (if encoded ! 0 \<noteq> CLIENT_ROLE \<or> encoded ! 1 \<noteq> CLIENT_TO_SERVER then None
      else
        let credential_length = unat (encoded ! 2)
        in if credential_length = 0 \<or> credential_length > MAX_CREDENTIAL_ID_BYTES then None
           else if list_ex (\<lambda>b. b \<noteq> 0) (bslice (3 + credential_length) 67 encoded) then None
           else
             let cred = bslice 3 (3 + credential_length) encoded
             in if \<not> utf8_valid cred then None
                else Some \<lparr>dp_session_id = be_nat (bslice 67 75 encoded), dp_credential_id = cred,
                       dp_nonce = bslice 75 91 encoded, dp_issued_at = be_nat (bslice 91 99 encoded),
                       dp_auth_tag = drop 99 encoded\<rparr>)"

record client_tcp_authentication =
  ct_prelude :: bytes
  ct_path_join :: frame

definition client_tcp_for_session ::
  "mac_function \<Rightarrow> credential_record \<Rightarrow> path_id \<Rightarrow> configured_member_slot \<Rightarrow> session_id \<Rightarrow> bytes
     \<Rightarrow> u64 \<Rightarrow> auth_nonce \<Rightarrow> auth_nonce \<Rightarrow> runtime_error + client_tcp_authentication" where
  "client_tcp_for_session hmac credential path slot sid binding now session_nonce path_nonce =
     (let cred = cr_id credential
      in if cred = [] \<or> length cred > MAX_CREDENTIAL_ID_BYTES
         then Inl (RtProtocol ''TCP admission credential ID is outside the wire limit'')
         else
           and_then (with_auth_error (session_authenticator_new (cr_secret credential))) (\<lambda>au.
             Inr \<lparr>ct_prelude = encode_prelude sid cred session_nonce now
                    (tcp_session_auth_tag hmac au sid cred session_nonce now binding),
               ct_path_join = PathJoin sid cred path slot Tcp path_nonce now
                    (path_join_tag hmac au sid cred path slot Tcp path_nonce now)\<rparr>))"

definition authenticate_prelude ::
  "mac_function \<Rightarrow> credential_authority \<Rightarrow> credential_authority \<Rightarrow> u64 \<Rightarrow> bytes \<Rightarrow> bytes \<Rightarrow> u64
     \<Rightarrow> runtime_error + authenticated_session option" where
  "authenticate_prelude hmac looked_up current window encoded binding now =
     (case decode_prelude encoded of
        None \<Rightarrow> Inr None
      | Some d \<Rightarrow>
          authenticate_tcp_session hmac looked_up current window (dp_session_id d) (dp_credential_id d) (dp_nonce d)
            (dp_issued_at d) (dp_auth_tag d) binding now)"

text \<open>The server drops a connection whose prelude is refused without an error, \<open>Inr None\<close>.\<close>

definition admit_server_tcp_path ::
  "mac_function \<Rightarrow> credential_authority \<Rightarrow> credential_authority \<Rightarrow> u64 \<Rightarrow> bytes \<Rightarrow> bytes \<Rightarrow> u64 \<Rightarrow> frame \<Rightarrow> u64 \<Rightarrow> frame
     \<Rightarrow> replay_cache \<Rightarrow> (runtime_error + (authenticated_path_join \<times> path_usage) option) \<times> replay_cache" where
  "admit_server_tcp_path hmac looked_up current window encoded binding auth_now join join_now status replay =
     (case authenticate_prelude hmac looked_up current window encoded binding auth_now of
        Inl e \<Rightarrow> (Inl e, replay)
      | Inr None \<Rightarrow> (Inr None, replay)
      | Inr (Some ses) \<Rightarrow>
          (case authenticate_path_join_at hmac ses Tcp join join_now of
             None \<Rightarrow> (Inl (RtProtocol ''invalid PATH_JOIN''), replay)
           | Some jn \<Rightarrow>
               (case admit_join ''invalid PATH_JOIN'' ''invalid client TCP path usage advertisement'' window Tcp jn status replay of
                  (Inl e, replay') \<Rightarrow> (Inl e, replay')
                | (Inr j, replay') \<Rightarrow> (Inr (Some j), replay'))))"

end
