(* ===== verification/Path_Auth_Correct.thy ===== *)
theory Path_Auth_Correct
  imports Path_Auth Codec_Field_Laws
begin

text \<open>
  What admission of a carrier path guarantees. An admitted path was vouched for, twice, by the holder
  of the secret of an active credential: once for the session and once for exactly this join on
  this underlay. The join was fresh and is not admitted again. And the flight that an honest client
  builds is admitted, as long as the clocks agree up to the freshness window and the replay cache
  has room.
\<close>

section \<open>Steps of the sequence\<close>

lemma result_ok_Some [simp]: "result_ok x = Some a \<longleftrightarrow> x = Inr a"
  by (cases x) (simp_all add: result_ok_def)

lemma ok_or_Inr [simp]: "ok_or message x = Inr a \<longleftrightarrow> x = Some a"
  by (cases x) (simp_all add: ok_or_def)

lemma find_candidate_Some:
  "find_candidate authority cred now = Some r \<longleftrightarrow>
     (\<exists>cid. canonical_policy_id cred = Inr cid \<and> map_of authority cid = Some r \<and> credential_active r now)"
  by (auto simp: find_candidate_def bind_eq_Some_conv authority_candidate_Inr)

lemma product_admit_Inr:
  "product_admit authority r now = Inr p \<longleftrightarrow>
     (\<exists>r'. map_of authority (cr_id r) = Some r' \<and> credential_active r' now \<and> p = into_permit r' now)"
  by (auto simp: product_admit_def and_then_Inr_iff authority_candidate_Inr)

lemma new_authenticator_Inr: "with_auth_error (session_authenticator_new secret) = Inr au \<longleftrightarrow> secret \<noteq> [] \<and> au = \<lparr>sa_secret = secret\<rparr>"
  by (auto simp: with_auth_error_def session_authenticator_new_def)

text \<open>The credential that is looked up, confirmed at admission, and the session it opens.\<close>

definition session_opened ::
  "credential_authority \<Rightarrow> credential_authority \<Rightarrow> u64 \<Rightarrow> session_id \<Rightarrow> rust_string \<Rightarrow> u64 \<Rightarrow> credential_record \<Rightarrow> authenticated_session \<Rightarrow> bool" where
  "session_opened looked_up current window sid cred now r ses \<longleftrightarrow>
     (\<exists>cid r'. canonical_policy_id cred = Inr cid \<and> map_of looked_up cid = Some r \<and> credential_active r now \<and> cr_secret r \<noteq> []
        \<and> map_of current (cr_id r) = Some r' \<and> credential_active r' now
        \<and> ses = \<lparr>as_session_id = sid, as_credential_id = cid, as_authenticator = \<lparr>sa_secret = cr_secret r\<rparr>, as_window = window,
                 as_permit = into_permit r' now\<rparr>)"

lemma admit_session_Some:
  "admit_session current verified (result_ok (canonical_policy_id cred)) (find_candidate looked_up cred now) au sid window now = Some ses
   \<and> with_auth_error (session_authenticator_new (candidate_secret (find_candidate looked_up cred now))) = Inr au \<longleftrightarrow>
     (\<exists>r. session_opened looked_up current window sid cred now r ses \<and> verified \<and> au = \<lparr>sa_secret = cr_secret r\<rparr>)"
proof (cases "find_candidate looked_up cred now")
  case None
  have "\<not> session_opened looked_up current window sid cred now r ses" for r
    using None find_candidate_Some [of looked_up cred now r] by (auto simp: session_opened_def)
  then show ?thesis by (simp add: None admit_session_def split: option.splits)
next
  case (Some r)
  obtain cid where cid: "canonical_policy_id cred = Inr cid" "map_of looked_up cid = Some r" "credential_active r now"
    using Some find_candidate_Some [of looked_up cred now r] by blast
  have "session_opened looked_up current window sid cred now q ses \<longleftrightarrow>
      q = r \<and> cr_secret r \<noteq> [] \<and> (\<exists>r'. map_of current (cr_id r) = Some r' \<and> credential_active r' now
        \<and> ses = \<lparr>as_session_id = sid, as_credential_id = cid, as_authenticator = \<lparr>sa_secret = cr_secret r\<rparr>, as_window = window,
                 as_permit = into_permit r' now\<rparr>)" for q
    using cid by (auto simp: session_opened_def)
  then have opened: "session_opened looked_up current window sid cred now q ses \<longleftrightarrow>
      q = r \<and> cr_secret r \<noteq> [] \<and> (\<exists>p. product_admit current r now = Inr p
        \<and> ses = \<lparr>as_session_id = sid, as_credential_id = cid, as_authenticator = \<lparr>sa_secret = cr_secret r\<rparr>, as_window = window,
                 as_permit = p\<rparr>)" for q
    unfolding product_admit_Inr by blast
  show ?thesis unfolding opened
    by (cases "product_admit current r now")
      (auto simp: Some cid(1) result_ok_def admit_session_def candidate_secret_def new_authenticator_Inr)
qed

lemma session_opened_short: "session_opened looked_up current window sid cred now r ses \<Longrightarrow> length cred \<le> 255"
  using canonical_policy_id_wire [of cred] by (auto simp: session_opened_def credential_id_is_canonical_def MAX_CREDENTIAL_ID_BYTES_def split: if_splits)

lemma authenticate_session_Inr:
  "authenticate_session_at hmac looked_up current spa frame now = Inr (Some ses) \<longleftrightarrow>
     (\<exists>cred nonce t r. frame = SessionAuth (spa_session_id spa) cred nonce t (hmac (cr_secret r) (transcript (SessionRequest (spa_session_id spa) cred nonce t)))
        \<and> session_opened looked_up current (spa_window spa) (spa_session_id spa) cred now r ses
        \<and> issued_at_is_fresh t now (spa_window spa))" (is "?l \<longleftrightarrow> ?r")
proof
  assume ?l
  then obtain cred nonce t tag where f: "frame = SessionAuth (spa_session_id spa) cred nonce t tag"
    by (auto simp: authenticate_session_at_def split: frame.splits if_splits)
  let ?c = "\<lambda>au. \<lparr>sac_session_id = spa_session_id spa, sac_credential_id = cred, sac_nonce = nonce, sac_issued_at = t, sac_tag = tag,
      sac_now = now, sac_window = spa_window spa\<rparr>"
  from \<open>?l\<close> f obtain au where "admit_session current (verify_session_auth hmac au (?c au)) (result_ok (canonical_policy_id cred))
      (find_candidate looked_up cred now) au (spa_session_id spa) (spa_window spa) now = Some ses"
    "with_auth_error (session_authenticator_new (candidate_secret (find_candidate looked_up cred now))) = Inr au"
    by (auto simp: authenticate_session_at_def Let_def and_then_Inr_iff)
  then obtain r where r: "session_opened looked_up current (spa_window spa) (spa_session_id spa) cred now r ses"
      "verify_session_auth hmac au (?c au)" "au = \<lparr>sa_secret = cr_secret r\<rparr>"
    using admit_session_Some by blast
  then show ?r using f verify_transcripts(1) [of "?c au" hmac au] session_opened_short [OF r(1)] by auto
next
  assume ?r
  then obtain cred nonce t r where r: "frame = SessionAuth (spa_session_id spa) cred nonce t (hmac (cr_secret r) (transcript (SessionRequest (spa_session_id spa) cred nonce t)))"
      "session_opened looked_up current (spa_window spa) (spa_session_id spa) cred now r ses" "issued_at_is_fresh t now (spa_window spa)"
    by blast
  let ?c = "\<lparr>sac_session_id = spa_session_id spa, sac_credential_id = cred, sac_nonce = nonce, sac_issued_at = t,
      sac_tag = hmac (cr_secret r) (transcript (SessionRequest (spa_session_id spa) cred nonce t)), sac_now = now, sac_window = spa_window spa\<rparr>"
  have v: "verify_session_auth hmac \<lparr>sa_secret = cr_secret r\<rparr> ?c"
    using verify_transcripts(1) [of ?c hmac "\<lparr>sa_secret = cr_secret r\<rparr>"] session_opened_short [OF r(2)] r(3) by simp
  have "admit_session current (verify_session_auth hmac \<lparr>sa_secret = cr_secret r\<rparr> ?c) (result_ok (canonical_policy_id cred))
      (find_candidate looked_up cred now) \<lparr>sa_secret = cr_secret r\<rparr> (spa_session_id spa) (spa_window spa) now = Some ses
    \<and> with_auth_error (session_authenticator_new (candidate_secret (find_candidate looked_up cred now))) = Inr \<lparr>sa_secret = cr_secret r\<rparr>"
    unfolding admit_session_Some using r(2) v by blast
  then show ?l unfolding r(1) by (simp add: authenticate_session_at_def Let_def and_then_Inr_iff del: transcript.simps)
qed

lemma authenticate_tcp_Inr:
  "authenticate_tcp_session hmac looked_up current window sid cred nonce t tag binding now = Inr (Some ses) \<longleftrightarrow>
     (\<exists>r. session_opened looked_up current window sid cred now r ses \<and> issued_at_is_fresh t now window
        \<and> tag = hmac (cr_secret r) (transcript (TcpSessionRequest sid cred nonce t binding)))"
proof -
  let ?c = "\<lparr>tac_session_id = sid, tac_credential_id = cred, tac_nonce = nonce, tac_issued_at = t, tac_transport_binding = binding,
      tac_tag = tag, tac_now = now, tac_window = window\<rparr>"
  have v: "verify_tcp_session_auth hmac \<lparr>sa_secret = cr_secret r\<rparr> ?c \<longleftrightarrow>
      issued_at_is_fresh t now window \<and> tag = hmac (cr_secret r) (transcript (TcpSessionRequest sid cred nonce t binding))"
    if "session_opened looked_up current window sid cred now r ses" for r
    using verify_transcripts(2) [of ?c hmac "\<lparr>sa_secret = cr_secret r\<rparr>"] session_opened_short [OF that] by simp
  have "authenticate_tcp_session hmac looked_up current window sid cred nonce t tag binding now = Inr (Some ses) \<longleftrightarrow>
     (\<exists>au. admit_session current (verify_tcp_session_auth hmac au ?c) (result_ok (canonical_policy_id cred))
        (find_candidate looked_up cred now) au sid window now = Some ses
      \<and> with_auth_error (session_authenticator_new (candidate_secret (find_candidate looked_up cred now))) = Inr au)"
    by (auto simp: authenticate_tcp_session_def Let_def and_then_Inr_iff)
  also have "\<dots> \<longleftrightarrow> (\<exists>r. session_opened looked_up current window sid cred now r ses \<and> verify_tcp_session_auth hmac \<lparr>sa_secret = cr_secret r\<rparr> ?c)"
    unfolding admit_session_Some by blast
  finally show ?thesis using v by blast
qed

text \<open>The join that a session's secret vouches for.\<close>

definition join_vouched :: "mac_function \<Rightarrow> authenticated_session \<Rightarrow> underlay_protocol \<Rightarrow> frame \<Rightarrow> u64 \<Rightarrow> authenticated_path_join \<Rightarrow> bool" where
  "join_vouched hmac ses underlay frame now jn \<longleftrightarrow>
     aj_session_id jn = as_session_id ses \<and> aj_credential_id jn = as_credential_id ses \<and> aj_permit jn = as_permit ses
     \<and> aj_verified_at jn = now \<and> issued_at_is_fresh (aj_issued_at jn) now (as_window ses)
     \<and> frame = PathJoin (aj_session_id jn) (aj_credential_id jn) (aj_path_id jn) (aj_configured_slot jn) underlay (aj_nonce jn) (aj_issued_at jn)
         (hmac (sa_secret (as_authenticator ses)) (transcript (JoinRequest (aj_session_id jn) (aj_credential_id jn) (aj_path_id jn)
            (aj_configured_slot jn) underlay (aj_nonce jn) (aj_issued_at jn))))"

lemma session_opened_credential:
  assumes "session_opened looked_up current window sid cred now r ses"
  shows "length (as_credential_id ses) \<le> 255" "as_session_id ses = sid"
  using assms session_opened_short [OF assms] canonical_policy_id_wire [of cred] by (auto simp: session_opened_def)

lemma authenticate_path_join_Some:
  assumes "length (as_credential_id ses) \<le> 255"
  shows "authenticate_path_join_at hmac ses underlay frame now = Some jn \<longleftrightarrow> join_vouched hmac ses underlay frame now jn"
proof (cases frame)
  case (PathJoin sid cred path slot u nonce t tag)
  let ?c = "\<lparr>pjc_session_id = sid, pjc_credential_id = as_credential_id ses, pjc_path_id = path, pjc_configured_slot = slot,
      pjc_underlay = u, pjc_nonce = nonce, pjc_issued_at = t, pjc_tag = tag, pjc_now = now, pjc_window = as_window ses\<rparr>"
  have "verify_path_join hmac (as_authenticator ses) ?c \<longleftrightarrow> issued_at_is_fresh t now (as_window ses)
      \<and> tag = hmac (sa_secret (as_authenticator ses)) (transcript (JoinRequest sid (as_credential_id ses) path slot u nonce t))"
    using verify_transcripts(3) [of ?c] assms by simp
  then show ?thesis
    by (cases jn) (auto simp: PathJoin authenticate_path_join_at_def join_vouched_def simp del: transcript.simps)
qed (simp_all add: authenticate_path_join_at_def join_vouched_def)

definition join_key :: "underlay_protocol \<Rightarrow> authenticated_path_join \<Rightarrow> path_join_replay_key" where
  "join_key underlay jn = \<lparr>pk_session_id = aj_session_id jn, pk_credential_id = aj_credential_id jn, pk_path_id = aj_path_id jn,
     pk_underlay = underlay, pk_nonce = aj_nonce jn\<rparr>"

lemma admit_join_eq:
  "admit_join join_message status_message window underlay jn status replay =
     (if issued_at_is_fresh (aj_issued_at jn) (aj_verified_at jn) window
      then (case try_insert (join_key underlay jn) (saturating_add (aj_issued_at jn) window) (aj_verified_at jn) replay of
              (ok, replay') \<Rightarrow>
                (if ok then and_then (ok_or status_message (initial_path_usage (aj_path_id jn) status)) (\<lambda>usage. Inr (jn, usage))
                 else Inl (RtProtocol join_message), replay'))
      else (Inl (RtProtocol join_message), replay))"
  by (auto simp: admit_join_def accept_path_join_nonce_def issued_at_is_fresh_def join_key_def Let_def split: prod.splits bool.splits)

lemma initial_path_usage_Some: "initial_path_usage path status = Some usage \<longleftrightarrow> status = PathStatus path 0 usage"
  by (auto simp: initial_path_usage_def split: frame.splits)

lemma admit_join_Inr:
  assumes "replay_ok replay" and "admit_join join_message status_message window underlay jn status replay = (Inr (jn', usage), replay')"
  shows "jn' = jn" "replay_ok replay'" "replay_live replay' (join_key underlay jn) = Some (saturating_add (aj_issued_at jn) window)"
    "\<forall>e. replay_live replay (join_key underlay jn) = Some e \<longrightarrow> e < saturating_add (aj_issued_at jn) window"
    "status = PathStatus (aj_path_id jn) 0 usage"
proof -
  let ?e = "saturating_add (aj_issued_at jn) window"
  have t: "try_insert (join_key underlay jn) ?e (aj_verified_at jn) replay = (True, replay')" "jn' = jn"
      "initial_path_usage (aj_path_id jn) status = Some usage"
    using assms(2) by (auto simp: admit_join_eq and_then_Inr_iff split: if_splits prod.splits)
  note r = try_insert_refines [OF assms(1) t(1)]
  note spec = replay_spec_result [OF r(3)]
  show "jn' = jn" "replay_ok replay'" using t(2) r(1) by auto
  show "replay_live replay' (join_key underlay jn) = Some ?e" using spec(3) by simp
  show "\<forall>e. replay_live replay (join_key underlay jn) = Some e \<longrightarrow> e < ?e"
    using spec(3) by (auto simp: still_live_def split: if_splits)
  show "status = PathStatus (aj_path_id jn) 0 usage" using t(3) by (simp add: initial_path_usage_Some)
qed

section \<open>Properties\<close>

text \<open>C7. An admitted QUIC path is authentic. If the server admits a path, the three frames came in
  order for one session; the SESSION_AUTH and the PATH_JOIN each carry the MAC, under the secret of
  one credential, of exactly the fields they show; that credential was known and active when it was
  looked up and when it was admitted; both were issued within the freshness window; the join is
  retained, and was not already retained with this validity; and the first status that followed is of
  the joined path.\<close>

theorem udp_admission_authentic:
  assumes ok: "replay_ok replay"
    and adm: "admit_server_udp_path hmac looked_up current window hello auth auth_now join join_now status replay
      = (Inr (jn, usage), replay')"
  shows "\<exists>cred nonce t r ses.
      hello = SessionHello (aj_session_id jn)
    \<and> auth = SessionAuth (aj_session_id jn) cred nonce t (hmac (cr_secret r) (transcript (SessionRequest (aj_session_id jn) cred nonce t)))
    \<and> issued_at_is_fresh t auth_now window
    \<and> session_opened looked_up current window (aj_session_id jn) cred auth_now r ses
    \<and> join_vouched hmac ses Udp join join_now jn
    \<and> replay_live replay' (join_key Udp jn) = Some (saturating_add (aj_issued_at jn) window)
    \<and> (\<forall>e. replay_live replay (join_key Udp jn) = Some e \<longrightarrow> e < saturating_add (aj_issued_at jn) window)
    \<and> status = PathStatus (aj_path_id jn) 0 usage"
proof -
  obtain spa ses jn' where steps: "from_session_hello window hello = Some spa"
      "authenticate_session_at hmac looked_up current spa auth auth_now = Inr (Some ses)"
      "authenticate_path_join_at hmac ses Udp join join_now = Some jn'"
      "admit_join ''invalid QUIC UDP path PATH_JOIN'' ''invalid client QUIC path usage advertisement'' window Udp jn' status replay
        = (Inr (jn, usage), replay')"
    using adm by (auto simp: admit_server_udp_path_def and_then_Inr_iff split: sum.splits)
  note a = admit_join_Inr [OF ok steps(4)]
  have spa: "hello = SessionHello (spa_session_id spa)" "spa_window spa = window"
    using steps(1) by (auto simp: from_session_hello_def split: frame.splits)
  obtain cred nonce t r where s: "auth = SessionAuth (spa_session_id spa) cred nonce t
        (hmac (cr_secret r) (transcript (SessionRequest (spa_session_id spa) cred nonce t)))"
      "session_opened looked_up current window (spa_session_id spa) cred auth_now r ses" "issued_at_is_fresh t auth_now window"
    using steps(2) unfolding authenticate_session_Inr spa by blast
  have v: "join_vouched hmac ses Udp join join_now jn" "aj_session_id jn = spa_session_id spa"
    using steps(3) authenticate_path_join_Some [of ses hmac Udp join join_now jn'] session_opened_credential [OF s(2)] a(1) by (auto simp: join_vouched_def)
  show ?thesis
    using s spa(1) v a by (metis (no_types, lifting))
qed

lemma try_insert_admits:
  assumes ok: "replay_ok c" and "replay_live c x = None" "length (rp_entries c) < rp_capacity c" "rp_observed c \<le> e" "now \<le> e"
  shows "fst (try_insert x e now c)"
proof -
  obtain admitted c' where t: "try_insert x e now c = (admitted, c')" by (meson surj_pair)
  have "dom (still_live (max (rp_observed c) now) (replay_live c)) \<subseteq> dom (replay_live c)"
    by (auto simp: still_live_def split: option.splits)
  then have "card (dom (still_live (max (rp_observed c) now) (replay_live c))) \<le> card (dom (replay_live c))"
    by (intro card_mono) (simp_all add: replay_live_def finite_dom_map_of)
  also have "\<dots> = length (rp_entries c)"
    using ok length_dom [of "rp_entries c"] indexes_agreeD(1) [of "rp_expirations c" "rp_entries c"]
    by (simp add: replay_ok_def replay_live_def)
  finally have "card (dom (still_live (max (rp_observed c) now) (replay_live c))) < rp_capacity c" using assms(3) by simp
  moreover have "still_live (max (rp_observed c) now) (replay_live c) x = None" using assms(2) by (simp add: still_live_def)
  ultimately have admitted using try_insert_refines(3) [OF ok t] assms(4,5) by (auto simp: replay_spec_def Let_def split: if_splits)
  then show ?thesis by (simp add: t)
qed

lemma fresh_expiry: "issued_at_is_fresh t now window \<Longrightarrow> now \<le> u64_max \<Longrightarrow> now \<le> saturating_add t window"
  by (auto simp: issued_at_is_fresh_def abs_diff_def saturating_add_def split: if_splits)

lemma admit_join_honest:
  assumes "replay_ok replay" "issued_at_is_fresh (aj_issued_at jn) (aj_verified_at jn) window" "aj_verified_at jn \<le> u64_max"
    and "replay_live replay (join_key underlay jn) = None" "length (rp_entries replay) < rp_capacity replay"
    and "rp_observed replay \<le> saturating_add (aj_issued_at jn) window"
  shows "\<exists>replay'. admit_join join_message status_message window underlay jn (PathStatus (aj_path_id jn) 0 usage) replay
    = (Inr (jn, usage), replay')"
  using try_insert_admits [OF assms(1,4,5,6) fresh_expiry [OF assms(2,3)]] assms(2)
  by (auto simp: admit_join_eq initial_path_usage_def ok_or_def split: prod.splits)

lemma client_frames_Inr:
  assumes "client_for_session hmac r path slot underlay sid t n1 n2 = Inr fl" and "length (cr_id r) \<le> 255"
  shows "cr_secret r \<noteq> []" "cf_session_hello fl = SessionHello sid"
    "cf_session_auth fl = SessionAuth sid (cr_id r) n1 t (hmac (cr_secret r) (transcript (SessionRequest sid (cr_id r) n1 t)))"
    "cf_path_join fl = PathJoin sid (cr_id r) path slot underlay n2 t
      (hmac (cr_secret r) (transcript (JoinRequest sid (cr_id r) path slot underlay n2 t)))"
  using assms by (auto simp: client_for_session_def and_then_Inr_iff new_authenticator_Inr Let_def tags_of_transcripts simp del: transcript.simps)

lemma canonical_short: "credential_id_is_canonical s \<Longrightarrow> s \<noteq> [] \<and> length s \<le> 64"
  by (auto simp: credential_id_is_canonical_def MAX_CREDENTIAL_ID_BYTES_def split: if_splits)

text \<open>C9. An honest client is admitted. The flight that the client builds from a credential, followed by
  the first status of its path, is admitted by a server that knows the credential, when both clock readings are within the freshness
  window, the credential is active, the nonce is not already retained and the replay cache has room;
  the join then carries the permit of the credential's principal.\<close>

theorem udp_honest_client_admitted:
  assumes flight: "client_for_session hmac r path slot Udp sid t n1 n2 = Inr fl"
    and cred: "credential_id_is_canonical (cr_id r)" "map_of looked_up (cr_id r) = Some r" "credential_active r auth_now"
      "map_of current (cr_id r) = Some r'" "credential_active r' auth_now"
    and clocks: "issued_at_is_fresh t auth_now window" "issued_at_is_fresh t join_now window" "join_now \<le> u64_max"
    and jn: "jn = \<lparr>aj_session_id = sid, aj_credential_id = cr_id r, aj_path_id = path, aj_configured_slot = slot, aj_nonce = n2,
               aj_issued_at = t, aj_verified_at = join_now, aj_permit = into_permit r' auth_now\<rparr>"
    and replay: "replay_ok replay" "replay_live replay (join_key Udp jn) = None" "length (rp_entries replay) < rp_capacity replay"
      "rp_observed replay \<le> saturating_add t window"
  shows "\<exists>replay'. admit_server_udp_path hmac looked_up current window (cf_session_hello fl) (cf_session_auth fl) auth_now
      (cf_path_join fl) join_now (PathStatus path 0 usage) replay = (Inr (jn, usage), replay')"
proof -
  have short: "length (cr_id r) \<le> 255" using canonical_short [OF cred(1)] by simp
  note fl = client_frames_Inr [OF flight short]
  let ?spa = "\<lparr>spa_session_id = sid, spa_window = window\<rparr>"
  let ?ses = "\<lparr>as_session_id = sid, as_credential_id = cr_id r, as_authenticator = \<lparr>sa_secret = cr_secret r\<rparr>, as_window = window,
      as_permit = into_permit r' auth_now\<rparr>"
  have open_ok: "session_opened looked_up current window sid (cr_id r) auth_now r ?ses"
    using cred fl(1) wire_canonical_policy_id [OF cred(1)] by (simp add: session_opened_def)
  have ses: "authenticate_session_at hmac looked_up current ?spa (cf_session_auth fl) auth_now = Inr (Some ?ses)"
    unfolding authenticate_session_Inr fl(3) using open_ok clocks(1) by (auto simp del: transcript.simps)
  have vouched: "authenticate_path_join_at hmac ?ses Udp (cf_path_join fl) join_now = Some jn"
    using authenticate_path_join_Some [of ?ses hmac Udp "cf_path_join fl" join_now jn] short clocks(2)
    by (simp add: join_vouched_def fl(4) jn del: transcript.simps)
  obtain replay' where "admit_join ''invalid QUIC UDP path PATH_JOIN'' ''invalid client QUIC path usage advertisement'' window Udp jn
      (PathStatus path 0 usage) replay = (Inr (jn, usage), replay')"
    using admit_join_honest [of replay jn window Udp "''invalid QUIC UDP path PATH_JOIN''"
        "''invalid client QUIC path usage advertisement''" usage] replay clocks jn by auto
  then show ?thesis
    by (auto simp: admit_server_udp_path_def from_session_hello_def fl(2) ses vouched ok_or_def)
qed

section \<open>The TCP prelude\<close>

text \<open>The fields that a prelude can carry.\<close>

definition prelude_typed :: "decoded_prelude \<Rightarrow> bool" where
  "prelude_typed d \<longleftrightarrow> fits 64 (dp_session_id d) \<and> dp_credential_id d \<noteq> [] \<and> length (dp_credential_id d) \<le> MAX_CREDENTIAL_ID_BYTES
     \<and> utf8_valid (dp_credential_id d) \<and> length (dp_nonce d) = 16 \<and> fits 64 (dp_issued_at d) \<and> length (dp_auth_tag d) = 32"

abbreviation prelude_bytes :: "decoded_prelude \<Rightarrow> bytes" where
  "prelude_bytes d \<equiv> encode_prelude (dp_session_id d) (dp_credential_id d) (dp_nonce d) (dp_issued_at d) (dp_auth_tag d)"

lemma prelude_length: "prelude_typed d \<Longrightarrow> length (prelude_bytes d) = TCP_ADMISSION_PRELUDE_LEN"
  by (simp add: prelude_typed_def encode_prelude_def TCP_ADMISSION_PRELUDE_LEN_def MAX_CREDENTIAL_ID_BYTES_def)

lemma decode_encode_prelude:
  assumes "prelude_typed d"
  shows "decode_prelude (prelude_bytes d) = Some d"
proof -
  define c where "c = dp_credential_id d"
  define pad where "pad = replicate (64 - length c) (0 :: byte)"
  define sid where "sid = be_bytes 8 (dp_session_id d)"
  define t where "t = be_bytes 8 (dp_issued_at d)"
  have c: "c \<noteq> []" "length c \<le> 64" "utf8_valid c" using assms by (simp_all add: prelude_typed_def c_def MAX_CREDENTIAL_ID_BYTES_def)
  have nums: "be_nat sid = dp_session_id d" "be_nat t = dp_issued_at d"
    using assms by (simp_all add: sid_def t_def prelude_typed_def fits_def be_nat_be_bytes)
  have len: "length pad = 64 - length c" "length sid = 8" "length t = 8" "length (dp_nonce d) = 16" "length (dp_auth_tag d) = 32"
    using assms by (simp_all add: pad_def sid_def t_def prelude_typed_def)
  have b: "prelude_bytes d = [CLIENT_ROLE, CLIENT_TO_SERVER, of_nat (length c)] @ c @ pad @ sid @ dp_nonce d @ t @ dp_auth_tag d"
    by (simp add: encode_prelude_def c_def pad_def sid_def t_def MAX_CREDENTIAL_ID_BYTES_def)
  have n: "unat (of_nat (length c) :: byte) = length c" using c(2) by (simp add: unat_of_nat)
  have "bslice (3 + length c) 67 (prelude_bytes d) = pad" "bslice 3 (3 + length c) (prelude_bytes d) = c"
    "bslice 67 75 (prelude_bytes d) = sid" "bslice 75 91 (prelude_bytes d) = dp_nonce d" "bslice 91 99 (prelude_bytes d) = t"
    "drop 99 (prelude_bytes d) = dp_auth_tag d"
    using c len by (simp_all add: b bslice_def numeral_3_eq_3)
  moreover have "prelude_bytes d ! 0 = CLIENT_ROLE" "prelude_bytes d ! 1 = CLIENT_TO_SERVER" "prelude_bytes d ! 2 = of_nat (length c)"
    by (simp_all add: b)
  moreover have "\<not> list_ex (\<lambda>b. b \<noteq> 0) pad" by (simp add: pad_def list_ex_iff)
  ultimately show ?thesis using c n by (simp add: decode_prelude_def Let_def MAX_CREDENTIAL_ID_BYTES_def nums c_def)
qed

lemma zeros: "\<not> list_ex (\<lambda>b. b \<noteq> 0) xs \<Longrightarrow> xs = replicate (length xs) (0 :: byte)"
  by (simp add: list_ex_iff replicate_length_same)

lemma bslice_chain: "a \<le> b \<Longrightarrow> drop a xs = bslice a b xs @ drop b xs"
  using append_take_drop_id [of "b - a" "drop a xs"] by (simp add: bslice_def)

lemma decode_prelude_canonical:
  assumes dec: "decode_prelude encoded = Some d" and len: "length encoded = TCP_ADMISSION_PRELUDE_LEN"
  shows "prelude_typed d \<and> encoded = prelude_bytes d"
proof -
  define n where "n = unat (encoded ! 2)"
  note L = len [unfolded TCP_ADMISSION_PRELUDE_LEN_def]
  have head: "encoded ! 0 = CLIENT_ROLE" "encoded ! 1 = CLIENT_TO_SERVER" "n \<noteq> 0" "n \<le> 64"
      "\<not> list_ex (\<lambda>b. b \<noteq> 0) (bslice (3 + n) 67 encoded)" "utf8_valid (bslice 3 (3 + n) encoded)"
    and d: "d = \<lparr>dp_session_id = be_nat (bslice 67 75 encoded), dp_credential_id = bslice 3 (3 + n) encoded,
        dp_nonce = bslice 75 91 encoded, dp_issued_at = be_nat (bslice 91 99 encoded), dp_auth_tag = drop 99 encoded\<rparr>"
    using dec by (simp_all add: decode_prelude_def Let_def n_def MAX_CREDENTIAL_ID_BYTES_def split: if_splits)
  have lens: "length (bslice 3 (3 + n) encoded) = n" "length (bslice (3 + n) 67 encoded) = 64 - n"
      "length (bslice 67 75 encoded) = 8" "length (bslice 91 99 encoded) = 8"
    using head L by simp_all
  have pad: "bslice (3 + n) 67 encoded = replicate (64 - n) 0" using zeros [OF head(5)] lens(2) by simp
  have nums: "be_bytes 8 (be_nat (bslice 67 75 encoded)) = bslice 67 75 encoded" "be_nat (bslice 67 75 encoded) < 256 ^ 8"
      "be_bytes 8 (be_nat (bslice 91 99 encoded)) = bslice 91 99 encoded" "be_nat (bslice 91 99 encoded) < 256 ^ 8"
    using be_bytes_be_nat [of "bslice 67 75 encoded"] be_nat_less [of "bslice 67 75 encoded"]
      be_bytes_be_nat [of "bslice 91 99 encoded"] be_nat_less [of "bslice 91 99 encoded"] lens by simp_all
  have "take 3 encoded = [encoded ! 0, encoded ! 1, encoded ! 2]"
    using L by (simp add: numeral_3_eq_3 take_Suc_conv_app_nth numeral_2_eq_2)
  then have "encoded = [encoded ! 0, encoded ! 1, encoded ! 2] @ drop 3 encoded"
    by (metis append_take_drop_id)
  also have "drop 3 encoded = bslice 3 (3 + n) encoded @ bslice (3 + n) 67 encoded @ bslice 67 75 encoded @ bslice 75 91 encoded
      @ bslice 91 99 encoded @ drop 99 encoded"
    using head(4) bslice_chain [of 3 "3 + n" encoded] bslice_chain [of "3 + n" 67 encoded] bslice_chain [of 67 75 encoded]
      bslice_chain [of 75 91 encoded] bslice_chain [of 91 99 encoded] by simp
  also have "[encoded ! 0, encoded ! 1, encoded ! 2] = [CLIENT_ROLE, CLIENT_TO_SERVER, of_nat n]"
    using head(1,2) by (simp add: n_def)
  finally have "encoded = prelude_bytes d"
    unfolding pad by (simp add: d encode_prelude_def lens(1) nums MAX_CREDENTIAL_ID_BYTES_def del: length_bslice)
  moreover have "prelude_typed d"
    using head lens nums L by (auto simp: d prelude_typed_def MAX_CREDENTIAL_ID_BYTES_def fits_def simp flip: length_0_conv)
  ultimately show ?thesis by simp
qed

text \<open>C8. An admitted TCP path is authentic. The 131 bytes of the prelude are the one encoding of a
  session, a credential, a nonce and a time, under the MAC of the credential's secret over these and
  the binding of the transport; the credential was known and active; the join that followed is
  vouched for by the same session and retained against replay; and the first status that followed the
  join is of the joined path.\<close>

theorem tcp_admission_authentic:
  assumes ok: "replay_ok replay" and len: "length encoded = TCP_ADMISSION_PRELUDE_LEN"
    and adm: "admit_server_tcp_path hmac looked_up current window encoded binding auth_now join join_now status replay
      = (Inr (Some (jn, usage)), replay')"
  shows "\<exists>cred nonce t r ses.
      encoded = encode_prelude (aj_session_id jn) cred nonce t
        (hmac (cr_secret r) (transcript (TcpSessionRequest (aj_session_id jn) cred nonce t binding)))
    \<and> issued_at_is_fresh t auth_now window
    \<and> session_opened looked_up current window (aj_session_id jn) cred auth_now r ses
    \<and> join_vouched hmac ses Tcp join join_now jn
    \<and> replay_live replay' (join_key Tcp jn) = Some (saturating_add (aj_issued_at jn) window)
    \<and> (\<forall>e. replay_live replay (join_key Tcp jn) = Some e \<longrightarrow> e < saturating_add (aj_issued_at jn) window)
    \<and> status = PathStatus (aj_path_id jn) 0 usage"
proof -
  obtain d ses jn' where steps: "decode_prelude encoded = Some d"
      "authenticate_tcp_session hmac looked_up current window (dp_session_id d) (dp_credential_id d) (dp_nonce d)
            (dp_issued_at d) (dp_auth_tag d) binding auth_now = Inr (Some ses)"
      "authenticate_path_join_at hmac ses Tcp join join_now = Some jn'"
      "admit_join ''invalid PATH_JOIN'' ''invalid client TCP path usage advertisement'' window Tcp jn' status replay
        = (Inr (jn, usage), replay')"
    using adm by (auto simp: admit_server_tcp_path_def authenticate_prelude_def split: sum.splits option.splits prod.splits)
  note a = admit_join_Inr [OF ok steps(4)]
  obtain r where r: "session_opened looked_up current window (dp_session_id d) (dp_credential_id d) auth_now r ses"
      "issued_at_is_fresh (dp_issued_at d) auth_now window"
      "dp_auth_tag d = hmac (cr_secret r) (transcript (TcpSessionRequest (dp_session_id d) (dp_credential_id d) (dp_nonce d) (dp_issued_at d) binding))"
    using steps(2) unfolding authenticate_tcp_Inr by auto
  have j: "join_vouched hmac ses Tcp join join_now jn'"
    using steps(3) authenticate_path_join_Some [of ses hmac Tcp join join_now jn'] session_opened_credential [OF r(1)] by simp
  have "aj_session_id jn = dp_session_id d" using j r(1) a by (auto simp: join_vouched_def session_opened_def)
  then show ?thesis
    using r j a decode_prelude_canonical [OF steps(1) len] by (metis)
qed

text \<open>The server decodes what the client built: the TCP session of an honest client is opened.\<close>

lemma tcp_honest_session_opened:
  assumes flight: "client_tcp_for_session hmac r path slot sid binding t n1 n2 = Inr fl"
    and sizes: "fits 64 sid" "fits 64 t" "length n1 = 16" "\<And>k m. length (hmac k m) = 32"
    and cred: "credential_id_is_canonical (cr_id r)" "map_of looked_up (cr_id r) = Some r" "credential_active r now"
      "map_of current (cr_id r) = Some r'" "credential_active r' now"
    and fresh: "issued_at_is_fresh t now window"
  shows "authenticate_prelude hmac looked_up current window (ct_prelude fl) binding now =
    Inr (Some \<lparr>as_session_id = sid, as_credential_id = cr_id r, as_authenticator = \<lparr>sa_secret = cr_secret r\<rparr>, as_window = window,
      as_permit = into_permit r' now\<rparr>)"
proof -
  let ?tag = "hmac (cr_secret r) (transcript (TcpSessionRequest sid (cr_id r) n1 t binding))"
  let ?d = "\<lparr>dp_session_id = sid, dp_credential_id = cr_id r, dp_nonce = n1, dp_issued_at = t, dp_auth_tag = ?tag\<rparr>"
  have id: "cr_id r \<noteq> []" "length (cr_id r) \<le> 64" "canonical_policy_id (cr_id r) = Inr (cr_id r)"
    using canonical_short [OF cred(1)] wire_canonical_policy_id [OF cred(1)] by simp_all
  have secret: "cr_secret r \<noteq> []" and prelude: "ct_prelude fl = prelude_bytes ?d"
    using flight id by (auto simp: client_tcp_for_session_def and_then_Inr_iff new_authenticator_Inr Let_def tags_of_transcripts
        split: if_splits simp del: transcript.simps)
  have "prelude_typed ?d"
    using id sizes canonical_facts(2) [OF cred(1)] by (simp add: prelude_typed_def MAX_CREDENTIAL_ID_BYTES_def)
  then have "decode_prelude (ct_prelude fl) = Some ?d" unfolding prelude by (rule decode_encode_prelude)
  then show ?thesis
    using id(3) cred secret fresh by (simp add: authenticate_prelude_def authenticate_tcp_Inr session_opened_def del: transcript.simps)
qed

text \<open>The witnesses take the message, or its first 32 bytes, as its MAC.\<close>

definition ex_credential :: credential_record where
  "ex_credential = \<lparr>cr_id = [97], cr_principal = [98], cr_secret = [1], cr_expires_at = Some 500, cr_revoked = False, cr_revocation_grace = 0\<rparr>"

definition ex_flight :: client_frames where
  "ex_flight = projr (client_for_session (\<lambda>k m. m) ex_credential 3 2 Udp 7 100 (replicate 16 0) (replicate 16 1))"

definition ex_tcp_flight :: client_tcp_authentication where
  "ex_tcp_flight = projr (client_tcp_for_session (\<lambda>k m. take 32 m) ex_credential 3 2 7 [5] 100 (replicate 16 0) (replicate 16 1))"

definition ex_join :: authenticated_path_join where
  "ex_join = \<lparr>aj_session_id = 7, aj_credential_id = [97], aj_path_id = 3, aj_configured_slot = 2, aj_nonce = replicate 16 1,
     aj_issued_at = 100, aj_verified_at = 110, aj_permit = into_permit ex_credential 105\<rparr>"

abbreviation ex_status :: frame where
  "ex_status \<equiv> PathStatus 3 0 Available"

lemma ex_credential_facts:
  "credential_id_is_canonical (cr_id ex_credential)" "credential_active ex_credential 105"
  "client_for_session (\<lambda>k m. m) ex_credential 3 2 Udp 7 100 (replicate 16 0) (replicate 16 1) = Inr ex_flight"
  by (simp_all add: ex_credential_def ex_flight_def credential_id_is_canonical_def MAX_CREDENTIAL_ID_BYTES_def is_ascii_lowercase_def
      credential_active_def client_for_session_def with_auth_error_def session_authenticator_new_def Let_def)

theorem udp_honest_client_admitted_witness:
  "\<exists>replay'. admit_server_udp_path (\<lambda>k m. m) [([97], ex_credential)] [([97], ex_credential)] 30 (cf_session_hello ex_flight)
      (cf_session_auth ex_flight) 105 (cf_path_join ex_flight) 110 ex_status (replay_new 4) = (Inr (ex_join, Available), replay')"
  by (rule udp_honest_client_admitted [OF ex_credential_facts(3)])
    (simp_all add: ex_credential_facts replay_ok_new, simp_all add: ex_credential_def ex_join_def issued_at_is_fresh_def abs_diff_def
      u64_max_def replay_new_def replay_live_def credential_active_def)

theorem udp_admission_authentic_witness:
  "\<exists>replay' ses. admit_server_udp_path (\<lambda>k m. m) [([97], ex_credential)] [([97], ex_credential)] 30 (cf_session_hello ex_flight)
      (cf_session_auth ex_flight) 105 (cf_path_join ex_flight) 110 ex_status (replay_new 4) = (Inr (ex_join, Available), replay')
    \<and> join_vouched (\<lambda>k m. m) ses Udp (cf_path_join ex_flight) 110 ex_join \<and> replay_live replay' (join_key Udp ex_join) = Some 130"
proof -
  have "fst (admit_server_udp_path (\<lambda>k m. m) [([97], ex_credential)] [([97], ex_credential)] 30 (cf_session_hello ex_flight)
      (cf_session_auth ex_flight) 105 (cf_path_join ex_flight) 110 ex_status (replay_new 4)) = Inr (ex_join, Available)" by code_simp
  then obtain replay' where a: "admit_server_udp_path (\<lambda>k m. m) [([97], ex_credential)] [([97], ex_credential)] 30 (cf_session_hello ex_flight)
      (cf_session_auth ex_flight) 105 (cf_path_join ex_flight) 110 ex_status (replay_new 4) = (Inr (ex_join, Available), replay')"
    by (auto simp: prod_eq_iff)
  then show ?thesis using udp_admission_authentic [OF replay_ok_new a] by (auto simp: ex_join_def saturating_add_def u64_max_def)
qed

theorem tcp_admission_authentic_witness:
  "\<exists>replay' ses. admit_server_tcp_path (\<lambda>k m. take 32 m) [([97], ex_credential)] [([97], ex_credential)] 30 (ct_prelude ex_tcp_flight) [5]
      105 (ct_path_join ex_tcp_flight) 110 ex_status (replay_new 4) = (Inr (Some (ex_join, Available)), replay')
    \<and> join_vouched (\<lambda>k m. take 32 m) ses Tcp (ct_path_join ex_tcp_flight) 110 ex_join \<and> replay_live replay' (join_key Tcp ex_join) = Some 130"
proof -
  have "fst (admit_server_tcp_path (\<lambda>k m. take 32 m) [([97], ex_credential)] [([97], ex_credential)] 30 (ct_prelude ex_tcp_flight) [5]
      105 (ct_path_join ex_tcp_flight) 110 ex_status (replay_new 4)) = Inr (Some (ex_join, Available))" by code_simp
  then obtain replay' where a: "admit_server_tcp_path (\<lambda>k m. take 32 m) [([97], ex_credential)] [([97], ex_credential)] 30
      (ct_prelude ex_tcp_flight) [5] 105 (ct_path_join ex_tcp_flight) 110 ex_status (replay_new 4) = (Inr (Some (ex_join, Available)), replay')"
    by (auto simp: prod_eq_iff)
  have "length (ct_prelude ex_tcp_flight) = TCP_ADMISSION_PRELUDE_LEN" by code_simp
  then show ?thesis using a tcp_admission_authentic [OF replay_ok_new _ a] by (auto simp: ex_join_def saturating_add_def u64_max_def)
qed

end
