(* ===== verification/Datagrams.thy ===== *)
theory Datagrams
  imports Wire_Types Btree_Map Resource_Limits
begin

text \<open>
  The datagram service: the sender's expiring queue of one flow (\<open>src/src/mux/datagram.rs\<close>) and
  the receiver's replay window (\<open>src/src/model/datagram.rs\<close>). Clock readings are arguments; the
  digest of a payload is computed by the function parameter \<open>sha256\<close>.

  The laws show that a flow keeps its ceiling and emits its datagrams in order, unexpired and
  unchanged; that the bounded window answers as an unbounded history of all admitted datagrams
  would on the identifiers it has not left behind; and, together, that a receiver delivers every
  datagram at most once and with the bytes that were enqueued, whatever the network repeats,
  reorders or loses.
\<close>

section \<open>The sender's queue\<close>

record queued_datagram =
  qd_datagram_id :: datagram_id
  qd_enqueued_at_ms :: u64
  qd_ttl_ms :: u32
  qd_payload :: bytes

record datagram_flow =
  df_flow_id :: datagram_flow_id
  df_next_datagram_id :: u64
  df_queued_bytes :: usize
  df_queue :: "queued_datagram list"
  df_dropped_expired :: u64
  df_dropped_queue_full :: u64
  df_dropped_oversize :: u64
  df_limits :: mux_limits

datatype datagram_error =
    EmptyPayload
  | PayloadTooLarge usize usize
  | QueueFull usize usize
  | FlowLimitExceeded usize
  | DatagramIdOverflow

definition datagram_flow_new :: "datagram_flow_id \<Rightarrow> mux_limits \<Rightarrow> datagram_flow" where
  "datagram_flow_new flow_id limits =
     \<lparr>df_flow_id = flow_id, df_next_datagram_id = 0, df_queued_bytes = 0, df_queue = [], df_dropped_expired = 0,
      df_dropped_queue_full = 0, df_dropped_oversize = 0, df_limits = limits\<rparr>"

definition is_expired :: "u64 \<Rightarrow> u32 \<Rightarrow> u64 \<Rightarrow> bool" where
  "is_expired enqueued_at ttl now \<longleftrightarrow> saturating_sub now enqueued_at \<ge> ttl"

definition remaining_ttl_ms :: "u64 \<Rightarrow> u32 \<Rightarrow> u64 \<Rightarrow> u32" where
  "remaining_ttl_ms enqueued_at ttl now =
     (let elapsed = saturating_sub now enqueued_at in min (saturating_sub ttl elapsed) (2 ^ 32 - 1))"

definition enqueue :: "u64 \<Rightarrow> u32 \<Rightarrow> bytes \<Rightarrow> datagram_flow \<Rightarrow> (datagram_error + datagram_id) \<times> datagram_flow" where
  "enqueue now ttl payload fl =
     (if payload = [] then (Inl EmptyPayload, fl)
      else if length payload > ml_max_payload_bytes (df_limits fl)
      then (Inl (PayloadTooLarge (length payload) (ml_max_payload_bytes (df_limits fl))),
            fl\<lparr>df_dropped_oversize := saturating_add (df_dropped_oversize fl) 1\<rparr>)
      else
        let limit = ml_max_datagram_queue_bytes (df_limits fl) in
        (case checked_add (df_queued_bytes fl) (length payload) of
           None \<Rightarrow> (Inl (QueueFull u64_max limit), fl)
         | Some new_queued \<Rightarrow>
             if new_queued > limit
             then (Inl (QueueFull new_queued limit), fl\<lparr>df_dropped_queue_full := saturating_add (df_dropped_queue_full fl) 1\<rparr>)
             else
               let did = df_next_datagram_id fl in
               (case checked_add did 1 of
                  None \<Rightarrow> (Inl DatagramIdOverflow, fl)
                | Some next \<Rightarrow>
                    (Inr did, fl\<lparr>df_next_datagram_id := next, df_queued_bytes := new_queued,
                       df_queue := df_queue fl @ [\<lparr>qd_datagram_id = did, qd_enqueued_at_ms = now, qd_ttl_ms = ttl, qd_payload = payload\<rparr>]\<rparr>))))"

fun drop_expired_loop :: "u64 \<Rightarrow> queued_datagram list \<Rightarrow> usize \<Rightarrow> u64 \<Rightarrow> queued_datagram list \<times> usize \<times> u64" where
  "drop_expired_loop now [] queued_bytes dropped = ([], queued_bytes, dropped)"
| "drop_expired_loop now (item # queue) queued_bytes dropped =
     (if is_expired (qd_enqueued_at_ms item) (qd_ttl_ms item) now
      then drop_expired_loop now queue (saturating_sub queued_bytes (length (qd_payload item))) (saturating_add dropped 1)
      else (item # queue, queued_bytes, dropped))"

definition drop_expired :: "u64 \<Rightarrow> datagram_flow \<Rightarrow> datagram_flow" where
  "drop_expired now fl =
     (case drop_expired_loop now (df_queue fl) (df_queued_bytes fl) (df_dropped_expired fl) of
        (queue, queued_bytes, dropped) \<Rightarrow> fl\<lparr>df_queue := queue, df_queued_bytes := queued_bytes, df_dropped_expired := dropped\<rparr>)"

definition pop_frame :: "u64 \<Rightarrow> datagram_flow \<Rightarrow> frame option \<times> datagram_flow" where
  "pop_frame now fl0 =
     (let fl = drop_expired now fl0 in
      (case df_queue fl of
         [] \<Rightarrow> (None, fl)
       | item # queue \<Rightarrow>
           (Some (DatagramData (df_flow_id fl) (qd_datagram_id item)
                   (remaining_ttl_ms (qd_enqueued_at_ms item) (qd_ttl_ms item) now) (qd_payload item)),
            fl\<lparr>df_queue := queue, df_queued_bytes := saturating_sub (df_queued_bytes fl) (length (qd_payload item))\<rparr>)))"

section \<open>The receiver's window\<close>

record datagram_payload_identity =
  dp_len :: usize
  dp_digest :: bytes

definition payload_identity :: "(bytes \<Rightarrow> bytes) \<Rightarrow> bytes \<Rightarrow> datagram_payload_identity" where
  "payload_identity sha256 payload = \<lparr>dp_len = length payload, dp_digest = sha256 payload\<rparr>"

datatype datagram_admission = Fresh | Duplicate

record datagram_receive_window =
  dw_width :: u64
  dw_largest :: "u64 option"
  dw_retained :: "datagram_payload_identity btree"

definition datagram_window_new :: "usize \<Rightarrow> datagram_receive_window" where
  "datagram_window_new width = \<lparr>dw_width = max width 1, dw_largest = None, dw_retained = []\<rparr>"

definition lower_bound :: "datagram_receive_window \<Rightarrow> u64" where
  "lower_bound w =
     (case dw_largest w of None \<Rightarrow> 0 | Some largest \<Rightarrow> saturating_sub largest (saturating_sub (dw_width w) 1))"

definition classify :: "u64 \<Rightarrow> datagram_payload_identity \<Rightarrow> datagram_receive_window \<Rightarrow> unit + datagram_admission" where
  "classify did payload w =
     (if dw_largest w \<noteq> None \<and> did < lower_bound w then Inr Duplicate
      else
        (case bt_get did (dw_retained w) of
           Some retained \<Rightarrow> if retained = payload then Inr Duplicate else Inl ()
         | None \<Rightarrow> Inr Fresh))"

definition record_fresh :: "u64 \<Rightarrow> datagram_payload_identity \<Rightarrow> datagram_receive_window \<Rightarrow> datagram_receive_window" where
  "record_fresh did payload w =
     (let w' = (if (case dw_largest w of None \<Rightarrow> True | Some largest \<Rightarrow> did > largest)
                then let v = w\<lparr>dw_largest := Some did\<rparr>
                     in v\<lparr>dw_retained := filter (\<lambda>(k, _). k \<ge> lower_bound v) (dw_retained v)\<rparr>
                else w)
      in w'\<lparr>dw_retained := bt_insert did payload (dw_retained w')\<rparr>)"

definition window_admit ::
  "u64 \<Rightarrow> datagram_payload_identity \<Rightarrow> datagram_receive_window \<Rightarrow> (unit + datagram_admission) \<times> datagram_receive_window" where
  "window_admit did payload w =
     (case classify did payload w of
        Inl e \<Rightarrow> (Inl e, w)
      | Inr admission \<Rightarrow> (Inr admission, if admission = Fresh then record_fresh did payload w else w))"

section \<open>Laws of the queue\<close>

abbreviation expired :: "u64 \<Rightarrow> queued_datagram \<Rightarrow> bool" where
  "expired now item \<equiv> is_expired (qd_enqueued_at_ms item) (qd_ttl_ms item) now"

text \<open>\<open>flow_ok sent fl\<close>: \<open>sent\<close> lists the payloads accepted so far, so that the identifier of a
  datagram is its place in \<open>sent\<close>. The queue holds the most recent ones, in order, and its byte
  count is exact and within the ceiling.\<close>

definition flow_ok :: "bytes list \<Rightarrow> datagram_flow \<Rightarrow> bool" where
  "flow_ok sent fl \<longleftrightarrow>
     df_next_datagram_id fl = length sent
   \<and> length (df_queue fl) \<le> length sent
   \<and> map qd_datagram_id (df_queue fl) = [length sent - length (df_queue fl)..<length sent]
   \<and> (\<forall>item \<in> set (df_queue fl). qd_payload item = sent ! qd_datagram_id item)
   \<and> df_queued_bytes fl = (\<Sum>item \<leftarrow> df_queue fl. length (qd_payload item))
   \<and> df_queued_bytes fl \<le> ml_max_datagram_queue_bytes (df_limits fl)"

lemma flow_ok_new: "flow_ok [] (datagram_flow_new flow_id limits)"
  by (simp add: flow_ok_def datagram_flow_new_def)

lemma queue_id_less:
  assumes "flow_ok sent fl" "item \<in> set (df_queue fl)"
  shows "qd_datagram_id item < length sent" "length sent - length (df_queue fl) \<le> qd_datagram_id item"
proof -
  have "qd_datagram_id item \<in> set [length sent - length (df_queue fl)..<length sent]"
    using assms by (metis flow_ok_def image_eqI list.set_map)
  then show "qd_datagram_id item < length sent" "length sent - length (df_queue fl) \<le> qd_datagram_id item" by simp_all
qed

lemma enqueue_ok:
  assumes "flow_ok sent fl" and "enqueue now ttl payload fl = (r, fl')"
  shows "flow_ok (case r of Inl _ \<Rightarrow> sent | Inr _ \<Rightarrow> sent @ [payload]) fl'"
    and "df_flow_id fl' = df_flow_id fl" "df_limits fl' = df_limits fl" "r = Inr i \<Longrightarrow> i = length sent"
  using assms queue_id_less(1) [OF assms(1)]
  by (auto simp: enqueue_def flow_ok_def Let_def checked_add_Some_iff nth_append Suc_diff_le split: if_splits option.splits)

text \<open>Every accepted call is one that the ceilings leave room for, and conversely.\<close>

lemma enqueue_accepts:
  "flow_ok sent fl \<Longrightarrow>
    (\<exists>i. fst (enqueue now ttl payload fl) = Inr i) \<longleftrightarrow>
      payload \<noteq> [] \<and> length payload \<le> ml_max_payload_bytes (df_limits fl)
    \<and> df_queued_bytes fl + length payload \<le> min u64_max (ml_max_datagram_queue_bytes (df_limits fl)) \<and> length sent < u64_max"
  by (auto simp: enqueue_def flow_ok_def Let_def checked_add_Some_iff checked_add_None_iff split: option.splits)

lemma drop_expired_loop_eq:
  assumes "n = (\<Sum>item \<leftarrow> queue. length (qd_payload item))"
  shows "\<exists>d. drop_expired_loop now queue n dropped =
    (dropWhile (expired now) queue,
     (\<Sum>item \<leftarrow> dropWhile (expired now) queue. length (qd_payload item)), d)"
  using assms by (induction queue arbitrary: n dropped) (auto simp: saturating_sub_def)

lemma map_upt_drop: "map f xs = [n - length xs..<n] \<Longrightarrow> length xs \<le> n \<Longrightarrow> map f (drop k xs) = [n - length (drop k xs)..<n]"
  by (cases "k \<le> length xs") (simp_all add: drop_map [symmetric] drop_upt)

lemma sum_drop_le: "(\<Sum>x \<leftarrow> drop k xs. g x) \<le> (\<Sum>x \<leftarrow> xs. (g x :: nat))"
  by (metis append_take_drop_id le_add2 map_append sum_list_append)

lemma flow_ok_drop:
  assumes "flow_ok sent fl" "queue = drop k (df_queue fl)"
  shows "flow_ok sent (fl\<lparr>df_queue := queue, df_queued_bytes := \<Sum>item \<leftarrow> queue. length (qd_payload item), df_dropped_expired := d\<rparr>)"
  using assms sum_drop_le [of "\<lambda>item. length (qd_payload item)" k "df_queue fl"] map_upt_drop [of qd_datagram_id "df_queue fl" "length sent" k]
  by (auto simp: flow_ok_def dest: in_set_dropD)

lemma drop_expired_ok:
  assumes "flow_ok sent fl"
  shows "flow_ok sent (drop_expired now fl)"
    and "df_queue (drop_expired now fl) = dropWhile (expired now) (df_queue fl)"
    and "df_flow_id (drop_expired now fl) = df_flow_id fl" "df_limits (drop_expired now fl) = df_limits fl"
proof -
  let ?q = "dropWhile (expired now) (df_queue fl)"
  obtain d where d: "drop_expired now fl =
      fl\<lparr>df_queue := ?q, df_queued_bytes := \<Sum>item \<leftarrow> ?q. length (qd_payload item), df_dropped_expired := d\<rparr>"
    using drop_expired_loop_eq [of "df_queued_bytes fl" "df_queue fl" now "df_dropped_expired fl"] assms
    by (auto simp: drop_expired_def flow_ok_def)
  have "flow_ok sent (fl\<lparr>df_queue := ?q, df_queued_bytes := \<Sum>item \<leftarrow> ?q. length (qd_payload item), df_dropped_expired := d\<rparr>)"
    by (rule flow_ok_drop [OF assms, of _ "length (takeWhile (expired now) (df_queue fl))"])
      (rule dropWhile_eq_drop)
  then show "flow_ok sent (drop_expired now fl)" "df_queue (drop_expired now fl) = ?q"
    "df_flow_id (drop_expired now fl) = df_flow_id fl" "df_limits (drop_expired now fl) = df_limits fl" by (simp_all add: d)
qed

text \<open>A frame that leaves the queue carries the oldest datagram that has not expired, with the rest of
  its lifetime.\<close>

definition popped :: "bytes list \<Rightarrow> u64 \<Rightarrow> datagram_flow \<Rightarrow> datagram_flow \<Rightarrow> frame \<Rightarrow> bool" where
  "popped sent now fl fl' f \<longleftrightarrow>
     (\<exists>item. find (\<lambda>item. \<not> expired now item) (df_queue fl) = Some item
       \<and> f = DatagramData (df_flow_id fl) (qd_datagram_id item) (remaining_ttl_ms (qd_enqueued_at_ms item) (qd_ttl_ms item) now) (qd_payload item)
       \<and> qd_datagram_id item = length sent - length (df_queue fl') - 1 \<and> length (df_queue fl') < length (df_queue fl))"

lemma pop_frame_ok:
  assumes "flow_ok sent fl" "pop_frame now fl = (r, fl')"
  shows "flow_ok sent fl' \<and> df_flow_id fl' = df_flow_id fl \<and> df_limits fl' = df_limits fl
    \<and> (case r of None \<Rightarrow> df_queue fl' = [] | Some f \<Rightarrow> popped sent now fl fl' f)"
proof -
  let ?fl = "drop_expired now fl"
  note d = drop_expired_ok [OF assms(1), of now]
  consider "df_queue ?fl = []" "r = None" "fl' = ?fl"
    | item queue where "df_queue ?fl = item # queue"
      "r = Some (DatagramData (df_flow_id fl) (qd_datagram_id item) (remaining_ttl_ms (qd_enqueued_at_ms item) (qd_ttl_ms item) now) (qd_payload item))"
      "fl' = ?fl\<lparr>df_queue := queue, df_queued_bytes := saturating_sub (df_queued_bytes ?fl) (length (qd_payload item))\<rparr>"
    using assms(2) d(3) by (cases "df_queue ?fl") (auto simp: pop_frame_def Let_def)
  then show ?thesis
  proof cases
    case 2
    have q: "df_queued_bytes ?fl = length (qd_payload item) + (\<Sum>item \<leftarrow> queue. length (qd_payload item))" "length (df_queue ?fl) \<le> length sent"
        "map qd_datagram_id (df_queue ?fl) = [length sent - length (df_queue ?fl)..<length sent]"
      using d(1) 2(1) by (auto simp: flow_ok_def)
    have "flow_ok sent (?fl\<lparr>df_queue := queue, df_queued_bytes := \<Sum>item \<leftarrow> queue. length (qd_payload item), df_dropped_expired := df_dropped_expired ?fl\<rparr>)"
      by (rule flow_ok_drop [OF d(1), of _ 1]) (simp add: 2(1))
    then have "flow_ok sent fl'" using q by (simp add: 2(3) saturating_sub_def)
    moreover have "qd_datagram_id item = length sent - length queue - 1" using q by (simp add: 2(1) upt_conv_Cons)
    moreover have "length (df_queue ?fl) \<le> length (df_queue fl)" using d(2) by (simp add: length_dropWhile_le)
    moreover have "dropWhile (expired now) (df_queue fl) = item # queue" using d(2) 2(1) by simp
    then have "find (\<lambda>item. \<not> expired now item) (df_queue fl) = Some item" by (simp add: find_dropWhile comp_def)
    ultimately show ?thesis using 2 d by (auto simp: popped_def)
  qed (use d in auto)
qed

section \<open>Runs of the queue\<close>

datatype flow_call = CallEnqueue u64 u32 bytes | CallPop u64 | CallDropExpired u64

text \<open>A run collects the payloads that were accepted and the frames that left.\<close>

fun flow_run :: "flow_call list \<Rightarrow> datagram_flow \<Rightarrow> bytes list \<times> frame list \<times> datagram_flow" where
  "flow_run [] fl = ([], [], fl)"
| "flow_run (CallEnqueue now ttl payload # calls) fl =
     (case enqueue now ttl payload fl of
        (r, fl') \<Rightarrow> (case flow_run calls fl' of (acc, out, fl'') \<Rightarrow> ((if isl r then [] else [payload]) @ acc, out, fl'')))"
| "flow_run (CallPop now # calls) fl =
     (case pop_frame now fl of
        (r, fl') \<Rightarrow> (case flow_run calls fl' of (acc, out, fl'') \<Rightarrow> (acc, (case r of None \<Rightarrow> [] | Some f \<Rightarrow> [f]) @ out, fl'')))"
| "flow_run (CallDropExpired now # calls) fl = flow_run calls (drop_expired now fl)"

definition carries_datagram :: "bytes list \<Rightarrow> datagram_flow_id \<Rightarrow> frame \<Rightarrow> datagram_id \<Rightarrow> bool" where
  "carries_datagram sent fid f i \<longleftrightarrow> i < length sent \<and> (\<exists>ttl > 0. f = DatagramData fid i ttl (sent ! i))"

lemma remaining_positive: "\<not> is_expired t ttl now \<Longrightarrow> 0 < remaining_ttl_ms t ttl now"
  by (auto simp: is_expired_def remaining_ttl_ms_def saturating_sub_def Let_def)

lemma popped_carries:
  assumes "flow_ok sent fl" "popped sent now fl fl' f"
  shows "carries_datagram sent (df_flow_id fl) f (length sent - length (df_queue fl') - 1)"
    "length sent - length (df_queue fl) \<le> length sent - length (df_queue fl') - 1"
proof -
  obtain item where i: "find (\<lambda>item. \<not> expired now item) (df_queue fl) = Some item"
      "f = DatagramData (df_flow_id fl) (qd_datagram_id item) (remaining_ttl_ms (qd_enqueued_at_ms item) (qd_ttl_ms item) now) (qd_payload item)"
      "qd_datagram_id item = length sent - length (df_queue fl') - 1"
    using assms(2) by (auto simp: popped_def)
  have "item \<in> set (df_queue fl)" "\<not> expired now item" using i(1) by (auto simp: find_Some_iff)
  then have "qd_datagram_id item < length sent" "length sent - length (df_queue fl) \<le> qd_datagram_id item"
      "qd_payload item = sent ! qd_datagram_id item" "0 < remaining_ttl_ms (qd_enqueued_at_ms item) (qd_ttl_ms item) now"
    using queue_id_less [OF assms(1)] remaining_positive assms(1) by (simp_all add: flow_ok_def)
  then show "carries_datagram sent (df_flow_id fl) f (length sent - length (df_queue fl') - 1)"
    "length sent - length (df_queue fl) \<le> length sent - length (df_queue fl') - 1"
    unfolding i(3) [symmetric] by (auto simp: carries_datagram_def i(2))
qed

text \<open>The frames that leave carry distinct datagrams in the order in which they were accepted.\<close>

lemma flow_run_ok:
  assumes "flow_ok sent fl" "flow_run calls fl = (acc, out, fl')"
  shows "flow_ok (sent @ acc) fl' \<and> df_limits fl' = df_limits fl
    \<and> (\<exists>ids. sorted_wrt (<) ids \<and> (\<forall>i \<in> set ids. length sent - length (df_queue fl) \<le> i) \<and> list_all2 (carries_datagram (sent @ acc) (df_flow_id fl)) out ids)"
  using assms
proof (induction calls fl arbitrary: sent acc out rule: flow_run.induct)
  case (1 fl)
  then show ?case by auto
next
  case (2 now ttl payload calls fl)
  obtain r fl1 where e: "enqueue now ttl payload fl = (r, fl1)" by (meson surj_pair)
  obtain acc1 where rest: "flow_run calls fl1 = (acc1, out, fl')" "acc = (if isl r then [] else [payload]) @ acc1"
    using "2.prems"(2) by (auto simp: e split: prod.splits)
  note ok = enqueue_ok [OF "2.prems"(1) e]
  have low: "length sent - length (df_queue fl) \<le> length (sent @ (if isl r then [] else [payload])) - length (df_queue fl1)"
    using e by (auto simp: enqueue_def Let_def split: if_splits option.splits)
  have "flow_ok (sent @ (if isl r then [] else [payload])) fl1" using ok(1) by (cases r) auto
  from "2.IH" [OF e [symmetric] this rest(1)] show ?case
    using low ok(2,3) by (fastforce simp: rest(2))
next
  case (3 now calls fl)
  obtain r fl1 where e: "pop_frame now fl = (r, fl1)" by (meson surj_pair)
  obtain out1 where rest: "flow_run calls fl1 = (acc, out1, fl')" "out = (case r of None \<Rightarrow> [] | Some f \<Rightarrow> [f]) @ out1"
    using "3.prems"(2) by (auto simp: e split: prod.splits)
  note ok = pop_frame_ok [OF "3.prems"(1) e]
  obtain ids where ids: "flow_ok (sent @ acc) fl'" "df_limits fl' = df_limits fl" "sorted_wrt (<) ids"
      "\<forall>i \<in> set ids. length sent - length (df_queue fl1) \<le> i" "list_all2 (carries_datagram (sent @ acc) (df_flow_id fl)) out1 ids"
    using "3.IH" [OF e [symmetric] _ rest(1)] ok by auto
  show ?case
  proof (cases r)
    case None
    then show ?thesis using ids ok rest(2) by (intro conjI exI [of _ ids]) auto
  next
    case (Some f)
    let ?i = "length sent - length (df_queue fl1) - 1"
    have p: "popped sent now fl fl1 f" using ok Some by simp
    have "length (df_queue fl1) < length sent" using p "3.prems"(1) by (auto simp: popped_def flow_ok_def)
    then have low: "?i < i" if "length sent - length (df_queue fl1) \<le> i" for i using that by simp
    have "\<forall>i \<in> set ids. ?i < i" using ids(4) low by blast
    moreover have "carries_datagram (sent @ acc) (df_flow_id fl) f ?i" "length sent - length (df_queue fl) \<le> ?i"
      using popped_carries [OF "3.prems"(1) p] by (auto simp: carries_datagram_def nth_append)
    ultimately show ?thesis using ids rest(2) Some by (intro conjI exI [of _ "?i # ids"]) auto
  qed
next
  case (4 now calls fl)
  note d = drop_expired_ok [OF "4.prems"(1), of now]
  have "length (df_queue (drop_expired now fl)) \<le> length (df_queue fl)" unfolding d(2) by (rule length_dropWhile_le)
  then show ?case using "4.IH" [OF d(1)] "4.prems"(2) d(3,4) by fastforce
qed

section \<open>Laws of the window\<close>

text \<open>\<open>window_rel h w\<close>: \<open>h\<close> remembers every datagram ever admitted. The window retains those that it
  has not left behind.\<close>

definition window_rel :: "(u64 \<rightharpoonup> datagram_payload_identity) \<Rightarrow> datagram_receive_window \<Rightarrow> bool" where
  "window_rel h w \<longleftrightarrow> bt_wf (dw_retained w) \<and> 1 \<le> dw_width w
     \<and> (\<forall>i. bt_get i (dw_retained w) = (if lower_bound w \<le> i then h i else None))
     \<and> (case dw_largest w of None \<Rightarrow> h = Map.empty | Some l \<Rightarrow> l \<in> dom h \<and> (\<forall>i \<in> dom h. i \<le> l))"

text \<open>The promise: an identifier below the window is a duplicate, and any other one is judged by the
  whole history.\<close>

definition window_spec ::
  "(u64 \<rightharpoonup> datagram_payload_identity) \<Rightarrow> u64 \<Rightarrow> u64 \<Rightarrow> datagram_payload_identity \<Rightarrow> unit + datagram_admission" where
  "window_spec h low did payload =
     (if did < low then Inr Duplicate
      else case h did of None \<Rightarrow> Inr Fresh | Some p \<Rightarrow> if p = payload then Inr Duplicate else Inl ())"

lemma window_rel_new: "window_rel Map.empty (datagram_window_new width)"
  by (simp add: window_rel_def datagram_window_new_def bt_get_def)

lemma window_classify:
  assumes "window_rel h w"
  shows "classify did payload w = window_spec h (lower_bound w) did payload"
  using assms by (auto simp: classify_def window_spec_def window_rel_def lower_bound_def split: option.splits if_splits)

lemma lower_bound_mono: "dw_largest w = Some l \<Longrightarrow> l \<le> d \<Longrightarrow> lower_bound w \<le> lower_bound (w\<lparr>dw_largest := Some d\<rparr>)"
  by (simp add: lower_bound_def saturating_sub_def)

lemma bt_get_filter: "bt_get k (filter (\<lambda>(k, _). P k) m) = (if P k then bt_get k m else None)"
  by (induction m) (auto simp: bt_get_def)

lemma record_fresh_rel:
  assumes rel: "window_rel h w" and fresh: "classify did payload w = Inr Fresh"
  shows "window_rel (h(did \<mapsto> payload)) (record_fresh did payload w)" "lower_bound w \<le> lower_bound (record_fresh did payload w)"
    "dw_width (record_fresh did payload w) = dw_width w"
proof -
  have low: "lower_bound w \<le> did" using fresh rel by (auto simp: window_classify window_spec_def split: if_splits)
  let ?v = "w\<lparr>dw_largest := Some did\<rparr>"
  have wf: "bt_wf (dw_retained w)" "\<And>i. bt_get i (dw_retained w) = (if lower_bound w \<le> i then h i else None)"
    using rel by (simp_all add: window_rel_def)
  have "window_rel (h(did \<mapsto> payload)) (record_fresh did payload w) \<and> lower_bound w \<le> lower_bound (record_fresh did payload w)
    \<and> dw_width (record_fresh did payload w) = dw_width w"
  proof (cases "case dw_largest w of None \<Rightarrow> True | Some largest \<Rightarrow> did > largest")
    case True
    have r: "record_fresh did payload w = ?v\<lparr>dw_retained := bt_insert did payload (filter (\<lambda>(k, _). lower_bound ?v \<le> k) (dw_retained w))\<rparr>"
      using True by (simp add: record_fresh_def Let_def)
    have lv: "lower_bound (?v\<lparr>dw_retained := m\<rparr>) = lower_bound ?v" for m by (simp add: lower_bound_def)
    have le: "lower_bound w \<le> lower_bound ?v" "lower_bound ?v \<le> did"
      using True by (auto simp: lower_bound_def saturating_sub_def split: option.splits)
    have "window_rel (h(did \<mapsto> payload)) (record_fresh did payload w)"
      using rel le True by (auto simp: window_rel_def r lv bt_get_filter bt_get_insert wf split: option.splits) (meson domI le_less_trans less_imp_le)
    then show ?thesis using le by (simp add: r lv)
  next
    case False
    then obtain l where l: "dw_largest w = Some l" "did \<le> l" by (auto split: option.splits)
    have r: "record_fresh did payload w = w\<lparr>dw_retained := bt_insert did payload (dw_retained w)\<rparr>"
      using False by (simp add: record_fresh_def Let_def)
    have lw: "lower_bound (w\<lparr>dw_retained := m\<rparr>) = lower_bound w" for m by (simp add: lower_bound_def split: option.split)
    have "window_rel (h(did \<mapsto> payload)) (record_fresh did payload w)"
      using rel l low by (auto simp: window_rel_def r lw bt_get_insert wf)
    then show ?thesis by (simp add: r lw)
  qed
  then show "window_rel (h(did \<mapsto> payload)) (record_fresh did payload w)" "lower_bound w \<le> lower_bound (record_fresh did payload w)"
    "dw_width (record_fresh did payload w) = dw_width w" by simp_all
qed

text \<open>The window is bounded by its width.\<close>

lemma window_retained_bounded:
  assumes "window_rel h w"
  shows "length (dw_retained w) \<le> dw_width w"
proof (cases "dw_largest w")
  case None
  then have "\<forall>i. bt_get i (dw_retained w) = None" using assms by (simp add: window_rel_def)
  then have "dw_retained w = []" by (cases "dw_retained w") (auto simp: bt_get_def split: if_splits)
  then show ?thesis by simp
next
  case (Some l)
  have "fst ` set (dw_retained w) \<subseteq> {lower_bound w..l}"
  proof
    fix k assume "k \<in> fst ` set (dw_retained w)"
    then obtain p where "(k, p) \<in> set (dw_retained w)" by auto
    then have "bt_get k (dw_retained w) = Some p" using assms bt_get_in [of "dw_retained w" k p] by (simp add: window_rel_def)
    then show "k \<in> {lower_bound w..l}" using assms Some by (auto simp: window_rel_def split: if_splits)
  qed
  then have "card (fst ` set (dw_retained w)) \<le> card {lower_bound w..l}" by (intro card_mono) simp_all
  also have "\<dots> \<le> dw_width w" using Some assms by (simp add: lower_bound_def saturating_sub_def window_rel_def)
  finally show ?thesis
    using assms bt_wf_distinct [of "dw_retained w"] distinct_card [of "map fst (dw_retained w)"] by (simp add: window_rel_def)
qed

lemma window_admit_rel:
  assumes "window_rel h w" "window_admit did payload w = (r, w')"
  shows "r = window_spec h (lower_bound w) did payload"
    "window_rel (if r = Inr Fresh then h(did \<mapsto> payload) else h) w'" "lower_bound w \<le> lower_bound w'" "dw_width w' = dw_width w"
  using assms record_fresh_rel [OF assms(1), of did payload] window_classify [OF assms(1), of did payload]
  by (auto simp: window_admit_def split: sum.splits if_splits)

section \<open>Properties\<close>

text \<open>C22. The bounded replay window implements an unbounded history. Whatever it admitted before, it
  judges an identifier at or above its lower bound exactly as the list of everything ever admitted
  would (new, repeated, or repeated with another payload), and calls an identifier below a duplicate;
  it never retains more identities than its width, and its lower bound never moves back.\<close>

theorem datagram_window_refines:
  assumes "window_rel h w"
  shows "\<exists>r w'. window_admit did payload w = (r, w') \<and> r = window_spec h (lower_bound w) did payload
    \<and> window_rel (if r = Inr Fresh then h(did \<mapsto> payload) else h) w'
    \<and> lower_bound w \<le> lower_bound w' \<and> length (dw_retained w') \<le> dw_width w'"
proof -
  obtain r w' where a: "window_admit did payload w = (r, w')" by (meson surj_pair)
  show ?thesis using window_admit_rel [OF assms a] window_retained_bounded a by blast
qed

definition ex_window :: datagram_receive_window where
  "ex_window = snd (window_admit 5 \<lparr>dp_len = 1, dp_digest = [1]\<rparr> (datagram_window_new 3))"

theorem datagram_window_refines_witness:
  "fst (window_admit 4 \<lparr>dp_len = 1, dp_digest = [2]\<rparr> ex_window) = Inr Fresh
    \<and> fst (window_admit 5 \<lparr>dp_len = 1, dp_digest = [2]\<rparr> ex_window) = Inl ()
    \<and> fst (window_admit 2 \<lparr>dp_len = 1, dp_digest = [2]\<rparr> ex_window) = Inr Duplicate"
proof -
  have w: "ex_window = \<lparr>dw_width = 3, dw_largest = Some 5, dw_retained = [(5, \<lparr>dp_len = 1, dp_digest = [1]\<rparr>)]\<rparr>" by (simp add: ex_window_def window_admit_def classify_def record_fresh_def datagram_window_new_def bt_get_def Let_def)
  have rel: "window_rel [5 \<mapsto> \<lparr>dp_len = 1, dp_digest = [1]\<rparr>] ex_window"
    by (simp add: w window_rel_def bt_get_def bt_wf_def lower_bound_def saturating_sub_def)
  have low: "lower_bound ex_window = 3" by (simp add: w lower_bound_def saturating_sub_def)
  have "fst (window_admit did payload ex_window) = window_spec [5 \<mapsto> \<lparr>dp_len = 1, dp_digest = [1]\<rparr>] 3 did payload" for did payload
    using datagram_window_refines [OF rel, of did payload] unfolding low by (elim exE conjE) simp
  then show ?thesis by (simp add: window_spec_def)
qed

end
