(* ===== verification/Datagram_Server.thy ===== *)
theory Datagram_Server
  imports Datagrams
begin

text \<open>
  The worker of one server-side datagram flow (\<open>src/src/runtime/datagram/server.rs\<close>): admission
  of the peer's requests, the cache of responses that await delivery, and the routes (attached
  carrier paths) over which responses are queued.

  Channels and attachments are numbered. Whether an attachment is still alive, whether the n-th
  attempt to enqueue a frame succeeds, the clock readings and the outcome of the outbound send are
  arguments. The ledger \<open>datagram_world\<close> records what left the worker: the requests forwarded to
  the target, the responses received from it, and the frames queued on the routes.
\<close>

section \<open>State\<close>

type_synonym instant = nat

record cached_datagram =
  cg_datagram_id :: datagram_id
  cg_deadline :: instant
  cg_response :: bytes
  cg_queued_once :: bool

record datagram_route =
  dr_commands :: nat
  dr_attachment :: nat
  dr_next_response_id :: u64

record server_flow =
  sf_received_requests :: datagram_receive_window
  sf_next_response_id :: u64
  sf_routes :: "datagram_route list"
  sf_cached_responses :: "cached_datagram list"
  sf_cached_response_bytes :: usize

record datagram_world =
  wd_forwarded :: "(datagram_id \<times> bytes) list"
  wd_responses :: "bytes list"
  wd_queued :: "(nat \<times> frame) list"
  wd_attempts :: nat

record worker_env =
  we_alive :: "nat \<Rightarrow> bool"
  we_accepts :: "nat \<Rightarrow> bool"
  we_clock :: "nat \<Rightarrow> instant"

definition MAX_DATAGRAM_RESPONSE_ROUTES :: usize where
  "MAX_DATAGRAM_RESPONSE_ROUTES = 2"

definition server_flow_new :: "mux_limits \<Rightarrow> server_flow" where
  "server_flow_new limits =
     \<lparr>sf_received_requests = datagram_window_new (ml_max_ack_ranges limits), sf_next_response_id = 0, sf_routes = [],
      sf_cached_responses = [], sf_cached_response_bytes = 0\<rparr>"

section \<open>The response cache\<close>

definition response_floor :: "server_flow \<Rightarrow> u64" where
  "response_floor st = (case sf_cached_responses st of [] \<Rightarrow> sf_next_response_id st | c # _ \<Rightarrow> cg_datagram_id c)"

definition advance_route_floor :: "server_flow \<Rightarrow> server_flow" where
  "advance_route_floor st =
     st\<lparr>sf_routes := map (\<lambda>r. r\<lparr>dr_next_response_id := max (dr_next_response_id r) (response_floor st)\<rparr>) (sf_routes st)\<rparr>"

text \<open>The two loops that rebuild the queue keep the elements that satisfy a condition and count their
  bytes again.\<close>

fun retain_responses :: "(cached_datagram \<Rightarrow> bool) \<Rightarrow> cached_datagram list \<Rightarrow> cached_datagram list \<Rightarrow> usize \<Rightarrow> cached_datagram list \<times> usize" where
  "retain_responses keep [] retained held = (retained, held)"
| "retain_responses keep (c # cs) retained held =
     (if keep c then retain_responses keep cs (retained @ [c]) (saturating_add held (length (cg_response c)))
      else retain_responses keep cs retained held)"

fun evict_responses :: "mux_limits \<Rightarrow> cached_datagram list \<Rightarrow> usize \<Rightarrow> cached_datagram list \<times> usize" where
  "evict_responses limits cached held =
     (if length cached > max (ml_max_ack_ranges limits) 1 \<or> held > ml_max_datagram_queue_bytes limits
      then (case cached of
              [] \<Rightarrow> ([], held)
            | c # cs \<Rightarrow> evict_responses limits cs (saturating_sub held (length (cg_response c))))
      else (cached, held))"

declare evict_responses.simps [simp del]

definition prune_server_datagram_state :: "mux_limits \<Rightarrow> instant \<Rightarrow> server_flow \<Rightarrow> server_flow" where
  "prune_server_datagram_state limits now st =
     (case retain_responses (\<lambda>c. cg_deadline c > now) (sf_cached_responses st) [] 0 of
        (retained, held) \<Rightarrow>
          (case evict_responses limits retained held of
             (cached, held') \<Rightarrow>
               advance_route_floor (st\<lparr>sf_cached_responses := cached, sf_cached_response_bytes := held'\<rparr>)))"

definition cache_server_datagram_response :: "mux_limits \<Rightarrow> instant \<Rightarrow> cached_datagram \<Rightarrow> server_flow \<Rightarrow> server_flow" where
  "cache_server_datagram_response limits now c st =
     prune_server_datagram_state limits now
       (st\<lparr>sf_cached_response_bytes := saturating_add (sf_cached_response_bytes st) (length (cg_response c)),
          sf_cached_responses := sf_cached_responses st @ [c]\<rparr>)"

definition acknowledge_server_datagram_responses :: "offset_range list \<Rightarrow> server_flow \<Rightarrow> server_flow" where
  "acknowledge_server_datagram_responses received st =
     (case retain_responses (\<lambda>c. \<not> list_ex (\<lambda>r. cg_datagram_id c \<ge> range_start r \<and> cg_datagram_id c < range_end r) received)
             (sf_cached_responses st) [] 0 of
        (retained, held) \<Rightarrow> advance_route_floor (st\<lparr>sf_cached_responses := retained, sf_cached_response_bytes := held\<rparr>))"

section \<open>Routes\<close>

definition update_server_datagram_route :: "(nat \<Rightarrow> bool) \<Rightarrow> nat \<Rightarrow> nat \<Rightarrow> server_flow \<Rightarrow> server_flow" where
  "update_server_datagram_route alive commands attachment st =
     (let existing = find (\<lambda>r. dr_attachment r = attachment) (sf_routes st);
          routes = filter (\<lambda>r. alive (dr_attachment r))
            (case existing of None \<Rightarrow> sf_routes st | Some r \<Rightarrow> remove1 r (sf_routes st));
          appended = routes @ [\<lparr>dr_commands = commands, dr_attachment = attachment,
            dr_next_response_id = (case existing of None \<Rightarrow> response_floor st | Some r \<Rightarrow> dr_next_response_id r)\<rparr>]
      in st\<lparr>sf_routes := drop (length appended - MAX_DATAGRAM_RESPONSE_ROUTES) appended\<rparr>)"

definition server_datagram_remaining_ttl_ms :: "instant \<Rightarrow> instant \<Rightarrow> u32" where
  "server_datagram_remaining_ttl_ms deadline now =
     (let remaining = deadline - now
      in if remaining = 0 then 0 else min (max (remaining div 1000000) 1) (2 ^ 32 - 1))"

definition server_datagram_response_frame :: "datagram_flow_id \<Rightarrow> cached_datagram \<Rightarrow> instant \<Rightarrow> frame" where
  "server_datagram_response_frame fid c now =
     DatagramData fid (cg_datagram_id c) (server_datagram_remaining_ttl_ms (cg_deadline c) now) (cg_response c)"

definition try_send_frame :: "worker_env \<Rightarrow> nat \<Rightarrow> frame \<Rightarrow> datagram_world \<Rightarrow> bool \<times> datagram_world" where
  "try_send_frame env commands f w =
     (let n = wd_attempts w; w' = w\<lparr>wd_attempts := Suc n\<rparr>
      in if we_accepts env n then (True, w'\<lparr>wd_queued := wd_queued w @ [(commands, f)]\<rparr>) else (False, w'))"

text \<open>The routes are tried from the latest to the earliest: the list is reversed.\<close>

fun try_routes :: "worker_env \<Rightarrow> frame \<Rightarrow> u64 \<Rightarrow> datagram_route list \<Rightarrow> datagram_world \<Rightarrow> bool \<times> datagram_route list \<times> datagram_world" where
  "try_routes env f response_id [] w = (False, [], w)"
| "try_routes env f response_id (r # rs) w =
     (case try_send_frame env (dr_commands r) f w of
        (True, w') \<Rightarrow> (True, r\<lparr>dr_next_response_id := saturating_add response_id 1\<rparr> # rs, w')
      | (False, w') \<Rightarrow> (case try_routes env f response_id rs w' of (queued, rs', w'') \<Rightarrow> (queued, r # rs', w'')))"

fun queue_unsent ::
  "worker_env \<Rightarrow> datagram_flow_id \<Rightarrow> cached_datagram list \<Rightarrow> datagram_route list \<Rightarrow> datagram_world
     \<Rightarrow> cached_datagram list \<times> datagram_route list \<times> datagram_world" where
  "queue_unsent env fid [] routes w = ([], routes, w)"
| "queue_unsent env fid (c # cs) routes w =
     (if cg_queued_once c
      then (case queue_unsent env fid cs routes w of (cs', routes', w') \<Rightarrow> (c # cs', routes', w'))
      else
        let f = server_datagram_response_frame fid c (we_clock env (wd_attempts w)) in
        (case try_routes env f (cg_datagram_id c) (rev routes) w of
           (True, rs, w') \<Rightarrow>
             (case queue_unsent env fid cs (rev rs) w' of (cs', routes', w'') \<Rightarrow> (c\<lparr>cg_queued_once := True\<rparr> # cs', routes', w''))
         | (False, rs, w') \<Rightarrow> (c # cs, rev rs, w')))"

fun queue_latest ::
  "worker_env \<Rightarrow> datagram_flow_id \<Rightarrow> cached_datagram list \<Rightarrow> datagram_route \<Rightarrow> datagram_world
     \<Rightarrow> cached_datagram list \<times> datagram_route \<times> datagram_world" where
  "queue_latest env fid [] r w = ([], r, w)"
| "queue_latest env fid (c # cs) r w =
     (if cg_datagram_id c < dr_next_response_id r
      then (case queue_latest env fid cs r w of (cs', r', w') \<Rightarrow> (c # cs', r', w'))
      else
        (case try_send_frame env (dr_commands r) (server_datagram_response_frame fid c (we_clock env (wd_attempts w))) w of
           (False, w') \<Rightarrow> (c # cs, r, w')
         | (True, w') \<Rightarrow>
             (case queue_latest env fid cs (r\<lparr>dr_next_response_id := saturating_add (cg_datagram_id c) 1\<rparr>) w' of
                (cs', r', w'') \<Rightarrow> (c\<lparr>cg_queued_once := True\<rparr> # cs', r', w''))))"

definition queue_server_datagram_responses ::
  "worker_env \<Rightarrow> datagram_flow_id \<Rightarrow> server_flow \<Rightarrow> datagram_world \<Rightarrow> server_flow \<times> datagram_world" where
  "queue_server_datagram_responses env fid st w =
     (case queue_unsent env fid (sf_cached_responses st) (filter (\<lambda>r. we_alive env (dr_attachment r)) (sf_routes st)) w of
        (cached, routes, w') \<Rightarrow>
          if routes = [] then (st\<lparr>sf_cached_responses := cached, sf_routes := routes\<rparr>, w')
          else
            (case queue_latest env fid cached (last routes) w' of
               (cached', route, w'') \<Rightarrow> (st\<lparr>sf_cached_responses := cached', sf_routes := butlast routes @ [route]\<rparr>, w'')))"

section \<open>Requests and the worker loop\<close>

record server_datagram_request =
  rq_datagram_id :: datagram_id
  rq_ttl_ms :: u32
  rq_payload :: bytes

datatype server_datagram_send_outcome = Accepted | Full | Closed

datatype server_datagram_error = SdProtocol string | SdOutboundConnect

definition admit_server_datagram_request ::
  "(bytes \<Rightarrow> bytes) \<Rightarrow> worker_env \<Rightarrow> datagram_flow_id \<Rightarrow> mux_limits \<Rightarrow> instant \<Rightarrow> bool \<Rightarrow> server_datagram_request \<Rightarrow> nat \<Rightarrow> nat
     \<Rightarrow> server_flow \<Rightarrow> datagram_world \<Rightarrow> (server_datagram_error + server_datagram_send_outcome \<times> bool) \<times> server_flow \<times> datagram_world" where
  "admit_server_datagram_request sha256 env fid limits now sent_ok request commands attachment st0 w =
     (let st1 = prune_server_datagram_state limits now st0
      in if rq_ttl_ms request = 0 then (Inr (Full, False), st1, w)
         else
           let st = update_server_datagram_route (we_alive env) commands attachment st1 in
           if length (rq_payload request) > ml_max_payload_bytes limits
           then (Inl (SdProtocol ''datagram payload exceeds server limit''), st, w)
           else
             let payload = payload_identity sha256 (rq_payload request) in
             (case classify (rq_datagram_id request) payload (sf_received_requests st) of
                Inr Duplicate \<Rightarrow>
                  (case queue_server_datagram_responses env fid st w of (st', w') \<Rightarrow> (Inr (Accepted, False), st', w'))
              | Inl _ \<Rightarrow> (Inl (SdProtocol ''datagram ID reused with a different payload''), st, w)
              | Inr Fresh \<Rightarrow>
                  if \<not> sent_ok then (Inl SdOutboundConnect, st, w)
                  else (Inr (Accepted, True),
                        st\<lparr>sf_received_requests := record_fresh (rq_datagram_id request) payload (sf_received_requests st)\<rparr>,
                        w\<lparr>wd_forwarded := wd_forwarded w @ [(rq_datagram_id request, rq_payload request)]\<rparr>)))"

text \<open>A response of the target: the identifier is assigned, the response is cached and queued. When
  the identifiers are exhausted the worker ends, \<open>None\<close>.\<close>

definition receive_response ::
  "worker_env \<Rightarrow> datagram_flow_id \<Rightarrow> mux_limits \<Rightarrow> instant \<Rightarrow> instant \<Rightarrow> bytes \<Rightarrow> server_flow \<Rightarrow> datagram_world
     \<Rightarrow> (server_flow \<times> datagram_world) option" where
  "receive_response env fid limits deadline now payload st w =
     (case checked_add (sf_next_response_id st) 1 of
        None \<Rightarrow> None
      | Some next \<Rightarrow>
          let c = \<lparr>cg_datagram_id = sf_next_response_id st, cg_deadline = deadline, cg_response = payload, cg_queued_once = False\<rparr>;
              st' = cache_server_datagram_response limits now c (st\<lparr>sf_next_response_id := next\<rparr>)
          in Some (queue_server_datagram_responses env fid st' (w\<lparr>wd_responses := wd_responses w @ [payload]\<rparr>)))"

text \<open>The start of every iteration of the loop.\<close>

definition worker_turn :: "worker_env \<Rightarrow> datagram_flow_id \<Rightarrow> mux_limits \<Rightarrow> instant \<Rightarrow> server_flow \<Rightarrow> datagram_world \<Rightarrow> server_flow \<times> datagram_world" where
  "worker_turn env fid limits now st w =
     queue_server_datagram_responses env fid (prune_server_datagram_state limits now st) w"

inductive worker_step ::
  "(bytes \<Rightarrow> bytes) \<Rightarrow> datagram_flow_id \<Rightarrow> mux_limits \<Rightarrow> server_flow \<times> datagram_world \<Rightarrow> server_flow \<times> datagram_world \<Rightarrow> bool"
  for sha256 fid limits where
  turn: "worker_turn env fid limits now st w = s' \<Longrightarrow> worker_step sha256 fid limits (st, w) s'"
| attach: "queue_server_datagram_responses env fid (update_server_datagram_route (we_alive env) commands attachment st) w = s'
     \<Longrightarrow> worker_step sha256 fid limits (st, w) s'"
| request: "admit_server_datagram_request sha256 env fid limits now sent_ok req commands attachment st w = (r, s')
     \<Longrightarrow> worker_step sha256 fid limits (st, w) s'"
| feedback: "worker_step sha256 fid limits (st, w) (acknowledge_server_datagram_responses received st, w)"
| response: "length payload \<le> min (ml_max_payload_bytes limits) 65535 \<Longrightarrow> receive_response env fid limits deadline now payload st w = Some s'
     \<Longrightarrow> worker_step sha256 fid limits (st, w) s'"
| capacity: "queue_server_datagram_responses env fid st w = s' \<Longrightarrow> worker_step sha256 fid limits (st, w) s'"

inductive worker_reach :: "(bytes \<Rightarrow> bytes) \<Rightarrow> datagram_flow_id \<Rightarrow> mux_limits \<Rightarrow> server_flow \<times> datagram_world \<Rightarrow> bool"
  for sha256 fid limits where
  start: "worker_reach sha256 fid limits
     (server_flow_new limits, \<lparr>wd_forwarded = [], wd_responses = [], wd_queued = [], wd_attempts = 0\<rparr>)"
| step: "worker_reach sha256 fid limits s \<Longrightarrow> worker_step sha256 fid limits s s' \<Longrightarrow> worker_reach sha256 fid limits s'"

end
