(* ===== verification/Datagram_Delivery.thy ===== *)
theory Datagram_Delivery
  imports Datagram_Server
begin

text \<open>
  Laws of the server's datagram worker and of the two ends together. Every state that the worker can
  reach keeps its cache exact and within the ceilings, has forwarded every request identifier at most
  once, and has queued only frames that carry the response of their identifier; so a client that
  filters what arrives through its receive window delivers every response at most once and unchanged.
\<close>

section \<open>The client's reception\<close>



section \<open>The cache\<close>

definition cached_sum :: "cached_datagram list \<Rightarrow> nat" where
  "cached_sum cs = (\<Sum>c \<leftarrow> cs. length (cg_response c))"

lemma cached_sum_simps [simp]:
  "cached_sum [] = 0" "cached_sum (c # cs) = length (cg_response c) + cached_sum cs" "cached_sum (cs @ ds) = cached_sum cs + cached_sum ds"
  by (simp_all add: cached_sum_def)

lemma cached_sum_filter_le: "cached_sum (filter P cs) \<le> cached_sum cs"
  by (induction cs) auto

lemma retain_responses_eq:
  "held + cached_sum cs \<le> u64_max \<Longrightarrow>
    retain_responses keep cs retained held = (retained @ filter keep cs, held + cached_sum (filter keep cs))"
  by (induction cs arbitrary: retained held) auto

lemma evict_responses_drop:
  assumes "held = cached_sum cached" "evict_responses limits cached held = (cached', held')"
  shows "(\<exists>k. cached' = drop k cached) \<and> held' = cached_sum cached' \<and> held' \<le> ml_max_datagram_queue_bytes limits
    \<and> length cached' \<le> max (ml_max_ack_ranges limits) 1"
  using assms
proof (induction cached arbitrary: held)
  case Nil
  then show ?case by (auto simp: evict_responses.simps [of limits "[]"] split: if_splits)
next
  case (Cons c cs)
  show ?case
  proof (cases "length (c # cs) > max (ml_max_ack_ranges limits) 1 \<or> held > ml_max_datagram_queue_bytes limits")
    case True
    then have "evict_responses limits cs (saturating_sub held (length (cg_response c))) = (cached', held')"
      using Cons.prems(2) by (simp add: evict_responses.simps [of limits "c # cs"])
    moreover have "saturating_sub held (length (cg_response c)) = cached_sum cs" using Cons.prems(1) by (simp add: saturating_sub_def)
    ultimately obtain k where "cached' = drop k cs" "held' = cached_sum cached'" "held' \<le> ml_max_datagram_queue_bytes limits"
        "length cached' \<le> max (ml_max_ack_ranges limits) 1"
      using Cons.IH by blast
    then show ?thesis by (intro conjI exI [of _ "Suc k"]) simp_all
  next
    case False
    then show ?thesis using Cons.prems by (auto simp: evict_responses.simps [of limits "c # cs"] intro: exI [of _ 0])
  qed
qed

section \<open>The invariant\<close>

text \<open>The history of the forwarded requests, as the window sees it.\<close>

definition identities :: "(bytes \<Rightarrow> bytes) \<Rightarrow> (datagram_id \<times> bytes) list \<Rightarrow> u64 \<rightharpoonup> datagram_payload_identity" where
  "identities sha256 xs = map_of (map (\<lambda>(i, p). (i, payload_identity sha256 p)) xs)"

definition cache_true :: "bytes list \<Rightarrow> cached_datagram list \<Rightarrow> bool" where
  "cache_true responses cs \<longleftrightarrow> sorted_wrt (<) (map cg_datagram_id cs)
     \<and> (\<forall>c \<in> set cs. cg_datagram_id c < length responses \<and> cg_response c = responses ! cg_datagram_id c)"

definition routes_ok :: "nat \<Rightarrow> datagram_route list \<Rightarrow> bool" where
  "routes_ok n rs \<longleftrightarrow> length rs \<le> MAX_DATAGRAM_RESPONSE_ROUTES \<and> (\<forall>r \<in> set rs. dr_next_response_id r \<le> n)"

definition frame_true :: "datagram_flow_id \<Rightarrow> bytes list \<Rightarrow> frame \<Rightarrow> bool" where
  "frame_true fid responses f \<longleftrightarrow> (\<exists>i ttl. i < length responses \<and> f = DatagramData fid i ttl (responses ! i))"

definition flow_true :: "mux_limits \<Rightarrow> bytes list \<Rightarrow> server_flow \<Rightarrow> bool" where
  "flow_true limits responses st \<longleftrightarrow> sf_next_response_id st = length responses \<and> cache_true responses (sf_cached_responses st)
     \<and> sf_cached_response_bytes st = cached_sum (sf_cached_responses st)
     \<and> sf_cached_response_bytes st \<le> ml_max_datagram_queue_bytes limits
     \<and> length (sf_cached_responses st) \<le> max (ml_max_ack_ranges limits) 1
     \<and> routes_ok (length responses) (sf_routes st)"

definition worker_ok :: "(bytes \<Rightarrow> bytes) \<Rightarrow> datagram_flow_id \<Rightarrow> mux_limits \<Rightarrow> server_flow \<times> datagram_world \<Rightarrow> bool" where
  "worker_ok sha256 fid limits s \<longleftrightarrow>
     (case s of (st, w) \<Rightarrow>
        flow_true limits (wd_responses w) st
      \<and> (\<forall>(channel, f) \<in> set (wd_queued w). frame_true fid (wd_responses w) f)
      \<and> distinct (map fst (wd_forwarded w))
      \<and> window_rel (identities sha256 (wd_forwarded w)) (sf_received_requests st))"

lemma cache_true_sub:
  "cache_true responses cs \<Longrightarrow> cache_true responses (drop k (filter P cs))"
  by (auto simp: cache_true_def sorted_wrt_map dest!: in_set_dropD intro!: sorted_wrt_drop sorted_wrt_filter)

lemma floor_le:
  "cache_true responses (sf_cached_responses st) \<Longrightarrow> sf_next_response_id st = length responses \<Longrightarrow> response_floor st \<le> length responses"
  by (auto simp: response_floor_def cache_true_def split: list.splits)

lemma advance_floor_true:
  assumes "cache_true responses (sf_cached_responses st)" "sf_next_response_id st = length responses"
    "sf_cached_response_bytes st = cached_sum (sf_cached_responses st)" "sf_cached_response_bytes st \<le> ml_max_datagram_queue_bytes limits"
    "length (sf_cached_responses st) \<le> max (ml_max_ack_ranges limits) 1" "routes_ok (length responses) (sf_routes st)"
  shows "flow_true limits responses (advance_route_floor st)"
  using assms floor_le [OF assms(1,2)] by (auto simp: flow_true_def advance_route_floor_def routes_ok_def)

lemma prune_true:
  assumes "cache_true responses (sf_cached_responses st)" "sf_next_response_id st = length responses"
    "cached_sum (sf_cached_responses st) \<le> u64_max" "routes_ok (length responses) (sf_routes st)"
  shows "flow_true limits responses (prune_server_datagram_state limits now st)"
    "sf_received_requests (prune_server_datagram_state limits now st) = sf_received_requests st"
proof -
  let ?kept = "filter (\<lambda>c. cg_deadline c > now) (sf_cached_responses st)"
  obtain cached held where e: "evict_responses limits ?kept (cached_sum ?kept) = (cached, held)" by (meson surj_pair)
  have p: "prune_server_datagram_state limits now st = advance_route_floor (st\<lparr>sf_cached_responses := cached, sf_cached_response_bytes := held\<rparr>)"
    using retain_responses_eq [of 0 "sf_cached_responses st" "\<lambda>c. cg_deadline c > now" "[]"] assms(3)
    by (simp add: prune_server_datagram_state_def e)
  obtain k where "cached = drop k ?kept" "held = cached_sum cached" "held \<le> ml_max_datagram_queue_bytes limits"
      "length cached \<le> max (ml_max_ack_ranges limits) 1"
    using evict_responses_drop [OF refl e] by blast
  then show "flow_true limits responses (prune_server_datagram_state limits now st)"
    using assms cache_true_sub [OF assms(1), of k "\<lambda>c. cg_deadline c > now"] unfolding p by (intro advance_floor_true) simp_all
  show "sf_received_requests (prune_server_datagram_state limits now st) = sf_received_requests st"
    by (simp add: p advance_route_floor_def)
qed

lemma flow_trueD:
  assumes "flow_true limits responses st"
  shows "cache_true responses (sf_cached_responses st)" "sf_next_response_id st = length responses"
    "routes_ok (length responses) (sf_routes st)" "cached_sum (sf_cached_responses st) \<le> ml_max_datagram_queue_bytes limits"
  using assms by (simp_all add: flow_true_def)

lemma acknowledge_true:
  assumes "flow_true limits responses st" "ml_max_datagram_queue_bytes limits \<le> u64_max"
  shows "flow_true limits responses (acknowledge_server_datagram_responses received st)"
    "sf_received_requests (acknowledge_server_datagram_responses received st) = sf_received_requests st"
proof -
  let ?keep = "\<lambda>c. \<not> list_ex (\<lambda>r. cg_datagram_id c \<ge> range_start r \<and> cg_datagram_id c < range_end r) received"
  let ?kept = "filter ?keep (sf_cached_responses st)"
  note d = flow_trueD [OF assms(1)]
  have p: "acknowledge_server_datagram_responses received st
      = advance_route_floor (st\<lparr>sf_cached_responses := ?kept, sf_cached_response_bytes := cached_sum ?kept\<rparr>)"
    using retain_responses_eq [of 0 "sf_cached_responses st" ?keep "[]"] d(4) assms(2)
    by (simp add: acknowledge_server_datagram_responses_def)
  have "cached_sum ?kept \<le> ml_max_datagram_queue_bytes limits" using cached_sum_filter_le [of ?keep "sf_cached_responses st"] d(4) by (rule order_trans)
  moreover have "length ?kept \<le> max (ml_max_ack_ranges limits) 1"
    using assms(1) length_filter_le [of ?keep "sf_cached_responses st"] unfolding flow_true_def by linarith
  ultimately show "flow_true limits responses (acknowledge_server_datagram_responses received st)"
    using d cache_true_sub [OF d(1), of 0 ?keep] unfolding p by (intro advance_floor_true) simp_all
  show "sf_received_requests (acknowledge_server_datagram_responses received st) = sf_received_requests st"
    by (simp add: p advance_route_floor_def)
qed

lemma routes_ok_latest: "(\<And>r. r \<in> set rs \<Longrightarrow> dr_next_response_id r \<le> n) \<Longrightarrow> routes_ok n (drop (length rs - MAX_DATAGRAM_RESPONSE_ROUTES) rs)"
  by (auto simp: routes_ok_def dest: in_set_dropD)

lemma update_route_true:
  assumes "flow_true limits responses st"
  shows "flow_true limits responses (update_server_datagram_route alive commands attachment st)"
    "sf_received_requests (update_server_datagram_route alive commands attachment st) = sf_received_requests st"
proof -
  note d = flow_trueD [OF assms]
  define existing where "existing = find (\<lambda>r. dr_attachment r = attachment) (sf_routes st)"
  define kept where "kept = filter (\<lambda>r. alive (dr_attachment r)) (case existing of None \<Rightarrow> sf_routes st | Some r \<Rightarrow> remove1 r (sf_routes st))"
  define latest where "latest = \<lparr>dr_commands = commands, dr_attachment = attachment,
      dr_next_response_id = (case existing of None \<Rightarrow> response_floor st | Some r \<Rightarrow> dr_next_response_id r)\<rparr>"
  have st': "update_server_datagram_route alive commands attachment st
      = st\<lparr>sf_routes := drop (length (kept @ [latest]) - MAX_DATAGRAM_RESPONSE_ROUTES) (kept @ [latest])\<rparr>"
    by (simp add: update_server_datagram_route_def existing_def kept_def latest_def Let_def)
  have old: "dr_next_response_id r \<le> length responses" if "r \<in> set (sf_routes st)" for r using that d(3) by (simp add: routes_ok_def)
  have "set kept \<subseteq> set (sf_routes st)" by (auto simp: kept_def dest: subsetD [OF set_remove1_subset] split: option.splits)
  moreover have "dr_next_response_id latest \<le> length responses"
  proof (cases existing)
    case None
    then show ?thesis using floor_le [OF d(1,2)] by (simp add: latest_def)
  next
    case (Some r)
    then have "r \<in> set (sf_routes st)" by (auto simp: existing_def find_Some_iff)
    then show ?thesis using old by (simp add: latest_def Some)
  qed
  ultimately have "routes_ok (length responses) (drop (length (kept @ [latest]) - MAX_DATAGRAM_RESPONSE_ROUTES) (kept @ [latest]))"
    using old by (intro routes_ok_latest) auto
  then show "flow_true limits responses (update_server_datagram_route alive commands attachment st)"
    using assms unfolding st' by (simp add: flow_true_def)
  show "sf_received_requests (update_server_datagram_route alive commands attachment st) = sf_received_requests st"
    by (simp add: st')
qed

section \<open>Queueing\<close>

text \<open>Queueing changes nothing of the cache but the marks, and adds frames of cached responses.\<close>

definition unmarked :: "cached_datagram \<Rightarrow> cached_datagram" where
  "unmarked c = c\<lparr>cg_queued_once := False\<rparr>"

definition queues :: "datagram_flow_id \<Rightarrow> cached_datagram list \<Rightarrow> datagram_world \<Rightarrow> datagram_world \<Rightarrow> bool" where
  "queues fid cs w w' \<longleftrightarrow> wd_forwarded w' = wd_forwarded w \<and> wd_responses w' = wd_responses w
     \<and> (\<forall>(channel, f) \<in> set (wd_queued w'). (channel, f) \<in> set (wd_queued w) \<or> (\<exists>c \<in> set cs. \<exists>now. f = server_datagram_response_frame fid c now))"

lemma queues_refl: "queues fid cs w w"
  by (auto simp: queues_def)

lemma queues_trans: "queues fid cs w w' \<Longrightarrow> queues fid cs w' w'' \<Longrightarrow> queues fid cs w w''"
  by (fastforce simp: queues_def)

lemma queues_more: "queues fid cs w w' \<Longrightarrow> set cs \<subseteq> set ds \<Longrightarrow> queues fid ds w w'"
  by (fastforce simp: queues_def)

lemma try_send_queues:
  "try_send_frame env commands (server_datagram_response_frame fid c now) w = (r, w') \<Longrightarrow> c \<in> set cs \<Longrightarrow> queues fid cs w w'"
  by (auto simp: try_send_frame_def queues_def Let_def split: if_splits)

lemma try_routes_effect:
  assumes "try_routes env (server_datagram_response_frame fid c now) i rs w = (queued, rs', w')" "c \<in> set cs" "i < n" "\<forall>r \<in> set rs. dr_next_response_id r \<le> n"
  shows "queues fid cs w w' \<and> length rs' = length rs \<and> (\<forall>r \<in> set rs'. dr_next_response_id r \<le> n)"
  using assms
proof (induction rs arbitrary: w rs')
  case (Cons r rs)
  obtain sent w1 where t: "try_send_frame env (dr_commands r) (server_datagram_response_frame fid c now) w = (sent, w1)" by (meson surj_pair)
  note q = try_send_queues [OF t \<open>c \<in> set cs\<close>]
  have le: "saturating_add i 1 \<le> n" using saturating_add_le [of i 1] \<open>i < n\<close> by simp
  show ?case
  proof (cases sent)
    case True
    then show ?thesis using Cons.prems(1,4) q le by (auto simp: t)
  next
    case False
    then obtain rs1 where r: "try_routes env (server_datagram_response_frame fid c now) i rs w1 = (queued, rs1, w')" "rs' = r # rs1"
      using Cons.prems(1) by (auto simp: t split: prod.splits)
    from Cons.IH [OF r(1) \<open>c \<in> set cs\<close> \<open>i < n\<close>] Cons.prems(4) queues_trans [OF q] show ?thesis by (auto simp: r(2))
  qed
qed (auto simp: queues_refl)

lemma queue_unsent_effect:
  assumes "queue_unsent env fid cs routes w = (cs', routes', w')" "\<forall>c \<in> set cs. cg_datagram_id c < n" "\<forall>r \<in> set routes. dr_next_response_id r \<le> n"
  shows "queues fid cs w w' \<and> map unmarked cs' = map unmarked cs \<and> length routes' = length routes \<and> (\<forall>r \<in> set routes'. dr_next_response_id r \<le> n)"
  using assms
proof (induction cs arbitrary: routes w cs')
  case (Cons c cs)
  let ?f = "server_datagram_response_frame fid c (we_clock env (wd_attempts w))"
  have more: "queues fid cs u v \<Longrightarrow> queues fid (c # cs) u v" for u v by (rule queues_more) auto
  show ?case
  proof (cases "cg_queued_once c")
    case True
    then obtain cs1 where r: "queue_unsent env fid cs routes w = (cs1, routes', w')" "cs' = c # cs1"
      using Cons.prems(1) by (auto split: prod.splits)
    from Cons.IH [OF r(1)] Cons.prems(2,3) show ?thesis by (auto simp: r(2) more)
  next
    case False
    obtain queued rs w1 where t: "try_routes env ?f (cg_datagram_id c) (rev routes) w = (queued, rs, w1)" by (metis prod_cases3)
    have e: "queues fid (c # cs) w w1 \<and> length rs = length (rev routes) \<and> (\<forall>r \<in> set rs. dr_next_response_id r \<le> n)"
      by (rule try_routes_effect [OF t]) (use Cons.prems in auto)
    show ?thesis
    proof (cases queued)
      case True
      then obtain cs1 where r: "queue_unsent env fid cs (rev rs) w1 = (cs1, routes', w')" "cs' = c\<lparr>cg_queued_once := True\<rparr> # cs1"
        using Cons.prems(1) False by (auto simp: t Let_def split: prod.splits)
      from Cons.IH [OF r(1)] e Cons.prems(2) show ?thesis
        by (auto simp: r(2) unmarked_def intro: queues_trans [OF _ more])
    next
      case False
      then show ?thesis using Cons.prems(1) \<open>\<not> cg_queued_once c\<close> e by (auto simp: t Let_def)
    qed
  qed
qed (auto simp: queues_refl)

lemma queue_latest_effect:
  assumes "queue_latest env fid cs r w = (cs', r', w')" "\<forall>c \<in> set cs. cg_datagram_id c < n" "dr_next_response_id r \<le> n"
  shows "queues fid cs w w' \<and> map unmarked cs' = map unmarked cs \<and> dr_next_response_id r' \<le> n"
  using assms
proof (induction cs arbitrary: r w cs')
  case (Cons c cs)
  let ?f = "server_datagram_response_frame fid c (we_clock env (wd_attempts w))"
  have more: "queues fid cs u v \<Longrightarrow> queues fid (c # cs) u v" for u v by (rule queues_more) auto
  show ?case
  proof (cases "cg_datagram_id c < dr_next_response_id r")
    case True
    then obtain cs1 where q: "queue_latest env fid cs r w = (cs1, r', w')" "cs' = c # cs1"
      using Cons.prems(1) by (auto split: prod.splits)
    from Cons.IH [OF q(1)] Cons.prems(2,3) show ?thesis by (auto simp: q(2) more)
  next
    case False
    obtain sent w1 where t: "try_send_frame env (dr_commands r) ?f w = (sent, w1)" by (meson surj_pair)
    have e: "queues fid (c # cs) w w1" by (rule try_send_queues [OF t]) simp
    show ?thesis
    proof (cases sent)
      case True
      let ?r = "r\<lparr>dr_next_response_id := saturating_add (cg_datagram_id c) 1\<rparr>"
      obtain cs1 where q: "queue_latest env fid cs ?r w1 = (cs1, r', w')" "cs' = c\<lparr>cg_queued_once := True\<rparr> # cs1"
        using Cons.prems(1) False True by (auto simp: t split: prod.splits)
      have "dr_next_response_id ?r \<le> n" using saturating_add_le [of "cg_datagram_id c" 1] Cons.prems(2) by simp
      from Cons.IH [OF q(1) _ this] e Cons.prems(2) show ?thesis
        by (auto simp: q(2) unmarked_def intro: queues_trans [OF _ more])
    next
      case False
      then show ?thesis using Cons.prems(1,3) \<open>\<not> cg_datagram_id c < dr_next_response_id r\<close> e by (auto simp: t)
    qed
  qed
qed (auto simp: queues_refl)

lemma cache_true_marks:
  assumes "map unmarked cs' = map unmarked cs"
  shows "cache_true responses cs' = cache_true responses cs" "cached_sum cs' = cached_sum cs" "length cs' = length cs"
proof -
  have core: "map (\<lambda>c. (cg_datagram_id c, cg_response c)) cs' = map (\<lambda>c. (cg_datagram_id c, cg_response c)) cs"
  proof -
    have "map (\<lambda>c. (cg_datagram_id c, cg_response c)) cs = map (\<lambda>c. (cg_datagram_id c, cg_response c)) (map unmarked cs)" for cs
      by (simp add: unmarked_def)
    then show ?thesis using assms by metis
  qed
  have sum: "cached_sum cs = sum_list (map (length \<circ> snd) (map (\<lambda>c. (cg_datagram_id c, cg_response c)) cs))" for cs
    by (simp add: cached_sum_def comp_def)
  have true: "cache_true responses cs \<longleftrightarrow> sorted_wrt (<) (map fst (map (\<lambda>c. (cg_datagram_id c, cg_response c)) cs))
      \<and> (\<forall>(i, p) \<in> set (map (\<lambda>c. (cg_datagram_id c, cg_response c)) cs). i < length responses \<and> p = responses ! i)" for cs
    by (auto simp: cache_true_def comp_def)
  show "cache_true responses cs' = cache_true responses cs" "cached_sum cs' = cached_sum cs"
    unfolding true sum core by (rule refl)+
  show "length cs' = length cs" using arg_cong [OF assms, of length] by simp
qed

lemma response_frame_unmarked: "server_datagram_response_frame fid (unmarked c) now = server_datagram_response_frame fid c now"
  by (simp add: server_datagram_response_frame_def unmarked_def)

lemma queues_marks:
  assumes "queues fid cs w w'" "map unmarked cs = map unmarked ds"
  shows "queues fid ds w w'"
proof -
  have "\<exists>d \<in> set ds. f = server_datagram_response_frame fid d now" if "c \<in> set cs" "f = server_datagram_response_frame fid c now" for c f now
  proof -
    have "unmarked c \<in> set (map unmarked ds)" using that(1) assms(2) by (metis image_eqI list.set_map)
    then show ?thesis using that(2) response_frame_unmarked by (metis (no_types, lifting) imageE list.set_map)
  qed
  then show ?thesis using assms(1) unfolding queues_def by blast
qed

lemma queue_responses_effect:
  assumes "queue_server_datagram_responses env fid st w = (st', w')" "flow_true limits responses st"
  shows "queues fid (sf_cached_responses st) w w'" "flow_true limits responses st'" "sf_received_requests st' = sf_received_requests st"
proof -
  let ?n = "length responses" and ?alive = "filter (\<lambda>r. we_alive env (dr_attachment r)) (sf_routes st)"
  note d = flow_trueD [OF assms(2)]
  have ids: "\<forall>c \<in> set (sf_cached_responses st). cg_datagram_id c < ?n" using d(1) by (simp add: cache_true_def)
  have len: "length ?alive \<le> MAX_DATAGRAM_RESPONSE_ROUTES"
    using d(3) length_filter_le [of _ "sf_routes st"] unfolding routes_ok_def by (metis le_trans)
  obtain cached routes w1 where u: "queue_unsent env fid (sf_cached_responses st) ?alive w = (cached, routes, w1)" by (metis prod_cases3)
  have e: "queues fid (sf_cached_responses st) w w1" "map unmarked cached = map unmarked (sf_cached_responses st)"
      "length routes = length ?alive" "\<forall>r \<in> set routes. dr_next_response_id r \<le> ?n"
    using queue_unsent_effect [OF u ids] d(3) by (auto simp: routes_ok_def)
  have m: "flow_true limits responses (st\<lparr>sf_cached_responses := cs, sf_routes := rs\<rparr>)"
    if "map unmarked cs = map unmarked (sf_cached_responses st)" "routes_ok ?n rs" for cs rs
    using assms(2) that cache_true_marks [OF that(1)] by (simp add: flow_true_def)
  have "queues fid (sf_cached_responses st) w w' \<and> flow_true limits responses st' \<and> sf_received_requests st' = sf_received_requests st"
  proof (cases "routes = []")
    case True
    then show ?thesis using assms(1) e m [OF e(2)] by (auto simp: queue_server_datagram_responses_def u routes_ok_def)
  next
    case False
    obtain cached' route w2 where l: "queue_latest env fid cached (last routes) w1 = (cached', route, w2)" by (metis prod_cases3)
    have ids': "\<forall>c \<in> set cached. cg_datagram_id c < ?n"
      using cache_true_marks(1) [OF e(2), of responses] d(1) by (simp add: cache_true_def)
    have f: "queues fid cached w1 w2" "map unmarked cached' = map unmarked cached" "dr_next_response_id route \<le> ?n"
      using queue_latest_effect [OF l ids'] e(4) False by simp_all
    have "queues fid (sf_cached_responses st) w1 w2" by (rule queues_marks [OF f(1) e(2)])
    moreover have "routes_ok ?n (butlast routes @ [route])"
    proof -
      have "length (butlast routes @ [route]) = length routes" using False by (cases routes rule: rev_cases) auto
      then show ?thesis using e(3,4) f(3) len unfolding routes_ok_def by (auto dest: in_set_butlastD simp del: length_append)
    qed
    moreover have "st' = st\<lparr>sf_cached_responses := cached', sf_routes := butlast routes @ [route]\<rparr>" "w' = w2"
      using assms(1) False by (simp_all add: queue_server_datagram_responses_def u l)
    ultimately show ?thesis using m [of cached'] e(1,2) f(2) queues_trans by auto
  qed
  then show "queues fid (sf_cached_responses st) w w'" "flow_true limits responses st'" "sf_received_requests st' = sf_received_requests st" by simp_all
qed

section \<open>Every reachable state\<close>

lemma frames_of_cache_true:
  assumes "cache_true responses cs" "c \<in> set cs"
  shows "frame_true fid responses (server_datagram_response_frame fid c now)"
  using assms by (auto simp: cache_true_def frame_true_def server_datagram_response_frame_def)

text \<open>What queueing does to the invariant; \<open>st0\<close> is the state whose window the worker keeps.\<close>

lemma queue_worker_ok:
  assumes "queue_server_datagram_responses env fid st w = s'" "flow_true limits (wd_responses w) st"
    "\<forall>(channel, f) \<in> set (wd_queued w). frame_true fid (wd_responses w) f" "distinct (map fst (wd_forwarded w))"
    "window_rel (identities sha256 (wd_forwarded w)) (sf_received_requests st)"
  shows "worker_ok sha256 fid limits s'"
proof -
  obtain st' w' where s': "s' = (st', w')" by fastforce
  note e = queue_responses_effect [OF assms(1) [unfolded s'] assms(2)]
  have "frame_true fid (wd_responses w) f" if "(channel, f) \<in> set (wd_queued w')" for channel f
    using that e(1) assms(3) frames_of_cache_true [OF flow_trueD(1) [OF assms(2)]] by (fastforce simp: queues_def)
  then show ?thesis using e assms(4,5) by (auto simp: worker_ok_def s' queues_def)
qed

lemma identities_snoc:
  assumes "i \<notin> fst ` set xs"
  shows "identities sha256 (xs @ [(i, p)]) = (identities sha256 xs)(i \<mapsto> payload_identity sha256 p)"
proof -
  have "identities sha256 xs i = None" using assms by (force simp: identities_def map_of_eq_None_iff)
  then show ?thesis by (auto simp: identities_def map_add_def fun_eq_iff split: option.splits)
qed

lemma fresh_not_forwarded:
  assumes "window_rel (identities sha256 xs) win" "classify i p win = Inr Fresh"
  shows "i \<notin> fst ` set xs"
proof -
  have "identities sha256 xs i = None"
    using assms by (auto simp: window_classify window_spec_def split: if_splits option.splits)
  then show ?thesis by (force simp: identities_def map_of_eq_None_iff)
qed

lemma request_worker_ok:
  assumes "worker_ok sha256 fid limits (st, w)" "ml_max_datagram_queue_bytes limits \<le> u64_max"
    "admit_server_datagram_request sha256 env fid limits now sent_ok req commands attachment st w = (r, s')"
  shows "worker_ok sha256 fid limits s'"
proof -
  have ok: "flow_true limits (wd_responses w) st" "\<forall>(channel, f) \<in> set (wd_queued w). frame_true fid (wd_responses w) f"
      "distinct (map fst (wd_forwarded w))" "window_rel (identities sha256 (wd_forwarded w)) (sf_received_requests st)"
    using assms(1) by (simp_all add: worker_ok_def)
  note d = flow_trueD [OF ok(1)]
  define st1 where "st1 = prune_server_datagram_state limits now st"
  define st2 where "st2 = update_server_datagram_route (we_alive env) commands attachment st1"
  have p: "flow_true limits (wd_responses w) st1" "sf_received_requests st1 = sf_received_requests st"
    using prune_true [OF d(1,2) _ d(3)] d(4) assms(2) by (simp_all add: st1_def)
  have u: "flow_true limits (wd_responses w) st2" "sf_received_requests st2 = sf_received_requests st"
    using update_route_true [OF p(1)] p(2) by (simp_all add: st2_def)
  let ?i = "rq_datagram_id req" and ?p = "payload_identity sha256 (rq_payload req)"
  have kept: "worker_ok sha256 fid limits (st1, w)" "worker_ok sha256 fid limits (st2, w)"
    using ok p u by (simp_all add: worker_ok_def)
  have dup: "worker_ok sha256 fid limits s" if "queue_server_datagram_responses env fid st2 w = s" for s
    by (rule queue_worker_ok [OF that u(1) ok(2,3)]) (simp add: u(2) ok(4))
  have fresh: "worker_ok sha256 fid limits (st2\<lparr>sf_received_requests := record_fresh ?i ?p (sf_received_requests st2)\<rparr>,
      w\<lparr>wd_forwarded := wd_forwarded w @ [(?i, rq_payload req)]\<rparr>)" if c: "classify ?i ?p (sf_received_requests st) = Inr Fresh"
    using record_fresh_rel(1) [OF ok(4) c] fresh_not_forwarded [OF ok(4) c] identities_snoc [of ?i "wd_forwarded w" sha256 "rq_payload req"] ok u
    by (auto simp: worker_ok_def flow_true_def)
  show ?thesis
    using assms(3) kept dup fresh u(2)
    by (auto simp: admit_server_datagram_request_def st1_def [symmetric] st2_def [symmetric] Let_def
        split: if_splits sum.splits datagram_admission.splits prod.splits)
qed

lemma response_worker_ok:
  assumes "worker_ok sha256 fid limits (st, w)" "ml_max_datagram_queue_bytes limits + 65535 \<le> u64_max" "length payload \<le> 65535"
    "receive_response env fid limits deadline now payload st w = Some s'"
  shows "worker_ok sha256 fid limits s'"
proof -
  have ok: "flow_true limits (wd_responses w) st" "\<forall>(channel, f) \<in> set (wd_queued w). frame_true fid (wd_responses w) f"
      "distinct (map fst (wd_forwarded w))" "window_rel (identities sha256 (wd_forwarded w)) (sf_received_requests st)"
    using assms(1) by (simp_all add: worker_ok_def)
  note d = flow_trueD [OF ok(1)]
  let ?rs = "wd_responses w @ [payload]"
  let ?c = "\<lparr>cg_datagram_id = sf_next_response_id st, cg_deadline = deadline, cg_response = payload, cg_queued_once = False\<rparr>"
  let ?st = "st\<lparr>sf_next_response_id := Suc (sf_next_response_id st)\<rparr>"
  let ?st1 = "?st\<lparr>sf_cached_response_bytes := saturating_add (sf_cached_response_bytes st) (length payload),
      sf_cached_responses := sf_cached_responses st @ [?c]\<rparr>"
  have "cache_true ?rs (sf_cached_responses st @ [?c])"
    using d(1,2) by (auto simp: cache_true_def sorted_wrt_append nth_append)
  moreover have "routes_ok (length ?rs) (sf_routes st)" using d(3) by (auto simp: routes_ok_def)
  moreover have "cached_sum (sf_cached_responses st @ [?c]) \<le> u64_max" using d(4) assms(2,3) by simp
  ultimately have p: "flow_true limits ?rs (prune_server_datagram_state limits now ?st1)"
      "sf_received_requests (prune_server_datagram_state limits now ?st1) = sf_received_requests st"
    using prune_true [of ?rs ?st1 limits now] d(2) by simp_all
  have s': "queue_server_datagram_responses env fid (prune_server_datagram_state limits now ?st1) (w\<lparr>wd_responses := ?rs\<rparr>) = s'"
    using assms(4) by (auto simp: receive_response_def cache_server_datagram_response_def checked_add_Some_iff Let_def split: option.splits)
  have "frame_true fid (wd_responses w) f \<Longrightarrow> frame_true fid ?rs f" for f by (force simp: frame_true_def nth_append)
  then show ?thesis using queue_worker_ok [OF s', of limits sha256] p ok by auto
qed

lemma worker_step_ok:
  assumes "worker_step sha256 fid limits s s'" "worker_ok sha256 fid limits s" "ml_max_datagram_queue_bytes limits + 65535 \<le> u64_max"
  shows "worker_ok sha256 fid limits s'"
  using assms
proof cases
  case (turn env now st w)
  then show ?thesis
    using assms(2,3) prune_true [OF flow_trueD(1,2) _ flow_trueD(3), of limits "wd_responses w" st limits limits limits now] flow_trueD(4) [of limits "wd_responses w" st]
    by (intro queue_worker_ok [where st = "prune_server_datagram_state limits now st" and w = w and env = env])
      (auto simp: worker_turn_def worker_ok_def)
next
  case (attach env commands attachment st w)
  then show ?thesis
    using assms(2) update_route_true [of limits "wd_responses w" st]
    by (intro queue_worker_ok [OF attach(2)]) (auto simp: worker_ok_def)
next
  case (request env now sent_ok req commands attachment st w r)
  then show ?thesis using request_worker_ok [OF _ _ request(2)] assms(2,3) by simp
next
  case (feedback st w received)
  then show ?thesis using assms(2,3) acknowledge_true [of limits "wd_responses w" st received] by (simp add: worker_ok_def)
next
  case (response payload env deadline now st w)
  then show ?thesis using response_worker_ok [OF _ assms(3) _ response(3)] assms(2) by simp
next
  case (capacity env st w)
  then show ?thesis using assms(2) by (intro queue_worker_ok [OF capacity(2)]) (auto simp: worker_ok_def)
qed

lemma worker_reach_ok:
  assumes "worker_reach sha256 fid limits s" "ml_max_datagram_queue_bytes limits + 65535 \<le> u64_max"
  shows "worker_ok sha256 fid limits s"
  using assms
proof (induction rule: worker_reach.induct)
  case start
  then show ?case
    using window_rel_new [of "ml_max_ack_ranges limits"]
    by (simp add: worker_ok_def flow_true_def server_flow_new_def cache_true_def routes_ok_def identities_def)
next
  case (step s s')
  then show ?case using worker_step_ok by blast
qed

section \<open>The two ends together\<close>





section \<open>Progress\<close>

text \<open>When the routes accept frames, one call queues every cached response at least once.\<close>

lemma try_routes_progress:
  assumes "\<forall>n. we_accepts env n" "rs \<noteq> []"
  shows "fst (try_routes env f i rs w)" "fst (snd (try_routes env f i rs w)) \<noteq> []"
  using assms by (cases rs; simp add: try_send_frame_def Let_def)+

lemma queue_unsent_progress:
  assumes "\<forall>n. we_accepts env n" "routes \<noteq> []"
  shows "\<forall>c \<in> set (fst (queue_unsent env fid cs routes w)). cg_queued_once c"
  using assms(2)
proof (induction cs arbitrary: routes w)
  case (Cons c cs)
  show ?case
  proof (cases "cg_queued_once c")
    case True
    then show ?thesis using Cons.IH [OF Cons.prems, of w] by (auto split: prod.splits)
  next
    case False
    let ?f = "server_datagram_response_frame fid c (we_clock env (wd_attempts w))"
    obtain queued rs w1 where t: "try_routes env ?f (cg_datagram_id c) (rev routes) w = (queued, rs, w1)" by (metis prod_cases3)
    have "queued" "rs \<noteq> []" using try_routes_progress [OF assms(1), of "rev routes" ?f "cg_datagram_id c" w] Cons.prems t by simp_all
    then show ?thesis using False Cons.IH [of "rev rs" w1] by (auto simp: t Let_def split: prod.splits)
  qed
qed simp

lemma queue_latest_keeps_marks:
  "\<forall>c \<in> set cs. cg_queued_once c \<Longrightarrow> \<forall>c \<in> set (fst (queue_latest env fid cs r w)). cg_queued_once c"
proof (induction cs arbitrary: r w)
  case (Cons c cs)
  obtain sent w1 where t: "try_send_frame env (dr_commands r) (server_datagram_response_frame fid c (we_clock env (wd_attempts w))) w = (sent, w1)"
    by (meson surj_pair)
  have "\<forall>c \<in> set cs. cg_queued_once c" using Cons.prems by simp
  note IH = Cons.IH [OF this]
  show ?case
    using Cons.prems IH [of r w] IH [of "r\<lparr>dr_next_response_id := saturating_add (cg_datagram_id c) 1\<rparr>" w1]
    by (cases sent) (auto simp: t split: prod.splits)
qed simp

lemma queue_unsent_routes: "routes \<noteq> [] \<Longrightarrow> fst (snd (queue_unsent env fid cs routes w)) \<noteq> []"
proof -
  have routes: "try_routes env f i rs w = (queued, rs', w') \<Longrightarrow> length rs' = length rs" for f i rs w queued rs' w'
    by (induction rs arbitrary: w rs') (auto split: prod.splits bool.splits)
  have "length (fst (snd (queue_unsent env fid cs routes w))) = length routes"
  proof (induction cs arbitrary: routes w)
    case (Cons c cs)
    let ?f = "server_datagram_response_frame fid c (we_clock env (wd_attempts w))"
    obtain queued rs w1 where t: "try_routes env ?f (cg_datagram_id c) (rev routes) w = (queued, rs, w1)" by (metis prod_cases3)
    have "length rs = length routes" using routes [OF t] by simp
    then show ?case using Cons.IH [of routes w] Cons.IH [of "rev rs" w1] by (cases queued) (auto simp: t Let_def split: prod.splits)
  qed simp
  then show "routes \<noteq> [] \<Longrightarrow> fst (snd (queue_unsent env fid cs routes w)) \<noteq> []" by (metis length_0_conv)
qed

lemma queue_progress:
  assumes "\<forall>n. we_accepts env n" "\<exists>r \<in> set (sf_routes st). we_alive env (dr_attachment r)"
  shows "\<forall>c \<in> set (sf_cached_responses (fst (queue_server_datagram_responses env fid st w))). cg_queued_once c"
proof -
  let ?alive = "filter (\<lambda>r. we_alive env (dr_attachment r)) (sf_routes st)"
  have ne: "?alive \<noteq> []" using assms(2) by (auto simp: filter_empty_conv)
  obtain cached routes w1 where u: "queue_unsent env fid (sf_cached_responses st) ?alive w = (cached, routes, w1)" by (metis prod_cases3)
  have "routes \<noteq> []" using queue_unsent_routes [OF ne, of env fid "sf_cached_responses st" w] by (simp add: u)
  moreover have "\<forall>c \<in> set cached. cg_queued_once c" using queue_unsent_progress [OF assms(1) ne, of fid "sf_cached_responses st" w] by (simp add: u)
  ultimately show ?thesis
    using queue_latest_keeps_marks [of cached env fid "last routes" w1]
    by (auto simp: queue_server_datagram_responses_def u split: prod.splits)
qed

section \<open>Properties\<close>

text \<open>C14. The server's datagram worker is safe in every state it can reach, whatever requests, responses,
  feedback and route changes it meets and whichever enqueue attempts fail. It has forwarded no request
  identifier twice; it has queued only frames that carry, under the flow's identifier, the response
  with the frame's identifier; its cache counts its bytes exactly and respects both ceilings; and it
  keeps at most two routes.\<close>

theorem datagram_worker_safe:
  assumes "worker_reach sha256 fid limits (st, w)" "ml_max_datagram_queue_bytes limits + 65535 \<le> u64_max"
  shows "distinct (map fst (wd_forwarded w))
    \<and> (\<forall>(channel, f) \<in> set (wd_queued w). frame_true fid (wd_responses w) f)
    \<and> sf_cached_response_bytes st = cached_sum (sf_cached_responses st)
    \<and> sf_cached_response_bytes st \<le> ml_max_datagram_queue_bytes limits
    \<and> length (sf_cached_responses st) \<le> max (ml_max_ack_ranges limits) 1
    \<and> length (sf_routes st) \<le> MAX_DATAGRAM_RESPONSE_ROUTES"
  using worker_reach_ok [OF assms] by (simp add: worker_ok_def flow_true_def routes_ok_def)

text \<open>A flow with one request, forwarded, and two responses, queued on the route of the request.\<close>

definition ex_env :: worker_env where
  "ex_env = \<lparr>we_alive = (\<lambda>_. True), we_accepts = (\<lambda>_. True), we_clock = (\<lambda>_. 0)\<rparr>"

definition ex_requested :: "server_flow \<times> datagram_world" where
  "ex_requested = snd (admit_server_datagram_request (\<lambda>x. x) ex_env 5 default_mux_limits 0 True
     \<lparr>rq_datagram_id = 3, rq_ttl_ms = 10, rq_payload = [7]\<rparr> 1 1 (server_flow_new default_mux_limits)
     \<lparr>wd_forwarded = [], wd_responses = [], wd_queued = [], wd_attempts = 0\<rparr>)"

definition ex_answered :: "server_flow \<times> datagram_world" where
  "ex_answered = the (receive_response ex_env 5 default_mux_limits 4000000 0 [9] (fst ex_requested) (snd ex_requested))"

lemma ex_answered_reach: "worker_reach (\<lambda>x. x) 5 default_mux_limits ex_answered"
proof -
  let ?r = "admit_server_datagram_request (\<lambda>x. x) ex_env 5 default_mux_limits 0 True
     \<lparr>rq_datagram_id = 3, rq_ttl_ms = 10, rq_payload = [7]\<rparr> 1 1 (server_flow_new default_mux_limits)
     \<lparr>wd_forwarded = [], wd_responses = [], wd_queued = [], wd_attempts = 0\<rparr>"
  have "worker_step (\<lambda>x. x) 5 default_mux_limits (server_flow_new default_mux_limits,
      \<lparr>wd_forwarded = [], wd_responses = [], wd_queued = [], wd_attempts = 0\<rparr>) ex_requested"
    by (rule worker_step.request [where r = "fst ?r"]) (simp add: ex_requested_def)
  then have r: "worker_reach (\<lambda>x. x) 5 default_mux_limits ex_requested" by (rule worker_reach.step [OF worker_reach.start])
  have "\<not> Option.is_none (receive_response ex_env 5 default_mux_limits 4000000 0 [9] (fst ex_requested) (snd ex_requested))" by code_simp
  then have "worker_step (\<lambda>x. x) 5 default_mux_limits (fst ex_requested, snd ex_requested) ex_answered"
    by (intro worker_step.response [of "[9]"]) (auto simp: ex_answered_def default_mux_limits_def is_none_code(2) Option.is_none_def)
  then show ?thesis using worker_reach.step [OF r] by simp
qed

lemma ex_answered_fits: "ml_max_datagram_queue_bytes default_mux_limits + 65535 \<le> u64_max"
  by code_simp

theorem datagram_worker_safe_witness:
  "wd_forwarded (snd ex_answered) = [(3, [7])] \<and> distinct (map fst (wd_forwarded (snd ex_answered)))
    \<and> wd_queued (snd ex_answered) = [(1, DatagramData 5 0 4 [9])] \<and> sf_cached_response_bytes (fst ex_answered) = 1"
proof -
  have "wd_forwarded (snd ex_answered) = [(3, [7])]" "wd_queued (snd ex_answered) = [(1, DatagramData 5 0 4 [9])]"
      "sf_cached_responses (fst ex_answered) = [\<lparr>cg_datagram_id = 0, cg_deadline = 4000000, cg_response = [9], cg_queued_once = True\<rparr>]"
    by code_simp+
  moreover have "worker_reach (\<lambda>x. x) 5 default_mux_limits (fst ex_answered, snd ex_answered)" using ex_answered_reach by simp
  note datagram_worker_safe [OF this ex_answered_fits]
  ultimately show ?thesis by simp
qed



end
