(* ===== verification/Counter_Maps.thy ===== *)
theory Counter_Maps
  imports Prelude "HOL-Library.Multiset" "HOL-Library.AList_Mapping"
begin

text \<open>
  Maps of counters, as the sources use them to count what is held or active per key: the entry of a
  key that is counted is its number, and a key whose number drops to zero has no entry. Such a map
  stands for the multiset of what it counts.

  The locale is the contract between a component that counts and its pair of operations. The owner
  of admission permits and the packet flow table each have their own pair.
\<close>

definition counts :: "('k, usize) mapping \<Rightarrow> 'k multiset \<Rightarrow> bool" where
  "counts m M \<longleftrightarrow> (\<forall>k. Mapping.lookup m k = (if k \<in># M then Some (count M k) else None))"

lemma lookup_delete': "Mapping.lookup (Mapping.delete k m) k' = (if k = k' then None else Mapping.lookup m k')"
  by simp

lemma counts_empty [simp]: "counts Mapping.empty M \<longleftrightarrow> M = {#}"
  by (auto simp: counts_def multiset_eq_iff split: if_splits)

lemma counts_get: "counts m M \<Longrightarrow> Mapping.lookup_default 0 m k = count M k"
  by (auto simp: counts_def Mapping.lookup_default_def not_in_iff)

lemma counts_unique: "counts m M \<Longrightarrow> counts m' M \<Longrightarrow> m = m'"
  by (rule mapping_eqI) (simp add: counts_def)

lemma counts_nothing [simp]: "counts m {#} \<longleftrightarrow> m = Mapping.empty"
  using counts_unique [of m "{#}" Mapping.empty] by auto

lemma counts_same: "counts m M \<Longrightarrow> counts m N \<Longrightarrow> M = N"
proof (rule multiset_eqI)
  fix k
  assume "counts m M" "counts m N"
  then show "count M k = count N k" using counts_get [of m M k] counts_get [of m N k] by simp
qed

locale counter_map =
  fixes increment :: "'k \<Rightarrow> ('k, usize) mapping \<Rightarrow> ('k, usize) mapping"
    and decrement :: "'k \<Rightarrow> ('k, usize) mapping \<Rightarrow> ('k, usize) mapping"
    and ceiling :: nat
  assumes increment_counts: "counts m M \<Longrightarrow> count M k < ceiling \<Longrightarrow> counts (increment k m) (add_mset k M)"
    and decrement_counts: "counts m (add_mset k M) \<Longrightarrow> counts (decrement k m) M"
begin

lemma increment_all: "counts m M \<Longrightarrow> size M + length ks \<le> ceiling \<Longrightarrow> counts (fold increment ks m) (M + mset ks)"
proof (induction ks arbitrary: m M)
  case Nil
  then show ?case by simp
next
  case (Cons k ks)
  have "count M k < ceiling" using Cons.prems(2) count_le_size [of M k] by simp
  then have "counts (increment k m) (add_mset k M)" by (rule increment_counts [OF Cons.prems(1)])
  from Cons.IH [OF this] show ?case using Cons.prems(2) by simp
qed

lemma decrement_held: "counts m M \<Longrightarrow> k \<in># M \<Longrightarrow> counts (decrement k m) (M - {#k#})"
  using decrement_counts [of m k "M - {#k#}"] by simp

lemma decrement_increment: "counts m M \<Longrightarrow> count M k < ceiling \<Longrightarrow> decrement k (increment k m) = m"
  using counts_unique [OF decrement_counts [OF increment_counts]] by blast

end

end
