(* ===== verification/Product_Admission.thy ===== *)
theory Product_Admission
  imports Credentials Counter_Maps
begin

text \<open>
  Admission of product flows, connects and DNS lookups, \<open>src/src/product/admission.rs\<close>, with the
  destinations of \<open>src/src/product/flow.rs\<close> that it counts by.

  The owner keeps one counter per limit and one map of counters per keyed limit; a Rust \<open>HashMap\<close>
  is a \<open>mapping\<close>. Each admission hands out a permit whose destructor returns what was counted, so the
  operations here are the three admissions, the two conversions of permits, and the four
  destructors. The mutex makes each of them one step. A permit's \<open>active\<close> flag is kept: a
  destructor of an inactive permit does nothing.

  The second half is the system of one owner and the permits that its callers hold. Its steps are
  all the operations, in any order. The invariant says that every counter is the number of permits
  held for it, which is what makes the saturating decrements of the code exact.
\<close>

section \<open>Limits\<close>

definition MAX_PRODUCT_ADMISSION_LIMIT :: usize where
  "MAX_PRODUCT_ADMISSION_LIMIT = 1000000"

record admission_config =
  max_live_flows :: usize
  max_concurrent_work :: usize
  max_live_flows_per_principal :: usize
  max_live_flows_per_outbound :: usize
  max_connects_per_outbound :: usize
  max_live_flows_per_target :: usize
  max_connects_per_target :: usize
  max_dns_work :: usize

datatype admission_config_error =
    Zero string
  | TooLarge string usize usize
  | ExceedsGlobal string usize string usize

definition admission_config_default :: admission_config where
  "admission_config_default =
     \<lparr>max_live_flows = 4096, max_concurrent_work = 4096, max_live_flows_per_principal = 4096,
      max_live_flows_per_outbound = 4096, max_connects_per_outbound = 4096, max_live_flows_per_target = 4096,
      max_connects_per_target = 4096, max_dns_work = 4096\<rparr>"

text \<open>A \<open>for\<close> loop that returns the first error.\<close>

primrec first_error :: "('a \<Rightarrow> 'e option) \<Rightarrow> 'a list \<Rightarrow> 'e option" where
  "first_error check [] = None"
| "first_error check (x # xs) = (case check x of Some e \<Rightarrow> Some e | None \<Rightarrow> first_error check xs)"

definition bounded_limit :: "string \<times> usize \<Rightarrow> admission_config_error option" where
  "bounded_limit f = (if snd f = 0 then Some (Zero (fst f))
     else if snd f > MAX_PRODUCT_ADMISSION_LIMIT then Some (TooLarge (fst f) (snd f) MAX_PRODUCT_ADMISSION_LIMIT)
     else None)"

definition within_limit :: "string \<Rightarrow> usize \<Rightarrow> string \<times> usize \<Rightarrow> admission_config_error option" where
  "within_limit global_field global f =
     (if snd f > global then Some (ExceedsGlobal (fst f) (snd f) global_field global) else None)"

definition admission_config_validate :: "admission_config \<Rightarrow> admission_config_error + unit" where
  "admission_config_validate c =
     (case first_error bounded_limit
        [(''max_live_flows'', max_live_flows c), (''max_concurrent_work'', max_concurrent_work c),
         (''max_live_flows_per_principal'', max_live_flows_per_principal c),
         (''max_live_flows_per_outbound'', max_live_flows_per_outbound c),
         (''max_connects_per_outbound'', max_connects_per_outbound c),
         (''max_live_flows_per_target'', max_live_flows_per_target c),
         (''max_connects_per_target'', max_connects_per_target c), (''max_dns_work'', max_dns_work c)] of
        Some e \<Rightarrow> Inl e
      | None \<Rightarrow>
     (case first_error (within_limit ''max_live_flows'' (max_live_flows c))
        [(''max_live_flows_per_principal'', max_live_flows_per_principal c),
         (''max_live_flows_per_outbound'', max_live_flows_per_outbound c),
         (''max_live_flows_per_target'', max_live_flows_per_target c)] of
        Some e \<Rightarrow> Inl e
      | None \<Rightarrow>
     (case first_error (within_limit ''max_concurrent_work'' (max_concurrent_work c))
        [(''max_connects_per_outbound'', max_connects_per_outbound c),
         (''max_connects_per_target'', max_connects_per_target c), (''max_dns_work'', max_dns_work c)] of
        Some e \<Rightarrow> Inl e
      | None \<Rightarrow>
        if max_connects_per_outbound c > max_live_flows_per_outbound c
        then Inl (ExceedsGlobal ''max_connects_per_outbound'' (max_connects_per_outbound c)
                    ''max_live_flows_per_outbound'' (max_live_flows_per_outbound c))
        else if max_connects_per_target c > max_live_flows_per_target c
        then Inl (ExceedsGlobal ''max_connects_per_target'' (max_connects_per_target c)
                    ''max_live_flows_per_target'' (max_live_flows_per_target c))
        else Inr ())))"

section \<open>Counters\<close>

datatype target_host = HostDomain rust_string | HostIp ip_addr

record protocol_target =
  pt_host :: target_host
  pt_port :: u16

type_synonym outbound_id = policy_id

datatype admission_rejection =
    GlobalLiveFlows | PrincipalLiveFlows | OutboundLiveFlows | TargetLiveFlows
  | GlobalConcurrentWork | OutboundConnects | TargetConnects | DnsWork

fun rejection_index :: "admission_rejection \<Rightarrow> usize" where
  "rejection_index GlobalLiveFlows = 0"
| "rejection_index PrincipalLiveFlows = 1"
| "rejection_index OutboundLiveFlows = 2"
| "rejection_index TargetLiveFlows = 3"
| "rejection_index GlobalConcurrentWork = 4"
| "rejection_index OutboundConnects = 5"
| "rejection_index TargetConnects = 6"
| "rejection_index DnsWork = 7"

record admission_state =
  as_live_flows :: usize
  as_concurrent_work :: usize
  as_dns_work :: usize
  as_principal_live :: "(policy_id, usize) mapping"
  as_outbound_live :: "(outbound_id, usize) mapping"
  as_outbound_connecting :: "(outbound_id, usize) mapping"
  as_target_live :: "(protocol_target, usize) mapping"
  as_target_connecting :: "(protocol_target, usize) mapping"
  as_rejections :: "u64 list"

definition admission_state_default :: admission_state where
  "admission_state_default =
     \<lparr>as_live_flows = 0, as_concurrent_work = 0, as_dns_work = 0, as_principal_live = Mapping.empty,
      as_outbound_live = Mapping.empty, as_outbound_connecting = Mapping.empty, as_target_live = Mapping.empty,
      as_target_connecting = Mapping.empty, as_rejections = replicate 8 0\<rparr>"

text \<open>The owner is constructed only from limits that validate; its generation only labels snapshots.\<close>

definition admission_new :: "admission_config \<Rightarrow> admission_config_error + admission_config \<times> admission_state" where
  "admission_new limits =
     (case admission_config_validate limits of Inl e \<Rightarrow> Inl e | Inr _ \<Rightarrow> Inr (limits, admission_state_default))"

definition reject :: "admission_rejection \<Rightarrow> admission_state \<Rightarrow> admission_state" where
  "reject r st = st\<lparr>as_rejections := (as_rejections st)[rejection_index r := saturating_add (as_rejections st ! rejection_index r) 1]\<rparr>"

definition decrement_exact :: "usize \<Rightarrow> usize" where
  "decrement_exact v = saturating_sub v 1"

definition increment_key :: "'k \<Rightarrow> ('k, usize) mapping \<Rightarrow> ('k, usize) mapping" where
  "increment_key k entries = Mapping.map_default k 0 (\<lambda>n. n + 1) entries"

definition decrement_key_exact :: "'k \<Rightarrow> ('k, usize) mapping \<Rightarrow> ('k, usize) mapping" where
  "decrement_key_exact k entries =
     (case Mapping.lookup entries k of
        Some n \<Rightarrow> if n > 1 then Mapping.update k (n - 1) entries else Mapping.delete k entries
      | None \<Rightarrow> entries)"

section \<open>Permits\<close>

record pending_flow =
  pf_principal :: policy_id
  pf_target :: protocol_target
  pf_active :: bool

record connect_work =
  cw_outbound :: outbound_id
  cw_target :: protocol_target
  cw_active :: bool

record outbound_flow =
  of_outbound :: outbound_id
  of_target :: protocol_target
  of_active :: bool

record flow_lease =
  fl_flow :: pending_flow
  fl_outbound :: outbound_flow

record dns_work =
  dw_active :: bool

definition try_admit_flow ::
  "admission_config \<Rightarrow> policy_id \<Rightarrow> protocol_target \<Rightarrow> admission_state \<Rightarrow> (admission_rejection + pending_flow) \<times> admission_state" where
  "try_admit_flow limits owner tgt st =
     (if as_live_flows st \<ge> max_live_flows limits then (Inl GlobalLiveFlows, reject GlobalLiveFlows st)
      else if Mapping.lookup_default 0 (as_principal_live st) owner \<ge> max_live_flows_per_principal limits
      then (Inl PrincipalLiveFlows, reject PrincipalLiveFlows st)
      else if Mapping.lookup_default 0 (as_target_live st) tgt \<ge> max_live_flows_per_target limits
      then (Inl TargetLiveFlows, reject TargetLiveFlows st)
      else (Inr \<lparr>pf_principal = owner, pf_target = tgt, pf_active = True\<rparr>,
            st\<lparr>as_live_flows := as_live_flows st + 1,
               as_principal_live := increment_key owner (as_principal_live st),
               as_target_live := increment_key tgt (as_target_live st)\<rparr>))"

definition try_admit_dns_work :: "admission_config \<Rightarrow> admission_state \<Rightarrow> (admission_rejection + dns_work) \<times> admission_state" where
  "try_admit_dns_work limits st =
     (if as_concurrent_work st \<ge> max_concurrent_work limits then (Inl GlobalConcurrentWork, reject GlobalConcurrentWork st)
      else if as_dns_work st \<ge> max_dns_work limits then (Inl DnsWork, reject DnsWork st)
      else (Inr \<lparr>dw_active = True\<rparr>,
            st\<lparr>as_concurrent_work := as_concurrent_work st + 1, as_dns_work := as_dns_work st + 1\<rparr>))"

definition try_begin_connect ::
  "admission_config \<Rightarrow> outbound_id \<Rightarrow> pending_flow \<Rightarrow> admission_state \<Rightarrow> (admission_rejection + connect_work) \<times> admission_state" where
  "try_begin_connect limits outbound f st =
     (if as_concurrent_work st \<ge> max_concurrent_work limits then (Inl GlobalConcurrentWork, reject GlobalConcurrentWork st)
      else if Mapping.lookup_default 0 (as_outbound_live st) outbound \<ge> max_live_flows_per_outbound limits
      then (Inl OutboundLiveFlows, reject OutboundLiveFlows st)
      else if Mapping.lookup_default 0 (as_outbound_connecting st) outbound \<ge> max_connects_per_outbound limits
      then (Inl OutboundConnects, reject OutboundConnects st)
      else if Mapping.lookup_default 0 (as_target_connecting st) (pf_target f) \<ge> max_connects_per_target limits
      then (Inl TargetConnects, reject TargetConnects st)
      else (Inr \<lparr>cw_outbound = outbound, cw_target = pf_target f, cw_active = True\<rparr>,
            st\<lparr>as_concurrent_work := as_concurrent_work st + 1,
               as_outbound_live := increment_key outbound (as_outbound_live st),
               as_outbound_connecting := increment_key outbound (as_outbound_connecting st),
               as_target_connecting := increment_key (pf_target f) (as_target_connecting st)\<rparr>))"

text \<open>Both permits of a commit come from one owner here, so its assertion is the equality of the
  targets; a failed assertion, which panics, is \<open>None\<close>.\<close>

definition commit_flow :: "pending_flow \<Rightarrow> outbound_flow \<Rightarrow> flow_lease option" where
  "commit_flow f out = (if pf_target f = of_target out then Some \<lparr>fl_flow = f, fl_outbound = out\<rparr> else None)"

definition drop_pending_flow :: "pending_flow \<Rightarrow> admission_state \<Rightarrow> admission_state" where
  "drop_pending_flow f st =
     (if \<not> pf_active f then st
      else st\<lparr>as_live_flows := decrement_exact (as_live_flows st),
              as_principal_live := decrement_key_exact (pf_principal f) (as_principal_live st),
              as_target_live := decrement_key_exact (pf_target f) (as_target_live st)\<rparr>)"

definition drop_connect_work :: "connect_work \<Rightarrow> admission_state \<Rightarrow> admission_state" where
  "drop_connect_work c st =
     (if \<not> cw_active c then st
      else st\<lparr>as_concurrent_work := decrement_exact (as_concurrent_work st),
              as_outbound_live := decrement_key_exact (cw_outbound c) (as_outbound_live st),
              as_outbound_connecting := decrement_key_exact (cw_outbound c) (as_outbound_connecting st),
              as_target_connecting := decrement_key_exact (cw_target c) (as_target_connecting st)\<rparr>)"

text \<open>\<open>connected\<close> consumes its permit, whose destructor then runs with the flag cleared.\<close>

definition connected :: "connect_work \<Rightarrow> admission_state \<Rightarrow> outbound_flow \<times> admission_state" where
  "connected c st =
     (\<lparr>of_outbound = cw_outbound c, of_target = cw_target c, of_active = True\<rparr>,
      drop_connect_work (c\<lparr>cw_active := False\<rparr>)
        (st\<lparr>as_concurrent_work := decrement_exact (as_concurrent_work st),
            as_outbound_connecting := decrement_key_exact (cw_outbound c) (as_outbound_connecting st),
            as_target_connecting := decrement_key_exact (cw_target c) (as_target_connecting st)\<rparr>))"

definition drop_outbound_flow :: "outbound_flow \<Rightarrow> admission_state \<Rightarrow> admission_state" where
  "drop_outbound_flow out st =
     (if \<not> of_active out then st
      else st\<lparr>as_outbound_live := decrement_key_exact (of_outbound out) (as_outbound_live st)\<rparr>)"

text \<open>The fields of a lease are dropped in the order of their declaration.\<close>

definition drop_flow_lease :: "flow_lease \<Rightarrow> admission_state \<Rightarrow> admission_state" where
  "drop_flow_lease l st = drop_outbound_flow (fl_outbound l) (drop_pending_flow (fl_flow l) st)"

definition drop_dns_work :: "dns_work \<Rightarrow> admission_state \<Rightarrow> admission_state" where
  "drop_dns_work d st =
     (if \<not> dw_active d then st
      else st\<lparr>as_concurrent_work := decrement_exact (as_concurrent_work st), as_dns_work := decrement_exact (as_dns_work st)\<rparr>)"

section \<open>The owner and its permits\<close>

record admission_world =
  aw_state :: admission_state
  aw_pending :: "pending_flow multiset"
  aw_connects :: "connect_work multiset"
  aw_outbounds :: "outbound_flow multiset"
  aw_leases :: "flow_lease multiset"
  aw_dns :: "dns_work multiset"

definition admission_start :: admission_world where
  "admission_start = \<lparr>aw_state = admission_state_default, aw_pending = {#}, aw_connects = {#}, aw_outbounds = {#},
     aw_leases = {#}, aw_dns = {#}\<rparr>"

inductive admission_step :: "admission_config \<Rightarrow> admission_world \<Rightarrow> admission_world \<Rightarrow> bool" for limits where
  admit: "try_admit_flow limits owner tgt (aw_state w) = (Inr f, st)
     \<Longrightarrow> admission_step limits w (w\<lparr>aw_state := st, aw_pending := add_mset f (aw_pending w)\<rparr>)"
| admit_refused: "try_admit_flow limits owner tgt (aw_state w) = (Inl r, st)
     \<Longrightarrow> admission_step limits w (w\<lparr>aw_state := st\<rparr>)"
| begin_connect: "f \<in># aw_pending w \<Longrightarrow> try_begin_connect limits outbound f (aw_state w) = (Inr c, st)
     \<Longrightarrow> admission_step limits w (w\<lparr>aw_state := st, aw_connects := add_mset c (aw_connects w)\<rparr>)"
| connect_refused: "f \<in># aw_pending w \<Longrightarrow> try_begin_connect limits outbound f (aw_state w) = (Inl r, st)
     \<Longrightarrow> admission_step limits w (w\<lparr>aw_state := st\<rparr>)"
| admit_dns: "try_admit_dns_work limits (aw_state w) = (Inr d, st)
     \<Longrightarrow> admission_step limits w (w\<lparr>aw_state := st, aw_dns := add_mset d (aw_dns w)\<rparr>)"
| dns_refused: "try_admit_dns_work limits (aw_state w) = (Inl r, st)
     \<Longrightarrow> admission_step limits w (w\<lparr>aw_state := st\<rparr>)"
| established: "c \<in># aw_connects w \<Longrightarrow> connected c (aw_state w) = (out, st)
     \<Longrightarrow> admission_step limits w (w\<lparr>aw_state := st, aw_connects := aw_connects w - {#c#}, aw_outbounds := add_mset out (aw_outbounds w)\<rparr>)"
| committed: "f \<in># aw_pending w \<Longrightarrow> out \<in># aw_outbounds w \<Longrightarrow> commit_flow f out = Some l
     \<Longrightarrow> admission_step limits w (w\<lparr>aw_pending := aw_pending w - {#f#}, aw_outbounds := aw_outbounds w - {#out#},
          aw_leases := add_mset l (aw_leases w)\<rparr>)"
| drop_pending: "f \<in># aw_pending w
     \<Longrightarrow> admission_step limits w (w\<lparr>aw_state := drop_pending_flow f (aw_state w), aw_pending := aw_pending w - {#f#}\<rparr>)"
| drop_connect: "c \<in># aw_connects w
     \<Longrightarrow> admission_step limits w (w\<lparr>aw_state := drop_connect_work c (aw_state w), aw_connects := aw_connects w - {#c#}\<rparr>)"
| drop_outbound: "out \<in># aw_outbounds w
     \<Longrightarrow> admission_step limits w (w\<lparr>aw_state := drop_outbound_flow out (aw_state w), aw_outbounds := aw_outbounds w - {#out#}\<rparr>)"
| drop_lease: "l \<in># aw_leases w
     \<Longrightarrow> admission_step limits w (w\<lparr>aw_state := drop_flow_lease l (aw_state w), aw_leases := aw_leases w - {#l#}\<rparr>)"
| drop_dns: "d \<in># aw_dns w
     \<Longrightarrow> admission_step limits w (w\<lparr>aw_state := drop_dns_work d (aw_state w), aw_dns := aw_dns w - {#d#}\<rparr>)"

abbreviation admission_reach :: "admission_config \<Rightarrow> admission_world \<Rightarrow> bool" where
  "admission_reach limits w \<equiv> rtranclp (admission_step limits) admission_start w"

section \<open>Keyed counters count permits\<close>

lemma counts_increment: "counts m M \<Longrightarrow> counts (increment_key k m) (add_mset k M)"
  by (auto simp: counts_def increment_key_def lookup_map_default' counts_get [unfolded counts_def] Mapping.lookup_default_def not_in_iff)

lemma counts_decrement: "counts m (add_mset k M) \<Longrightarrow> counts (decrement_key_exact k m) M"
  by (auto simp: counts_def decrement_key_exact_def lookup_update' lookup_delete' not_in_iff split: if_splits)

declare counts_increment [simp] counts_decrement [simp]

interpretation permits: counter_map increment_key decrement_key_exact ceiling for ceiling
  by unfold_locales simp_all

section \<open>The invariant\<close>

definition held_flows :: "admission_world \<Rightarrow> pending_flow multiset" where
  "held_flows w = aw_pending w + image_mset fl_flow (aw_leases w)"

definition held_outbounds :: "admission_world \<Rightarrow> outbound_flow multiset" where
  "held_outbounds w = aw_outbounds w + image_mset fl_outbound (aw_leases w)"

definition connecting_outbounds :: "admission_world \<Rightarrow> outbound_id multiset" where
  "connecting_outbounds w = image_mset cw_outbound (aw_connects w)"

definition connecting_targets :: "admission_world \<Rightarrow> protocol_target multiset" where
  "connecting_targets w = image_mset cw_target (aw_connects w)"

definition used_outbounds :: "admission_world \<Rightarrow> outbound_id multiset" where
  "used_outbounds w = connecting_outbounds w + image_mset of_outbound (held_outbounds w)"

definition flow_principals :: "admission_world \<Rightarrow> policy_id multiset" where
  "flow_principals w = image_mset pf_principal (held_flows w)"

definition flow_targets :: "admission_world \<Rightarrow> protocol_target multiset" where
  "flow_targets w = image_mset pf_target (held_flows w)"

definition concurrent_work :: "admission_world \<Rightarrow> nat" where
  "concurrent_work w = size (aw_connects w) + size (aw_dns w)"

lemmas held_defs = held_flows_def held_outbounds_def connecting_outbounds_def connecting_targets_def used_outbounds_def
  flow_principals_def flow_targets_def concurrent_work_def

definition permits_active :: "admission_world \<Rightarrow> bool" where
  "permits_active w \<longleftrightarrow> (\<forall>f \<in># held_flows w. pf_active f) \<and> (\<forall>c \<in># aw_connects w. cw_active c)
     \<and> (\<forall>out \<in># held_outbounds w. of_active out) \<and> (\<forall>d \<in># aw_dns w. dw_active d)"

definition counters_exact :: "admission_world \<Rightarrow> bool" where
  "counters_exact w \<longleftrightarrow> as_live_flows (aw_state w) = size (held_flows w)
     \<and> as_concurrent_work (aw_state w) = concurrent_work w \<and> as_dns_work (aw_state w) = size (aw_dns w)
     \<and> counts (as_principal_live (aw_state w)) (flow_principals w)
     \<and> counts (as_target_live (aw_state w)) (flow_targets w)
     \<and> counts (as_outbound_live (aw_state w)) (used_outbounds w)
     \<and> counts (as_outbound_connecting (aw_state w)) (connecting_outbounds w)
     \<and> counts (as_target_connecting (aw_state w)) (connecting_targets w)"

definition limits_kept :: "admission_config \<Rightarrow> admission_world \<Rightarrow> bool" where
  "limits_kept limits w \<longleftrightarrow> size (held_flows w) \<le> max_live_flows limits
     \<and> concurrent_work w \<le> max_concurrent_work limits \<and> size (aw_dns w) \<le> max_dns_work limits
     \<and> (\<forall>owner. count (flow_principals w) owner \<le> max_live_flows_per_principal limits)
     \<and> (\<forall>tgt. count (flow_targets w) tgt \<le> max_live_flows_per_target limits)
     \<and> (\<forall>outbound. count (used_outbounds w) outbound \<le> max_live_flows_per_outbound limits)
     \<and> (\<forall>outbound. count (connecting_outbounds w) outbound \<le> max_connects_per_outbound limits)
     \<and> (\<forall>tgt. count (connecting_targets w) tgt \<le> max_connects_per_target limits)"

definition admission_ok :: "admission_config \<Rightarrow> admission_world \<Rightarrow> bool" where
  "admission_ok limits w \<longleftrightarrow> permits_active w \<and> counters_exact w \<and> limits_kept limits w"

lemmas admission_inv_defs = admission_ok_def permits_active_def counters_exact_def limits_kept_def held_defs

lemma admission_ok_start: "admission_ok limits admission_start"
  by (simp add: admission_inv_defs admission_start_def admission_state_default_def)

lemma reject_counters: "as_live_flows (reject r st) = as_live_flows st" "as_concurrent_work (reject r st) = as_concurrent_work st"
  "as_dns_work (reject r st) = as_dns_work st" "as_principal_live (reject r st) = as_principal_live st"
  "as_target_live (reject r st) = as_target_live st" "as_outbound_live (reject r st) = as_outbound_live st"
  "as_outbound_connecting (reject r st) = as_outbound_connecting st" "as_target_connecting (reject r st) = as_target_connecting st"
  by (simp_all add: reject_def)

lemma refused_ok: "admission_ok limits w \<Longrightarrow> admission_ok limits (w\<lparr>aw_state := reject r (aw_state w)\<rparr>)"
  by (simp add: admission_inv_defs reject_counters)

lemma refusals_only_reject:
  "fst (try_admit_flow limits owner tgt st) = Inl r \<Longrightarrow> snd (try_admit_flow limits owner tgt st) = reject r st"
  "fst (try_begin_connect limits outbound f st) = Inl r \<Longrightarrow> snd (try_begin_connect limits outbound f st) = reject r st"
  "fst (try_admit_dns_work limits st) = Inl r \<Longrightarrow> snd (try_admit_dns_work limits st) = reject r st"
  by (auto simp: try_admit_flow_def try_begin_connect_def try_admit_dns_work_def split: if_splits)

lemma admit_ok:
  assumes "admission_ok limits w" "try_admit_flow limits owner tgt (aw_state w) = (Inr f, st)"
  shows "admission_ok limits (w\<lparr>aw_state := st, aw_pending := add_mset f (aw_pending w)\<rparr>)"
  using assms by (auto simp: admission_inv_defs try_admit_flow_def counts_get split: if_splits)

lemma begin_connect_ok:
  assumes "admission_ok limits w" "try_begin_connect limits outbound f (aw_state w) = (Inr c, st)"
  shows "admission_ok limits (w\<lparr>aw_state := st, aw_connects := add_mset c (aw_connects w)\<rparr>)"
  using assms by (auto simp: admission_inv_defs try_begin_connect_def counts_get split: if_splits)

lemma admit_dns_ok:
  assumes "admission_ok limits w" "try_admit_dns_work limits (aw_state w) = (Inr d, st)"
  shows "admission_ok limits (w\<lparr>aw_state := st, aw_dns := add_mset d (aw_dns w)\<rparr>)"
  using assms by (auto simp: admission_inv_defs try_admit_dns_work_def split: if_splits)

lemma established_ok:
  assumes "admission_ok limits w" "c \<in># aw_connects w" "connected c (aw_state w) = (out, st)"
  shows "admission_ok limits (w\<lparr>aw_state := st, aw_connects := aw_connects w - {#c#}, aw_outbounds := add_mset out (aw_outbounds w)\<rparr>)"
proof -
  obtain M where M: "aw_connects w = add_mset c M" using assms(2) by (blast dest: multi_member_split)
  show ?thesis using assms(1,3)
    by (auto simp: admission_inv_defs connected_def drop_connect_work_def decrement_exact_def M intro: Suc_leD split: if_splits)
qed

text \<open>A lease holds what its two permits held.\<close>

lemma same_held_ok:
  assumes "aw_state w' = aw_state w" "held_flows w' = held_flows w" "held_outbounds w' = held_outbounds w"
    "aw_connects w' = aw_connects w" "aw_dns w' = aw_dns w"
  shows "admission_ok limits w' = admission_ok limits w"
  by (simp add: admission_ok_def permits_active_def counters_exact_def limits_kept_def connecting_outbounds_def
      connecting_targets_def used_outbounds_def flow_principals_def flow_targets_def concurrent_work_def assms)

lemma committed_ok:
  assumes "admission_ok limits w" "f \<in># aw_pending w" "out \<in># aw_outbounds w" "commit_flow f out = Some l"
  shows "admission_ok limits (w\<lparr>aw_pending := aw_pending w - {#f#}, aw_outbounds := aw_outbounds w - {#out#},
          aw_leases := add_mset l (aw_leases w)\<rparr>)"
proof -
  have "fl_flow l = f" "fl_outbound l = out" using assms(4) by (auto simp: commit_flow_def split: if_splits)
  then show ?thesis using assms(1-3)
    by (subst same_held_ok [where w = w]) (simp_all add: held_flows_def held_outbounds_def)
qed

text \<open>A destructor removes its permit from every counter.\<close>

lemma drop_pending_ok:
  assumes "admission_ok limits w" "f \<in># aw_pending w"
  shows "admission_ok limits (w\<lparr>aw_state := drop_pending_flow f (aw_state w), aw_pending := aw_pending w - {#f#}\<rparr>)"
proof -
  obtain M where M: "aw_pending w = add_mset f M" using assms(2) by (blast dest: multi_member_split)
  show ?thesis using assms(1)
    by (auto simp: admission_inv_defs drop_pending_flow_def decrement_exact_def M intro: Suc_leD split: if_splits)
qed

lemma drop_connect_ok:
  assumes "admission_ok limits w" "c \<in># aw_connects w"
  shows "admission_ok limits (w\<lparr>aw_state := drop_connect_work c (aw_state w), aw_connects := aw_connects w - {#c#}\<rparr>)"
proof -
  obtain M where M: "aw_connects w = add_mset c M" using assms(2) by (blast dest: multi_member_split)
  show ?thesis using assms(1)
    by (auto simp: admission_inv_defs drop_connect_work_def decrement_exact_def M intro: Suc_leD split: if_splits)
qed

lemma drop_outbound_ok:
  assumes "admission_ok limits w" "out \<in># aw_outbounds w"
  shows "admission_ok limits (w\<lparr>aw_state := drop_outbound_flow out (aw_state w), aw_outbounds := aw_outbounds w - {#out#}\<rparr>)"
proof -
  obtain M where M: "aw_outbounds w = add_mset out M" using assms(2) by (blast dest: multi_member_split)
  show ?thesis using assms(1)
    by (auto simp: admission_inv_defs drop_outbound_flow_def M intro: Suc_leD split: if_splits)
qed

lemma drop_lease_ok:
  assumes "admission_ok limits w" "l \<in># aw_leases w"
  shows "admission_ok limits (w\<lparr>aw_state := drop_flow_lease l (aw_state w), aw_leases := aw_leases w - {#l#}\<rparr>)"
proof -
  obtain M where M: "aw_leases w = add_mset l M" using assms(2) by (blast dest: multi_member_split)
  let ?w = "w\<lparr>aw_pending := add_mset (fl_flow l) (aw_pending w), aw_outbounds := add_mset (fl_outbound l) (aw_outbounds w), aw_leases := M\<rparr>"
  have "admission_ok limits ?w"
    using assms(1) by (subst same_held_ok [where w = w]) (simp_all add: held_flows_def held_outbounds_def M)
  from drop_outbound_ok [OF drop_pending_ok [OF this, of "fl_flow l"], of "fl_outbound l"]
  show ?thesis using M by (cases w) (simp add: drop_flow_lease_def)
qed

lemma drop_dns_ok:
  assumes "admission_ok limits w" "d \<in># aw_dns w"
  shows "admission_ok limits (w\<lparr>aw_state := drop_dns_work d (aw_state w), aw_dns := aw_dns w - {#d#}\<rparr>)"
proof -
  obtain M where M: "aw_dns w = add_mset d M" using assms(2) by (blast dest: multi_member_split)
  show ?thesis using assms(1) by (auto simp: admission_inv_defs drop_dns_work_def decrement_exact_def M split: if_splits)
qed

lemma admission_step_ok: "admission_step limits w w' \<Longrightarrow> admission_ok limits w \<Longrightarrow> admission_ok limits w'"
proof (induction rule: admission_step.induct)
  case (admit_refused owner tgt w r st)
  then show ?case using refusals_only_reject(1) refused_ok by (metis fst_conv snd_conv)
next
  case (connect_refused f w outbound r st)
  then show ?case using refusals_only_reject(2) refused_ok by (metis fst_conv snd_conv)
next
  case (dns_refused w r st)
  then show ?case using refusals_only_reject(3) refused_ok by (metis fst_conv snd_conv)
qed (rule admit_ok begin_connect_ok admit_dns_ok established_ok committed_ok drop_pending_ok drop_connect_ok drop_outbound_ok
    drop_lease_ok drop_dns_ok; assumption)+

lemma admission_reach_ok: "admission_reach limits w \<Longrightarrow> admission_ok limits w"
  by (induction rule: rtranclp_induct) (blast intro: admission_ok_start admission_step_ok)+

lemma first_error_None: "first_error check xs = None \<longleftrightarrow> (\<forall>x \<in> set xs. check x = None)"
  by (induction xs) (auto split: option.splits)

lemma validated_limits:
  assumes "admission_new limits = Inr r"
  shows "max_live_flows limits \<le> MAX_PRODUCT_ADMISSION_LIMIT" "max_concurrent_work limits \<le> MAX_PRODUCT_ADMISSION_LIMIT"
proof -
  have "first_error bounded_limit
        [(''max_live_flows'', max_live_flows limits), (''max_concurrent_work'', max_concurrent_work limits),
         (''max_live_flows_per_principal'', max_live_flows_per_principal limits),
         (''max_live_flows_per_outbound'', max_live_flows_per_outbound limits),
         (''max_connects_per_outbound'', max_connects_per_outbound limits),
         (''max_live_flows_per_target'', max_live_flows_per_target limits),
         (''max_connects_per_target'', max_connects_per_target limits), (''max_dns_work'', max_dns_work limits)] = None"
    using assms unfolding admission_new_def admission_config_validate_def
    by (auto simp del: first_error.simps split: option.splits)
  then show "max_live_flows limits \<le> MAX_PRODUCT_ADMISSION_LIMIT" "max_concurrent_work limits \<le> MAX_PRODUCT_ADMISSION_LIMIT"
    unfolding first_error_None by (auto simp: bounded_limit_def split: if_splits)
qed

section \<open>Properties\<close>

definition nothing_held :: "admission_world \<Rightarrow> bool" where
  "nothing_held w \<longleftrightarrow> aw_pending w = {#} \<and> aw_connects w = {#} \<and> aw_outbounds w = {#} \<and> aw_leases w = {#} \<and> aw_dns w = {#}"

lemma nothing_held_default:
  assumes "counters_exact w" "nothing_held w"
  shows "aw_state w = admission_state_default\<lparr>as_rejections := as_rejections (aw_state w)\<rparr>"
proof -
  show ?thesis using assms
    by (cases "aw_state w") (simp add: counters_exact_def nothing_held_def held_defs admission_state_default_def counts_nothing)
qed

text \<open>C20. Whatever the order of admissions, connects, commits and destructors, every counter of the
  owner is the number of permits that are held for it, every limit of the configuration holds for
  the permits that are held, no counter leaves the range of its type, and an owner with no permit
  outstanding has returned to its initial state, its rejection statistics apart: nothing leaks.\<close>

theorem admission_counts_permits:
  assumes "admission_new limits = Inr (limits, st)" and "admission_reach limits w"
  shows "counters_exact w \<and> limits_kept limits w
    \<and> as_live_flows (aw_state w) \<le> MAX_PRODUCT_ADMISSION_LIMIT \<and> as_concurrent_work (aw_state w) \<le> MAX_PRODUCT_ADMISSION_LIMIT
    \<and> (nothing_held w \<longrightarrow> aw_state w = admission_state_default\<lparr>as_rejections := as_rejections (aw_state w)\<rparr>)"
proof -
  have ok: "counters_exact w" "limits_kept limits w"
    using admission_reach_ok [OF assms(2)] by (simp_all add: admission_ok_def)
  moreover have "as_live_flows (aw_state w) \<le> max_live_flows limits" "as_concurrent_work (aw_state w) \<le> max_concurrent_work limits"
    using ok by (simp_all add: counters_exact_def limits_kept_def)
  ultimately show ?thesis using validated_limits [OF assms(1)] nothing_held_default [OF ok(1)] by auto
qed

text \<open>The decision of an admission, over the permits that are held.\<close>

definition flow_refusal :: "admission_config \<Rightarrow> admission_world \<Rightarrow> policy_id \<Rightarrow> protocol_target \<Rightarrow> admission_rejection option" where
  "flow_refusal limits w owner tgt =
     (if size (held_flows w) = max_live_flows limits then Some GlobalLiveFlows
      else if count (flow_principals w) owner = max_live_flows_per_principal limits then Some PrincipalLiveFlows
      else if count (flow_targets w) tgt = max_live_flows_per_target limits then Some TargetLiveFlows
      else None)"

definition connect_refusal :: "admission_config \<Rightarrow> admission_world \<Rightarrow> outbound_id \<Rightarrow> protocol_target \<Rightarrow> admission_rejection option" where
  "connect_refusal limits w outbound tgt =
     (if concurrent_work w = max_concurrent_work limits then Some GlobalConcurrentWork
      else if count (used_outbounds w) outbound = max_live_flows_per_outbound limits then Some OutboundLiveFlows
      else if count (connecting_outbounds w) outbound = max_connects_per_outbound limits then Some OutboundConnects
      else if count (connecting_targets w) tgt = max_connects_per_target limits then Some TargetConnects
      else None)"

definition dns_refusal :: "admission_config \<Rightarrow> admission_world \<Rightarrow> admission_rejection option" where
  "dns_refusal limits w =
     (if concurrent_work w = max_concurrent_work limits then Some GlobalConcurrentWork
      else if size (aw_dns w) = max_dns_work limits then Some DnsWork
      else None)"

lemma flow_refusal_exact:
  assumes "admission_ok limits w"
  shows "fst (try_admit_flow limits owner tgt (aw_state w)) = (case flow_refusal limits w owner tgt of Some r \<Rightarrow> Inl r
     | None \<Rightarrow> Inr \<lparr>pf_principal = owner, pf_target = tgt, pf_active = True\<rparr>)"
proof -
  have e: "as_live_flows (aw_state w) = size (held_flows w)"
    "Mapping.lookup_default 0 (as_principal_live (aw_state w)) owner = count (flow_principals w) owner"
    "Mapping.lookup_default 0 (as_target_live (aw_state w)) tgt = count (flow_targets w) tgt"
    using assms by (simp_all add: admission_ok_def counters_exact_def counts_get)
  have "size (held_flows w) \<le> max_live_flows limits" "count (flow_principals w) owner \<le> max_live_flows_per_principal limits"
    "count (flow_targets w) tgt \<le> max_live_flows_per_target limits"
    using assms by (simp_all add: admission_ok_def limits_kept_def)
  then show ?thesis by (simp add: try_admit_flow_def flow_refusal_def e)
qed

lemma connect_refusal_exact:
  assumes "admission_ok limits w"
  shows "fst (try_begin_connect limits outbound f (aw_state w)) = (case connect_refusal limits w outbound (pf_target f) of Some r \<Rightarrow> Inl r
     | None \<Rightarrow> Inr \<lparr>cw_outbound = outbound, cw_target = pf_target f, cw_active = True\<rparr>)"
proof -
  have e: "as_concurrent_work (aw_state w) = concurrent_work w"
    "Mapping.lookup_default 0 (as_outbound_live (aw_state w)) outbound = count (used_outbounds w) outbound"
    "Mapping.lookup_default 0 (as_outbound_connecting (aw_state w)) outbound = count (connecting_outbounds w) outbound"
    "Mapping.lookup_default 0 (as_target_connecting (aw_state w)) (pf_target f) = count (connecting_targets w) (pf_target f)"
    using assms by (simp_all add: admission_ok_def counters_exact_def counts_get)
  have "concurrent_work w \<le> max_concurrent_work limits" "count (used_outbounds w) outbound \<le> max_live_flows_per_outbound limits"
    "count (connecting_outbounds w) outbound \<le> max_connects_per_outbound limits"
    "count (connecting_targets w) (pf_target f) \<le> max_connects_per_target limits"
    using assms by (simp_all add: admission_ok_def limits_kept_def)
  then show ?thesis by (simp add: try_begin_connect_def connect_refusal_def e)
qed

lemma dns_refusal_exact:
  assumes "admission_ok limits w"
  shows "fst (try_admit_dns_work limits (aw_state w)) = (case dns_refusal limits w of Some r \<Rightarrow> Inl r | None \<Rightarrow> Inr \<lparr>dw_active = True\<rparr>)"
  using assms by (auto simp: try_admit_dns_work_def dns_refusal_def admission_ok_def counters_exact_def limits_kept_def)

text \<open>C21. The admissions decide by the permits that are held: in every reachable state each of them
  is granted unless one of its limits is used up, it reports the first such limit, and a refusal
  changes nothing but the statistics.\<close>

theorem admission_decides_by_permits:
  assumes "admission_reach limits w"
  shows "fst (try_admit_flow limits owner tgt (aw_state w)) = (case flow_refusal limits w owner tgt of Some r \<Rightarrow> Inl r
        | None \<Rightarrow> Inr \<lparr>pf_principal = owner, pf_target = tgt, pf_active = True\<rparr>)
    \<and> fst (try_begin_connect limits outbound f (aw_state w)) = (case connect_refusal limits w outbound (pf_target f) of Some r \<Rightarrow> Inl r
        | None \<Rightarrow> Inr \<lparr>cw_outbound = outbound, cw_target = pf_target f, cw_active = True\<rparr>)
    \<and> fst (try_admit_dns_work limits (aw_state w)) = (case dns_refusal limits w of Some r \<Rightarrow> Inl r | None \<Rightarrow> Inr \<lparr>dw_active = True\<rparr>)
    \<and> (flow_refusal limits w owner tgt = Some r \<longrightarrow> snd (try_admit_flow limits owner tgt (aw_state w)) = reject r (aw_state w))
    \<and> (connect_refusal limits w outbound (pf_target f) = Some r
         \<longrightarrow> snd (try_begin_connect limits outbound f (aw_state w)) = reject r (aw_state w))
    \<and> (dns_refusal limits w = Some r \<longrightarrow> snd (try_admit_dns_work limits (aw_state w)) = reject r (aw_state w))"
proof -
  note ok = admission_reach_ok [OF assms]
  note exact = flow_refusal_exact [OF ok, of owner tgt] connect_refusal_exact [OF ok, of outbound f] dns_refusal_exact [OF ok]
  then show ?thesis by (auto intro: refusals_only_reject)
qed

text \<open>An owner that grants one flow per principal, and the principal of the one flow it has granted.\<close>

definition ex_admission_limits :: admission_config where
  "ex_admission_limits = admission_config_default\<lparr>max_live_flows_per_principal := 1\<rparr>"

definition ex_target :: protocol_target where
  "ex_target = \<lparr>pt_host = HostIp (IpV4 [192, 0, 2, 1]), pt_port = 443\<rparr>"

definition ex_granted :: admission_world where
  "ex_granted = (let r = try_admit_flow ex_admission_limits [97] ex_target admission_state_default
     in admission_start\<lparr>aw_state := snd r, aw_pending := {#projr (fst r)#}\<rparr>)"

lemma ex_admission_new: "admission_new ex_admission_limits = Inr (ex_admission_limits, admission_state_default)"
  by (simp add: admission_new_def admission_config_validate_def ex_admission_limits_def admission_config_default_def
      bounded_limit_def within_limit_def MAX_PRODUCT_ADMISSION_LIMIT_def)

lemma ex_granted_pending: "aw_pending ex_granted = {#\<lparr>pf_principal = [97], pf_target = ex_target, pf_active = True\<rparr>#}"
  by (simp add: ex_granted_def ex_admission_limits_def admission_config_default_def try_admit_flow_def admission_state_default_def
      lookup_default_empty)

lemma ex_granted_reach: "admission_reach ex_admission_limits ex_granted"
proof -
  let ?r = "try_admit_flow ex_admission_limits [97] ex_target (aw_state admission_start)"
  have "?r = (Inr \<lparr>pf_principal = [97], pf_target = ex_target, pf_active = True\<rparr>, snd ?r)"
    by (simp add: ex_admission_limits_def admission_config_default_def try_admit_flow_def admission_state_default_def
        admission_start_def lookup_default_empty)
  from admission_step.admit [OF this] have "admission_step ex_admission_limits admission_start ex_granted"
    by (simp add: ex_granted_def admission_start_def Let_def ex_admission_limits_def admission_config_default_def
        try_admit_flow_def admission_state_default_def lookup_default_empty)
  then show ?thesis by blast
qed

theorem admission_counts_permits_witness:
  "as_live_flows (aw_state ex_granted) = 1 \<and> counts (as_principal_live (aw_state ex_granted)) {#[97]#}"
  using admission_counts_permits [OF ex_admission_new ex_granted_reach]
  by (simp add: counters_exact_def held_defs ex_granted_pending) (simp add: ex_granted_def admission_start_def Let_def)

theorem admission_decides_by_permits_witness:
  "fst (try_admit_flow ex_admission_limits [97] ex_target (aw_state ex_granted)) = Inl PrincipalLiveFlows"
proof -
  have "flow_refusal ex_admission_limits ex_granted [97] ex_target = Some PrincipalLiveFlows"
    by (simp add: flow_refusal_def held_defs ex_granted_pending) (simp add: ex_granted_def admission_start_def Let_def ex_admission_limits_def admission_config_default_def)
  then show ?thesis using admission_decides_by_permits [OF ex_granted_reach, of "[97]" ex_target] by simp
qed

end
