(* ===== verification/Ip_Packets.thy ===== *)
theory Ip_Packets
  imports Wire_Types
begin

text \<open>
  The parser of IP packets of the layer-3 service, \<open>src/src/model/tun_l3.rs\<close>. It reads the two
  addresses and a key by which the packets of one flow keep to one carrier.

  The second half is a grammar of IPv4 and IPv6 packets as concatenations of fields. The parser
  accepts exactly the packets of the grammar, and reads what the grammar says they carry. The grammar
  says it in its own terms: none of the parser's functions occurs in it.
\<close>

unbundle bit_operations_syntax

section \<open>The parser\<close>

datatype flow_discriminator = Ports u16 u16 | Fragment u32 | Icmp u8 u8 u16 | NoDiscriminator

record ip_packet_flow_key =
  fk_source :: ip_addr
  fk_destination :: ip_addr
  fk_next_header :: u8
  fk_discriminator :: flow_discriminator

record ip_packet_metadata =
  md_source :: ip_addr
  md_destination :: ip_addr
  md_flow_key :: ip_packet_flow_key

datatype ip_packet_error = PacketTruncated | UnsupportedVersion u8 | InvalidHeader | InvalidLength | UnsupportedJumbogram

definition metadata :: "ip_addr \<Rightarrow> ip_addr \<Rightarrow> u8 \<Rightarrow> flow_discriminator \<Rightarrow> ip_packet_metadata" where
  "metadata src dst next_header d =
     \<lparr>md_source = src, md_destination = dst,
      md_flow_key = \<lparr>fk_source = src, fk_destination = dst, fk_next_header = next_header, fk_discriminator = d\<rparr>\<rparr>"

definition transport_discriminator :: "u8 \<Rightarrow> bytes \<Rightarrow> flow_discriminator" where
  "transport_discriminator next_header payload =
     (if next_header \<in> {6, 17, 132} \<and> length payload \<ge> 4
      then Ports (be_nat [payload ! 0, payload ! 1]) (be_nat [payload ! 2, payload ! 3])
      else if next_header \<in> {1, 58} \<and> length payload \<ge> 8
      then Icmp (payload ! 0) (payload ! 1) (be_nat [payload ! 4, payload ! 5])
      else NoDiscriminator)"

definition parse_ipv4_packet :: "bytes \<Rightarrow> ip_packet_error + ip_packet_metadata" where
  "parse_ipv4_packet packet =
     (if length packet < 20 then Inl PacketTruncated
      else
        let header_len = unat (packet ! 0 AND 0x0F) * 4
        in if header_len < 20 \<or> header_len > length packet then Inl InvalidHeader
           else
             let total_len = be_nat [packet ! 2, packet ! 3]
             in if total_len \<noteq> length packet \<or> total_len < header_len then Inl InvalidLength
                else
                  let src = IpV4 [packet ! 12, packet ! 13, packet ! 14, packet ! 15];
                      dst = IpV4 [packet ! 16, packet ! 17, packet ! 18, packet ! 19];
                      next_header = packet ! 9;
                      fragment = be_nat [packet ! 6, packet ! 7];
                      fragment_offset = fragment AND 0x1FFF;
                      more_fragments = (fragment AND 0x2000 \<noteq> 0);
                      d = (if fragment_offset \<noteq> 0 \<or> more_fragments then Fragment (be_nat [packet ! 4, packet ! 5])
                           else transport_discriminator next_header (drop header_len packet))
                  in Inr (metadata src dst next_header d))"

text \<open>The slice access \<open>packet.get(a..a + n)\<close>.\<close>

definition get_slice :: "bytes \<Rightarrow> usize \<Rightarrow> usize \<Rightarrow> bytes option" where
  "get_slice bs a n = (if a + n \<le> length bs then Some (take n (drop a bs)) else None)"

text \<open>The loop over IPv6 extension headers returns at a fragment header, and otherwise stops with the
  transport header and its offset.\<close>

datatype ipv6_scan = AtFragment u8 u32 | AtTransport u8 usize

definition extension_header :: "bytes \<Rightarrow> u8 \<Rightarrow> usize \<Rightarrow> ip_packet_error + (u8 \<times> usize) option" where
  "extension_header packet next_header offset =
     (if next_header \<in> {0, 43, 60} then
        (case get_slice packet offset 2 of
           None \<Rightarrow> Inl PacketTruncated
         | Some header \<Rightarrow> Inr (Some (header ! 0, (unat (header ! 1) + 1) * 8)))
      else if next_header = 51 then
        (case get_slice packet offset 2 of
           None \<Rightarrow> Inl PacketTruncated
         | Some header \<Rightarrow> Inr (Some (header ! 0, (unat (header ! 1) + 2) * 4)))
      else Inr None)"

function scan_ipv6 :: "bytes \<Rightarrow> u8 \<Rightarrow> usize \<Rightarrow> ip_packet_error + ipv6_scan" where
  "scan_ipv6 packet next_header offset =
     (if next_header = 44 then
        (case get_slice packet offset 8 of
           None \<Rightarrow> Inl PacketTruncated
         | Some header \<Rightarrow> Inr (AtFragment (header ! 0) (be_nat (drop 4 header))))
      else
        (case extension_header packet next_header offset of
           Inl e \<Rightarrow> Inl e
         | Inr None \<Rightarrow> Inr (AtTransport next_header offset)
         | Inr (Some (following, extension_len)) \<Rightarrow>
             (case checked_add offset extension_len of
                None \<Rightarrow> Inl PacketTruncated
              | Some next_offset \<Rightarrow>
                  if next_offset \<le> length packet then scan_ipv6 packet following next_offset else Inl PacketTruncated)))"
  by pat_completeness auto

text \<open>Every extension header advances the offset, which stays within the packet.\<close>

termination scan_ipv6
  by (relation "measure (\<lambda>(packet, next_header, offset). Suc (length packet) - offset)")
    (auto simp: extension_header_def checked_add_def split: if_splits option.splits)

definition parse_ipv6_packet :: "bytes \<Rightarrow> ip_packet_error + ip_packet_metadata" where
  "parse_ipv6_packet packet =
     (if length packet < 40 then Inl PacketTruncated
      else
        let payload_len = be_nat [packet ! 4, packet ! 5]
        in if payload_len = 0 \<and> length packet \<noteq> 40 then Inl UnsupportedJumbogram
           else if payload_len \<noteq> 0 \<and> length packet \<noteq> 40 + payload_len then Inl InvalidLength
           else
             let src = IpV6 (bslice 8 24 packet);
                 dst = IpV6 (bslice 24 40 packet)
             in (case scan_ipv6 packet (packet ! 6) 40 of
                   Inl e \<Rightarrow> Inl e
                 | Inr (AtFragment next_header fragment_id) \<Rightarrow> Inr (metadata src dst next_header (Fragment fragment_id))
                 | Inr (AtTransport next_header offset) \<Rightarrow>
                     Inr (metadata src dst next_header (transport_discriminator next_header (drop offset packet)))))"

definition parse_ip_packet :: "bytes \<Rightarrow> ip_packet_error + ip_packet_metadata" where
  "parse_ip_packet packet =
     (case packet of
        [] \<Rightarrow> Inl PacketTruncated
      | b # _ \<Rightarrow>
          let version = drop_bit 4 b
          in if version = 4 then parse_ipv4_packet packet
             else if version = 6 then parse_ipv6_packet packet
             else Inl (UnsupportedVersion version))"

section \<open>The grammar\<close>

text \<open>The protocol numbers whose headers the flow key reads.\<close>

definition PROTO_ICMP :: u8 where "PROTO_ICMP = 1"
definition PROTO_TCP :: u8 where "PROTO_TCP = 6"
definition PROTO_UDP :: u8 where "PROTO_UDP = 17"
definition PROTO_ICMPV6 :: u8 where "PROTO_ICMPV6 = 58"
definition PROTO_SCTP :: u8 where "PROTO_SCTP = 132"

lemmas proto_defs = PROTO_ICMP_def PROTO_TCP_def PROTO_UDP_def PROTO_ICMPV6_def PROTO_SCTP_def

text \<open>What a transport header says of its flow. TCP, UDP and SCTP headers start with the source port and the
  destination port. An ICMP message has a type, a code, a checksum and, in the header's second word,
  an identifier and a sequence number. A header that is cut short, and any other protocol, says nothing.\<close>

inductive transport_key :: "u8 \<Rightarrow> bytes \<Rightarrow> flow_discriminator \<Rightarrow> bool" where
  ports: "proto \<in> {PROTO_TCP, PROTO_UDP, PROTO_SCTP}
     \<Longrightarrow> transport_key proto (src_hi # src_lo # dst_hi # dst_lo # rest)
           (Ports (256 * unat src_hi + unat src_lo) (256 * unat dst_hi + unat dst_lo))"
| icmp: "proto \<in> {PROTO_ICMP, PROTO_ICMPV6}
     \<Longrightarrow> transport_key proto (kind # code # sum_hi # sum_lo # id_hi # id_lo # seq_hi # seq_lo # rest)
           (Icmp kind code (256 * unat id_hi + unat id_lo))"
| cut_ports: "proto \<in> {PROTO_TCP, PROTO_UDP, PROTO_SCTP} \<Longrightarrow> length payload < 4 \<Longrightarrow> transport_key proto payload NoDiscriminator"
| cut_icmp: "proto \<in> {PROTO_ICMP, PROTO_ICMPV6} \<Longrightarrow> length payload < 8 \<Longrightarrow> transport_key proto payload NoDiscriminator"
| other: "proto \<notin> {PROTO_TCP, PROTO_UDP, PROTO_SCTP, PROTO_ICMP, PROTO_ICMPV6} \<Longrightarrow> transport_key proto payload NoDiscriminator"

text \<open>A chain of extension headers in front of a transport header. Hop-by-hop options, routing and
  destination options are 8 bytes per unit of their length field after the first unit; an
  authentication header is 4 bytes per unit after the first two.\<close>

inductive ext_chain :: "u8 \<Rightarrow> bytes \<Rightarrow> u8 \<Rightarrow> flow_discriminator \<Rightarrow> bool" where
  transport: "next_header \<notin> {0, 43, 60, 44, 51} \<Longrightarrow> transport_key next_header payload d
     \<Longrightarrow> ext_chain next_header payload next_header d"
| options: "next_header \<in> {0, 43, 60} \<Longrightarrow> length body + 2 = (unat len + 1) * 8 \<Longrightarrow> ext_chain following payload final d
     \<Longrightarrow> ext_chain next_header (following # len # body @ payload) final d"
| authentication: "length body + 2 = (unat len + 2) * 4 \<Longrightarrow> ext_chain following payload final d
     \<Longrightarrow> ext_chain 51 (following # len # body @ payload) final d"
| fragment: "length offset_field = 3 \<Longrightarrow> length ident = 4
     \<Longrightarrow> ext_chain 44 (final # offset_field @ ident @ payload) final (Fragment (be_nat ident))"

definition ipv6_packet :: "bytes \<Rightarrow> ip_packet_metadata \<Rightarrow> bool" where
  "ipv6_packet packet md \<longleftrightarrow> (\<exists>header src dst payload final d. packet = header @ src @ dst @ payload
     \<and> length header = 8 \<and> length src = 16 \<and> length dst = 16 \<and> drop_bit 4 (header ! 0) = 6
     \<and> be_nat [header ! 4, header ! 5] = length payload
     \<and> ext_chain (header ! 6) payload final d
     \<and> md = \<lparr>md_source = IpV6 src, md_destination = IpV6 dst,
             md_flow_key = \<lparr>fk_source = IpV6 src, fk_destination = IpV6 dst, fk_next_header = final, fk_discriminator = d\<rparr>\<rparr>)"

text \<open>A packet that is a fragment, by its offset or the flag for more fragments, is keyed by the
  identification of its datagram, for the ports are in the first fragment only.\<close>

definition ipv4_packet :: "bytes \<Rightarrow> ip_packet_metadata \<Rightarrow> bool" where
  "ipv4_packet packet md \<longleftrightarrow> (\<exists>header src dst options payload d. packet = header @ src @ dst @ options @ payload
     \<and> length header = 12 \<and> length src = 4 \<and> length dst = 4 \<and> drop_bit 4 (header ! 0) = 4
     \<and> unat (header ! 0 AND 0x0F) * 4 = 20 + length options \<and> be_nat [header ! 2, header ! 3] = length packet
     \<and> (if be_nat [header ! 6, header ! 7] AND 0x1FFF = 0 \<and> be_nat [header ! 6, header ! 7] AND 0x2000 = 0
        then transport_key (header ! 9) payload d else d = Fragment (be_nat [header ! 4, header ! 5]))
     \<and> md = \<lparr>md_source = IpV4 src, md_destination = IpV4 dst,
             md_flow_key = \<lparr>fk_source = IpV4 src, fk_destination = IpV4 dst, fk_next_header = header ! 9, fk_discriminator = d\<rparr>\<rparr>)"

section \<open>The transport header\<close>

lemma be_nat_two: "be_nat [hi, lo] = 256 * unat hi + unat lo"
  by (simp add: be_nat_def)

lemma four_bytes_list: "4 \<le> length bs \<Longrightarrow> bs = bs ! 0 # bs ! 1 # bs ! 2 # bs ! 3 # drop 4 bs"
  by (cases bs; cases "tl bs"; cases "tl (tl bs)"; cases "tl (tl (tl bs))") auto

lemma eight_bytes_list:
  assumes "8 \<le> length bs"
  shows "bs = bs ! 0 # bs ! 1 # bs ! 2 # bs ! 3 # bs ! 4 # bs ! 5 # bs ! 6 # bs ! 7 # drop 8 bs"
  using four_bytes_list [of bs] four_bytes_list [of "drop 4 bs"] assms by simp

lemma transport_key_iff: "transport_key proto payload d \<longleftrightarrow> d = transport_discriminator proto payload"
proof
  assume "transport_key proto payload d"
  then show "d = transport_discriminator proto payload"
    by cases (auto simp: transport_discriminator_def proto_defs be_nat_two)
next
  assume d: "d = transport_discriminator proto payload"
  consider (ports) "proto \<in> {PROTO_TCP, PROTO_UDP, PROTO_SCTP}" "4 \<le> length payload"
    | (icmp) "proto \<in> {PROTO_ICMP, PROTO_ICMPV6}" "8 \<le> length payload"
    | (none) "proto \<in> {PROTO_TCP, PROTO_UDP, PROTO_SCTP} \<and> length payload < 4
        \<or> proto \<in> {PROTO_ICMP, PROTO_ICMPV6} \<and> length payload < 8
        \<or> proto \<notin> {PROTO_TCP, PROTO_UDP, PROTO_SCTP, PROTO_ICMP, PROTO_ICMPV6}"
    by fastforce
  then show "transport_key proto payload d"
  proof cases
    case ports
    have "d = Ports (256 * unat (payload ! 0) + unat (payload ! 1)) (256 * unat (payload ! 2) + unat (payload ! 3))"
      using ports d by (auto simp: transport_discriminator_def proto_defs be_nat_two)
    then show ?thesis using transport_key.ports [OF ports(1)] four_bytes_list [OF ports(2)] by metis
  next
    case icmp
    have "d = Icmp (payload ! 0) (payload ! 1) (256 * unat (payload ! 4) + unat (payload ! 5))"
      using icmp d by (auto simp: transport_discriminator_def proto_defs be_nat_two)
    then show ?thesis using transport_key.icmp [OF icmp(1)] eight_bytes_list [OF icmp(2)] by metis
  next
    case none
    then have "d = NoDiscriminator" using d by (auto simp: transport_discriminator_def proto_defs)
    then show ?thesis using none transport_key.cut_ports transport_key.cut_icmp transport_key.other by blast
  qed
qed

section \<open>The loop follows the chain\<close>

lemma two_bytes_split:
  assumes "2 \<le> n" "n \<le> length bs"
  shows "bs = bs ! 0 # bs ! 1 # take (n - 2) (drop 2 bs) @ drop n bs"
proof -
  obtain x y r where bs: "bs = x # y # r" using assms by (cases bs; cases "tl bs") auto
  obtain m where "n = Suc (Suc m)" using assms(1) by (metis Suc_le_D add_2_eq_Suc le_Suc_ex)
  then show ?thesis by (simp add: bs)
qed

text \<open>A header of \<open>n\<close> bytes, its length included.\<close>

definition chain_step :: "nat \<Rightarrow> bytes \<Rightarrow> u8 \<Rightarrow> flow_discriminator \<Rightarrow> bool" where
  "chain_step n bs final d \<longleftrightarrow> 2 \<le> length bs \<and> n \<le> length bs \<and> ext_chain (bs ! 0) (drop n bs) final d"

lemma chain_options:
  assumes "nh \<in> {0, 43, 60}"
  shows "ext_chain nh bs final d \<longleftrightarrow> chain_step ((unat (bs ! 1) + 1) * 8) bs final d"
proof
  assume "ext_chain nh bs final d"
  then show "chain_step ((unat (bs ! 1) + 1) * 8) bs final d"
  proof cases
    case (options body len following payload)
    then have "drop ((unat len + 1) * 8) bs = payload" by (metis add_2_eq_Suc' append_Cons append_eq_conv_conj length_Cons)
    then show ?thesis using options by (simp add: chain_step_def)
  qed (use assms in auto)
next
  let ?n = "(unat (bs ! 1) + 1) * 8"
  assume c: "chain_step ?n bs final d"
  have "ext_chain nh (bs ! 0 # bs ! 1 # take (?n - 2) (drop 2 bs) @ drop ?n bs) final d"
    using c by (intro ext_chain.options [OF assms]) (auto simp: chain_step_def)
  then show "ext_chain nh bs final d" using two_bytes_split [of ?n bs] c by (simp add: chain_step_def)
qed

lemma chain_authentication: "ext_chain 51 bs final d \<longleftrightarrow> chain_step ((unat (bs ! 1) + 2) * 4) bs final d"
proof
  assume "ext_chain 51 bs final d"
  then show "chain_step ((unat (bs ! 1) + 2) * 4) bs final d"
  proof cases
    case (authentication body len following payload)
    then have "drop ((unat len + 2) * 4) bs = payload" by (metis add_2_eq_Suc' append_Cons append_eq_conv_conj length_Cons)
    then show ?thesis using authentication by (simp add: chain_step_def)
  qed auto
next
  let ?n = "(unat (bs ! 1) + 2) * 4"
  assume c: "chain_step ?n bs final d"
  have "ext_chain 51 (bs ! 0 # bs ! 1 # take (?n - 2) (drop 2 bs) @ drop ?n bs) final d"
    using c by (intro ext_chain.authentication) (auto simp: chain_step_def)
  then show "ext_chain 51 bs final d" using two_bytes_split [of ?n bs] c by (simp add: chain_step_def)
qed

lemma chain_fragment:
  "ext_chain 44 bs final d \<longleftrightarrow> 8 \<le> length bs \<and> final = bs ! 0 \<and> d = Fragment (be_nat (take 4 (drop 4 bs)))"
proof
  assume "ext_chain 44 bs final d"
  then show "8 \<le> length bs \<and> final = bs ! 0 \<and> d = Fragment (be_nat (take 4 (drop 4 bs)))"
    by cases auto
next
  assume r: "8 \<le> length bs \<and> final = bs ! 0 \<and> d = Fragment (be_nat (take 4 (drop 4 bs)))"
  then obtain x t where bs: "bs = x # t" by (cases bs) auto
  have "t = take 3 t @ take 4 (drop 3 t) @ drop 7 t" 
    using append_take_drop_id [of 3 t] append_take_drop_id [of 4 "drop 3 t"] by simp
  moreover have "ext_chain 44 (x # take 3 t @ take 4 (drop 3 t) @ drop 7 t) x (Fragment (be_nat (take 4 (drop 3 t))))"
    using r by (intro ext_chain.fragment) (auto simp: bs)
  ultimately show "ext_chain 44 bs final d" using r by (simp add: bs)
qed

lemma chain_transport:
  "nh \<notin> {0, 43, 60, 44, 51} \<Longrightarrow> ext_chain nh bs final d \<longleftrightarrow> final = nh \<and> d = transport_discriminator nh bs"
  by (auto simp: transport_key_iff intro: ext_chain.transport elim: ext_chain.cases)

fun scanned :: "bytes \<Rightarrow> ipv6_scan \<Rightarrow> u8 \<times> flow_discriminator" where
  "scanned packet (AtFragment next_header ident) = (next_header, Fragment ident)"
| "scanned packet (AtTransport next_header offset) = (next_header, transport_discriminator next_header (drop offset packet))"

lemma get_slice_drop: "0 < n \<Longrightarrow> get_slice packet offset n = (if n \<le> length (drop offset packet) then Some (take n (drop offset packet)) else None)"
  by (auto simp: get_slice_def)

declare scan_ipv6.simps [simp del]

text \<open>One extension header, in the loop and in the chain.\<close>

lemma extension_header_chain:
  assumes "nh \<noteq> 44"
  shows "extension_header packet nh offset = Inl e \<Longrightarrow> \<not> ext_chain nh (drop offset packet) final d"
    "extension_header packet nh offset = Inr None \<Longrightarrow>
       ext_chain nh (drop offset packet) final d \<longleftrightarrow> final = nh \<and> d = transport_discriminator nh (drop offset packet)"
    "extension_header packet nh offset = Inr (Some (following, n)) \<Longrightarrow>
       ext_chain nh (drop offset packet) final d \<longleftrightarrow> offset + n \<le> length packet \<and> ext_chain following (drop (offset + n) packet) final d"
    "extension_header packet nh offset = Inr (Some (following, n)) \<Longrightarrow> n \<le> 2048 \<and> offset \<le> length packet"
proof -
  consider (options) "nh \<in> {0, 43, 60}" | (authentication) "nh = 51" | (transport) "nh \<notin> {0, 43, 60, 44, 51}"
    using assms by blast
  then show "extension_header packet nh offset = Inl e \<Longrightarrow> \<not> ext_chain nh (drop offset packet) final d"
    by cases (auto simp: extension_header_def get_slice_drop chain_options chain_authentication chain_step_def split: if_splits)
  show "extension_header packet nh offset = Inr None \<Longrightarrow>
       ext_chain nh (drop offset packet) final d \<longleftrightarrow> final = nh \<and> d = transport_discriminator nh (drop offset packet)"
    using chain_transport [of nh] assms by (auto simp: extension_header_def split: if_splits option.splits)
  show "extension_header packet nh offset = Inr (Some (following, n)) \<Longrightarrow>
       ext_chain nh (drop offset packet) final d \<longleftrightarrow> offset + n \<le> length packet \<and> ext_chain following (drop (offset + n) packet) final d"
    using chain_options [of nh "drop offset packet"] chain_authentication [of "drop offset packet"]
    by (auto simp: extension_header_def get_slice_drop chain_step_def add.commute split: if_splits)
  have bound: "unat (b :: byte) \<le> 255" for b using unat_byte_less [of b] by linarith
  show "extension_header packet nh offset = Inr (Some (following, n)) \<Longrightarrow> n \<le> 2048 \<and> offset \<le> length packet"
    using bound [of "packet ! Suc offset"] by (auto simp: extension_header_def get_slice_def split: if_splits)
qed

lemma scan_follows_chain:
  assumes "length packet + 2048 \<le> u64_max"
  shows "(\<exists>sc. scan_ipv6 packet next_header offset = Inr sc \<and> scanned packet sc = (final, d)) \<longleftrightarrow> ext_chain next_header (drop offset packet) final d"
  using assms
proof (induction packet next_header offset rule: scan_ipv6.induct)
  case (1 packet nh offset)
  show ?case
  proof (cases "nh = 44")
    case True
    then show ?thesis by (auto simp: scan_ipv6.simps [of packet 44] chain_fragment get_slice_drop drop_take)
  next
    case False
    note h = extension_header_chain [OF False, of packet offset]
    consider e where "extension_header packet nh offset = Inl e" | "extension_header packet nh offset = Inr None"
      | following n where "extension_header packet nh offset = Inr (Some (following, n))"
      by (metis old.sum.exhaust option.exhaust surj_pair)
    then show ?thesis
    proof cases
      case 1
      then show ?thesis using h(1) False by (simp add: scan_ipv6.simps [of packet nh])
    next
      case 2
      then show ?thesis using h(2) False by (auto simp: scan_ipv6.simps [of packet nh])
    next
      case (3 following n)
      have a: "checked_add offset n = Some (offset + n)" using h(4) [OF 3] 1(2) by (simp add: checked_add_def)
      show ?thesis
        using h(3) [OF 3, of final d] "1.IH" [OF False 3 refl refl a] 1(2) False
        by (simp add: scan_ipv6.simps [of packet nh] 3 a)
    qed
  qed
qed

section \<open>The parser accepts the grammar\<close>

lemma ipv6_packet_fields:
  "ipv6_packet p md \<longleftrightarrow> 40 \<le> length p \<and> drop_bit 4 (p ! 0) = 6 \<and> be_nat [p ! 4, p ! 5] = length p - 40
     \<and> (\<exists>final d. ext_chain (p ! 6) (drop 40 p) final d \<and> md = metadata (IpV6 (bslice 8 24 p)) (IpV6 (bslice 24 40 p)) final d)"
    (is "_ \<longleftrightarrow> ?fields")
proof
  assume "ipv6_packet p md"
  then show ?fields by (auto simp: ipv6_packet_def metadata_def bslice_def nth_append)
next
  assume f: ?fields
  have "p = take 8 p @ bslice 8 24 p @ bslice 24 40 p @ drop 40 p"
    using append_take_drop_id [of 8 p] append_take_drop_id [of 16 "drop 8 p"] append_take_drop_id [of 16 "drop 24 p"]
    by (simp add: bslice_def)
  with f show "ipv6_packet p md"
    unfolding ipv6_packet_def by (intro exI [of _ "take 8 p"] exI [of _ "bslice 8 24 p"] exI [of _ "bslice 24 40 p"] exI [of _ "drop 40 p"]) (auto simp: metadata_def)
qed

lemma parse_ipv6_exact: "drop_bit 4 (p ! 0) = 6 \<Longrightarrow> parse_ipv6_packet p = Inr md \<longleftrightarrow> ipv6_packet p md"
proof (cases "40 \<le> length p \<and> be_nat [p ! 4, p ! 5] = length p - 40")
  case True
  assume v: "drop_bit 4 (p ! 0) = 6"
  have "be_nat [p ! 4, p ! 5] < 65536" using be_nat_less [of "[p ! 4, p ! 5]"] by simp
  then have "length p + 2048 \<le> u64_max" using True by (simp add: u64_max_def)
  note chain = scan_follows_chain [OF this, of "p ! 6" 40]
  have "parse_ipv6_packet p = Inr md \<longleftrightarrow> (\<exists>sc. scan_ipv6 p (p ! 6) 40 = Inr sc
      \<and> md = metadata (IpV6 (bslice 8 24 p)) (IpV6 (bslice 24 40 p)) (fst (scanned p sc)) (snd (scanned p sc)))"
    using True by (auto simp: parse_ipv6_packet_def Let_def split: sum.splits ipv6_scan.splits)
  also have "\<dots> \<longleftrightarrow> ipv6_packet p md" 
    unfolding ipv6_packet_fields chain [symmetric] using True v by (metis prod.collapse fst_conv snd_conv)
  finally show ?thesis .
next
  case False
  then show ?thesis by (auto simp: ipv6_packet_fields parse_ipv6_packet_def Let_def)
qed

lemma ipv4_packet_fields:
  "ipv4_packet p md \<longleftrightarrow> 20 \<le> length p \<and> drop_bit 4 (p ! 0) = 4 \<and> 20 \<le> unat (p ! 0 AND 0x0F) * 4
     \<and> unat (p ! 0 AND 0x0F) * 4 \<le> length p \<and> be_nat [p ! 2, p ! 3] = length p
     \<and> md = metadata (IpV4 (bslice 12 16 p)) (IpV4 (bslice 16 20 p)) (p ! 9)
          (if be_nat [p ! 6, p ! 7] AND 0x1FFF = 0 \<and> be_nat [p ! 6, p ! 7] AND 0x2000 = 0
           then transport_discriminator (p ! 9) (drop (unat (p ! 0 AND 0x0F) * 4) p) else Fragment (be_nat [p ! 4, p ! 5]))"
    (is "_ \<longleftrightarrow> ?fields")
proof
  assume "ipv4_packet p md"
  then show ?fields by (auto simp: ipv4_packet_def metadata_def transport_key_iff bslice_def nth_append split: if_splits)
next
  assume f: ?fields
  let ?n = "unat (p ! 0 AND 0x0F) * 4"
  have "p = take 12 p @ bslice 12 16 p @ bslice 16 20 p @ bslice 20 ?n p @ drop ?n p"
    using append_take_drop_id [of 12 p] append_take_drop_id [of 4 "drop 12 p"] append_take_drop_id [of 4 "drop 16 p"]
      append_take_drop_id [of "?n - 20" "drop 20 p"] f
    by (simp add: bslice_def)
  with f show "ipv4_packet p md"
    unfolding ipv4_packet_def metadata_def transport_key_iff by (intro exI [of _ "take 12 p"] exI [of _ "bslice 12 16 p"] exI [of _ "bslice 16 20 p"]
        exI [of _ "bslice 20 ?n p"] exI [of _ "drop ?n p"]) auto
qed

lemma four_bytes: "n + 4 \<le> length p \<Longrightarrow> bslice n (n + 4) p = [p ! n, p ! (n + 1), p ! (n + 2), p ! (n + 3)]"
  by (rule nth_equalityI) (auto simp: bslice_def less_Suc_eq numeral_eq_Suc)

lemma parse_ipv4_exact: "drop_bit 4 (p ! 0) = 4 \<Longrightarrow> parse_ipv4_packet p = Inr md \<longleftrightarrow> ipv4_packet p md"
  using four_bytes [of 12 p] four_bytes [of 16 p]
  by (auto simp: ipv4_packet_fields parse_ipv4_packet_def Let_def)

text \<open>C17. The parser accepts exactly the well-formed IPv4 and IPv6 packets, IPv6 extension headers in any
  number and order included, and reads from each of them its addresses and its flow key: the ports of
  a TCP, UDP or SCTP header, the type, code and identifier of an ICMP or ICMPv6 header, or the
  identification of the datagram that a fragment belongs to.\<close>

theorem parse_ip_packet_exact: "parse_ip_packet p = Inr md \<longleftrightarrow> ipv4_packet p md \<or> ipv6_packet p md"
proof (cases p)
  case Nil
  then show ?thesis by (simp add: parse_ip_packet_def ipv4_packet_fields ipv6_packet_fields)
next
  case (Cons b t)
  then have "drop_bit 4 (p ! 0) = drop_bit 4 b" by simp
  then show ?thesis using Cons parse_ipv4_exact [of p md] parse_ipv6_exact [of p md]
    by (auto simp: parse_ip_packet_def Let_def ipv4_packet_fields ipv6_packet_fields)
qed

end
