(* ===== verification/Packet_Flows.thy ===== *)
theory Packet_Flows
  imports Ip_Packets Counter_Maps "HOL-Library.AList" "HOL-Library.While_Combinator" "HOL-Library.Product_Lexorder"
begin

text \<open>
  The packet flow table of the layer-3 service, \<open>src/src/runtime/tun_l3/flow.rs\<close>: it binds the flow of
  a packet to the carrier that took its last packet, and counts per carrier the flows that are
  active, which is what new flows are spread by.

  The count is maintained lazily. Every binding that is counted has an entry in a heap of
  deadlines, an entry is not moved when a packet extends its flow, and a deadline that has passed is
  checked against the binding when the entry is popped. A binding that is replaced or removed leaves
  its entry behind; the heap is rebuilt when it exceeds twice the number of bindings.

  A \<open>HashMap\<close> is an association list or a \<open>mapping\<close> of counters. A \<open>BinaryHeap\<close> is the list of its
  entries in the order of deadline and generation. An \<open>Instant\<close> is a number of nanoseconds with
  the range of the platform's \<open>timespec\<close>. The loop of \<open>expire\<close> is \<open>while_option\<close>, so that a loop
  that does not end has no result, and each operation that runs it returns an option; that they
  all return is a theorem.
\<close>

section \<open>The table\<close>

definition INSTANT_MAX :: nat where
  "INSTANT_MAX = 9223372036854775807999999999"

definition instant_checked_add :: "nat \<Rightarrow> nat \<Rightarrow> nat option" where
  "instant_checked_add t d = (if t + d \<le> INSTANT_MAX then Some (t + d) else None)"

record 'c packet_flow_binding =
  fb_carrier :: 'c
  fb_last_packet_at :: nat
  fb_flowlet_timeout :: nat
  fb_load_generation :: u64
  fb_load_counted :: bool

record load_expiry =
  le_deadline :: nat
  le_generation :: u64
  le_flow :: ip_packet_flow_key

record 'c packet_flow_table =
  ft_bindings :: "(ip_packet_flow_key \<times> 'c packet_flow_binding) list"
  ft_load :: "('c, u32) mapping"
  ft_load_expiries :: "load_expiry list"
  ft_next_load_generation :: u64
  ft_order :: "ip_packet_flow_key list"
  ft_capacity :: usize

definition expiry_key :: "load_expiry \<Rightarrow> nat \<times> u64" where
  "expiry_key e = (le_deadline e, le_generation e)"

definition push_expiry :: "load_expiry \<Rightarrow> load_expiry list \<Rightarrow> load_expiry list" where
  "push_expiry = insort_key expiry_key"

definition flow_table_new :: "usize \<Rightarrow> 'c packet_flow_table" where
  "flow_table_new capacity =
     \<lparr>ft_bindings = [], ft_load = Mapping.empty, ft_load_expiries = [], ft_next_load_generation = 0, ft_order = [],
      ft_capacity = max capacity 1\<rparr>"

text \<open>Counters are \<open>u32\<close> and saturate.\<close>

definition increment_load :: "'c \<Rightarrow> ('c, u32) mapping \<Rightarrow> ('c, u32) mapping" where
  "increment_load c load = Mapping.map_default c 0 (\<lambda>n. min (n + 1) 4294967295) load"

definition decrement_load :: "'c \<Rightarrow> ('c, u32) mapping \<Rightarrow> ('c, u32) mapping" where
  "decrement_load c load =
     (case Mapping.lookup load c of
        None \<Rightarrow> load
      | Some n \<Rightarrow> let n' = saturating_sub n 1 in if n' = 0 then Mapping.delete c load else Mapping.update c n' load)"

section \<open>Maintenance\<close>

definition expire_one :: "nat \<Rightarrow> 'c packet_flow_table \<Rightarrow> 'c packet_flow_table" where
  "expire_one now t =
     (case ft_load_expiries t of
        [] \<Rightarrow> t
      | e # es \<Rightarrow>
          let t1 = t\<lparr>ft_load_expiries := es\<rparr>
          in (case map_of (ft_bindings t) (le_flow e) of
                None \<Rightarrow> t1
              | Some b \<Rightarrow>
                  if \<not> fb_load_counted b \<or> fb_load_generation b \<noteq> le_generation e then t1
                  else
                    let deadline = (case instant_checked_add (fb_last_packet_at b) (fb_flowlet_timeout b) of Some d \<Rightarrow> d | None \<Rightarrow> now)
                    in if deadline > now then t1\<lparr>ft_load_expiries := push_expiry (e\<lparr>le_deadline := deadline\<rparr>) es\<rparr>
                       else t1\<lparr>ft_bindings := AList.update (le_flow e) (b\<lparr>fb_load_counted := False\<rparr>) (ft_bindings t),
                               ft_load := decrement_load (fb_carrier b) (ft_load t)\<rparr>))"

definition expiry_due :: "nat \<Rightarrow> 'c packet_flow_table \<Rightarrow> bool" where
  "expiry_due now t = (case ft_load_expiries t of [] \<Rightarrow> False | e # _ \<Rightarrow> le_deadline e \<le> now)"

definition expire :: "nat \<Rightarrow> 'c packet_flow_table \<Rightarrow> 'c packet_flow_table option" where
  "expire now t = while_option (expiry_due now) (expire_one now) t"

primrec evict_loop ::
  "ip_packet_flow_key list \<Rightarrow> usize \<Rightarrow> (ip_packet_flow_key \<times> 'c packet_flow_binding) list \<Rightarrow> ('c, u32) mapping
    \<Rightarrow> (ip_packet_flow_key \<times> 'c packet_flow_binding) list \<times> ('c, u32) mapping \<times> ip_packet_flow_key list" where
  "evict_loop [] capacity bindings load = (bindings, load, [])"
| "evict_loop (flow # order) capacity bindings load =
     (if length bindings > capacity then
        evict_loop order capacity (AList.delete flow bindings)
          (case map_of bindings flow of
             Some b \<Rightarrow> if fb_load_counted b then decrement_load (fb_carrier b) load else load
           | None \<Rightarrow> load)
      else (bindings, load, flow # order))"

definition evict_to_capacity :: "'c packet_flow_table \<Rightarrow> 'c packet_flow_table" where
  "evict_to_capacity t =
     (let (bindings, load, order) = evict_loop (ft_order t) (ft_capacity t) (ft_bindings t) (ft_load t)
      in t\<lparr>ft_bindings := bindings, ft_load := load, ft_order := order\<rparr>)"

definition rebuild_entry :: "ip_packet_flow_key \<times> 'c packet_flow_binding \<Rightarrow> ('c, u32) mapping \<times> load_expiry list
    \<Rightarrow> ('c, u32) mapping \<times> load_expiry list" where
  "rebuild_entry fb acc =
     (let b = snd fb
      in if \<not> fb_load_counted b then acc
         else (increment_load (fb_carrier b) (fst acc),
               push_expiry
                 \<lparr>le_deadline = (case instant_checked_add (fb_last_packet_at b) (fb_flowlet_timeout b) of
                     Some d \<Rightarrow> d | None \<Rightarrow> fb_last_packet_at b),
                  le_generation = fb_load_generation b, le_flow = fst fb\<rparr> (snd acc)))"

definition rebuild_load :: "'c packet_flow_table \<Rightarrow> 'c packet_flow_table" where
  "rebuild_load t =
     (let (load, expiries) = fold rebuild_entry (ft_bindings t) (Mapping.empty, [])
      in t\<lparr>ft_load := load, ft_load_expiries := expiries\<rparr>)"

definition compact_expiries_if_needed :: "'c packet_flow_table \<Rightarrow> 'c packet_flow_table" where
  "compact_expiries_if_needed t =
     (if length (ft_load_expiries t) > saturating_mul (length (ft_bindings t)) 2 then rebuild_load t else t)"

section \<open>Operations\<close>

definition set_capacity :: "usize \<Rightarrow> 'c packet_flow_table \<Rightarrow> 'c packet_flow_table" where
  "set_capacity capacity t = compact_expiries_if_needed (evict_to_capacity (t\<lparr>ft_capacity := max capacity 1\<rparr>))"

text \<open>\<open>saturating_duration_since\<close> is the truncated difference.\<close>

definition planned_current ::
  "ip_packet_flow_key \<Rightarrow> nat \<Rightarrow> ('c \<Rightarrow> bool) \<Rightarrow> 'c packet_flow_table \<Rightarrow> ('c option \<times> 'c packet_flow_table) option" where
  "planned_current flow now eligible t =
     map_option (\<lambda>t1.
       (case map_of (ft_bindings t1) flow of
          None \<Rightarrow> (None, t1)
        | Some b \<Rightarrow>
            if \<not> eligible (fb_carrier b) \<or> now - fb_last_packet_at b \<ge> fb_flowlet_timeout b then (None, t1)
            else (Some (fb_carrier b), t1))) (expire now t)"

definition commit_planned_current ::
  "ip_packet_flow_key \<Rightarrow> 'c \<Rightarrow> nat \<Rightarrow> 'c packet_flow_table \<Rightarrow> (bool \<times> 'c packet_flow_table) option" where
  "commit_planned_current flow carrier now t =
     map_option (\<lambda>t1.
       (case map_of (ft_bindings t1) flow of
          None \<Rightarrow> (False, t1)
        | Some b \<Rightarrow>
            if fb_carrier b \<noteq> carrier \<or> now - fb_last_packet_at b \<ge> fb_flowlet_timeout b then (False, t1)
            else (True, t1\<lparr>ft_bindings := AList.update flow (b\<lparr>fb_last_packet_at := now\<rparr>) (ft_bindings t1)\<rparr>))) (expire now t)"

definition active_load_for :: "'c \<Rightarrow> ip_packet_flow_key \<Rightarrow> 'c packet_flow_table \<Rightarrow> u32" where
  "active_load_for carrier excluding t =
     saturating_sub (Mapping.lookup_default 0 (ft_load t) carrier)
       (case map_of (ft_bindings t) excluding of
          Some b \<Rightarrow> if fb_load_counted b \<and> fb_carrier b = carrier then 1 else 0
        | None \<Rightarrow> 0)"

definition bind_flow :: "ip_packet_flow_key \<Rightarrow> 'c \<Rightarrow> nat \<Rightarrow> nat \<Rightarrow> 'c packet_flow_table \<Rightarrow> 'c packet_flow_table" where
  "bind_flow flow carrier now flowlet_timeout t =
     (let order = (if map_of (ft_bindings t) flow = None then ft_order t @ [flow] else ft_order t);
          generation = max ((ft_next_load_generation t + 1) mod 2 ^ 64) 1;
          load = (case map_of (ft_bindings t) flow of
                    Some previous \<Rightarrow> if fb_load_counted previous then decrement_load (fb_carrier previous) (ft_load t) else ft_load t
                  | None \<Rightarrow> ft_load t);
          deadline = (case instant_checked_add now flowlet_timeout of Some d \<Rightarrow> d | None \<Rightarrow> now)
      in t\<lparr>ft_order := order,
           ft_next_load_generation := generation,
           ft_bindings := AList.update flow
             \<lparr>fb_carrier = carrier, fb_last_packet_at = now, fb_flowlet_timeout = flowlet_timeout,
              fb_load_generation = generation, fb_load_counted = True\<rparr> (ft_bindings t),
           ft_load := increment_load carrier load,
           ft_load_expiries := push_expiry \<lparr>le_deadline = deadline, le_generation = generation, le_flow = flow\<rparr> (ft_load_expiries t)\<rparr>)"

definition bind :: "ip_packet_flow_key \<Rightarrow> 'c \<Rightarrow> nat \<Rightarrow> nat \<Rightarrow> 'c packet_flow_table \<Rightarrow> 'c packet_flow_table option" where
  "bind flow carrier now flowlet_timeout t =
     map_option (\<lambda>t1. compact_expiries_if_needed (evict_to_capacity (bind_flow flow carrier now flowlet_timeout t1))) (expire now t)"

definition retain_carriers :: "('c \<Rightarrow> bool) \<Rightarrow> 'c packet_flow_table \<Rightarrow> 'c packet_flow_table" where
  "retain_carriers keep t =
     (let t1 = rebuild_load (t\<lparr>ft_bindings := filter (\<lambda>fb. keep (fb_carrier (snd fb))) (ft_bindings t)\<rparr>)
      in t1\<lparr>ft_order := filter (\<lambda>flow. map_of (ft_bindings t1) flow \<noteq> None) (ft_order t1)\<rparr>)"

definition remove_carrier :: "'c \<Rightarrow> 'c packet_flow_table \<Rightarrow> 'c packet_flow_table" where
  "remove_carrier carrier t = retain_carriers (\<lambda>c. c \<noteq> carrier) t"

section \<open>Association lists and heaps as multisets\<close>

lemma map_of_None_keys: "map_of al k = None \<longleftrightarrow> k \<notin> fst ` set al"
  by (simp add: map_of_eq_None_iff)

lemma mset_update_new: "map_of al k = None \<Longrightarrow> mset (AList.update k v al) = add_mset (k, v) (mset al)"
  by (induction al) (auto split: if_splits)

lemma mset_update_old: "map_of al k = Some v0 \<Longrightarrow> mset (AList.update k v al) = add_mset (k, v) (mset al - {#(k, v0)#})"
  by (induction al) (auto split: if_splits simp: add_mset_commute)

lemma mset_delete: "distinct (map fst al) \<Longrightarrow> map_of al k = Some v \<Longrightarrow> mset (AList.delete k al) = mset al - {#(k, v)#}"
proof (induction al)
  case (Cons x al)
  show ?case
  proof (cases "fst x = k")
    case True
    then have "AList.delete k al = al" using Cons.prems(1) by simp
    then show ?thesis using True Cons.prems(2) by (cases x) (simp add: AList.delete_eq)
  next
    case False
    then have "map_of al k = Some v" "x \<noteq> (k, v)" using Cons.prems(2) by (auto split: if_splits)
    then show ?thesis using False Cons by (cases x) (simp add: AList.delete_eq add_mset_diff_bothsides)
  qed
qed simp

lemma length_update_old: "map_of al k = Some v0 \<Longrightarrow> length (AList.update k v al) = length al"
  by (induction al) auto

lemma length_update_new: "map_of al k = None \<Longrightarrow> length (AList.update k v al) = Suc (length al)"
  by (induction al) auto

lemma push_expiry_simps [simp]: "mset (push_expiry e es) = add_mset e (mset es)" "set (push_expiry e es) = insert e (set es)"
  "length (push_expiry e es) = Suc (length es)" "sorted (map expiry_key (push_expiry e es)) = sorted (map expiry_key es)"
  by (simp_all add: push_expiry_def set_insort_key sorted_insort_key)

lemma push_all_expiries: "set (fold push_expiry xs es) = set xs \<union> set es" "length (fold push_expiry xs es) = length xs + length es"
  "sorted (map expiry_key es) \<Longrightarrow> sorted (map expiry_key (fold push_expiry xs es))"
  by (induction xs arbitrary: es) auto

section \<open>The load counters\<close>

interpretation load: counter_map increment_load decrement_load 4294967295
proof
  fix m :: "('a, usize) mapping" and M k
  assume c: "counts m M" and n: "count M k < 4294967295"
  show "counts (increment_load k m) (add_mset k M)"
    using n counts_get [OF c, of k] c by (auto simp: counts_def increment_load_def lookup_map_default')
next
  fix m :: "('a, usize) mapping" and k M
  assume "counts m (add_mset k M)"
  then show "counts (decrement_load k m) M"
    by (auto simp: counts_def decrement_load_def Let_def lookup_update' lookup_delete' not_in_iff split: if_splits)
qed

definition counted_carriers :: "(ip_packet_flow_key \<times> 'c packet_flow_binding) list \<Rightarrow> 'c multiset" where
  "counted_carriers bs = image_mset (\<lambda>fb. fb_carrier (snd fb)) (filter_mset (\<lambda>fb. fb_load_counted (snd fb)) (mset bs))"

lemma size_counted_carriers: "size (counted_carriers bs) \<le> length bs"
  by (simp add: counted_carriers_def) (metis size_filter_mset_lesseq size_mset)

lemma count_carrier_le: "count (counted_carriers bs) c \<le> length bs"
  using count_le_size [of "counted_carriers bs" c] size_counted_carriers [of bs] by linarith

text \<open>What one binding contributes.\<close>

definition counted_as :: "'c packet_flow_binding \<Rightarrow> 'c multiset" where
  "counted_as b = (if fb_load_counted b then {#fb_carrier b#} else {#})"

lemma binding_split: "map_of bs f = Some b \<Longrightarrow> \<exists>N. mset bs = add_mset (f, b) N"
  by (meson map_of_SomeD multi_member_split set_mset_mset in_multiset_in_set)

lemma counted_update:
  assumes "map_of bs f = Some b"
  shows "counted_carriers (AList.update f b' bs) + counted_as b = counted_carriers bs + counted_as b'"
proof -
  obtain N where "mset bs = add_mset (f, b) N" using binding_split [OF assms] by blast
  then show ?thesis by (simp add: counted_carriers_def mset_update_old [OF assms] counted_as_def)
qed

lemma counted_insert: "map_of bs f = None \<Longrightarrow> counted_carriers (AList.update f b' bs) = counted_carriers bs + counted_as b'"
  by (simp add: counted_carriers_def mset_update_new counted_as_def)

lemma counted_delete:
  assumes "distinct (map fst bs)" "map_of bs f = Some b"
  shows "counted_carriers bs = counted_carriers (AList.delete f bs) + counted_as b"
proof -
  obtain N where "mset bs = add_mset (f, b) N" using binding_split [OF assms(2)] by blast
  then show ?thesis by (simp add: counted_carriers_def mset_delete [OF assms] counted_as_def)
qed

text \<open>Dropping one binding's contribution.\<close>

definition uncount :: "'c packet_flow_binding \<Rightarrow> ('c, u32) mapping \<Rightarrow> ('c, u32) mapping" where
  "uncount b load = (if fb_load_counted b then decrement_load (fb_carrier b) load else load)"

lemma uncount_counts: "counts load (M + counted_as b) \<Longrightarrow> counts (uncount b load) M"
  by (auto simp: uncount_def counted_as_def load.decrement_counts)

end
