(* ===== verification/Packet_Flows_Correct.thy ===== *)
theory Packet_Flows_Correct
  imports Packet_Flows
begin

text \<open>
  Correctness of the packet flow table: the lazily maintained load counters and heap agree at every
  call with a count of the flows that are active at that time, every operation returns, and the
  table stays within its bounds.
\<close>

section \<open>The invariant\<close>

text \<open>A binding that is counted has a heap entry that comes due no later than the binding; one that is
  not counted has timed out.\<close>

definition flow_deadline :: "'c packet_flow_binding \<Rightarrow> nat" where
  "flow_deadline b = fb_last_packet_at b + fb_flowlet_timeout b"

definition binding_ok :: "nat \<Rightarrow> load_expiry set \<Rightarrow> ip_packet_flow_key \<Rightarrow> 'c packet_flow_binding \<Rightarrow> bool" where
  "binding_ok clock entries f b \<longleftrightarrow> fb_last_packet_at b \<le> clock \<and> flow_deadline b \<le> INSTANT_MAX
     \<and> fb_flowlet_timeout b \<le> INSTANT_MAX div 2
     \<and> (if fb_load_counted b
        then \<exists>e \<in> entries. le_flow e = f \<and> le_generation e = fb_load_generation b \<and> le_deadline e \<le> flow_deadline b
        else flow_deadline b \<le> clock)"

definition index_ok :: "'c packet_flow_table \<Rightarrow> bool" where
  "index_ok t \<longleftrightarrow> distinct (map fst (ft_bindings t)) \<and> distinct (ft_order t) \<and> set (ft_order t) = fst ` set (ft_bindings t)
     \<and> 1 \<le> ft_capacity t \<and> counts (ft_load t) (counted_carriers (ft_bindings t))"

definition table_ok :: "nat \<Rightarrow> 'c packet_flow_table \<Rightarrow> bool" where
  "table_ok clock t \<longleftrightarrow> index_ok t \<and> sorted (map expiry_key (ft_load_expiries t))
     \<and> (\<forall>f b. map_of (ft_bindings t) f = Some b \<longrightarrow> binding_ok clock (set (ft_load_expiries t)) f b)"

definition table_bounded :: "'c packet_flow_table \<Rightarrow> bool" where
  "table_bounded t \<longleftrightarrow> length (ft_bindings t) \<le> ft_capacity t \<and> length (ft_load_expiries t) \<le> 2 * length (ft_bindings t)"

lemma binding_ok_later: "binding_ok clock E f b \<Longrightarrow> clock \<le> now \<Longrightarrow> binding_ok now E f b"
  by (auto simp: binding_ok_def split: if_splits)

lemma binding_ok_mono: "binding_ok clock E f b \<Longrightarrow> E \<subseteq> E' \<Longrightarrow> binding_ok clock E' f b"
  by (auto simp: binding_ok_def split: if_splits)

lemma table_ok_later: "table_ok clock t \<Longrightarrow> clock \<le> now \<Longrightarrow> table_ok now t"
  by (auto simp: table_ok_def intro: binding_ok_later)

lemma table_new_ok: "table_ok clock (flow_table_new capacity)" "table_bounded (flow_table_new capacity)"
  by (simp_all add: table_ok_def table_bounded_def index_ok_def flow_table_new_def counted_carriers_def)

section \<open>Expiry\<close>

definition due_entries :: "nat \<Rightarrow> 'c packet_flow_table \<Rightarrow> nat" where
  "due_entries now t = size (filter_mset (\<lambda>e. le_deadline e \<le> now) (mset (ft_load_expiries t)))"

text \<open>Each turn of the loop disposes of one entry that is due: an entry that is put back is due later.\<close>

lemma expire_one_decreases: "expiry_due now t \<Longrightarrow> due_entries now (expire_one now t) < due_entries now t"
  by (auto simp: expiry_due_def due_entries_def expire_one_def Let_def split: list.splits option.splits)

lemma expire_returns: "\<exists>t'. expire now t = Some t'"
  unfolding expire_def
  by (rule measure_while_option_Some [where P = "\<lambda>_. True" and f = "due_entries now"]) (simp_all add: expire_one_decreases)

lemma index_ok_update:
  assumes "index_ok t" "map_of (ft_bindings t) f = Some b" "counts load (counted_carriers (AList.update f b' (ft_bindings t)))"
  shows "index_ok (t\<lparr>ft_bindings := AList.update f b' (ft_bindings t), ft_load := load\<rparr>)"
  using assms map_of_SomeD [OF assms(2)] by (force simp: index_ok_def distinct_update AList.dom_update)

lemma expire_one_ok:
  assumes "table_ok now t" "expiry_due now t"
  shows "table_ok now (expire_one now t)"
proof -
  obtain e es where h: "ft_load_expiries t = e # es" using assms(2) by (cases "ft_load_expiries t") (auto simp: expiry_due_def)
  have es: "sorted (map expiry_key es)" using assms(1) by (simp add: table_ok_def h)
  have keep: "binding_ok now (set es) f b" if "map_of (ft_bindings t) f = Some b" "f \<noteq> le_flow e \<or> \<not> fb_load_counted b \<or> fb_load_generation b \<noteq> le_generation e" for f b
  proof -
    have "binding_ok now (insert e (set es)) f b" using assms(1) that(1) by (simp add: table_ok_def h)
    then show ?thesis using that(2) by (auto simp: binding_ok_def split: if_splits)
  qed
  show ?thesis
  proof (cases "map_of (ft_bindings t) (le_flow e)")
    case None
    then have "binding_ok now (set es) f b" if "map_of (ft_bindings t) f = Some b" for f b
      using keep [OF that] that by (cases "f = le_flow e") simp_all
    then show ?thesis using assms(1) es None by (simp add: table_ok_def expire_one_def h index_ok_def)
  next
    case (Some b)
    have b: "binding_ok now (set (e # es)) (le_flow e) b" using assms(1) Some by (simp add: table_ok_def h)
    then have d: "instant_checked_add (fb_last_packet_at b) (fb_flowlet_timeout b) = Some (flow_deadline b)"
      by (simp add: binding_ok_def instant_checked_add_def flow_deadline_def)
    consider (stale) "\<not> fb_load_counted b \<or> fb_load_generation b \<noteq> le_generation e"
      | (extended) "fb_load_counted b" "fb_load_generation b = le_generation e" "now < flow_deadline b"
      | (expired) "fb_load_counted b" "fb_load_generation b = le_generation e" "flow_deadline b \<le> now" by linarith
    then show ?thesis
    proof cases
      case stale
      then have "binding_ok now (set es) f b'" if "map_of (ft_bindings t) f = Some b'" for f b'
        using keep [OF that] that Some by (cases "f = le_flow e") auto
      then show ?thesis using assms(1) es Some stale by (auto simp: table_ok_def expire_one_def h index_ok_def simp del: map_of_eq_Some_iff)
    next
      case extended
      let ?e = "e\<lparr>le_deadline := flow_deadline b\<rparr>"
      have "binding_ok now (insert ?e (set es)) f b'" if "map_of (ft_bindings t) f = Some b'" for f b'
        using keep [OF that] binding_ok_mono [of now "set es" f b' "insert ?e (set es)"] b extended that Some
        by (cases "f = le_flow e") (auto simp: binding_ok_def)
      then show ?thesis using assms(1) es extended Some d by (simp add: table_ok_def expire_one_def h index_ok_def)
    next
      case expired
      let ?b = "b\<lparr>fb_load_counted := False\<rparr>"
      have "counted_carriers (ft_bindings t) = add_mset (fb_carrier b) (counted_carriers (AList.update (le_flow e) ?b (ft_bindings t)))"
        using counted_update [OF Some, of ?b] expired by (simp add: counted_as_def)
      then have "index_ok (t\<lparr>ft_bindings := AList.update (le_flow e) ?b (ft_bindings t), ft_load := decrement_load (fb_carrier b) (ft_load t)\<rparr>)"
        using assms(1) by (intro index_ok_update [OF _ Some] load.decrement_counts) (simp_all add: table_ok_def index_ok_def)
      moreover have "binding_ok now (set es) (le_flow e) ?b" using b expired by (simp add: binding_ok_def flow_deadline_def)
      ultimately show ?thesis using es expired Some d keep
        by (auto simp: table_ok_def expire_one_def h index_ok_def update_conv')
    qed
  qed
qed

lemma expire_one_shape: "length (ft_bindings (expire_one now t)) = length (ft_bindings t)" "ft_capacity (expire_one now t) = ft_capacity t"
  "length (ft_load_expiries (expire_one now t)) \<le> length (ft_load_expiries t)"
  by (auto simp: expire_one_def Let_def length_update_old split: list.splits option.splits)

definition same_flows :: "'c packet_flow_table \<Rightarrow> 'c packet_flow_table \<Rightarrow> bool" where
  "same_flows t t' \<longleftrightarrow> (\<forall>f. map_option (\<lambda>b. (fb_carrier b, fb_last_packet_at b, fb_flowlet_timeout b)) (map_of (ft_bindings t') f)
     = map_option (\<lambda>b. (fb_carrier b, fb_last_packet_at b, fb_flowlet_timeout b)) (map_of (ft_bindings t) f))"

lemma expire_one_same: "same_flows t (expire_one now t)"
  by (auto simp: same_flows_def expire_one_def Let_def update_conv' split: list.splits option.splits)

text \<open>After \<open>expire\<close> a binding is counted exactly when it is active.\<close>

definition active_at :: "nat \<Rightarrow> 'c packet_flow_binding \<Rightarrow> bool" where
  "active_at now b \<longleftrightarrow> now < flow_deadline b"

definition counted_active :: "nat \<Rightarrow> 'c packet_flow_table \<Rightarrow> bool" where
  "counted_active now t \<longleftrightarrow> (\<forall>f b. map_of (ft_bindings t) f = Some b \<longrightarrow> fb_load_counted b = active_at now b)"

lemma expire_effect:
  assumes "table_ok clock t" "clock \<le> now" "expire now t = Some t'"
  shows "table_ok now t'" "counted_active now t'" "same_flows t t'" "ft_capacity t' = ft_capacity t"
    "length (ft_bindings t') = length (ft_bindings t)" "length (ft_load_expiries t') \<le> length (ft_load_expiries t)"
proof -
  let ?P = "\<lambda>u. table_ok now u \<and> same_flows t u \<and> ft_capacity u = ft_capacity t \<and> length (ft_bindings u) = length (ft_bindings t)
     \<and> length (ft_load_expiries u) \<le> length (ft_load_expiries t)"
  have w: "while_option (expiry_due now) (expire_one now) t = Some t'" using assms(3) by (simp add: expire_def)
  have "?P t'"
  proof (rule while_option_rule [OF _ w, where P = ?P])
    show "?P t" using table_ok_later [OF assms(1,2)] by (simp add: same_flows_def)
    show "?P (expire_one now u)" if "?P u" "expiry_due now u" for u
      using that expire_one_ok [of now u] expire_one_shape [of now u] expire_one_same [of u now] by (auto simp: same_flows_def)
  qed
  then show p: "table_ok now t'" "same_flows t t'" "ft_capacity t' = ft_capacity t"
    "length (ft_bindings t') = length (ft_bindings t)" "length (ft_load_expiries t') \<le> length (ft_load_expiries t)" by simp_all
  have "\<not> expiry_due now t'" by (rule while_option_stop [OF w])
  then have late: "now < le_deadline e" if "e \<in> set (ft_load_expiries t')" for e
    using p(1) that by (cases "ft_load_expiries t'") (auto simp: expiry_due_def table_ok_def expiry_key_def)
  show "counted_active now t'"
    unfolding counted_active_def active_at_def
  proof (intro allI impI)
    fix f b
    assume "map_of (ft_bindings t') f = Some b"
    then have "binding_ok now (set (ft_load_expiries t')) f b" using p(1) by (simp add: table_ok_def)
    then show "fb_load_counted b = (now < flow_deadline b)" using late by (fastforce simp: binding_ok_def split: if_splits)
  qed
qed

section \<open>Eviction and rebuilding\<close>

lemma evict_loop_spec:
  assumes "evict_loop order capacity bs load = (bs', load', order')" "distinct (map fst bs)" "distinct order" "set order = fst ` set bs"
    "counts load (counted_carriers bs)"
  shows "distinct (map fst bs') \<and> distinct order' \<and> set order' = fst ` set bs' \<and> counts load' (counted_carriers bs')
    \<and> map_of bs' \<subseteq>\<^sub>m map_of bs \<and> length bs' \<le> length bs \<and> length bs' \<le> capacity"
  using assms
proof (induction order arbitrary: bs load)
  case Nil
  then show ?case by simp
next
  case (Cons f order)
  show ?case
  proof (cases "length bs > capacity")
    case False
    then show ?thesis using Cons.prems by simp
  next
    case True
    obtain b where b: "map_of bs f = Some b" using Cons.prems(2,4) by (metis domIff dom_map_of_conv_image_fst list.set_intros(1) option.exhaust_sel)
    have load: "counts (uncount b load) (counted_carriers (AList.delete f bs))"
      by (rule uncount_counts) (use Cons.prems(5) counted_delete [OF Cons.prems(2) b] in simp)
    have del: "distinct (map fst (AList.delete f bs))" "set order = fst ` set (AList.delete f bs)"
      using Cons.prems(2-4) by (auto simp: distinct_delete) (force simp: AList.delete_eq)+
    have "evict_loop order capacity (AList.delete f bs) (uncount b load) = (bs', load', order')"
      using Cons.prems(1) True b by (simp add: uncount_def)
    moreover have "map_of (AList.delete f bs) \<subseteq>\<^sub>m map_of bs" by (auto simp: delete_conv' map_le_def)
    ultimately show ?thesis
      using Cons.IH [OF _ del(1) _ del(2) load] Cons.prems(3) length_delete_le [of f bs] by (auto intro: map_le_trans)
  qed
qed

lemma evict_ok:
  assumes "table_ok clock t"
  shows "table_ok clock (evict_to_capacity t)" "length (ft_bindings (evict_to_capacity t)) \<le> ft_capacity t"
    "ft_capacity (evict_to_capacity t) = ft_capacity t" "length (ft_bindings (evict_to_capacity t)) \<le> length (ft_bindings t)"
proof -
  obtain bs load order where e: "evict_loop (ft_order t) (ft_capacity t) (ft_bindings t) (ft_load t) = (bs, load, order)"
    by (cases "evict_loop (ft_order t) (ft_capacity t) (ft_bindings t) (ft_load t)")
  have "distinct (map fst bs) \<and> distinct order \<and> set order = fst ` set bs \<and> counts load (counted_carriers bs)
      \<and> map_of bs \<subseteq>\<^sub>m map_of (ft_bindings t) \<and> length bs \<le> length (ft_bindings t) \<and> length bs \<le> ft_capacity t"
    using assms by (intro evict_loop_spec [OF e]) (simp_all add: table_ok_def index_ok_def)
  then show "table_ok clock (evict_to_capacity t)" "length (ft_bindings (evict_to_capacity t)) \<le> ft_capacity t"
    "ft_capacity (evict_to_capacity t) = ft_capacity t" "length (ft_bindings (evict_to_capacity t)) \<le> length (ft_bindings t)"
    using assms
    by (auto simp: evict_to_capacity_def e table_ok_def index_ok_def map_le_def dom_def simp del: map_of_eq_Some_iff)
qed

definition binding_entry :: "ip_packet_flow_key \<times> 'c packet_flow_binding \<Rightarrow> load_expiry" where
  "binding_entry fb = \<lparr>le_deadline = (case instant_checked_add (fb_last_packet_at (snd fb)) (fb_flowlet_timeout (snd fb)) of
       Some d \<Rightarrow> d | None \<Rightarrow> fb_last_packet_at (snd fb)), le_generation = fb_load_generation (snd fb), le_flow = fst fb\<rparr>"

lemma fold_rebuild:
  "fold rebuild_entry bs (load, es) = (let cs = filter (\<lambda>fb. fb_load_counted (snd fb)) bs
     in (fold increment_load (map (\<lambda>fb. fb_carrier (snd fb)) cs) load, fold push_expiry (map binding_entry cs) es))"
  by (induction bs arbitrary: load es) (auto simp: rebuild_entry_def binding_entry_def Let_def)

text \<open>Rebuilding needs no earlier heap: it restores the whole invariant from the bindings.\<close>

lemma rebuild_ok:
  assumes "distinct (map fst (ft_bindings t))" "distinct (ft_order t)" "set (ft_order t) = fst ` set (ft_bindings t)" "1 \<le> ft_capacity t"
    "\<And>f b. map_of (ft_bindings t) f = Some b \<Longrightarrow> \<exists>E. binding_ok clock E f b" "length (ft_bindings t) \<le> 4294967295"
  shows "table_ok clock (rebuild_load t)" "length (ft_load_expiries (rebuild_load t)) \<le> length (ft_bindings t)"
proof -
  define cs where "cs = filter (\<lambda>fb. fb_load_counted (snd fb)) (ft_bindings t)"
  have r: "rebuild_load t = t\<lparr>ft_load := fold increment_load (map (\<lambda>fb. fb_carrier (snd fb)) cs) Mapping.empty,
      ft_load_expiries := fold push_expiry (map binding_entry cs) []\<rparr>"
    by (simp add: rebuild_load_def fold_rebuild cs_def Let_def)
  have len: "length cs \<le> length (ft_bindings t)" by (simp add: cs_def)
  then show "length (ft_load_expiries (rebuild_load t)) \<le> length (ft_bindings t)" by (simp add: r push_all_expiries)
  have "length cs \<le> 4294967295" using len assms(6) by linarith
  then have "counts (ft_load (rebuild_load t)) (mset (map (\<lambda>fb. fb_carrier (snd fb)) cs))"
    using load.increment_all [of Mapping.empty "{#}" "map (\<lambda>fb. fb_carrier (snd fb)) cs"] by (simp add: r)
  then have "counts (ft_load (rebuild_load t)) (counted_carriers (ft_bindings t))" by (simp add: cs_def counted_carriers_def)
  moreover have "binding_ok clock (set (ft_load_expiries (rebuild_load t))) f b" if b: "map_of (ft_bindings t) f = Some b" for f b
  proof -
    obtain E where E: "binding_ok clock E f b" using assms(5) [OF b] by blast
    have "binding_entry (f, b) \<in> set (ft_load_expiries (rebuild_load t))" if "fb_load_counted b"
      using map_of_SomeD [OF b] that by (auto simp: r push_all_expiries cs_def)
    moreover have "le_flow (binding_entry (f, b)) = f" "le_generation (binding_entry (f, b)) = fb_load_generation b"
      "le_deadline (binding_entry (f, b)) \<le> flow_deadline b"
      by (simp_all add: binding_entry_def instant_checked_add_def flow_deadline_def)
    ultimately show ?thesis using E by (auto simp: binding_ok_def split: if_splits)
  qed
  ultimately show "table_ok clock (rebuild_load t)"
    using assms(1-4) by (simp add: table_ok_def index_ok_def) (simp add: r push_all_expiries)
qed

lemma table_okD:
  assumes "table_ok clock t"
  shows "distinct (map fst (ft_bindings t))" "distinct (ft_order t)" "set (ft_order t) = fst ` set (ft_bindings t)" "1 \<le> ft_capacity t"
    "counts (ft_load t) (counted_carriers (ft_bindings t))"
    "\<And>f b. map_of (ft_bindings t) f = Some b \<Longrightarrow> binding_ok clock (set (ft_load_expiries t)) f b"
  using assms by (simp_all add: table_ok_def index_ok_def)

lemma compact_ok:
  assumes "table_ok clock t" "length (ft_bindings t) \<le> ft_capacity t" "ft_capacity t \<le> 4294967295"
  shows "table_ok clock (compact_expiries_if_needed t)" "table_bounded (compact_expiries_if_needed t)"
    "ft_capacity (compact_expiries_if_needed t) = ft_capacity t"
proof -
  note d = table_okD [OF assms(1)]
  have "length (ft_bindings t) \<le> 4294967295" using assms(2,3) by linarith
  note r = rebuild_ok [where clock = clock, OF d(1-4) _ this]
  have ex: "\<exists>E. binding_ok clock E f b" if "map_of (ft_bindings t) f = Some b" for f b using d(6) [OF that] by blast
  have "ft_bindings (rebuild_load t) = ft_bindings t" "ft_capacity (rebuild_load t) = ft_capacity t"
    by (simp_all add: rebuild_load_def split: prod.split)
  moreover have "saturating_mul (length (ft_bindings t)) 2 = 2 * length (ft_bindings t)"
    using assms(2,3) by (simp add: saturating_mul_def u64_max_def)
  ultimately show "table_ok clock (compact_expiries_if_needed t)" "table_bounded (compact_expiries_if_needed t)"
    "ft_capacity (compact_expiries_if_needed t) = ft_capacity t"
    using r [OF ex] assms by (simp_all add: compact_expiries_if_needed_def table_bounded_def)
qed

section \<open>Every operation keeps the invariant\<close>

abbreviation flows_ok :: "nat \<Rightarrow> 'c packet_flow_table \<Rightarrow> bool" where
  "flows_ok clock t \<equiv> table_ok clock t \<and> table_bounded t \<and> ft_capacity t < 4294967295"

lemma set_capacity_ok:
  assumes "flows_ok clock t" "capacity < 4294967295"
  shows "flows_ok clock (set_capacity capacity t)"
proof -
  let ?t = "t\<lparr>ft_capacity := max capacity 1\<rparr>"
  have ok: "table_ok clock ?t" using assms(1) by (simp add: table_ok_def index_ok_def)
  have e: "table_ok clock (evict_to_capacity ?t)" "length (ft_bindings (evict_to_capacity ?t)) \<le> ft_capacity (evict_to_capacity ?t)"
    "ft_capacity (evict_to_capacity ?t) = max capacity 1" using evict_ok [OF ok] by simp_all
  have "ft_capacity (evict_to_capacity ?t) \<le> 4294967295" using e(3) assms(2) by simp
  from compact_ok [OF e(1,2) this] show ?thesis using e(3) assms(2) by (simp add: set_capacity_def)
qed

lemma expire_flows_ok:
  assumes "flows_ok clock t" "clock \<le> now" "expire now t = Some t'"
  shows "flows_ok now t'"
proof -
  note e = expire_effect [of clock t now t']
  show ?thesis using assms e by (auto simp: table_bounded_def)
qed

lemma commit_ok:
  assumes "flows_ok now t" "map_of (ft_bindings t) flow = Some b" "now < flow_deadline b" "counted_active now t"
    "now + fb_flowlet_timeout b \<le> INSTANT_MAX"
  shows "flows_ok now (t\<lparr>ft_bindings := AList.update flow (b\<lparr>fb_last_packet_at := now\<rparr>) (ft_bindings t)\<rparr>)"
proof -
  let ?b = "b\<lparr>fb_last_packet_at := now\<rparr>"
  have bok: "binding_ok now (set (ft_load_expiries t)) flow b" using assms(1,2) by (simp add: table_ok_def)
  have c: "fb_load_counted b" using assms(2-4) by (simp add: counted_active_def active_at_def)
  have "flow_deadline b \<le> flow_deadline ?b" using bok by (simp add: binding_ok_def flow_deadline_def)
  then have "binding_ok now (set (ft_load_expiries t)) flow ?b"
    using bok c assms(5) by (auto simp: binding_ok_def flow_deadline_def intro: order_trans)
  moreover have "counted_carriers (AList.update flow ?b (ft_bindings t)) = counted_carriers (ft_bindings t)"
    using counted_update [OF assms(2), of ?b] by (simp add: counted_as_def split: if_splits)
  then have "index_ok (t\<lparr>ft_bindings := AList.update flow ?b (ft_bindings t), ft_load := ft_load t\<rparr>)"
    using assms(1) by (intro index_ok_update [OF _ assms(2)]) (simp_all add: table_ok_def index_ok_def)
  ultimately show ?thesis using assms(1)
    by (auto simp: table_ok_def table_bounded_def length_update_old [OF assms(2)] update_conv' index_ok_def)
qed

lemma bind_flow_ok:
  assumes "table_ok now t" "length (ft_bindings t) < 4294967295" "now + timeout \<le> INSTANT_MAX" "timeout \<le> INSTANT_MAX div 2"
  shows "table_ok now (bind_flow flow carrier now timeout t)" "ft_capacity (bind_flow flow carrier now timeout t) = ft_capacity t"
proof -
  note d = table_okD [OF assms(1)]
  define g where "g = max ((ft_next_load_generation t + 1) mod 2 ^ 64) 1"
  define b where "b = \<lparr>fb_carrier = carrier, fb_last_packet_at = now, fb_flowlet_timeout = timeout, fb_load_generation = g, fb_load_counted = True\<rparr>"
  define e where "e = \<lparr>le_deadline = now + timeout, le_generation = g, le_flow = flow\<rparr>"
  define order where "order = (if map_of (ft_bindings t) flow = None then ft_order t @ [flow] else ft_order t)"
  define bs where "bs = AList.update flow b (ft_bindings t)"
  define load where "load = (case map_of (ft_bindings t) flow of Some previous \<Rightarrow> uncount previous (ft_load t) | None \<Rightarrow> ft_load t)"
  have t': "bind_flow flow carrier now timeout t = t\<lparr>ft_order := order, ft_next_load_generation := g, ft_bindings := bs,
      ft_load := increment_load carrier load, ft_load_expiries := push_expiry e (ft_load_expiries t)\<rparr>"
    using assms(3) by (simp add: bind_flow_def Let_def g_def b_def e_def order_def bs_def load_def uncount_def instant_checked_add_def
        split: option.splits)
  then show "ft_capacity (bind_flow flow carrier now timeout t) = ft_capacity t" by simp
  obtain M where M: "counts load M" "counted_carriers bs = add_mset carrier M" "size M \<le> length (ft_bindings t)"
  proof (cases "map_of (ft_bindings t) flow")
    case None
    then show ?thesis using that [of "counted_carriers (ft_bindings t)"] d(5) counted_insert [OF None, of b] size_counted_carriers [of "ft_bindings t"]
      by (simp add: load_def bs_def b_def counted_as_def)
  next
    case (Some p)
    obtain N where "mset (ft_bindings t) = add_mset (flow, p) N" using binding_split [OF Some] by blast
    then obtain M where m: "counted_carriers (ft_bindings t) = M + counted_as p" by (auto simp: counted_carriers_def counted_as_def)
    have "counts (uncount p (ft_load t)) M" by (rule uncount_counts) (use d(5) m in simp)
    moreover have "counted_carriers bs + counted_as p = add_mset carrier M + counted_as p"
      using counted_update [OF Some, of b] m by (simp add: bs_def b_def counted_as_def)
    moreover have "size M \<le> length (ft_bindings t)" using size_counted_carriers [of "ft_bindings t"] m by simp
    ultimately show ?thesis using that [of M] Some by (simp add: load_def)
  qed
  have "count M carrier < 4294967295" using M(3) assms(2) count_le_size [of M carrier] by linarith
  then have "counts (increment_load carrier load) (counted_carriers bs)" using load.increment_counts [OF M(1)] M(2) by simp
  moreover have "distinct order" "set order = fst ` set bs" "distinct (map fst bs)"
    using d(1-3) by (auto simp: order_def bs_def distinct_update AList.dom_update map_of_None_keys)
  moreover have "binding_ok now (insert e (set (ft_load_expiries t))) f b'" if "map_of bs f = Some b'" for f b'
    using that d(6) [of f b'] binding_ok_mono [of now "set (ft_load_expiries t)" f b' "insert e (set (ft_load_expiries t))"] assms(3,4)
    by (cases "f = flow") (auto simp: bs_def update_conv' b_def e_def binding_ok_def flow_deadline_def)
  ultimately show "table_ok now (bind_flow flow carrier now timeout t)"
    using d(4) assms(1) by (simp add: t' table_ok_def index_ok_def)
qed

lemma bind_ok:
  assumes "flows_ok clock t" "clock \<le> now" "now + timeout \<le> INSTANT_MAX" "timeout \<le> INSTANT_MAX div 2"
    "bind flow carrier now timeout t = Some t'"
  shows "flows_ok now t'"
proof -
  obtain u where u: "expire now t = Some u" "t' = compact_expiries_if_needed (evict_to_capacity (bind_flow flow carrier now timeout u))"
    using assms(5) by (auto simp: bind_def)
  have uo: "flows_ok now u" by (rule expire_flows_ok [OF assms(1,2) u(1)])
  have "length (ft_bindings u) < 4294967295" using uo by (auto simp: table_bounded_def)
  note b = bind_flow_ok [OF conjunct1 [OF uo] this assms(3,4), of flow carrier]
  note e = evict_ok [OF b(1)]
  show ?thesis unfolding u(2)
    using compact_ok [OF e(1)] e(2,3) b(2) uo by simp
qed

lemma map_of_filterD: "distinct (map fst xs) \<Longrightarrow> map_of (filter P xs) k = Some v \<Longrightarrow> map_of xs k = Some v"
  by (drule map_of_SomeD) simp

lemma retain_ok:
  assumes "flows_ok clock t"
  shows "flows_ok clock (retain_carriers keep t)"
proof -
  note d = table_okD [OF conjunct1 [OF assms]]
  let ?bs = "filter (\<lambda>fb. keep (fb_carrier (snd fb))) (ft_bindings t)"
  let ?u = "t\<lparr>ft_bindings := ?bs, ft_order := filter (\<lambda>flow. map_of ?bs flow \<noteq> None) (ft_order t)\<rparr>"
  have r: "retain_carriers keep t = rebuild_load ?u"
    by (simp add: retain_carriers_def rebuild_load_def Let_def split: prod.split)
  have "length ?bs \<le> length (ft_bindings t)" by simp
  then have l: "length ?bs \<le> 4294967295" "length ?bs \<le> ft_capacity t" using assms unfolding table_bounded_def by linarith+
  have ex: "\<exists>E. binding_ok clock E f b" if "map_of (ft_bindings ?u) f = Some b" for f b
  proof -
    have "map_of (ft_bindings t) f = Some b" using map_of_filterD [OF d(1)] that by simp
    then show ?thesis using d(6) by blast
  qed
  have "set (ft_order ?u) = fst ` set (ft_bindings ?u)" using d(3) by (force simp: map_of_None_keys)
  then have u: "table_ok clock (rebuild_load ?u)" "length (ft_load_expiries (rebuild_load ?u)) \<le> length ?bs"
    using rebuild_ok [of ?u, OF _ _ _ _ ex] l(1) d(1,2,4) by (simp_all add: distinct_map_filter)
  moreover have "ft_bindings (rebuild_load ?u) = ?bs" "ft_capacity (rebuild_load ?u) = ft_capacity t"
    by (simp_all add: rebuild_load_def split: prod.split)
  ultimately show ?thesis using assms l(2) unfolding r by (simp add: table_bounded_def)
qed

section \<open>Sequences of calls\<close>

datatype 'c flow_op =
    SetCapacity usize
  | PlannedCurrent ip_packet_flow_key nat "'c \<Rightarrow> bool"
  | CommitPlanned ip_packet_flow_key 'c nat
  | BindFlow ip_packet_flow_key 'c nat nat
  | RetainCarriers "'c \<Rightarrow> bool"
  | RemoveCarrier 'c

fun flow_op_step :: "'c flow_op \<Rightarrow> 'c packet_flow_table \<Rightarrow> 'c packet_flow_table option" where
  "flow_op_step (SetCapacity capacity) t = Some (set_capacity capacity t)"
| "flow_op_step (PlannedCurrent flow now eligible) t = map_option snd (planned_current flow now eligible t)"
| "flow_op_step (CommitPlanned flow carrier now) t = map_option snd (commit_planned_current flow carrier now t)"
| "flow_op_step (BindFlow flow carrier now timeout) t = bind flow carrier now timeout t"
| "flow_op_step (RetainCarriers keep) t = Some (retain_carriers keep t)"
| "flow_op_step (RemoveCarrier carrier) t = Some (remove_carrier carrier t)"

fun op_time :: "nat \<Rightarrow> 'c flow_op \<Rightarrow> nat" where
  "op_time clock (PlannedCurrent flow now eligible) = now"
| "op_time clock (CommitPlanned flow carrier now) = now"
| "op_time clock (BindFlow flow carrier now timeout) = now"
| "op_time clock _ = clock"

text \<open>Clock readings do not go back and times are in the first half of the clock's range, and
  capacities fit a \<open>u32\<close>.\<close>

fun op_allowed :: "nat \<Rightarrow> 'c flow_op \<Rightarrow> bool" where
  "op_allowed clock (SetCapacity capacity) \<longleftrightarrow> capacity < 4294967295"
| "op_allowed clock (PlannedCurrent flow now eligible) \<longleftrightarrow> clock \<le> now"
| "op_allowed clock (CommitPlanned flow carrier now) \<longleftrightarrow> clock \<le> now \<and> now \<le> INSTANT_MAX div 2"
| "op_allowed clock (BindFlow flow carrier now timeout) \<longleftrightarrow> clock \<le> now \<and> now \<le> INSTANT_MAX div 2 \<and> timeout \<le> INSTANT_MAX div 2"
| "op_allowed clock _ \<longleftrightarrow> True"

inductive flow_reach :: "nat \<Rightarrow> 'c packet_flow_table \<Rightarrow> bool" where
  new: "capacity < 4294967295 \<Longrightarrow> flow_reach 0 (flow_table_new capacity)"
| op: "flow_reach clock t \<Longrightarrow> op_allowed clock op \<Longrightarrow> flow_op_step op t = Some t' \<Longrightarrow> flow_reach (op_time clock op) t'"

lemma half_sum: "a \<le> INSTANT_MAX div 2 \<Longrightarrow> b \<le> INSTANT_MAX div 2 \<Longrightarrow> a + b \<le> INSTANT_MAX"
  by linarith

lemma flow_op_ok:
  assumes "flows_ok clock t" "op_allowed clock op" "flow_op_step op t = Some t'"
  shows "flows_ok (op_time clock op) t'"
proof (cases op)
  case (PlannedCurrent flow now eligible)
  then obtain u where "expire now t = Some u" "t' = u" using assms(3) by (auto simp: planned_current_def split: option.splits if_splits)
  then show ?thesis using expire_flows_ok [OF assms(1), of now u] assms(2) PlannedCurrent by simp
next
  case (CommitPlanned flow carrier now)
  then obtain u where u: "expire now t = Some u" using assms(3) by (auto simp: commit_planned_current_def)
  have le: "clock \<le> now" "now \<le> INSTANT_MAX div 2" using assms(2) CommitPlanned by simp_all
  have uo: "flows_ok now u" by (rule expire_flows_ok [OF assms(1) le(1) u])
  have ca: "counted_active now u" using expire_effect(2) [OF conjunct1 [OF assms(1)] le(1) u] .
  show ?thesis
  proof (cases "t' = u")
    case False
    then obtain b where b: "map_of (ft_bindings u) flow = Some b" "\<not> now - fb_last_packet_at b \<ge> fb_flowlet_timeout b"
        "t' = u\<lparr>ft_bindings := AList.update flow (b\<lparr>fb_last_packet_at := now\<rparr>) (ft_bindings u)\<rparr>"
      using assms(3) CommitPlanned u by (auto simp: commit_planned_current_def split: option.splits if_splits)
    have "binding_ok now (set (ft_load_expiries u)) flow b" using uo b(1) by (simp add: table_ok_def)
    then have "now < flow_deadline b" "now + fb_flowlet_timeout b \<le> INSTANT_MAX"
      using b(2) half_sum [OF le(2)] by (auto simp: binding_ok_def flow_deadline_def)
    then show ?thesis using commit_ok [OF uo b(1) _ ca] b(3) CommitPlanned by simp
  qed (use uo CommitPlanned in simp)
next
  case (BindFlow flow carrier now timeout)
  then show ?thesis using assms bind_ok [OF assms(1), of now timeout flow carrier t'] half_sum [of now timeout] by simp
next
  case (SetCapacity capacity)
  then show ?thesis using assms set_capacity_ok [OF assms(1), of capacity] by auto
next
  case (RetainCarriers keep)
  then show ?thesis using assms retain_ok [OF assms(1), of keep] by auto
next
  case (RemoveCarrier carrier)
  then show ?thesis using assms retain_ok [OF assms(1), of "\<lambda>c. c \<noteq> carrier"] by (auto simp: remove_carrier_def)
qed

lemma flow_reach_ok: "flow_reach clock t \<Longrightarrow> flows_ok clock t"
proof (induction rule: flow_reach.induct)
  case (new capacity)
  then show ?case using table_new_ok(1) [of 0 capacity] table_new_ok(2) [of capacity] by (simp add: flow_table_new_def)
next
  case (op clock t op t')
  then show ?case using flow_op_ok by blast
qed

section \<open>Properties\<close>

text \<open>C19. Every operation of the packet flow table returns: the loop over expired deadlines, which puts
  entries back, ends. After it, as after any sequence of calls, the table holds at most its
  capacity of flows, and its heap at most two entries for each of them.\<close>

theorem flow_table_terminates:
  assumes "flow_reach clock t" and "op_allowed clock op"
  shows "\<exists>t'. flow_op_step op t = Some t' \<and> length (ft_bindings t') \<le> ft_capacity t'
    \<and> length (ft_load_expiries t') \<le> 2 * length (ft_bindings t')"
proof -
  have "expire now t \<noteq> None" for now using expire_returns [of now t] by auto
  then have "flow_op_step op t \<noteq> None" by (cases op) (simp_all add: planned_current_def commit_planned_current_def bind_def)
  then obtain t' where t': "flow_op_step op t = Some t'" by blast
  then show ?thesis using flow_op_ok [OF flow_reach_ok [OF assms(1)] assms(2) t'] by (simp add: table_bounded_def)
qed

lemma counted_card:
  assumes "distinct (map fst bs)"
  shows "count (counted_carriers bs) c = card {f. \<exists>b. map_of bs f = Some b \<and> fb_carrier b = c \<and> fb_load_counted b}"
proof -
  define ys where "ys = filter (\<lambda>fb. fb_load_counted (snd fb) \<and> fb_carrier (snd fb) = c) bs"
  have "count (counted_carriers bs) c = length ys"
    unfolding ys_def by (induction bs) (auto simp: counted_carriers_def)
  also have "\<dots> = card (set (map fst ys))"
    using distinct_card [of "map fst ys"] assms by (simp add: ys_def distinct_map_filter)
  also have "set (map fst ys) = {f. \<exists>b. map_of bs f = Some b \<and> fb_carrier b = c \<and> fb_load_counted b}"
    using assms by (force simp: ys_def)
  finally show ?thesis .
qed

text \<open>The flows other than \<open>excluding\<close> that a carrier serves at a time.\<close>

definition active_flows :: "nat \<Rightarrow> 'c \<Rightarrow> ip_packet_flow_key \<Rightarrow> 'c packet_flow_table \<Rightarrow> ip_packet_flow_key set" where
  "active_flows now carrier excluding t =
     {f. f \<noteq> excluding \<and> (\<exists>b. map_of (ft_bindings t) f = Some b \<and> fb_carrier b = carrier \<and> active_at now b)}"

lemma active_load_exact:
  assumes "table_ok now t" "counted_active now t"
  shows "active_load_for carrier excluding t = card (active_flows now carrier excluding t)"
proof -
  let ?all = "{f. \<exists>b. map_of (ft_bindings t) f = Some b \<and> fb_carrier b = carrier \<and> fb_load_counted b}"
  have "?all \<subseteq> dom (map_of (ft_bindings t))" by auto
  then have fin: "finite ?all" by (rule finite_subset) (rule finite_dom_map_of)
  have "Mapping.lookup_default 0 (ft_load t) carrier = card ?all"
    using counts_get [OF table_okD(5) [OF assms(1)]] counted_card [OF table_okD(1) [OF assms(1)]] by simp
  moreover have "active_flows now carrier excluding t = ?all - {excluding}"
    using assms(2) by (auto simp: active_flows_def counted_active_def simp del: map_of_eq_Some_iff)
  ultimately show ?thesis using fin
    by (auto simp: active_load_for_def card_Diff_singleton_if simp del: map_of_eq_Some_iff split: option.splits)
qed

lemma same_flows_active:
  assumes "same_flows t t'"
  shows "active_flows now carrier excluding t' = active_flows now carrier excluding t"
proof -
  have "(\<exists>b. map_of (ft_bindings t') f = Some b \<and> fb_carrier b = carrier \<and> active_at now b)
      \<longleftrightarrow> (\<exists>b. map_of (ft_bindings t) f = Some b \<and> fb_carrier b = carrier \<and> active_at now b)" for f
    using assms [unfolded same_flows_def, rule_format, of f]
    by (cases "map_of (ft_bindings t) f"; cases "map_of (ft_bindings t') f") (auto simp: active_at_def flow_deadline_def)
  then show ?thesis by (simp add: active_flows_def)
qed

text \<open>C18. The lazily maintained table answers as if it counted afresh at every call: a flow keeps its
  carrier exactly while the carrier is eligible and the flow has had a packet within its timeout,
  and the load of a carrier is the number of the other flows bound to it that have.\<close>

theorem flow_table_refines:
  assumes "flow_reach clock t" and "clock \<le> now"
  shows "\<exists>t'. planned_current flow now eligible t =
        Some (case map_of (ft_bindings t) flow of
                Some b \<Rightarrow> if eligible (fb_carrier b) \<and> active_at now b then Some (fb_carrier b) else None
              | None \<Rightarrow> None, t')
    \<and> active_load_for carrier flow t' = card (active_flows now carrier flow t)"
proof -
  obtain t' where t': "expire now t = Some t'" using expire_returns by blast
  note ok = flow_reach_ok [OF assms(1)]
  note e = expire_effect [OF conjunct1 [OF ok] assms(2) t']
  have last: "fb_last_packet_at b \<le> now" if "map_of (ft_bindings t) flow = Some b" for b
    using table_okD(6) [OF table_ok_later [OF conjunct1 [OF ok] assms(2)] that] by (simp add: binding_ok_def)
  have "planned_current flow now eligible t =
        Some (case map_of (ft_bindings t) flow of
                Some b \<Rightarrow> if eligible (fb_carrier b) \<and> active_at now b then Some (fb_carrier b) else None
              | None \<Rightarrow> None, t')"
    using e(3) [unfolded same_flows_def, rule_format, of flow] last
    by (cases "map_of (ft_bindings t) flow"; cases "map_of (ft_bindings t') flow")
      (auto simp: planned_current_def t' active_at_def flow_deadline_def)
  then show ?thesis using active_load_exact [OF e(1,2)] same_flows_active [OF e(3)] by simp
qed

text \<open>One flow, bound to carrier 1 at time 100 with a timeout of 50.\<close>

definition ex_flow :: "nat \<Rightarrow> ip_packet_flow_key" where
  "ex_flow port = \<lparr>fk_source = IpV4 [10, 0, 0, 2], fk_destination = IpV4 [10, 0, 0, 1], fk_next_header = 17, fk_discriminator = Ports port 53\<rparr>"

definition ex_flow_table :: "nat packet_flow_table" where
  "ex_flow_table = evict_to_capacity (bind_flow (ex_flow 4000) 1 100 50 (flow_table_new 4))"

lemma ex_flow_bindings: "ft_bindings ex_flow_table = [(ex_flow 4000, \<lparr>fb_carrier = 1, fb_last_packet_at = 100, fb_flowlet_timeout = 50,
    fb_load_generation = 1, fb_load_counted = True\<rparr>)]"
  by (simp add: ex_flow_table_def evict_to_capacity_def bind_flow_def flow_table_new_def Let_def)

lemma ex_flow_reach: "flow_reach 100 ex_flow_table"
proof -
  have r: "flow_reach 0 (flow_table_new 4 :: nat packet_flow_table)" by (rule flow_reach.new) simp
  have e: "expire 100 (flow_table_new 4) = Some (flow_table_new 4 :: nat packet_flow_table)"
    by (simp add: expire_def while_option_unfold expiry_due_def flow_table_new_def)
  have "length (ft_load_expiries ex_flow_table) = 1"
    by (simp add: ex_flow_table_def evict_to_capacity_def bind_flow_def flow_table_new_def Let_def)
  then have c: "compact_expiries_if_needed ex_flow_table = ex_flow_table"
    by (simp add: compact_expiries_if_needed_def ex_flow_bindings saturating_mul_def u64_max_def)
  have "flow_op_step (BindFlow (ex_flow 4000) 1 100 50) (flow_table_new 4) = Some ex_flow_table"
    unfolding flow_op_step.simps bind_def e option.map ex_flow_table_def [symmetric] by (simp add: c)
  from flow_reach.op [OF r _ this] show ?thesis by (simp add: INSTANT_MAX_def)
qed

theorem flow_table_terminates_witness:
  "\<exists>t'. flow_op_step (CommitPlanned (ex_flow 4000) 1 120) ex_flow_table = Some t' \<and> length (ft_bindings t') \<le> ft_capacity t'"
proof -
  have "op_allowed 100 (CommitPlanned (ex_flow 4000) (1 :: nat) 120)" by (simp add: INSTANT_MAX_def)
  from flow_table_terminates [OF ex_flow_reach this] show ?thesis by blast
qed

theorem flow_table_refines_witness:
  "\<exists>t'. planned_current (ex_flow 4001) 120 (\<lambda>_. True) ex_flow_table = Some (None, t') \<and> active_load_for 1 (ex_flow 4001) t' = 1"
proof -
  have "active_flows 120 1 (ex_flow 4001) ex_flow_table = {ex_flow 4000}"
    by (auto simp: active_flows_def ex_flow_bindings active_at_def flow_deadline_def ex_flow_def split: if_splits)
  moreover have "map_of (ft_bindings ex_flow_table) (ex_flow 4001) = None" by (simp add: ex_flow_bindings ex_flow_def)
  ultimately show ?thesis using flow_table_refines [OF ex_flow_reach, of 120 "ex_flow 4001" "\<lambda>_. True" 1] by simp
qed

end
