(* ===== verification/Tun_Addresses.thy ===== *)
theory Tun_Addresses
  imports Credentials "HOL-Library.Product_Lexorder"
begin

text \<open>
  The address plan of the layer-3 service, \<open>src/src/product/tun_l3.rs\<close>: which peer owns which inner
  address. The plan is compiled once from the configuration; the packet service then asks it
  whether a peer may send from an address and to which peer a packet goes.

  Networks are values of the crate \<open>ipnet\<close>: an address and a prefix length. What the crate computes
  from them is a parameter \<open>net\<close> of the operations: whether a network contains an address, its network
  address and its broadcast address. A \<open>HashMap\<close> is an association list; where the code iterates
  over one, the order decides only which of several errors is reported. The text of the errors is
  left out.
\<close>

section \<open>Networks and the specification\<close>

datatype ip_net = NetV4 bytes nat | NetV6 bytes nat

fun prefix_len :: "ip_net \<Rightarrow> nat" where
  "prefix_len (NetV4 a p) = p"
| "prefix_len (NetV6 a p) = p"

record net_ops =
  net_contains :: "ip_net \<Rightarrow> ip_addr \<Rightarrow> bool"
  net_network :: "ip_net \<Rightarrow> ip_addr"
  net_broadcast :: "ip_net \<Rightarrow> ip_addr"

type_synonym principal_id = policy_id

record tun_allocation_spec =
  ta_principal_id :: principal_id
  ta_ipv4 :: "bytes option"
  ta_ipv6 :: "bytes option"
  ta_allowed_ips :: "ip_net list"

record tun_server_spec =
  ts_interface_name :: "rust_string option"
  ts_ipv4_pool :: "(bytes \<times> nat) option"
  ts_ipv4 :: "bytes option"
  ts_ipv6_pool :: "(bytes \<times> nat) option"
  ts_ipv6 :: "bytes option"
  ts_mtu :: u16
  ts_allocations :: "tun_allocation_spec list"

record tun_peer_allocation =
  tp_principal_id :: principal_id
  tp_ipv4 :: "bytes option"
  tp_ipv6 :: "bytes option"
  tp_allowed_ips :: "ip_net list"

record owned_prefix =
  op_network :: ip_net
  op_principal_id :: principal_id

record tun_address_plan =
  ap_interface_name :: "rust_string option"
  ap_ipv4_pool :: "(bytes \<times> nat) option"
  ap_ipv4 :: "bytes option"
  ap_ipv6_pool :: "(bytes \<times> nat) option"
  ap_ipv6 :: "bytes option"
  ap_mtu :: u16
  ap_peers :: "(principal_id \<times> tun_peer_allocation) list"
  ap_host_owners :: "(ip_addr \<times> principal_id) list"
  ap_routed_prefixes :: "owned_prefix list"

datatype tun_plan_error =
    PoolRequired
  | AllocationRequired
  | MtuTooSmall u16
  | Ipv6MtuTooSmall u16
  | ServerAddressRequired nat
  | PoolRequiredForServerAddress nat
  | ServerAddressOutsidePool ip_addr ip_net
  | UnusableHostAddress ip_addr
  | UnknownPrincipal principal_id
  | DuplicatePrincipal principal_id
  | EmptyAllocation principal_id
  | AllocationWithoutPool principal_id ip_addr
  | AllocationOutsidePool principal_id ip_addr ip_net
  | AllocationUsesServerAddress principal_id ip_addr
  | AddressOwnedTwice ip_addr principal_id principal_id
  | OwnershipContainsServerAddress principal_id ip_net
  | OverlappingOwnership ip_net principal_id ip_net principal_id

text \<open>\<open>owns\<close> of a peer's allocation.\<close>

definition owns :: "net_ops \<Rightarrow> tun_peer_allocation \<Rightarrow> ip_addr \<Rightarrow> bool" where
  "owns net peer address \<longleftrightarrow>
     (case tp_ipv4 peer of Some assigned \<Rightarrow> address = IpV4 assigned | None \<Rightarrow> False)
     \<or> (case tp_ipv6 peer of Some assigned \<Rightarrow> address = IpV6 assigned | None \<Rightarrow> False)
     \<or> list_ex (\<lambda>network. net_contains net network address) (tp_allowed_ips peer)"

section \<open>Validation\<close>

text \<open>The predicates of the standard library's addresses: the first byte of an IPv4 multicast address
  is 224 to 239, that of an IPv6 one is 255.\<close>

definition v4_unusable :: "bytes \<Rightarrow> bool" where
  "v4_unusable a \<longleftrightarrow> a = [0, 0, 0, 0] \<or> (224 \<le> hd a \<and> hd a \<le> 239) \<or> a = [255, 255, 255, 255]"

fun is_usable_host_address :: "net_ops \<Rightarrow> ip_addr \<Rightarrow> ip_net \<Rightarrow> bool" where
  "is_usable_host_address net (IpV4 address) (NetV4 a p) \<longleftrightarrow>
     \<not> v4_unusable address
     \<and> (p \<ge> 31 \<or> IpV4 address \<noteq> net_network net (NetV4 a p) \<and> IpV4 address \<noteq> net_broadcast net (NetV4 a p))"
| "is_usable_host_address net (IpV6 address) (NetV6 a p) \<longleftrightarrow> address \<noteq> replicate 16 0 \<and> hd address \<noteq> 255"
| "is_usable_host_address net _ _ \<longleftrightarrow> False"

definition validate_server_family :: "net_ops \<Rightarrow> ip_net option \<Rightarrow> ip_addr option \<Rightarrow> nat \<Rightarrow> tun_plan_error + unit" where
  "validate_server_family net pool server family =
     (case (pool, server) of
        (None, None) \<Rightarrow> Inr ()
      | (Some pool, Some server) \<Rightarrow>
          if \<not> net_contains net pool server then Inl (ServerAddressOutsidePool server pool)
          else if \<not> is_usable_host_address net server pool then Inl (UnusableHostAddress server)
          else Inr ()
      | (Some _, None) \<Rightarrow> Inl (ServerAddressRequired family)
      | (None, Some _) \<Rightarrow> Inl (PoolRequiredForServerAddress family))"

definition validate_allocated_address ::
  "net_ops \<Rightarrow> ip_addr option \<Rightarrow> ip_net option \<Rightarrow> ip_addr set \<Rightarrow> principal_id \<Rightarrow> tun_plan_error + unit" where
  "validate_allocated_address net address pool server_addresses owner_id =
     (case address of
        None \<Rightarrow> Inr ()
      | Some address \<Rightarrow>
          (case pool of
             None \<Rightarrow> Inl (AllocationWithoutPool owner_id address)
           | Some pool \<Rightarrow>
               if \<not> net_contains net pool address then Inl (AllocationOutsidePool owner_id address pool)
               else if \<not> is_usable_host_address net address pool then Inl (UnusableHostAddress address)
               else if address \<in> server_addresses then Inl (AllocationUsesServerAddress owner_id address)
               else Inr ()))"

fun networks_overlap :: "net_ops \<Rightarrow> ip_net \<Rightarrow> ip_net \<Rightarrow> bool" where
  "networks_overlap net (NetV4 a p) (NetV4 b q) \<longleftrightarrow>
     net_contains net (NetV4 a p) (net_network net (NetV4 b q)) \<or> net_contains net (NetV4 b q) (net_network net (NetV4 a p))"
| "networks_overlap net (NetV6 a p) (NetV6 b q) \<longleftrightarrow>
     net_contains net (NetV6 a p) (net_network net (NetV6 b q)) \<or> net_contains net (NetV6 b q) (net_network net (NetV6 a p))"
| "networks_overlap net _ _ \<longleftrightarrow> False"

fun host_net :: "ip_addr \<Rightarrow> ip_net" where
  "host_net (IpV4 a) = NetV4 a 32"
| "host_net (IpV6 a) = NetV6 a 128"

primrec host_conflict :: "net_ops \<Rightarrow> owned_prefix \<Rightarrow> (ip_addr \<times> principal_id) list \<Rightarrow> tun_plan_error option" where
  "host_conflict net route [] = None"
| "host_conflict net route (h # hosts) =
     (if snd h \<noteq> op_principal_id route \<and> net_contains net (op_network route) (fst h)
      then Some (OverlappingOwnership (host_net (fst h)) (snd h) (op_network route) (op_principal_id route))
      else host_conflict net route hosts)"

primrec route_conflict :: "net_ops \<Rightarrow> owned_prefix \<Rightarrow> owned_prefix list \<Rightarrow> tun_plan_error option" where
  "route_conflict net route [] = None"
| "route_conflict net route (other # others) =
     (if op_principal_id route \<noteq> op_principal_id other \<and> networks_overlap net (op_network route) (op_network other)
      then Some (OverlappingOwnership (op_network other) (op_principal_id other) (op_network route) (op_principal_id route))
      else route_conflict net route others)"

primrec disjoint_loop ::
  "net_ops \<Rightarrow> (ip_addr \<times> principal_id) list \<Rightarrow> owned_prefix list \<Rightarrow> owned_prefix list \<Rightarrow> tun_plan_error + unit" where
  "disjoint_loop net hosts earlier [] = Inr ()"
| "disjoint_loop net hosts earlier (route # routes) =
     (case host_conflict net route hosts of
        Some e \<Rightarrow> Inl e
      | None \<Rightarrow>
          (case route_conflict net route earlier of
             Some e \<Rightarrow> Inl e
           | None \<Rightarrow> disjoint_loop net hosts (earlier @ [route]) routes))"

definition validate_disjoint_ownership ::
  "net_ops \<Rightarrow> (ip_addr \<times> principal_id) list \<Rightarrow> owned_prefix list \<Rightarrow> tun_plan_error + unit" where
  "validate_disjoint_ownership net hosts routes = disjoint_loop net hosts [] routes"

section \<open>Compilation\<close>

fun route_start :: "net_ops \<Rightarrow> ip_net \<Rightarrow> nat \<times> nat" where
  "route_start net n = (case net_network net n of IpV4 a \<Rightarrow> (4, be_nat a) | IpV6 a \<Rightarrow> (6, be_nat a))"

type_synonym plan_parts = "(principal_id \<times> tun_peer_allocation) list \<times> (ip_addr \<times> principal_id) list \<times> owned_prefix list"

text \<open>An address is entered once.\<close>

definition claim_address ::
  "ip_addr option \<Rightarrow> principal_id \<Rightarrow> (ip_addr \<times> principal_id) list \<Rightarrow> tun_plan_error + (ip_addr \<times> principal_id) list" where
  "claim_address address owner_id hosts =
     (case address of
        None \<Rightarrow> Inr hosts
      | Some address \<Rightarrow>
          (case map_of hosts address of
             Some previous \<Rightarrow> Inl (AddressOwnedTwice address previous owner_id)
           | None \<Rightarrow> Inr ((address, owner_id) # hosts)))"

primrec claim_prefixes ::
  "net_ops \<Rightarrow> ip_addr set \<Rightarrow> principal_id \<Rightarrow> ip_net list \<Rightarrow> owned_prefix list \<Rightarrow> tun_plan_error + owned_prefix list" where
  "claim_prefixes net server_addresses owner_id [] routes = Inr routes"
| "claim_prefixes net server_addresses owner_id (network # networks) routes =
     (if \<exists>address \<in> server_addresses. net_contains net network address
      then Inl (OwnershipContainsServerAddress owner_id network)
      else claim_prefixes net server_addresses owner_id networks (routes @ [\<lparr>op_network = network, op_principal_id = owner_id\<rparr>]))"

definition compile_allocation ::
  "net_ops \<Rightarrow> tun_server_spec \<Rightarrow> principal_id set \<Rightarrow> ip_addr set \<Rightarrow> tun_allocation_spec \<Rightarrow> plan_parts \<Rightarrow> tun_plan_error + plan_parts" where
  "compile_allocation net spec accepted server_addresses alloc parts =
     (let (peers, hosts, routes) = parts;
          owner_id = ta_principal_id alloc;
          v4 = map_option IpV4 (ta_ipv4 alloc);
          v6 = map_option IpV6 (ta_ipv6 alloc)
      in if owner_id \<notin> accepted then Inl (UnknownPrincipal owner_id)
         else if v4 = None \<and> v6 = None then Inl (EmptyAllocation owner_id)
         else if map_of peers owner_id \<noteq> None then Inl (DuplicatePrincipal owner_id)
         else
           and_then (validate_allocated_address net v4 (map_option (\<lambda>(a, p). NetV4 a p) (ts_ipv4_pool spec)) server_addresses owner_id) (\<lambda>_.
           and_then (validate_allocated_address net v6 (map_option (\<lambda>(a, p). NetV6 a p) (ts_ipv6_pool spec)) server_addresses owner_id) (\<lambda>_.
           and_then (claim_address v4 owner_id hosts) (\<lambda>hosts1.
           and_then (claim_address v6 owner_id hosts1) (\<lambda>hosts2.
           and_then (claim_prefixes net server_addresses owner_id (ta_allowed_ips alloc) routes) (\<lambda>routes1.
             Inr ((owner_id, \<lparr>tp_principal_id = owner_id, tp_ipv4 = ta_ipv4 alloc, tp_ipv6 = ta_ipv6 alloc,
                     tp_allowed_ips = ta_allowed_ips alloc\<rparr>) # peers, hosts2, routes1)))))))"

primrec compile_allocations ::
  "net_ops \<Rightarrow> tun_server_spec \<Rightarrow> principal_id set \<Rightarrow> ip_addr set \<Rightarrow> tun_allocation_spec list \<Rightarrow> plan_parts \<Rightarrow> tun_plan_error + plan_parts" where
  "compile_allocations net spec accepted server_addresses [] parts = Inr parts"
| "compile_allocations net spec accepted server_addresses (a # as) parts =
     and_then (compile_allocation net spec accepted server_addresses a parts) (compile_allocations net spec accepted server_addresses as)"

definition server_address_set :: "tun_server_spec \<Rightarrow> ip_addr set" where
  "server_address_set spec = set_option (map_option IpV4 (ts_ipv4 spec)) \<union> set_option (map_option IpV6 (ts_ipv6 spec))"

definition compile_plan :: "net_ops \<Rightarrow> tun_server_spec \<Rightarrow> credential_authority \<Rightarrow> tun_plan_error + tun_address_plan" where
  "compile_plan net spec authority =
     and_then (validate_server_family net (map_option (\<lambda>(a, p). NetV4 a p) (ts_ipv4_pool spec)) (map_option IpV4 (ts_ipv4 spec)) 4) (\<lambda>_.
     and_then (validate_server_family net (map_option (\<lambda>(a, p). NetV6 a p) (ts_ipv6_pool spec)) (map_option IpV6 (ts_ipv6 spec)) 6) (\<lambda>_.
       if ts_ipv4_pool spec = None \<and> ts_ipv6_pool spec = None then Inl PoolRequired
       else if ts_allocations spec = [] then Inl AllocationRequired
       else if ts_mtu spec < 576 then Inl (MtuTooSmall (ts_mtu spec))
       else if ts_ipv6_pool spec \<noteq> None \<and> ts_mtu spec < 1280 then Inl (Ipv6MtuTooSmall (ts_mtu spec))
       else
         let accepted = (cr_principal \<circ> snd) ` set authority
         in and_then (compile_allocations net spec accepted (server_address_set spec) (ts_allocations spec) ([], [], [])) (\<lambda>(peers, hosts, routes).
            and_then (validate_disjoint_ownership net hosts routes) (\<lambda>_.
              Inr \<lparr>ap_interface_name = ts_interface_name spec, ap_ipv4_pool = ts_ipv4_pool spec, ap_ipv4 = ts_ipv4 spec,
                   ap_ipv6_pool = ts_ipv6_pool spec, ap_ipv6 = ts_ipv6 spec, ap_mtu = ts_mtu spec, ap_peers = peers,
                   ap_host_owners = hosts,
                   ap_routed_prefixes =
                     sort_key (\<lambda>r. (route_start net (op_network r), - int (prefix_len (op_network r)))) routes\<rparr>))))"

definition plan_peer :: "tun_address_plan \<Rightarrow> principal_id \<Rightarrow> tun_peer_allocation option" where
  "plan_peer plan owner_id = map_of (ap_peers plan) owner_id"

text \<open>\<open>Iterator::max_by_key\<close> returns the last of several maximal elements.\<close>

primrec max_by_key :: "('a \<Rightarrow> nat) \<Rightarrow> 'a list \<Rightarrow> 'a option \<Rightarrow> 'a option" where
  "max_by_key f [] best = best"
| "max_by_key f (x # xs) best = max_by_key f xs (case best of Some b \<Rightarrow> if f x \<ge> f b then Some x else best | None \<Rightarrow> Some x)"

definition plan_owner :: "net_ops \<Rightarrow> tun_address_plan \<Rightarrow> ip_addr \<Rightarrow> principal_id option" where
  "plan_owner net plan address =
     (case map_of (ap_host_owners plan) address of
        Some owner_id \<Rightarrow> Some owner_id
      | None \<Rightarrow> map_option op_principal_id
          (max_by_key (\<lambda>r. prefix_len (op_network r))
            (filter (\<lambda>r. net_contains net (op_network r) address) (ap_routed_prefixes plan)) None))"

section \<open>What a compiled plan says\<close>

definition assigned :: "tun_peer_allocation \<Rightarrow> ip_addr \<Rightarrow> bool" where
  "assigned peer address \<longleftrightarrow> address \<in> set_option (map_option IpV4 (tp_ipv4 peer)) \<union> set_option (map_option IpV6 (tp_ipv6 peer))"

lemma owns_iff: "owns net peer address \<longleftrightarrow> assigned peer address \<or> (\<exists>n \<in> set (tp_allowed_ips peer). net_contains net n address)"
  by (auto simp: owns_def assigned_def list_ex_iff split: option.splits)

text \<open>The two indexes say what the allocations say, and no server address is in either.\<close>

definition parts_ok :: "net_ops \<Rightarrow> ip_addr set \<Rightarrow> plan_parts \<Rightarrow> bool" where
  "parts_ok net servers parts \<longleftrightarrow> (case parts of (peers, hosts, routes) \<Rightarrow>
     (\<forall>a p. map_of hosts a = Some p \<longleftrightarrow> (\<exists>peer. map_of peers p = Some peer \<and> assigned peer a))
     \<and> (\<forall>n p. \<lparr>op_network = n, op_principal_id = p\<rparr> \<in> set routes \<longleftrightarrow> (\<exists>peer. map_of peers p = Some peer \<and> n \<in> set (tp_allowed_ips peer)))
     \<and> (\<forall>a \<in> servers. map_of hosts a = None \<and> (\<forall>r \<in> set routes. \<not> net_contains net (op_network r) a)))"

lemma claim_address_Inr:
  "claim_address address p hosts = Inr hosts' \<longleftrightarrow>
     (case address of None \<Rightarrow> hosts' = hosts | Some a \<Rightarrow> map_of hosts a = None \<and> hosts' = (a, p) # hosts)"
  by (auto simp: claim_address_def split: option.splits)

lemma claim_prefixes_Inr:
  "claim_prefixes net servers p ns routes = Inr routes' \<longleftrightarrow>
     (\<forall>n \<in> set ns. \<forall>a \<in> servers. \<not> net_contains net n a) \<and> routes' = routes @ map (\<lambda>n. \<lparr>op_network = n, op_principal_id = p\<rparr>) ns"
  by (induction ns arbitrary: routes) auto

lemma validate_allocated_Inr:
  "validate_allocated_address net (Some a) pool servers p = Inr () \<Longrightarrow> a \<notin> servers"
  by (auto simp: validate_allocated_address_def split: option.splits if_splits)

lemma claim_both:
  assumes "claim_address (map_option IpV4 v4) p hosts = Inr hosts1" "claim_address (map_option IpV6 v6) p hosts1 = Inr hosts2"
  shows "map_of hosts2 a = Some q \<longleftrightarrow>
      (a \<in> set_option (map_option IpV4 v4) \<union> set_option (map_option IpV6 v6) \<and> q = p) \<or> map_of hosts a = Some q"
  using assms by (cases v4; cases v6) (auto simp: claim_address_Inr)

lemma compile_allocation_ok:
  assumes "parts_ok net servers parts" "compile_allocation net spec accepted servers alloc parts = Inr parts'"
  shows "parts_ok net servers parts'"
proof -
  obtain peers hosts routes where p: "parts = (peers, hosts, routes)" by (cases parts)
  let ?p = "ta_principal_id alloc"
  let ?peer = "\<lparr>tp_principal_id = ?p, tp_ipv4 = ta_ipv4 alloc, tp_ipv6 = ta_ipv6 alloc, tp_allowed_ips = ta_allowed_ips alloc\<rparr>"
  obtain hosts1 hosts2 where c: "claim_address (map_option IpV4 (ta_ipv4 alloc)) ?p hosts = Inr hosts1"
      "claim_address (map_option IpV6 (ta_ipv6 alloc)) ?p hosts1 = Inr hosts2" and new: "map_of peers ?p = None"
      and v: "validate_allocated_address net (map_option IpV4 (ta_ipv4 alloc)) (map_option (\<lambda>(a, p). NetV4 a p) (ts_ipv4_pool spec)) servers ?p = Inr ()"
        "validate_allocated_address net (map_option IpV6 (ta_ipv6 alloc)) (map_option (\<lambda>(a, p). NetV6 a p) (ts_ipv6_pool spec)) servers ?p = Inr ()"
      and nets: "\<forall>n \<in> set (ta_allowed_ips alloc). \<forall>a \<in> servers. \<not> net_contains net n a"
      and p': "parts' = ((?p, ?peer) # peers, hosts2, routes @ map (\<lambda>n. \<lparr>op_network = n, op_principal_id = ?p\<rparr>) (ta_allowed_ips alloc))"
    using assms(2) by (auto simp: compile_allocation_def p Let_def and_then_Inr_iff claim_prefixes_Inr split: if_splits)
  note claim = claim_both [OF c]
  have asg: "assigned ?peer a \<longleftrightarrow> a \<in> set_option (map_option IpV4 (ta_ipv4 alloc)) \<union> set_option (map_option IpV6 (ta_ipv6 alloc))" for a
    by (simp add: assigned_def)
  have free: "a \<notin> servers" if "assigned ?peer a" for a
    using that v validate_allocated_Inr by (auto simp: assigned_def)
  have old: "map_of hosts a = Some q \<Longrightarrow> q \<noteq> ?p" "\<lparr>op_network = n, op_principal_id = q\<rparr> \<in> set routes \<Longrightarrow> q \<noteq> ?p" for a n q
    using assms(1) new by (auto simp: parts_ok_def p)
  have "map_of hosts2 a = Some q \<longleftrightarrow> (\<exists>peer. map_of ((?p, ?peer) # peers) q = Some peer \<and> assigned peer a)" for a q
    using claim [of a q] asg [of a] old(1) [of a q] assms(1) by (auto simp: parts_ok_def p)
  moreover have "map_of hosts2 a = None" if "a \<in> servers" for a
    using claim [of a] asg [of a] free [of a] assms(1) that by (cases "map_of hosts2 a") (auto simp: parts_ok_def p)
  ultimately show ?thesis using assms(1) old(2) nets new by (auto simp: parts_ok_def p p')
qed

lemma compile_allocations_ok:
  "parts_ok net servers parts \<Longrightarrow> compile_allocations net spec accepted servers as parts = Inr parts' \<Longrightarrow> parts_ok net servers parts'"
  by (induction as arbitrary: parts) (auto simp: and_then_Inr_iff dest: compile_allocation_ok)

text \<open>The routes of different peers do not overlap, nor does a route with another peer's address.\<close>

lemma host_conflict_None:
  "host_conflict net r hosts = None \<longleftrightarrow> (\<forall>(a, q) \<in> set hosts. net_contains net (op_network r) a \<longrightarrow> q = op_principal_id r)"
  by (induction hosts) auto

lemma route_conflict_None:
  "route_conflict net r others = None \<longleftrightarrow>
     (\<forall>s \<in> set others. networks_overlap net (op_network r) (op_network s) \<longrightarrow> op_principal_id s = op_principal_id r)"
  by (induction others) auto

lemma networks_overlap_sym: "networks_overlap net m n \<longleftrightarrow> networks_overlap net n m"
  by (cases m; cases n) auto

lemma disjoint_loop_Inr:
  assumes "disjoint_loop net hosts earlier routes = Inr ()"
    "\<forall>r \<in> set earlier. \<forall>s \<in> set earlier. networks_overlap net (op_network r) (op_network s) \<longrightarrow> op_principal_id s = op_principal_id r"
  shows "(\<forall>r \<in> set routes. host_conflict net r hosts = None)
    \<and> (\<forall>r \<in> set (earlier @ routes). \<forall>s \<in> set (earlier @ routes). networks_overlap net (op_network r) (op_network s) \<longrightarrow> op_principal_id s = op_principal_id r)"
  using assms
proof (induction routes arbitrary: earlier)
  case (Cons r routes)
  have c: "host_conflict net r hosts = None" "route_conflict net r earlier = None" "disjoint_loop net hosts (earlier @ [r]) routes = Inr ()"
    using Cons.prems(1) by (auto split: option.splits)
  have e: "\<forall>s \<in> set earlier. networks_overlap net (op_network r) (op_network s) \<longrightarrow> op_principal_id s = op_principal_id r"
    using c(2) by (simp add: route_conflict_None)
  have e': "\<forall>s \<in> set earlier. networks_overlap net (op_network s) (op_network r) \<longrightarrow> op_principal_id s = op_principal_id r"
    using e networks_overlap_sym by blast
  have "\<forall>x \<in> set (earlier @ [r]). \<forall>s \<in> set (earlier @ [r]). networks_overlap net (op_network x) (op_network s) \<longrightarrow> op_principal_id s = op_principal_id x"
    using Cons.prems(2) e e' by auto
  from Cons.IH [OF c(3) this] show ?case using c(1) by simp
qed simp

lemma max_by_key_in: "max_by_key f xs best = Some x \<Longrightarrow> x \<in> set xs \<or> best = Some x"
proof (induction xs arbitrary: best)
  case (Cons y ys)
  then show ?case using Cons.IH by (cases best) (auto split: if_splits)
qed simp

lemma max_by_key_None: "max_by_key f xs best = None \<longleftrightarrow> xs = [] \<and> best = None"
  by (induction xs arbitrary: best) (auto split: option.splits)

section \<open>Ownership\<close>

text \<open>What is assumed of the crate: two networks that share an address are of one family, and the one
  contains the network address of the other.\<close>

definition nets_nest :: "net_ops \<Rightarrow> bool" where
  "nets_nest net \<longleftrightarrow> (\<forall>m n a. net_contains net m a \<longrightarrow> net_contains net n a \<longrightarrow> networks_overlap net m n)"

lemma compile_plan_parts:
  assumes "compile_plan net spec authority = Inr plan"
  obtains routes where "parts_ok net (server_address_set spec) (ap_peers plan, ap_host_owners plan, routes)"
    "validate_disjoint_ownership net (ap_host_owners plan) routes = Inr ()" "set (ap_routed_prefixes plan) = set routes"
proof -
  let ?accepted = "(cr_principal \<circ> snd) ` set authority"
  obtain peers hosts routes where c: "compile_allocations net spec ?accepted (server_address_set spec) (ts_allocations spec) ([], [], []) = Inr (peers, hosts, routes)"
      "validate_disjoint_ownership net hosts routes = Inr ()" "ap_peers plan = peers" "ap_host_owners plan = hosts"
      "set (ap_routed_prefixes plan) = set routes"
    using assms by (auto simp: compile_plan_def and_then_Inr_iff Let_def split: if_splits)
  have "parts_ok net (server_address_set spec) ([], [], [])" by (simp add: parts_ok_def)
  then have "parts_ok net (server_address_set spec) (peers, hosts, routes)" by (rule compile_allocations_ok [OF _ c(1)])
  then show thesis using that c by simp
qed

text \<open>The route indexes of a compiled plan: they say what the allocations say, and all that apply to one
  address name one peer.\<close>

definition hosts_agree :: "tun_address_plan \<Rightarrow> bool" where
  "hosts_agree plan \<longleftrightarrow> (\<forall>a q. map_of (ap_host_owners plan) a = Some q \<longleftrightarrow> (\<exists>peer. plan_peer plan q = Some peer \<and> assigned peer a))"

definition routes_agree :: "tun_address_plan \<Rightarrow> bool" where
  "routes_agree plan \<longleftrightarrow> (\<forall>n q. \<lparr>op_network = n, op_principal_id = q\<rparr> \<in> set (ap_routed_prefixes plan)
     \<longleftrightarrow> (\<exists>peer. plan_peer plan q = Some peer \<and> n \<in> set (tp_allowed_ips peer)))"

definition one_owner :: "net_ops \<Rightarrow> tun_address_plan \<Rightarrow> bool" where
  "one_owner net plan \<longleftrightarrow> (\<forall>a. \<forall>s \<in> set (ap_routed_prefixes plan). net_contains net (op_network s) a \<longrightarrow>
     (\<forall>t \<in> set (ap_routed_prefixes plan). net_contains net (op_network t) a \<longrightarrow> op_principal_id t = op_principal_id s)
     \<and> (\<forall>q. map_of (ap_host_owners plan) a = Some q \<longrightarrow> q = op_principal_id s))"

definition servers_free :: "net_ops \<Rightarrow> ip_addr set \<Rightarrow> tun_address_plan \<Rightarrow> bool" where
  "servers_free net servers plan \<longleftrightarrow> (\<forall>a \<in> servers. map_of (ap_host_owners plan) a = None
     \<and> (\<forall>s \<in> set (ap_routed_prefixes plan). \<not> net_contains net (op_network s) a))"

definition plan_ok :: "net_ops \<Rightarrow> ip_addr set \<Rightarrow> tun_address_plan \<Rightarrow> bool" where
  "plan_ok net servers plan \<longleftrightarrow> hosts_agree plan \<and> routes_agree plan \<and> one_owner net plan \<and> servers_free net servers plan"

lemma compile_plan_ok:
  assumes "compile_plan net spec authority = Inr plan" "nets_nest net"
  shows "plan_ok net (server_address_set spec) plan"
proof -
  obtain routes where r: "parts_ok net (server_address_set spec) (ap_peers plan, ap_host_owners plan, routes)"
      "validate_disjoint_ownership net (ap_host_owners plan) routes = Inr ()" "set (ap_routed_prefixes plan) = set routes"
    by (rule compile_plan_parts [OF assms(1)])
  have d: "\<forall>r \<in> set routes. host_conflict net r (ap_host_owners plan) = None"
      "\<forall>r \<in> set routes. \<forall>s \<in> set routes. networks_overlap net (op_network r) (op_network s) \<longrightarrow> op_principal_id s = op_principal_id r"
    using disjoint_loop_Inr [of net "ap_host_owners plan" "[]" routes] r(2) by (simp_all add: validate_disjoint_ownership_def)
  have same: "op_principal_id t = op_principal_id s" if "s \<in> set routes" "t \<in> set routes"
      "net_contains net (op_network s) a" "net_contains net (op_network t) a" for s t a
    using d(2) that assms(2) unfolding nets_nest_def by metis
  have host: "q = op_principal_id s" if "map_of (ap_host_owners plan) a = Some q" "s \<in> set routes" "net_contains net (op_network s) a" for q s a
    using d(1) that map_of_SomeD [OF that(1)] by (auto simp: host_conflict_None)
  have "one_owner net plan" unfolding one_owner_def r(3) using same host by blast
  moreover have "hosts_agree plan" "routes_agree plan" "servers_free net (server_address_set spec) plan"
    using r(1) unfolding parts_ok_def hosts_agree_def routes_agree_def servers_free_def plan_peer_def r(3) by simp_all
  ultimately show ?thesis by (simp add: plan_ok_def)
qed

lemma best_route:
  obtains (none) "\<forall>s \<in> set routes. \<not> net_contains net (op_network s) a"
      "max_by_key f (filter (\<lambda>r. net_contains net (op_network r) a) routes) None = None"
    | (some) b where "b \<in> set routes" "net_contains net (op_network b) a"
      "max_by_key f (filter (\<lambda>r. net_contains net (op_network r) a) routes) None = Some b"
proof (cases "max_by_key f (filter (\<lambda>r. net_contains net (op_network r) a) routes) None")
  case None
  then show ?thesis using none by (simp add: max_by_key_None filter_empty_conv)
next
  case (Some b)
  then show ?thesis using some max_by_key_in [OF Some] by auto
qed

lemma routed_network:
  "(\<exists>s \<in> R. op_principal_id s = q \<and> net_contains net (op_network s) a) \<longleftrightarrow>
     (\<exists>n. \<lparr>op_network = n, op_principal_id = q\<rparr> \<in> R \<and> net_contains net n a)"
proof
  assume "\<exists>s \<in> R. op_principal_id s = q \<and> net_contains net (op_network s) a"
  then obtain s where s: "s \<in> R" "op_principal_id s = q" "net_contains net (op_network s) a" by blast
  then have "\<lparr>op_network = op_network s, op_principal_id = q\<rparr> = s" by simp
  then show "\<exists>n. \<lparr>op_network = n, op_principal_id = q\<rparr> \<in> R \<and> net_contains net n a" using s by metis
qed force

lemma plan_ok_owner:
  assumes "plan_ok net servers plan"
  shows "plan_owner net plan a = Some p \<longleftrightarrow> (\<exists>peer. plan_peer plan p = Some peer \<and> owns net peer a)"
proof -
  have hosts: "map_of (ap_host_owners plan) a = Some q \<longleftrightarrow> (\<exists>peer. plan_peer plan q = Some peer \<and> assigned peer a)" for q
    using assms unfolding plan_ok_def hosts_agree_def by blast
  have routes: "\<lparr>op_network = n, op_principal_id = q\<rparr> \<in> set (ap_routed_prefixes plan) \<longleftrightarrow> (\<exists>peer. plan_peer plan q = Some peer \<and> n \<in> set (tp_allowed_ips peer))" for n q
    using assms unfolding plan_ok_def routes_agree_def by blast
  have one: "(\<forall>t \<in> set (ap_routed_prefixes plan). net_contains net (op_network t) a \<longrightarrow> op_principal_id t = op_principal_id s)
      \<and> (\<forall>q. map_of (ap_host_owners plan) a = Some q \<longrightarrow> q = op_principal_id s)"
    if "s \<in> set (ap_routed_prefixes plan)" "net_contains net (op_network s) a" for s
    using assms that unfolding plan_ok_def one_owner_def by blast
  let ?routed = "\<lambda>q. \<exists>s \<in> set (ap_routed_prefixes plan). op_principal_id s = q \<and> net_contains net (op_network s) a"
  have routed_iff: "?routed q \<longleftrightarrow> (\<exists>peer. plan_peer plan q = Some peer \<and> (\<exists>n \<in> set (tp_allowed_ips peer). net_contains net n a))" for q
  proof -
    have "?routed q \<longleftrightarrow> (\<exists>n. \<lparr>op_network = n, op_principal_id = q\<rparr> \<in> set (ap_routed_prefixes plan) \<and> net_contains net n a)"
      by (rule routed_network)
    then show ?thesis unfolding routes by blast
  qed
  have owned: "(\<exists>peer. plan_peer plan q = Some peer \<and> owns net peer a) \<longleftrightarrow> map_of (ap_host_owners plan) a = Some q \<or> ?routed q" for q
    unfolding owns_iff hosts routed_iff by blast
  show ?thesis
  proof (cases rule: best_route [of "ap_routed_prefixes plan" net a "\<lambda>r. prefix_len (op_network r)"])
    case none
    then have "\<not> ?routed p" by blast
    then show ?thesis unfolding owned by (auto simp: plan_owner_def none(2) split: option.splits)
  next
    case (some b)
    have routed: "?routed p \<longleftrightarrow> op_principal_id b = p" using some(1,2) one [OF some(1,2)] by metis
    have own: "plan_owner net plan a = (case map_of (ap_host_owners plan) a of Some q \<Rightarrow> Some q | None \<Rightarrow> Some (op_principal_id b))"
      by (simp add: plan_owner_def some(3) split: option.split)
    show ?thesis
    proof (cases "map_of (ap_host_owners plan) a")
      case None
      then show ?thesis unfolding owned routed own by simp
    next
      case (Some q)
      then have "q = op_principal_id b" using one [OF some(1,2)] by blast
      then show ?thesis unfolding owned routed own using Some by simp
    qed
  qed
qed

text \<open>C16. A compiled plan gives every inner address at most one owner, and finds it: the lookup by
  host address and longest prefix returns a peer exactly when that peer's allocation owns the
  address. So no two peers own one address, and no peer owns an address of the server.\<close>

theorem plan_owner_exact:
  assumes "compile_plan net spec authority = Inr plan" and "nets_nest net"
  shows "(plan_owner net plan address = Some p \<longleftrightarrow> (\<exists>peer. plan_peer plan p = Some peer \<and> owns net peer address))
    \<and> (address \<in> server_address_set spec \<longrightarrow> plan_owner net plan address = None)"
proof -
  note ok = compile_plan_ok [OF assms]
  have "plan_owner net plan address = None" if "address \<in> server_address_set spec"
  proof -
    have "map_of (ap_host_owners plan) address = None" "\<forall>s \<in> set (ap_routed_prefixes plan). \<not> net_contains net (op_network s) address"
      using ok that by (simp_all add: plan_ok_def servers_free_def)
    then show ?thesis by (simp add: plan_owner_def max_by_key_None filter_empty_conv)
  qed
  then show ?thesis using plan_ok_owner [OF ok] by blast
qed

text \<open>Networks as prefixes of addresses, and a server with two peers, one of them with a routed prefix.\<close>

definition net_prefix :: "nat \<Rightarrow> nat \<Rightarrow> bytes \<Rightarrow> nat" where
  "net_prefix w p a = be_nat a div 2 ^ (w - p)"

fun cidr_contains :: "ip_net \<Rightarrow> ip_addr \<Rightarrow> bool" where
  "cidr_contains (NetV4 b p) (IpV4 a) \<longleftrightarrow> net_prefix 32 p a = net_prefix 32 p b"
| "cidr_contains (NetV6 b p) (IpV6 a) \<longleftrightarrow> net_prefix 128 p a = net_prefix 128 p b"
| "cidr_contains _ _ \<longleftrightarrow> False"

fun cidr_network :: "ip_net \<Rightarrow> ip_addr" where
  "cidr_network (NetV4 b p) = IpV4 (be_bytes (length b) (net_prefix 32 p b * 2 ^ (32 - p)))"
| "cidr_network (NetV6 b p) = IpV6 (be_bytes (length b) (net_prefix 128 p b * 2 ^ (128 - p)))"

fun cidr_broadcast :: "ip_net \<Rightarrow> ip_addr" where
  "cidr_broadcast (NetV4 b p) = IpV4 (be_bytes (length b) (net_prefix 32 p b * 2 ^ (32 - p) + 2 ^ (32 - p) - 1))"
| "cidr_broadcast (NetV6 b p) = IpV6 (be_bytes (length b) (net_prefix 128 p b * 2 ^ (128 - p) + 2 ^ (128 - p) - 1))"

definition cidr_ops :: net_ops where
  "cidr_ops = \<lparr>net_contains = cidr_contains, net_network = cidr_network, net_broadcast = cidr_broadcast\<rparr>"

lemma net_prefix_shorter:
  assumes "p \<le> q"
  shows "net_prefix w p a = net_prefix w q a div 2 ^ ((w - p) - (w - q))"
proof -
  have "(2 :: nat) ^ (w - p) = 2 ^ (w - q) * 2 ^ ((w - p) - (w - q))" using assms by (simp flip: power_add)
  then show ?thesis by (simp add: net_prefix_def div_mult2_eq)
qed

lemma net_prefix_network: "net_prefix w q (be_bytes (length b) (net_prefix w q b * 2 ^ (w - q))) = net_prefix w q b"
proof -
  have "net_prefix w q b * 2 ^ (w - q) \<le> be_nat b" by (simp add: net_prefix_def)
  then have "be_nat (be_bytes (length b) (net_prefix w q b * 2 ^ (w - q))) = net_prefix w q b * 2 ^ (w - q)"
    using be_nat_less [of b] by (intro be_nat_be_bytes) linarith
  then show ?thesis by (simp add: net_prefix_def)
qed

lemma net_prefix_nested:
  assumes "p \<le> q" "net_prefix w p a = net_prefix w p m" "net_prefix w q a = net_prefix w q n"
  shows "net_prefix w p (be_bytes (length n) (net_prefix w q n * 2 ^ (w - q))) = net_prefix w p m"
  using net_prefix_shorter [OF assms(1)] net_prefix_network [of w q n] assms(2,3) by metis

lemma cidr_nests: "nets_nest cidr_ops"
  unfolding nets_nest_def
proof (intro allI impI)
  fix m n a
  assume "net_contains cidr_ops m a" "net_contains cidr_ops n a"
  then have c: "cidr_contains m a" "cidr_contains n a" by (simp_all add: cidr_ops_def)
  show "networks_overlap cidr_ops m n"
  proof (cases "prefix_len m \<le> prefix_len n")
    case True
    then show ?thesis using c by (cases m; cases n; cases a) (auto simp: cidr_ops_def intro: net_prefix_nested)
  next
    case False
    then show ?thesis using c by (cases m; cases n; cases a) (auto simp: cidr_ops_def intro: net_prefix_nested)
  qed
qed

definition ex_tun_spec :: tun_server_spec where
  "ex_tun_spec =
     \<lparr>ts_interface_name = None, ts_ipv4_pool = Some ([10, 0, 0, 0], 24), ts_ipv4 = Some [10, 0, 0, 1], ts_ipv6_pool = None, ts_ipv6 = None,
      ts_mtu = 1400,
      ts_allocations =
        [\<lparr>ta_principal_id = [97], ta_ipv4 = Some [10, 0, 0, 2], ta_ipv6 = None, ta_allowed_ips = [NetV4 [192, 168, 1, 0] 24]\<rparr>,
         \<lparr>ta_principal_id = [98], ta_ipv4 = Some [10, 0, 0, 3], ta_ipv6 = None, ta_allowed_ips = []\<rparr>]\<rparr>"

definition ex_tun_authority :: credential_authority where
  "ex_tun_authority = map (\<lambda>p. (p, \<lparr>cr_id = p, cr_principal = p, cr_secret = replicate 32 7, cr_expires_at = None, cr_revoked = False,
     cr_revocation_grace = 0\<rparr>)) [[97], [98]]"

definition ex_tun_plan :: tun_address_plan where
  "ex_tun_plan = projr (compile_plan cidr_ops ex_tun_spec ex_tun_authority)"

lemma ex_tun_compiles: "compile_plan cidr_ops ex_tun_spec ex_tun_authority = Inr ex_tun_plan"
proof -
  have "\<not> isl (compile_plan cidr_ops ex_tun_spec ex_tun_authority)" by code_simp
  then show ?thesis by (simp add: ex_tun_plan_def)
qed

theorem plan_owner_exact_witness:
  "plan_owner cidr_ops ex_tun_plan (IpV4 [192, 168, 1, 77]) = Some [97] \<and> plan_owner cidr_ops ex_tun_plan (IpV4 [10, 0, 0, 1]) = None"
proof -
  note exact = plan_owner_exact [OF ex_tun_compiles cidr_nests]
  have "\<exists>peer. plan_peer ex_tun_plan [97] = Some peer \<and> owns cidr_ops peer (IpV4 [192, 168, 1, 77])"
  proof -
    have "plan_peer ex_tun_plan [97] \<noteq> None \<and> owns cidr_ops (the (plan_peer ex_tun_plan [97])) (IpV4 [192, 168, 1, 77])" by code_simp
    then show ?thesis by auto
  qed
  moreover have "IpV4 [10, 0, 0, 1] \<in> server_address_set ex_tun_spec" by (simp add: server_address_set_def ex_tun_spec_def)
  ultimately show ?thesis using exact by blast
qed

end
