(* ===== verification/Tun_Packets.thy ===== *)
theory Tun_Packets
  imports Tun_Addresses Ip_Packets Replay_Cache "HOL-Library.Multiset"
begin

text \<open>
  The packets of the layer-3 service on the server: the byte budget of a packet queue,
  \<open>src/src/runtime/tun_l3/queue.rs\<close>, the reception of a packet from a peer, and the choice of the peer
  that a packet of the device goes to, both in \<open>src/src/runtime/tun_l3/service.rs\<close>, and the device's
  writer, \<open>src/src/runtime/tun_l3/server.rs\<close>.

  The reception handler is whole, in the three parts that its lock separates. Of the state behind the service's lock it has what the handler
  reads and writes: per principal the identity of the logical tunnel, whether its session is
  retired, the generation of each attached carrier, and the packet identifiers that were seen
  recently. The device's queue holds each packet with its permit. A permit is the number of bytes
  that it holds of the budget's semaphore; a path of the handler that returns without queueing the
  packet drops the permit, which gives the bytes back.
\<close>

section \<open>The queue budget\<close>

definition MINIMUM_IP_PACKET_CHARGE :: usize where
  "MINIMUM_IP_PACKET_CHARGE = 576"

definition SEMAPHORE_MAX_PERMITS :: usize where
  "SEMAPHORE_MAX_PERMITS = u64_max div 8"

record ip_packet_queue_budget =
  qb_permits :: usize
  qb_minimum_charge :: usize

definition budget_new :: "usize \<Rightarrow> ip_packet_queue_budget" where
  "budget_new max_bytes0 =
     (let max_bytes = min (max max_bytes0 1) SEMAPHORE_MAX_PERMITS
      in \<lparr>qb_permits = max_bytes, qb_minimum_charge = min MINIMUM_IP_PACKET_CHARGE max_bytes\<rparr>)"

text \<open>\<open>None\<close> is the error \<open>SenderServiceBlocked\<close>, the only one.\<close>

definition try_reserve :: "usize \<Rightarrow> ip_packet_queue_budget \<Rightarrow> (usize \<times> ip_packet_queue_budget) option" where
  "try_reserve packet_bytes b =
     (let charge = max packet_bytes (qb_minimum_charge b)
      in if fits 32 charge \<and> charge \<le> qb_permits b then Some (charge, b\<lparr>qb_permits := qb_permits b - charge\<rparr>) else None)"

definition release_permit :: "usize \<Rightarrow> ip_packet_queue_budget \<Rightarrow> ip_packet_queue_budget" where
  "release_permit charge b = b\<lparr>qb_permits := qb_permits b + charge\<rparr>"

section \<open>Reception\<close>

record carrier_key =
  ck_session_id :: session_id
  ck_underlay :: underlay_protocol
  ck_path_id :: path_id
  ck_path_instance_id :: u64

record logical_ip_tunnel =
  lt_session_id :: session_id
  lt_session_retired :: bool
  lt_tunnel_id :: ip_tunnel_id
  lt_generation :: u64
  lt_attachments :: "(carrier_key \<times> u64) list"
  lt_received_packet_ids :: "ip_packet_id recent_id_cache"

record ip_tunnel_service =
  is_plan :: tun_address_plan
  is_tunnels :: "(principal_id \<times> logical_ip_tunnel) list"
  is_device_budget :: ip_packet_queue_budget
  is_device_packets :: "(bytes \<times> usize) list"
  is_device_open :: bool

record accepted_ip_tunnel =
  ac_principal :: principal_id
  ac_session_id :: session_id
  ac_tunnel_id :: ip_tunnel_id
  ac_carrier :: carrier_key
  ac_tunnel_generation :: u64
  ac_attachment_generation :: u64
  ac_allocation :: tun_peer_allocation

datatype ip_receive_error = DeviceSinkClosed

text \<open>The accepted tunnel is stale when its logical tunnel, its attachment or its session has been
  replaced since, and the packet is a duplicate when its identifier was seen.\<close>

definition stale_or_duplicate :: "accepted_ip_tunnel \<Rightarrow> ip_packet_id \<Rightarrow> logical_ip_tunnel \<Rightarrow> bool" where
  "stale_or_duplicate ac packet_id tunnel \<longleftrightarrow>
     lt_session_retired tunnel \<or> lt_session_id tunnel \<noteq> ac_session_id ac \<or> lt_tunnel_id tunnel \<noteq> ac_tunnel_id ac
     \<or> lt_generation tunnel \<noteq> ac_tunnel_generation ac
     \<or> map_of (lt_attachments tunnel) (ac_carrier ac) \<noteq> Some (ac_attachment_generation ac)
     \<or> recent_contains packet_id (lt_received_packet_ids tunnel)"

definition drop_permit :: "usize \<Rightarrow> ip_tunnel_service \<Rightarrow> ip_tunnel_service" where
  "drop_permit charge sv = sv\<lparr>is_device_budget := release_permit charge (is_device_budget sv)\<rparr>"

text \<open>The handler checks the packet and reserves its bytes, then records its identifier under the lock of
  the service, and sends it to the device when it has dropped the lock. Other handlers, the device
  and the owners of the tunnels run between the three parts. \<open>None\<close> is the return of \<open>Ok(false)\<close>.\<close>

definition receive_reserve :: "net_ops \<Rightarrow> accepted_ip_tunnel \<Rightarrow> bytes \<Rightarrow> ip_tunnel_service \<Rightarrow> (usize \<times> ip_tunnel_service) option" where
  "receive_reserve net ac payload sv =
     (if length payload > ap_mtu (is_plan sv) then None
      else
        (case parse_ip_packet payload of
           Inl _ \<Rightarrow> None
         | Inr md \<Rightarrow>
             if \<not> owns net (ac_allocation ac) (md_source md) then None
             else
               (case try_reserve (length payload) (is_device_budget sv) of
                  None \<Rightarrow> None
                | Some (charge, budget) \<Rightarrow> Some (charge, sv\<lparr>is_device_budget := budget\<rparr>))))"

definition receive_record :: "accepted_ip_tunnel \<Rightarrow> ip_packet_id \<Rightarrow> ip_tunnel_service \<Rightarrow> ip_tunnel_service option" where
  "receive_record ac packet_id sv =
     (case map_of (is_tunnels sv) (ac_principal ac) of
        None \<Rightarrow> None
      | Some tunnel \<Rightarrow>
          if stale_or_duplicate ac packet_id tunnel then None
          else Some (sv\<lparr>is_tunnels := AList.update (ac_principal ac)
                 (tunnel\<lparr>lt_received_packet_ids := recent_insert packet_id (lt_received_packet_ids tunnel)\<rparr>) (is_tunnels sv)\<rparr>))"

definition receive_enqueue :: "bytes \<Rightarrow> usize \<Rightarrow> ip_tunnel_service \<Rightarrow> (ip_receive_error + bool) \<times> ip_tunnel_service" where
  "receive_enqueue payload charge sv =
     (if is_device_open sv then (Inr True, sv\<lparr>is_device_packets := is_device_packets sv @ [(payload, charge)]\<rparr>)
      else (Inl DeviceSinkClosed, drop_permit charge sv))"

definition receive_ip_packet ::
  "net_ops \<Rightarrow> accepted_ip_tunnel \<Rightarrow> ip_packet_id \<Rightarrow> bytes \<Rightarrow> ip_tunnel_service \<Rightarrow> (ip_receive_error + bool) \<times> ip_tunnel_service" where
  "receive_ip_packet net ac packet_id payload sv =
     (case receive_reserve net ac payload sv of
        None \<Rightarrow> (Inr False, sv)
      | Some (charge, sv1) \<Rightarrow>
          (case receive_record ac packet_id sv1 of
             None \<Rightarrow> (Inr False, drop_permit charge sv1)
           | Some sv2 \<Rightarrow> receive_enqueue payload charge sv2))"

text \<open>The writer of the device takes a packet with its permit from the queue; the permit is dropped when
  the packet is written. A writer that stops drops the queue with all its permits.\<close>

definition device_take :: "ip_tunnel_service \<Rightarrow> ((bytes \<times> usize) \<times> ip_tunnel_service) option" where
  "device_take sv =
     (case is_device_packets sv of
        [] \<Rightarrow> None
      | packet # packets \<Rightarrow> Some (packet, sv\<lparr>is_device_packets := packets\<rparr>))"

definition device_close :: "ip_tunnel_service \<Rightarrow> ip_tunnel_service" where
  "device_close sv = fold drop_permit (map snd (is_device_packets sv)) (sv\<lparr>is_device_open := False, is_device_packets := []\<rparr>)"

section \<open>Dispatch\<close>

text \<open>The guards of \<open>try_send_server_packet\<close>, up to the peer whose carriers are then tried.\<close>

definition packet_recipient :: "net_ops \<Rightarrow> tun_address_plan \<Rightarrow> bytes \<Rightarrow> principal_id option" where
  "packet_recipient net plan payload =
     (if length payload > ap_mtu plan then None
      else (case parse_ip_packet payload of Inl _ \<Rightarrow> None | Inr md \<Rightarrow> plan_owner net plan (md_destination md)))"

section \<open>The service and its device\<close>

text \<open>Peers send packets on tunnels that were accepted with the allocation that the plan has for their
  principal, any number of handlers at once, each before or after its lock. The device's writer has
  at most one packet. Tunnels are opened, replaced, retired and closed by others, in any way. The log
  has the packets that were accepted, each with its sender, and the packets that were written.\<close>

record tun_world =
  tw_service :: ip_tunnel_service
  tw_reserved :: "(accepted_ip_tunnel \<times> ip_packet_id \<times> bytes \<times> usize) multiset"
  tw_recorded :: "(principal_id \<times> bytes \<times> usize) multiset"
  tw_accepted :: "(principal_id \<times> bytes) list"
  tw_writing :: "(bytes \<times> usize) option"
  tw_written :: "bytes list"

definition tun_start :: "tun_address_plan \<Rightarrow> usize \<Rightarrow> tun_world" where
  "tun_start plan max_bytes =
     \<lparr>tw_service = \<lparr>is_plan = plan, is_tunnels = [], is_device_budget = budget_new max_bytes, is_device_packets = [], is_device_open = True\<rparr>,
      tw_reserved = {#}, tw_recorded = {#}, tw_accepted = [], tw_writing = None, tw_written = []\<rparr>"

inductive tun_step :: "net_ops \<Rightarrow> tun_world \<Rightarrow> tun_world \<Rightarrow> bool" for net where
  reserve: "plan_peer (is_plan (tw_service w)) (ac_principal ac) = Some (ac_allocation ac)
     \<Longrightarrow> receive_reserve net ac payload (tw_service w) = Some (charge, sv')
     \<Longrightarrow> tun_step net w (w\<lparr>tw_service := sv', tw_reserved := add_mset (ac, packet_id, payload, charge) (tw_reserved w)\<rparr>)"
| record_id: "tw_reserved w = add_mset (ac, packet_id, payload, charge) others \<Longrightarrow> receive_record ac packet_id (tw_service w) = Some sv'
     \<Longrightarrow> tun_step net w (w\<lparr>tw_service := sv', tw_reserved := others,
           tw_recorded := add_mset (ac_principal ac, payload, charge) (tw_recorded w)\<rparr>)"
| refuse: "tw_reserved w = add_mset (ac, packet_id, payload, charge) others \<Longrightarrow> receive_record ac packet_id (tw_service w) = None
     \<Longrightarrow> tun_step net w (w\<lparr>tw_service := drop_permit charge (tw_service w), tw_reserved := others\<rparr>)"
| enqueue: "tw_recorded w = add_mset (p, payload, charge) others \<Longrightarrow> receive_enqueue payload charge (tw_service w) = (r, sv')
     \<Longrightarrow> tun_step net w (w\<lparr>tw_service := sv', tw_recorded := others,
           tw_accepted := (if r = Inr True then tw_accepted w @ [(p, payload)] else tw_accepted w)\<rparr>)"
| take_packet: "tw_writing w = None \<Longrightarrow> device_take (tw_service w) = Some (packet, sv')
     \<Longrightarrow> tun_step net w (w\<lparr>tw_service := sv', tw_writing := Some packet\<rparr>)"
| written: "tw_writing w = Some (payload, charge)
     \<Longrightarrow> tun_step net w (w\<lparr>tw_service := drop_permit charge (tw_service w), tw_writing := None, tw_written := tw_written w @ [payload]\<rparr>)"
| stopped: "tun_step net w (w\<lparr>tw_service := device_close (case tw_writing w of None \<Rightarrow> tw_service w
       | Some (payload, charge) \<Rightarrow> drop_permit charge (tw_service w)), tw_writing := None\<rparr>)"
| tunnels: "tun_step net w (w\<lparr>tw_service := (tw_service w)\<lparr>is_tunnels := ts\<rparr>\<rparr>)"

text \<open>The packets that hold bytes of the budget: those in a handler, the one that is written and those
  that wait for the writer.\<close>

definition waiting :: "tun_world \<Rightarrow> (bytes \<times> usize) list" where
  "waiting w = (case tw_writing w of None \<Rightarrow> [] | Some packet \<Rightarrow> [packet]) @ is_device_packets (tw_service w)"

definition held_packets :: "tun_world \<Rightarrow> (bytes \<times> usize) multiset" where
  "held_packets w = image_mset (\<lambda>(ac, packet_id, packet). packet) (tw_reserved w) + image_mset snd (tw_recorded w) + mset (waiting w)"

definition held_bytes :: "tun_world \<Rightarrow> nat" where
  "held_bytes w = (\<Sum>(payload, charge) \<in># held_packets w. length payload)"

text \<open>The packets of a peer that passed the checks.\<close>

definition admitted_packets :: "tun_world \<Rightarrow> (principal_id \<times> bytes) set" where
  "admitted_packets w = (\<lambda>(ac, packet_id, payload, charge). (ac_principal ac, payload)) ` set_mset (tw_reserved w)
     \<union> (\<lambda>(p, payload, charge). (p, payload)) ` set_mset (tw_recorded w) \<union> set (tw_accepted w)"

definition sender_owns :: "net_ops \<Rightarrow> tun_address_plan \<Rightarrow> principal_id \<Rightarrow> bytes \<Rightarrow> bool" where
  "sender_owns net plan p payload \<longleftrightarrow> length payload \<le> ap_mtu plan
     \<and> (\<exists>md peer. parse_ip_packet payload = Inr md \<and> plan_peer plan p = Some peer \<and> owns net peer (md_source md))"

definition budget_exact :: "usize \<Rightarrow> tun_world \<Rightarrow> bool" where
  "budget_exact total_bytes w \<longleftrightarrow>
     qb_permits (is_device_budget (tw_service w)) + (\<Sum>(payload, charge) \<in># held_packets w. charge) = total_bytes
     \<and> (\<forall>(payload, charge) \<in># held_packets w. length payload \<le> charge)"

text \<open>The device writes the accepted packets in order, and what is accepted waits for it as long as it
  has not stopped.\<close>

definition in_order :: "tun_world \<Rightarrow> bool" where
  "in_order w \<longleftrightarrow> (if is_device_open (tw_service w) then map snd (tw_accepted w) = tw_written w @ map fst (waiting w)
     else waiting w = [] \<and> (\<exists>lost. map snd (tw_accepted w) = tw_written w @ lost))"

definition tun_ok :: "net_ops \<Rightarrow> tun_address_plan \<Rightarrow> usize \<Rightarrow> tun_world \<Rightarrow> bool" where
  "tun_ok net plan total_bytes w \<longleftrightarrow> is_plan (tw_service w) = plan \<and> budget_exact total_bytes w
     \<and> (\<forall>(p, payload) \<in> admitted_packets w. sender_owns net plan p payload) \<and> in_order w"

lemmas tun_defs = held_packets_def admitted_packets_def in_order_def waiting_def drop_permit_def release_permit_def

section \<open>The invariant\<close>

lemma reserve_effect:
  assumes "receive_reserve net ac payload sv = Some (charge, sv')"
  shows "length payload \<le> ap_mtu (is_plan sv)" "\<exists>md. parse_ip_packet payload = Inr md \<and> owns net (ac_allocation ac) (md_source md)"
    "length payload \<le> charge" "qb_permits (is_device_budget sv) = qb_permits (is_device_budget sv') + charge"
    "is_plan sv' = is_plan sv" "is_device_packets sv' = is_device_packets sv" "is_device_open sv' = is_device_open sv"
  using assms by (auto simp: receive_reserve_def try_reserve_def Let_def split: if_splits sum.splits option.splits)

lemma record_effect:
  assumes "receive_record ac packet_id sv = Some sv'"
  shows "is_plan sv' = is_plan sv" "is_device_packets sv' = is_device_packets sv" "is_device_open sv' = is_device_open sv"
    "is_device_budget sv' = is_device_budget sv"
  using assms by (auto simp: receive_record_def split: option.splits if_splits)

lemma fold_drop_permit:
  "fold drop_permit cs sv = sv\<lparr>is_device_budget := (is_device_budget sv)\<lparr>qb_permits := qb_permits (is_device_budget sv) + sum_list cs\<rparr>\<rparr>"
  by (induction cs arbitrary: sv) (simp_all add: drop_permit_def release_permit_def add.assoc)

lemma sum_charges: "(\<Sum>(payload, charge) \<in># mset xs. charge) = sum_list (map snd xs)"
  by (simp add: sum_mset_sum_list case_prod_unfold flip: mset_map)

lemma budget_exact_add:
  assumes "budget_exact n w" "held_packets w' = add_mset (payload, charge) (held_packets w)" "length payload \<le> charge"
    "qb_permits (is_device_budget (tw_service w)) = qb_permits (is_device_budget (tw_service w')) + charge"
  shows "budget_exact n w'"
  using assms by (simp add: budget_exact_def)

lemma budget_exact_drop:
  assumes "budget_exact n w" "held_packets w = held_packets w' + dropped"
    "qb_permits (is_device_budget (tw_service w')) = qb_permits (is_device_budget (tw_service w)) + (\<Sum>(payload, charge) \<in># dropped. charge)"
  shows "budget_exact n w'"
  using assms by (auto simp: budget_exact_def)

lemma tun_okI:
  assumes "tun_ok net plan n w" "is_plan (tw_service w') = is_plan (tw_service w)" "budget_exact n w'"
    "\<And>p payload. (p, payload) \<in> admitted_packets w' \<Longrightarrow> (p, payload) \<in> admitted_packets w \<or> sender_owns net plan p payload"
    "in_order w \<Longrightarrow> in_order w'"
  shows "tun_ok net plan n w'"
  using assms by (fastforce simp: tun_ok_def)

lemma tun_step_ok:
  assumes "tun_step net w w'" "tun_ok net plan n w"
  shows "tun_ok net plan n w'"
  using assms
proof (induction rule: tun_step.induct)
  case (reserve w ac payload charge sv' packet_id)
  note r = reserve_effect [OF reserve(2)]
  have "budget_exact n w" using reserve(3) by (simp add: tun_ok_def)
  then have b: "budget_exact n (w\<lparr>tw_service := sv', tw_reserved := add_mset (ac, packet_id, payload, charge) (tw_reserved w)\<rparr>)"
    by (rule budget_exact_add [where payload = payload and charge = charge]) (simp_all add: r held_packets_def waiting_def)
  have "sender_owns net plan (ac_principal ac) payload" using reserve(1,3) r(1,2) by (auto simp: sender_owns_def tun_ok_def)
  then show ?case using b r(5-7) by (intro tun_okI [OF reserve(3)]) (auto simp: tun_defs)
next
  case (record_id w ac packet_id payload charge others sv')
  note r = record_effect [OF record_id(2)]
  have "budget_exact n w" using record_id(3) by (simp add: tun_ok_def)
  then have "budget_exact n (w\<lparr>tw_service := sv', tw_reserved := others, tw_recorded := add_mset (ac_principal ac, payload, charge) (tw_recorded w)\<rparr>)"
    by (rule budget_exact_drop [where dropped = "{#}"]) (simp_all add: r record_id(1) held_packets_def waiting_def)
  then show ?case using r record_id(1) by (intro tun_okI [OF record_id(3)]) (auto simp: tun_defs)
next
  case (refuse w ac packet_id payload charge others)
  have "budget_exact n w" using refuse(3) by (simp add: tun_ok_def)
  then have "budget_exact n (w\<lparr>tw_service := drop_permit charge (tw_service w), tw_reserved := others\<rparr>)"
    by (rule budget_exact_drop [where dropped = "{#(payload, charge)#}"]) (simp_all add: refuse(1) tun_defs)
  then show ?case using refuse(1) by (intro tun_okI [OF refuse(3)]) (auto simp: tun_defs)
next
  case (enqueue w p payload charge others r sv')
  let ?w' = "w\<lparr>tw_service := sv', tw_recorded := others, tw_accepted := if r = Inr True then tw_accepted w @ [(p, payload)] else tw_accepted w\<rparr>"
  have "budget_exact n w" using enqueue(3) by (simp add: tun_ok_def)
  then have "budget_exact n ?w'"
    by (rule budget_exact_drop [where dropped = "if is_device_open (tw_service w) then {#} else {#(payload, charge)#}"])
      (use enqueue(1,2) in \<open>auto simp: receive_enqueue_def tun_defs split: if_splits\<close>)
  then show ?case using enqueue(1,2) by (intro tun_okI [OF enqueue(3)]) (auto simp: receive_enqueue_def tun_defs split: if_splits)
next
  case (take_packet w packet sv')
  have t: "is_device_packets (tw_service w) = packet # is_device_packets sv'" "is_plan sv' = is_plan (tw_service w)"
      "is_device_open sv' = is_device_open (tw_service w)" "is_device_budget sv' = is_device_budget (tw_service w)"
    using take_packet(2) by (auto simp: device_take_def split: list.splits)
  have "budget_exact n w" using take_packet(3) by (simp add: tun_ok_def)
  then have "budget_exact n (w\<lparr>tw_service := sv', tw_writing := Some packet\<rparr>)"
    by (rule budget_exact_drop [where dropped = "{#}"]) (simp_all add: t take_packet(1) tun_defs)
  then show ?case using t take_packet(1) by (intro tun_okI [OF take_packet(3)]) (auto simp: tun_defs split: if_splits)
next
  case (written w payload charge)
  have "budget_exact n w" using written(2) by (simp add: tun_ok_def)
  then have "budget_exact n (w\<lparr>tw_service := drop_permit charge (tw_service w), tw_writing := None, tw_written := tw_written w @ [payload]\<rparr>)"
    by (rule budget_exact_drop [where dropped = "{#(payload, charge)#}"]) (simp_all add: written(1) tun_defs)
  then show ?case using written(1) by (intro tun_okI [OF written(2)]) (auto simp: tun_defs split: if_splits)
next
  case (stopped w)
  let ?w' = "w\<lparr>tw_service := device_close (case tw_writing w of None \<Rightarrow> tw_service w
      | Some (payload, charge) \<Rightarrow> drop_permit charge (tw_service w)), tw_writing := None\<rparr>"
  have "budget_exact n w" using stopped by (simp add: tun_ok_def)
  then have "budget_exact n ?w'"
    by (rule budget_exact_drop [where dropped = "mset (waiting w)"])
      (auto simp: device_close_def fold_drop_permit sum_charges tun_defs split: option.splits)
  then show ?case
    by (intro tun_okI [OF stopped]) (auto simp: device_close_def fold_drop_permit tun_defs split: option.splits if_splits)
next
  case (tunnels w ts)
  then have "budget_exact n (w\<lparr>tw_service := (tw_service w)\<lparr>is_tunnels := ts\<rparr>\<rparr>)"
    by (auto simp: tun_ok_def budget_exact_def tun_defs)
  then show ?case by (intro tun_okI [OF tunnels]) (auto simp: tun_defs)
qed

lemma tun_reach_ok: "rtranclp (tun_step net) w w' \<Longrightarrow> tun_ok net plan n w \<Longrightarrow> tun_ok net plan n w'"
  by (induction rule: rtranclp_induct) (blast intro: tun_step_ok)+

lemma tun_start_ok: "tun_ok net plan (min (max max_bytes 1) SEMAPHORE_MAX_PERMITS) (tun_start plan max_bytes)"
  by (simp add: tun_ok_def tun_start_def budget_exact_def budget_new_def Let_def tun_defs)

lemma held_within_budget:
  assumes "budget_exact n w"
  shows "held_bytes w \<le> n"
proof -
  have "(\<Sum>(payload, charge) \<in># M. length payload) \<le> (\<Sum>(payload, charge) \<in># M. charge)"
    if "\<forall>(payload, charge) \<in># M. length payload \<le> charge" for M :: "(bytes \<times> usize) multiset"
    using that by (induction M) (auto intro: add_mono)
  then show ?thesis using assms by (force simp: budget_exact_def held_bytes_def)
qed

lemma tun_steps:
  "tun_step net a b \<Longrightarrow> tun_step net b c \<Longrightarrow> rtranclp (tun_step net) a c"
  "rtranclp (tun_step net) a b \<Longrightarrow> tun_step net b c \<Longrightarrow> rtranclp (tun_step net) a c"
  by (simp_all add: rtranclp.rtrancl_into_rtrancl r_into_rtranclp)

text \<open>A handler that nothing interrupts is three steps of the service, or fewer when it refuses.\<close>

lemma receive_runs:
  assumes "plan_peer (is_plan (tw_service w)) (ac_principal ac) = Some (ac_allocation ac)"
    and "receive_ip_packet net ac packet_id payload (tw_service w) = (r, sv')"
  shows "rtranclp (tun_step net) w
    (w\<lparr>tw_service := sv', tw_accepted := (if r = Inr True then tw_accepted w @ [(ac_principal ac, payload)] else tw_accepted w)\<rparr>)"
proof (cases "receive_reserve net ac payload (tw_service w)")
  case None
  then show ?thesis using assms(2) by (auto simp: receive_ip_packet_def)
next
  case (Some a)
  then obtain charge sv1 where r: "receive_reserve net ac payload (tw_service w) = Some (charge, sv1)" by (cases a) simp
  let ?w1 = "w\<lparr>tw_service := sv1, tw_reserved := add_mset (ac, packet_id, payload, charge) (tw_reserved w)\<rparr>"
  have s1: "tun_step net w ?w1" by (rule tun_step.reserve [OF assms(1) r])
  show ?thesis
  proof (cases "receive_record ac packet_id sv1")
    case None
    have "tun_step net ?w1 (w\<lparr>tw_service := drop_permit charge sv1\<rparr>)"
      using tun_step.refuse [of ?w1 ac packet_id payload charge "tw_reserved w" net] None by simp
    then have "rtranclp (tun_step net) w (w\<lparr>tw_service := drop_permit charge sv1\<rparr>)" by (rule tun_steps(1) [OF s1])
    moreover have "r = Inr False" "sv' = drop_permit charge sv1" using assms(2) r None by (simp_all add: receive_ip_packet_def)
    ultimately show ?thesis by simp
  next
    case (Some sv2)
    let ?w2 = "w\<lparr>tw_service := sv2, tw_recorded := add_mset (ac_principal ac, payload, charge) (tw_recorded w)\<rparr>"
    have e: "receive_enqueue payload charge sv2 = (r, sv')" using assms(2) r Some by (simp add: receive_ip_packet_def)
    have s2: "tun_step net ?w1 ?w2"
      using tun_step.record_id [of ?w1 ac packet_id payload charge "tw_reserved w" sv2 net] Some by simp
    have s3: "tun_step net ?w2 (w\<lparr>tw_service := sv', tw_accepted := (if r = Inr True then tw_accepted w @ [(ac_principal ac, payload)] else tw_accepted w)\<rparr>)"
      using tun_step.enqueue [of ?w2 "ac_principal ac" payload charge "tw_recorded w" r sv' net] e by (auto split: if_splits)
    show ?thesis by (rule tun_steps(2) [OF tun_steps(1) [OF s1 s2] s3])
  qed
qed

section \<open>Properties\<close>

text \<open>C15. A peer cannot send from an address that it does not own, and answers come back to it: whatever
  peers send, over whatever tunnels they have and however their handlers interleave, every packet
  that the server accepts for its device has a source address whose owner in the plan is the sender,
  so that a packet sent to that address is dispatched to this same peer. The device writes the
  accepted packets in the order of their acceptance, all others wait for it as long as it runs, and
  the packets that are being received, that wait and that is being written hold no more bytes than
  the configured queue.\<close>

theorem tun_packets_authentic:
  assumes "compile_plan net spec authority = Inr plan" and "nets_nest net"
    and "rtranclp (tun_step net) (tun_start plan max_bytes) w"
  shows "((p, payload) \<in> set (tw_accepted w) \<longrightarrow> (\<exists>md. parse_ip_packet payload = Inr md \<and> plan_owner net plan (md_source md) = Some p
        \<and> (\<forall>reply md'. parse_ip_packet reply = Inr md' \<and> md_destination md' = md_source md \<and> length reply \<le> ap_mtu plan
             \<longrightarrow> packet_recipient net plan reply = Some p)))
    \<and> (\<exists>later. map snd (tw_accepted w) = tw_written w @ later \<and> (is_device_open (tw_service w) \<longrightarrow> later = map fst (waiting w)))
    \<and> held_bytes w \<le> max max_bytes 1"
proof -
  have ok: "tun_ok net plan (min (max max_bytes 1) SEMAPHORE_MAX_PERMITS) w" by (rule tun_reach_ok [OF assms(3) tun_start_ok])
  then have "held_bytes w \<le> min (max max_bytes 1) SEMAPHORE_MAX_PERMITS" by (intro held_within_budget) (simp add: tun_ok_def)
  then have q: "held_bytes w \<le> max max_bytes 1" by simp
  have "\<exists>md. parse_ip_packet payload = Inr md \<and> plan_owner net plan (md_source md) = Some p
        \<and> (\<forall>reply md'. parse_ip_packet reply = Inr md' \<and> md_destination md' = md_source md \<and> length reply \<le> ap_mtu plan
             \<longrightarrow> packet_recipient net plan reply = Some p)" if "(p, payload) \<in> set (tw_accepted w)"
  proof -
    have own: "sender_owns net plan p payload" using ok that by (auto simp: tun_ok_def admitted_packets_def)
    obtain md peer where md: "parse_ip_packet payload = Inr md" "plan_peer plan p = Some peer" "owns net peer (md_source md)"
      using own by (auto simp: sender_owns_def)
    then have "plan_owner net plan (md_source md) = Some p" using plan_ok_owner [OF compile_plan_ok [OF assms(1,2)]] by blast
    then show ?thesis using md(1) by (intro exI [of _ md]) (auto simp: packet_recipient_def)
  qed
  moreover have "\<exists>later. map snd (tw_accepted w) = tw_written w @ later \<and> (is_device_open (tw_service w) \<longrightarrow> later = map fst (waiting w))"
    using ok by (auto simp: tun_ok_def in_order_def split: if_splits)
  ultimately show ?thesis using q by blast
qed

text \<open>The first peer sends a UDP packet from its routed prefix.\<close>

definition ex_ip_packet :: bytes where
  "ex_ip_packet = [0x45, 0, 0, 28, 0, 0, 0, 0, 64, 17, 0, 0, 192, 168, 1, 77, 10, 0, 0, 3, 15, 160, 0, 53, 0, 8, 0, 0]"

definition ex_carrier :: carrier_key where
  "ex_carrier = \<lparr>ck_session_id = 1, ck_underlay = Tcp, ck_path_id = 0, ck_path_instance_id = 3\<rparr>"

definition ex_accepted :: accepted_ip_tunnel where
  "ex_accepted = \<lparr>ac_principal = [97], ac_session_id = 1, ac_tunnel_id = 2, ac_carrier = ex_carrier, ac_tunnel_generation = 1,
     ac_attachment_generation = 1, ac_allocation = the (plan_peer ex_tun_plan [97])\<rparr>"

definition ex_service :: ip_tunnel_service where
  "ex_service = \<lparr>is_plan = ex_tun_plan, is_tunnels = [([97],
       \<lparr>lt_session_id = 1, lt_session_retired = False, lt_tunnel_id = 2, lt_generation = 1, lt_attachments = [(ex_carrier, 1)],
        lt_received_packet_ids = recent_new 16\<rparr>)],
     is_device_budget = budget_new 65536, is_device_packets = [], is_device_open = True\<rparr>"

definition ex_served :: tun_world where
  "ex_served = (tun_start ex_tun_plan 65536)\<lparr>tw_service := snd (receive_ip_packet cidr_ops ex_accepted 5 ex_ip_packet ex_service),
     tw_accepted := [([97], ex_ip_packet)]\<rparr>"

lemma ex_tun_reach: "rtranclp (tun_step cidr_ops) (tun_start ex_tun_plan 65536) ex_served"
proof -
  let ?w = "(tun_start ex_tun_plan 65536)\<lparr>tw_service := ex_service\<rparr>"
  have s1: "tun_step cidr_ops (tun_start ex_tun_plan 65536) ?w"
    using tun_step.tunnels [of cidr_ops "tun_start ex_tun_plan 65536" "is_tunnels ex_service"] by (simp add: tun_start_def ex_service_def)
  have "plan_peer ex_tun_plan [97] \<noteq> None" by code_simp
  then have p: "plan_peer (is_plan (tw_service ?w)) (ac_principal ex_accepted) = Some (ac_allocation ex_accepted)"
    by (auto simp: ex_service_def ex_accepted_def)
  have "fst (receive_ip_packet cidr_ops ex_accepted 5 ex_ip_packet ex_service) = Inr True" by code_simp
  then have r: "receive_ip_packet cidr_ops ex_accepted 5 ex_ip_packet (tw_service ?w) = (Inr True, tw_service ex_served)"
    by (simp add: ex_served_def prod_eq_iff)
  have "tw_accepted ?w = []" "ac_principal ex_accepted = [97]" by (simp_all add: tun_start_def ex_accepted_def)
  then have "rtranclp (tun_step cidr_ops) ?w ex_served" using receive_runs [OF p r] by (simp add: ex_served_def)
  with s1 show ?thesis by (rule converse_rtranclp_into_rtranclp)
qed

theorem tun_packets_authentic_witness:
  "(\<exists>md. parse_ip_packet ex_ip_packet = Inr md \<and> plan_owner cidr_ops ex_tun_plan (md_source md) = Some [97]) \<and> held_bytes ex_served \<le> 65536"
proof -
  have "([97], ex_ip_packet) \<in> set (tw_accepted ex_served)" by (simp add: ex_served_def)
  then show ?thesis using tun_packets_authentic [OF ex_tun_compiles cidr_nests ex_tun_reach, of "[97]" ex_ip_packet] by auto
qed

end
