(* ===== verification/Spec2Isabelle.thy ===== *)
theory Spec2Isabelle
  imports Offset_Ranges Path_Capacity Stream_Network Codec_Correct Path_Auth_Correct Datagram_Delivery
    Product_Admission Packet_Flows_Correct Tun_Packets
begin

text \<open>
  A verification library for mptunnel, a multipath tunnel that carries reliable streams, datagrams
  and IP packets of one session over several TCP and QUIC paths.

  \<^bold>\<open>The program.\<close> A client and a server exchange frames over their paths. Every path is admitted by a
  pair of authenticated flights. A reliable stream is split into offset-addressed data frames that may
  travel on any path; the receiver reassembles, acknowledges ranges and grants window, and the
  sender keeps what is not acknowledged and retransmits it. Datagram flows carry requests and
  responses that expire, and suppress duplicates by identifier. The layer-3 service carries IP packets
  between peers that own inner addresses. Limits bound every queue, cache and table. Below, paths of
  files are under \<open>src/src\<close>.

  \<^bold>\<open>Representation.\<close> A \<open>u8\<close> is an \<open>8 word\<close>; wider integers are natural numbers with each operation that can
  leave the range written out (theory \<open>Prelude\<close>). A \<open>Result\<close> is a sum with the error on the left, a
  method that mutates returns its result and the new state, on error paths too. A \<open>BTreeMap\<close> is an
  ascending association list (theory \<open>Btree_Map\<close>), a \<open>HashMap\<close> an association list or a mapping. Clock
  readings, nonces, outcomes of sends and arriving frames are arguments. Cryptographic functions and the
  crate \<open>ipnet\<close> are parameters; what a theorem needs of them is a hypothesis that its witness
  discharges for a concrete instance.

  \<^bold>\<open>Wire format.\<close> \<open>Wire_Types\<close> has the frames of \<open>protocol/types.rs\<close>. \<open>Codec_Reader\<close>, \<open>Codec_Fields\<close> and
  \<open>Codec_Frame\<close> are \<open>protocol/codec.rs\<close>: the bounded reader, every field, and frames, single and in
  batches. \<open>Codec_Contract\<close> has the locale \<open>byte_codec\<close>, the contract between an encoder and its decoder:
  what is written is read back, what is accepted is well formed, a prefix is refused. It is interpreted
  for every field (\<open>Codec_Field_Laws\<close>); \<open>Codec_Frame_Laws\<close> and \<open>Codec_Local\<close> lift it to frames, and
  \<open>Codec_Correct\<close> has the round trips, canonicity of what is accepted, refusal of every wrong length,
  agreement of the scatter encoder and of batch decoding, and the limit of a status response.

  \<^bold>\<open>Ranges and limits.\<close> \<open>Offset_Ranges\<close> is \<open>protocol/frame.rs\<close> and the interval functions of
  \<open>model/work.rs\<close>: normalization, difference, and the partition of flights by acknowledgements.
  \<open>Path_Capacity\<close> is the tracker of \<open>protocol/path_capacity.rs\<close>. \<open>Resource_Limits\<close> is \<open>performance.rs\<close> with the
  conversions to the codec's and the multiplexer's limits.

  \<^bold>\<open>Reliable streams.\<close> \<open>Range_Set\<close>, \<open>Chunk_Store\<close>, \<open>Recv_Stream\<close> and \<open>Send_Stream\<close> are \<open>mux/stream.rs\<close>, one record per
  struct and one function per method. \<open>Range_Set\<close> has the locale \<open>interval_store\<close>, which the receive side
  relies on. \<open>Recv_Correct\<close> shows that accepted data is delivered in order and exactly, that a refusal
  changes nothing, that the ceilings hold, and that acknowledgements are true. \<open>Send_Cache\<close>, \<open>Send_Correct\<close>,
  \<open>Send_Retransmit\<close> and \<open>Send_Recover\<close> show what sending, acknowledging and rolling back do to the cache, and
  that every retransmission routine emits exactly the first bytes of what it was asked for.
  \<open>Stream_Network\<close> joins both ends by a network that loses, repeats, delays and reorders: a step relation
  whose invariant gives reliability. A second relation has the steps of a recovery only: retransmission,
  reception and acknowledgement. From every reachable state, after the loss of every frame in flight,
  a recovery can deliver everything and empty the cache. Its hypothesis \<open>has_room\<close> is that the range
  ceiling of the receiver leaves room for the first missing byte.

  \<^bold>\<open>Admission of paths.\<close> \<open>Auth_Tags\<close> is \<open>protocol/auth.rs\<close>, \<open>Replay_Cache\<close> is \<open>runtime/recent_ids.rs\<close>, \<open>Credentials\<close> is
  \<open>product/identity.rs\<close>, \<open>Path_Auth\<close> the flights and admissions of \<open>runtime/path/authentication.rs\<close> and
  \<open>runtime/path/tcp/admission.rs\<close>, up to the first status of the path. Tags bind their whole request; the replay cache refines a map from identities
  to expiry times; a path is admitted only if a known and active secret authenticated it, fresh and
  not replayed, and an honest client is admitted (\<open>Path_Auth_Correct\<close>).

  \<^bold>\<open>Datagrams.\<close> \<open>Datagrams\<close> is \<open>mux/datagram.rs\<close> and \<open>model/datagram.rs\<close>, \<open>Datagram_Server\<close> the flow worker of
  \<open>runtime/datagram/server.rs\<close> as a step relation, \<open>Datagram_Delivery\<close> its composition with the client's
  receive window of \<open>runtime/datagram/association.rs\<close>: every response is delivered at most once, unchanged.

  \<^bold>\<open>Product admission.\<close> \<open>Product_Admission\<close> is \<open>product/admission.rs\<close>: the counters and the permits whose
  destructors return what was counted. \<open>Counter_Maps\<close> has the locale \<open>counter_map\<close> of a map that counts a
  multiset, interpreted here and for the packet flow table. The counters are exact over every order
  of operations, so limits hold and nothing leaks.

  \<^bold>\<open>Layer 3.\<close> \<open>Ip_Packets\<close> is \<open>model/tun_l3.rs\<close>, a parser and the grammar that it accepts,
  which gives addresses and flow keys in terms of the headers' fields. \<open>Packet_Flows\<close> is
  \<open>runtime/tun_l3/flow.rs\<close>; its loop is \<open>while_option\<close>, and \<open>Packet_Flows_Correct\<close> shows that it ends and that the
  lazily maintained counters agree with a fresh count. It assumes that clock readings do not go back
  and lie in the first half of the clock's range, and capacities below \<open>2 ^ 32 - 1\<close>, the range of the
  counters. \<open>Tun_Addresses\<close> is \<open>product/tun_l3.rs\<close>, the compiled ownership of addresses. \<open>Tun_Packets\<close> is the reception
  of packets in \<open>runtime/tun_l3/service.rs\<close> with the byte budget of \<open>runtime/tun_l3/queue.rs\<close> and the device's
  writer of \<open>runtime/tun_l3/server.rs\<close>, as a step relation in which handlers interleave where they hold no lock: a
  peer can only send from addresses whose owner it is.

  \<^bold>\<open>Not modelled.\<close> The asynchronous actors of \<open>runtime\<close> (path senders and writers, relays, registries, health,
  telemetry, management, webhooks) are tasks over channels, sockets and timers whose behaviour is the
  interleaving that the executor gives them; of these the library models the handlers named above,
  cut into steps where they give up a lock. Most estimators of \<open>model\<close> and the scoring of
  \<open>scheduler\<close> compute with floating-point rates; the integer ones are not yet modelled. \<open>transport\<close> and
  \<open>platform\<close> are sockets, TLS, QUIC and host networking.
  \<open>config\<close>, \<open>cli\<close>, \<open>app\<close>, \<open>dns\<close>, \<open>ingress\<close>, \<open>outbound\<close>, \<open>webhook\<close>, \<open>operations\<close>, \<open>update\<close> and \<open>android\<close> adapt files,
  processes and foreign protocols. The routing, gateway, DNS and access rules of \<open>product\<close> are pure and not
  yet modelled. The crates under \<open>src/crates\<close> are vendored copies of other projects. Texts of errors,
  \<open>Debug\<close> output and accessors are left out throughout.
\<close>

section \<open>Limits that span components\<close>

text \<open>
  Validation keeps the payload ceiling 16 bytes below the frame ceiling, but a data frame has 30 bytes
  around its payload. Limits that validate can therefore admit a payload that no frame can carry:
  with the smallest frame ceiling, a payload of the admitted 48 bytes makes a frame of 78.
\<close>

definition tight_limits :: resource_limits where
  "tight_limits = default_resource_limits\<lparr>rl_max_frame_bytes := 64, rl_max_payload_bytes := 48, rl_max_reliable_relay_chunk_bytes := 48\<rparr>"

lemma payload_ceiling_exceeds_frame:
  "resource_limits_validate tight_limits = Inr ()"
  "encode_frame (StreamData 7 0 (replicate 48 0)) (codec_limits_from tight_limits) = Inl (FrameTooLarge 78 64)"
  by code_simp+

end
